(* ===== verification/FPT_Prelude.thy ===== *)
theory FPT_Prelude
  imports Main "HOL-Library.Word" "HOL-Library.Monad_Syntax"
begin

text \<open>
  Shared material of the FPTree development.

  The C++ code is modelled in the option monad: a function of the program returns
  \<open>Some\<close> result where the C++ run is defined and \<open>None\<close> where it has no defined result
  (an array access out of bounds, a null or dangling pointer, a read of an indeterminate
  value, \<open>exit\<close>, or a recursion that never returns). The theory holds the C arrays
  (\<open>aget\<close>, \<open>aset\<close>, \<open>rd\<close>, \<open>wr\<close>), the counting loops (\<open>for_up\<close>, \<open>for_down\<close>) with
  their rules, and what the loops that move array elements compute, in append form.
\<close>

unbundle bit_operations_syntax

type_synonym u8 = "8 word"
type_synonym u32 = "32 word"
type_synonym u64 = "64 word"
type_synonym u128 = "128 word"

text \<open>Addresses of C++ objects; the null pointer is \<open>0\<close>.\<close>

type_synonym addr = nat

abbreviation (input) NULL :: addr where "NULL \<equiv> 0"

named_theorems arr_simps \<open>closed forms of array accesses and of the loops that move elements\<close>
named_theorems fp_consts \<open>the constants of utility.h\<close>

section \<open>C arrays\<close>

text \<open>
  An array made by \<open>new T[n]\<close> has indeterminate elements until they are written: its
  elements are options, \<open>None\<close> standing for an indeterminate value. \<open>aget\<close> and \<open>aset\<close>
  fail out of bounds, and \<open>aget\<close> fails on an indeterminate element.
\<close>

definition aget :: "'a option list \<Rightarrow> int \<Rightarrow> 'a option" where
  "aget xs i = (if 0 \<le> i \<and> i < int (length xs) then xs ! nat i else None)"

definition aset :: "'a option list \<Rightarrow> int \<Rightarrow> 'a \<Rightarrow> 'a option list option" where
  "aset xs i v = (if 0 \<le> i \<and> i < int (length xs) then Some (xs[nat i := Some v]) else None)"

text \<open>Memory that is always initialised (mapped files): plain lists.\<close>

definition rd :: "'a list \<Rightarrow> int \<Rightarrow> 'a option" where
  "rd xs i = (if 0 \<le> i \<and> i < int (length xs) then Some (xs ! nat i) else None)"

definition wr :: "'a list \<Rightarrow> int \<Rightarrow> 'a \<Rightarrow> 'a list option" where
  "wr xs i v = (if 0 \<le> i \<and> i < int (length xs) then Some (xs[nat i := v]) else None)"

section \<open>Counting loops\<close>

text \<open>
  \<open>for_up i n f s\<close> is \<open>for (; i < n; i++) s = f(i, s)\<close>, and \<open>for_down i n f s\<close> is
  \<open>for (; i > n; i--) s = f(i, s)\<close>; a body without a defined result ends the loop
  without one.
\<close>

function for_up :: "int \<Rightarrow> int \<Rightarrow> (int \<Rightarrow> 's \<Rightarrow> 's option) \<Rightarrow> 's \<Rightarrow> 's option" where
  "for_up i n f s =
     (if i < n then (case f i s of None \<Rightarrow> None | Some s' \<Rightarrow> for_up (i + 1) n f s') else Some s)"
  by pat_completeness auto
termination
  by (relation "measure (\<lambda>(i, n, f, s). nat (n - i))") auto

function for_down :: "int \<Rightarrow> int \<Rightarrow> (int \<Rightarrow> 's \<Rightarrow> 's option) \<Rightarrow> 's \<Rightarrow> 's option" where
  "for_down i n f s =
     (if n < i then (case f i s of None \<Rightarrow> None | Some s' \<Rightarrow> for_down (i - 1) n f s') else Some s)"
  by pat_completeness auto
termination
  by (relation "measure (\<lambda>(i, n, f, s). nat (i - n))") auto

text \<open>\<open>find_up i n p\<close> is \<open>for (; i < n; i++) if (p(i)) break;\<close> followed by reading \<open>i\<close>.\<close>

function find_up :: "int \<Rightarrow> int \<Rightarrow> (int \<Rightarrow> bool option) \<Rightarrow> int option" where
  "find_up i n p =
     (if i < n then (case p i of None \<Rightarrow> None
        | Some b \<Rightarrow> if b then Some i else find_up (i + 1) n p) else Some i)"
  by pat_completeness auto
termination
  by (relation "measure (\<lambda>(i, n, p). nat (n - i))") auto

declare for_up.simps [simp del] for_down.simps [simp del] find_up.simps [simp del]

lemma for_up_done [simp]: "n \<le> i \<Longrightarrow> for_up i n f s = Some s"
  by (simp add: for_up.simps)

lemma for_up_step: "i < n \<Longrightarrow> for_up i n f s = Option.bind (f i s) (for_up (i + 1) n f)"
  by (simp add: for_up.simps [of i n f s] split: option.split)

lemma for_down_done [simp]: "i \<le> n \<Longrightarrow> for_down i n f s = Some s"
  by (simp add: for_down.simps)

lemma for_down_step: "n < i \<Longrightarrow> for_down i n f s = Option.bind (f i s) (for_down (i - 1) n f)"
  by (simp add: for_down.simps [of i n f s] split: option.split)

lemma for_up_rule:
  assumes "i \<le> n" and "P i s"
    and "\<And>j s. \<lbrakk>i \<le> j; j < n; P j s\<rbrakk> \<Longrightarrow> \<exists>s'. f j s = Some s' \<and> P (j + 1) s'"
  shows "\<exists>s'. for_up i n f s = Some s' \<and> P n s'"
  using assms
proof (induction "nat (n - i)" arbitrary: i s)
  case 0
  then show ?case by simp
next
  case (Suc m)
  then have "i < n" by linarith
  with Suc.prems(2,3) obtain s1 where s1: "f i s = Some s1" "P (i + 1) s1"
    by blast
  have "\<exists>s'. for_up (i + 1) n f s1 = Some s' \<and> P n s'"
    by (rule Suc.hyps(1)) (use Suc s1 \<open>i < n\<close> in auto)
  with s1 \<open>i < n\<close> show ?case
    by (simp add: for_up_step)
qed

lemma find_up_spec:
  assumes "i \<le> n" and "\<And>j. i \<le> j \<Longrightarrow> j < n \<Longrightarrow> p j = Some (q j)"
  obtains r where "find_up i n p = Some r" "i \<le> r" "r \<le> n"
    "\<And>j. i \<le> j \<Longrightarrow> j < r \<Longrightarrow> \<not> q j" "r < n \<Longrightarrow> q r"
  using assms
proof (induction "nat (n - i)" arbitrary: i thesis)
  case 0
  show ?case by (rule 0(2) [of i]) (use 0 in \<open>auto simp: find_up.simps\<close>)
next
  case (Suc m)
  then have lt: "i < n" by linarith
  show ?case
  proof (cases "q i")
    case True
    show ?thesis
      by (rule Suc.prems(1) [of i]) (use True lt Suc.prems in \<open>auto simp: find_up.simps\<close>)
  next
    case False
    obtain r where r: "find_up (i + 1) n p = Some r" "i + 1 \<le> r" "r \<le> n"
      "\<And>j. i + 1 \<le> j \<Longrightarrow> j < r \<Longrightarrow> \<not> q j" "r < n \<Longrightarrow> q r"
      by (rule Suc.hyps(1) [of "i + 1"]) (use Suc lt in auto)
    have "\<not> q j" if "i \<le> j" "j < r" for j
      using that r(4) [of j] False by (cases "j = i") auto
    moreover have "find_up i n p = Some r"
      using r(1) False lt Suc.prems(3) [of i] by (simp add: find_up.simps [of i])
    ultimately show ?thesis
      using Suc.prems(1) r by simp
  qed
qed

section \<open>Array accesses in append form\<close>

lemma aget_append_mid [arr_simps]: "i = int (length xs) \<Longrightarrow> aget (xs @ y # zs) i = y"
  by (simp add: aget_def)

lemma aset_append_mid [arr_simps]:
  "i = int (length xs) \<Longrightarrow> aset (xs @ y # zs) i v = Some (xs @ Some v # zs)"
  by (simp add: aset_def)

lemma aset_append_right:
  "i = int (length xs + j) \<Longrightarrow> j < length ys \<Longrightarrow>
    aset (xs @ ys) i v = Some (xs @ ys[j := Some v])"
  by (simp add: aset_def list_update_append nat_int_add)

lemma aget_map_Some [arr_simps]:
  "0 \<le> i \<Longrightarrow> i < int (length ks) \<Longrightarrow> aget (map Some ks @ zs) i = Some (ks ! nat i)"
  by (simp add: aget_def nth_append nat_less_iff)

lemma rd_Some [arr_simps]: "0 \<le> i \<Longrightarrow> i < int (length xs) \<Longrightarrow> rd xs i = Some (xs ! nat i)"
  by (simp add: rd_def)

lemma wr_Some [arr_simps]: "0 \<le> i \<Longrightarrow> i < int (length xs) \<Longrightarrow> wr xs i v = Some (xs[nat i := v])"
  by (simp add: wr_def)

section \<open>Loops that move elements\<close>

text \<open>
  Copying \<open>src[i + c]\<close> to \<open>dst[i + d]\<close> for \<open>lo \<le> i < hi\<close>, where the two arrays are
  different objects.
\<close>

lemma copy_loop:
  assumes "src = spre @ map Some ks @ spost" and "lo + c = int (length spre)"
    and "lo + d = int (length pre)" and "hi = lo + int (length ks)" and "length old = length ks"
  shows "for_up lo hi (\<lambda>i a. Option.bind (aget src (i + c)) (aset a (i + d))) (pre @ old @ post)
    = Some (pre @ map Some ks @ post)"
  using assms
proof (induction ks arbitrary: lo pre spre old)
  case Nil
  then show ?case by simp
next
  case (Cons k ks)
  then obtain y ys where old: "old = y # ys" and ys: "length ys = length ks"
    by (cases old) auto
  have "for_up (lo + 1) hi (\<lambda>i a. Option.bind (aget src (i + c)) (aset a (i + d)))
      ((pre @ [Some k]) @ ys @ post) = Some ((pre @ [Some k]) @ map Some ks @ post)"
    by (rule Cons.IH [where spre = "spre @ [Some k]"]) (use Cons.prems ys in auto)
  moreover have "aget src (lo + c) = Some k"
    using Cons.prems by (simp add: arr_simps)
  ultimately show ?case
    using Cons.prems old by (simp add: for_up_step arr_simps)
qed

text \<open>Moving a block of one array \<open>m\<close> places to the right, last element first.\<close>

lemma shift_right_loop:
  assumes "lo + c = int (length pre) - 1" and "hi = lo + int (length ks)"
    and "d = c + int m" and "m \<le> length zs"
  shows "for_down hi lo (\<lambda>i a. Option.bind (aget a (i + c)) (aset a (i + d)))
      (pre @ map Some ks @ zs)
    = Some (pre @ take m (map Some ks @ zs) @ map Some ks @ drop m zs)"
  using assms
proof (induction ks arbitrary: hi zs rule: rev_induct)
  case Nil
  then show ?case by simp
next
  case (snoc k ks)
  define zs' where "zs' = (Some k # zs)[m := Some k]"
  have len: "length zs' = Suc (length zs)"
    unfolding zs'_def by (metis length_list_update length_Cons)
  have get: "aget (pre @ map Some (ks @ [k]) @ zs) (hi + c) = Some k"
    using snoc.prems aget_append_mid [of "hi + c" "pre @ map Some ks" "Some k" zs] by simp
  have set: "aset (pre @ map Some (ks @ [k]) @ zs) (hi + d) k = Some (pre @ map Some ks @ zs')"
    using snoc.prems aset_append_right [of "hi + d" "pre @ map Some ks" m "Some k # zs" k]
    by (simp add: zs'_def)
  have ih: "for_down (hi - 1) lo (\<lambda>i a. Option.bind (aget a (i + c)) (aset a (i + d)))
      (pre @ map Some ks @ zs')
    = Some (pre @ take m (map Some ks @ zs') @ map Some ks @ drop m zs')"
    by (rule snoc.IH) (use snoc.prems len in auto)
  have tk: "take m (map Some ks @ zs') = take m (map Some ks @ Some k # zs)"
    unfolding zs'_def by (simp only: take_append length_map take_update_cancel diff_le_self)
  have dr: "drop m zs' = Some k # drop m zs"
    unfolding zs'_def using snoc.prems(4)
    by (metis Cons_nth_drop_Suc drop_Suc_Cons drop_update_cancel le_imp_less_Suc length_Cons
        length_list_update lessI nth_list_update_eq)
  have "lo < hi" using snoc.prems(2) by simp
  with get set ih tk dr show ?case
    by (simp add: for_down_step)
qed

text \<open>Moving a block of one array \<open>m\<close> places to the left, first element first.\<close>

lemma shift_left_loop:
  assumes "lo + d = int (length pre)" and "c = d + int (length gap)"
    and "hi = lo + int (length ks)"
  shows "for_up lo hi (\<lambda>i a. Option.bind (aget a (i + c)) (aset a (i + d)))
      (pre @ gap @ map Some ks @ zs)
    = Some (pre @ map Some ks @ drop (length ks) (gap @ map Some ks) @ zs)"
  using assms
proof (induction ks arbitrary: lo pre gap)
  case Nil
  then show ?case by simp
next
  case (Cons k ks)
  have get: "aget (pre @ gap @ map Some (k # ks) @ zs) (lo + c) = Some k"
    using Cons.prems aget_append_mid [of "lo + c" "pre @ gap" "Some k"] by simp
  let ?gap' = "tl (gap @ [Some k])"
  have set: "aset (pre @ gap @ map Some (k # ks) @ zs) (lo + d) k
      = Some ((pre @ [Some k]) @ ?gap' @ map Some ks @ zs)"
    using Cons.prems by (cases gap) (auto simp: arr_simps)
  have ih: "for_up (lo + 1) hi (\<lambda>i a. Option.bind (aget a (i + c)) (aset a (i + d)))
      ((pre @ [Some k]) @ ?gap' @ map Some ks @ zs)
    = Some ((pre @ [Some k]) @ map Some ks @ drop (length ks) (?gap' @ map Some ks) @ zs)"
    by (rule Cons.IH) (use Cons.prems in auto)
  have "drop (length ks) (?gap' @ map Some ks) = drop (Suc (length ks)) (gap @ map Some (k # ks))"
    by (cases gap) simp_all
  with get set ih Cons.prems(3) show ?case
    by (simp add: for_up_step)
qed

end
