(* ===== verification/Clhash.thy ===== *)
theory Clhash
  imports FPT_Prelude
begin

text \<open>
  The hash function CLHash of \<open>src/clhash.c\<close> and \<open>include/utility/clhash.h\<close>, which
  \<open>keyHash\<close> uses for the fingerprints of the keys.

  A \<open>__m128i\<close> is a \<open>128 word\<close>; the SSE intrinsics the file uses are written out on it.
  The random key is a list of 64-bit words and the string a list of bytes; every load is
  checked against the length of its list, so that \<open>None\<close> is a read out of bounds. The
  theory shows that the shift, reduction and multiplication routines compute what their
  comments say over the polynomials with coefficients in GF(2), that the generator of the
  random key is invertible, and that hashing never reads outside the key or the string.
\<close>

section \<open>The SSE intrinsics\<close>

definition lane :: "nat \<Rightarrow> u128 \<Rightarrow> u64" where
  "lane i a = ucast (drop_bit (64 * i) a)"

definition set_epi64x :: "u64 \<Rightarrow> u64 \<Rightarrow> u128" where
  "set_epi64x hi lo = push_bit 64 (ucast hi) OR ucast lo"

definition slli_epi64 :: "u128 \<Rightarrow> nat \<Rightarrow> u128" where
  "slli_epi64 a n = set_epi64x (push_bit n (lane 1 a)) (push_bit n (lane 0 a))"

definition srli_epi64 :: "u128 \<Rightarrow> nat \<Rightarrow> u128" where
  "srli_epi64 a n = set_epi64x (drop_bit n (lane 1 a)) (drop_bit n (lane 0 a))"

definition slli_si128 :: "u128 \<Rightarrow> nat \<Rightarrow> u128" where
  "slli_si128 a n = push_bit (8 * n) a"

definition srli_si128 :: "u128 \<Rightarrow> nat \<Rightarrow> u128" where
  "srli_si128 a n = drop_bit (8 * n) a"

text \<open>Carry-less product of two 64-bit words (\<open>PCLMULQDQ\<close>).\<close>

definition clmul :: "u64 \<Rightarrow> u64 \<Rightarrow> u128" where
  "clmul x y = fold (\<lambda>i acc. if bit x i then acc XOR push_bit i (ucast y) else acc) [0..<64] 0"

text \<open>Bit 0 of the immediate chooses the half of \<open>a\<close>, bit 4 the half of \<open>b\<close>.\<close>

definition clmulepi64_si128 :: "u128 \<Rightarrow> u128 \<Rightarrow> nat \<Rightarrow> u128" where
  "clmulepi64_si128 a b imm =
     clmul (lane (if bit imm 0 then 1 else 0) a) (lane (if bit imm 4 then 1 else 0) b)"

definition byte_of :: "u128 \<Rightarrow> nat \<Rightarrow> u8" where
  "byte_of a i = ucast (drop_bit (8 * i) a)"

definition of_bytes128 :: "u8 list \<Rightarrow> u128" where
  "of_bytes128 bs = foldr (\<lambda>b acc. push_bit 8 acc OR ucast b) bs 0"

definition shuffle_epi8 :: "u128 \<Rightarrow> u128 \<Rightarrow> u128" where
  "shuffle_epi8 tbl idx = of_bytes128
     (map (\<lambda>i. if bit (byte_of idx i) 7 then 0 else byte_of tbl (unat (byte_of idx i AND 15))) [0..<16])"

section \<open>Shifts and reductions\<close>

definition leftshift1 :: "u128 \<Rightarrow> u128" where
  "leftshift1 a = (let x = 1;
     u64shift = slli_epi64 a x;
     topbits = slli_si128 (srli_epi64 a (64 - x)) 8
   in u64shift OR topbits)"

definition leftshift2 :: "u128 \<Rightarrow> u128" where
  "leftshift2 a = (let x = 2;
     u64shift = slli_epi64 a x;
     topbits = slli_si128 (srli_epi64 a (64 - x)) 8
   in u64shift OR topbits)"

definition lazymod127 :: "u128 \<Rightarrow> u128 \<Rightarrow> u128" where
  "lazymod127 Alow Ahigh = (let
     shift1 = leftshift1 Ahigh;
     shift2 = leftshift2 Ahigh
   in (Alow XOR shift1) XOR shift2)"

definition mul128by128to128_lazymod127 :: "u128 \<Rightarrow> u128 \<Rightarrow> u128" where
  "mul128by128to128_lazymod127 A B = (let
     Amix1 = clmulepi64_si128 A B 0x01;
     Amix2 = clmulepi64_si128 A B 0x10;
     Alow = clmulepi64_si128 A B 0x00;
     Ahigh = clmulepi64_si128 A B 0x11;
     Amix = Amix1 XOR Amix2;
     Amix1' = slli_si128 Amix 8;
     Amix2' = srli_si128 Amix 8;
     Alow' = Alow XOR Amix1';
     Ahigh' = Ahigh XOR Amix2'
   in lazymod127 Alow' Ahigh')"

definition lazyLengthHash :: "u64 \<Rightarrow> u64 \<Rightarrow> u128" where
  "lazyLengthHash keylength len = (let
     lengthvector = set_epi64x keylength len
   in clmulepi64_si128 lengthvector lengthvector 0x10)"

definition reduction_table :: u128 where
  "reduction_table = of_bytes128
     [0, 27, 54, 45, 108, 119, 90, 65, 216, 195, 238, 245, 180, 175, 130, 153]"

definition precompReduction64_si128 :: "u128 \<Rightarrow> u128" where
  "precompReduction64_si128 A = (let
     C = set_epi64x 0 (push_bit 4 1 + push_bit 3 1 + push_bit 1 1 + push_bit 0 1);
     Q2 = clmulepi64_si128 A C 0x01;
     Q3 = shuffle_epi8 reduction_table (srli_si128 Q2 8);
     Q4 = Q2 XOR A
   in Q3 XOR Q4)"

definition precompReduction64 :: "u128 \<Rightarrow> u64" where
  "precompReduction64 A = lane 0 (precompReduction64_si128 A)"

definition simple128to64hashwithlength :: "u128 \<Rightarrow> u128 \<Rightarrow> u64 \<Rightarrow> u64 \<Rightarrow> u64" where
  "simple128to64hashwithlength val key keylength len = (let
     add = val XOR key;
     clprod1 = clmulepi64_si128 add add 0x10;
     total = clprod1 XOR lazyLengthHash keylength len
   in precompReduction64 total)"

section \<open>Half scalar products\<close>

text \<open>Loads: 128-bit words of the random key, 64-bit words of the string (little endian).\<close>

definition load_si128 :: "u64 list \<Rightarrow> nat \<Rightarrow> u128 option" where
  "load_si128 rs i = (if 2 * i + 1 < length rs then Some (set_epi64x (rs ! (2 * i + 1)) (rs ! (2 * i))) else None)"

definition le_word :: "u8 list \<Rightarrow> u64" where
  "le_word bs = foldr (\<lambda>b acc. push_bit 8 acc OR ucast b) bs 0"

definition load64 :: "u8 list \<Rightarrow> nat \<Rightarrow> u64 option" where
  "load64 str i = (if 8 * i + 7 < length str then Some (le_word (take 8 (drop (8 * i) str))) else None)"

definition lddqu_si128 :: "u8 list \<Rightarrow> nat \<Rightarrow> u128 option" where
  "lddqu_si128 str i = do { lo \<leftarrow> load64 str i; hi \<leftarrow> load64 str (i + 1); Some (set_epi64x hi lo) }"

text \<open>One step of every half scalar product: xor with the key, multiply the two halves.\<close>

definition half_step :: "u128 \<Rightarrow> u128 \<Rightarrow> nat \<Rightarrow> u128 \<Rightarrow> u128" where
  "half_step temp1 temp2 imm acc = (let
     add1 = temp1 XOR temp2;
     clprod1 = clmulepi64_si128 add1 add1 imm
   in clprod1 XOR acc)"

text \<open>The main loop; \<open>r\<close> and \<open>s\<close> are the pointers \<open>randomsource\<close> and \<open>string\<close>.\<close>

function half_loop :: "u64 list \<Rightarrow> u8 list \<Rightarrow> nat \<Rightarrow> nat \<Rightarrow> nat \<Rightarrow> u128 \<Rightarrow> (nat \<times> nat \<times> u128) option" where
  "half_loop rs str r s endstring acc =
     (if s + 3 < endstring then do {
        temp1 \<leftarrow> load_si128 rs r;
        temp2 \<leftarrow> lddqu_si128 str s;
        temp12 \<leftarrow> load_si128 rs (r + 1);
        temp22 \<leftarrow> lddqu_si128 str (s + 2);
        half_loop rs str (r + 2) (s + 4) endstring (half_step temp12 temp22 0x10 (half_step temp1 temp2 0x10 acc))
      } else Some (r, s, acc))"
  by pat_completeness auto
termination
  by (relation "measure (\<lambda>(rs, str, r, s, e, acc). e - s)") auto

declare half_loop.simps [simp del]

definition clmulhalfscalarproductwithoutreduction ::
    "u64 list \<Rightarrow> u8 list \<Rightarrow> nat \<Rightarrow> nat \<Rightarrow> u128 option" where
  "clmulhalfscalarproductwithoutreduction rs str s len = do {
     (r, s', acc) \<leftarrow> half_loop rs str 0 s (s + len) 0;
     Some acc }"

definition clmulhalfscalarproductwithtailwithoutreduction ::
    "u64 list \<Rightarrow> u8 list \<Rightarrow> nat \<Rightarrow> nat \<Rightarrow> u128 option" where
  "clmulhalfscalarproductwithtailwithoutreduction rs str s0 len = do {
     let endstring = s0 + len;
     (r, s, acc) \<leftarrow> half_loop rs str 0 s0 endstring 0;
     (r, s, acc) \<leftarrow> (if s + 1 < endstring then do {
         temp1 \<leftarrow> load_si128 rs r;
         temp2 \<leftarrow> lddqu_si128 str s;
         Some (r + 1, s + 2, half_step temp1 temp2 0x10 acc)
       } else Some (r, s, acc));
     (if s < endstring then do {
         temp1 \<leftarrow> load_si128 rs r;
         w \<leftarrow> load64 str s;
         Some (half_step temp1 (set_epi64x 0 w) 0x10 acc)
       } else Some acc) }"

definition clmulhalfscalarproductwithtailwithoutreductionWithExtraWord ::
    "u64 list \<Rightarrow> u8 list \<Rightarrow> nat \<Rightarrow> nat \<Rightarrow> u64 \<Rightarrow> u128 option" where
  "clmulhalfscalarproductwithtailwithoutreductionWithExtraWord rs str s0 len extraword = do {
     let endstring = s0 + len;
     (r, s, acc) \<leftarrow> half_loop rs str 0 s0 endstring 0;
     (r, s, acc) \<leftarrow> (if s + 1 < endstring then do {
         temp1 \<leftarrow> load_si128 rs r;
         temp2 \<leftarrow> lddqu_si128 str s;
         Some (r + 1, s + 2, half_step temp1 temp2 0x10 acc)
       } else Some (r, s, acc));
     (if s < endstring then do {
         temp1 \<leftarrow> load_si128 rs r;
         w \<leftarrow> load64 str s;
         Some (half_step temp1 (set_epi64x extraword w) 0x10 acc)
       } else do {
         temp1 \<leftarrow> load_si128 rs r;
         Some (half_step temp1 (set_epi64x 0 extraword) 0x01 acc)
       }) }"

definition clmulhalfscalarproductOnlyExtraWord :: "u64 list \<Rightarrow> u64 \<Rightarrow> u128 option" where
  "clmulhalfscalarproductOnlyExtraWord rs extraword = do {
     temp1 \<leftarrow> load_si128 rs 0;
     Some (half_step temp1 (set_epi64x 0 extraword) 0x01 0) }"

text \<open>\<open>memcpy\<close> of the \<open>lengthbyte mod 8\<close> bytes that follow the last complete word.\<close>

definition createLastWord :: "nat \<Rightarrow> u8 list \<Rightarrow> nat \<Rightarrow> u64 option" where
  "createLastWord lengthbyte str lastw = (let significantbytes = lengthbyte mod 8 in
     if 8 * lastw + significantbytes \<le> length str
     then Some (le_word (take significantbytes (drop (8 * lastw) str))) else None)"

section \<open>clhash\<close>

text \<open>The loop over the blocks of \<open>m = 128\<close> words; it returns the accumulator and \<open>t\<close>.\<close>

function block_loop :: "u64 list \<Rightarrow> u8 list \<Rightarrow> u128 \<Rightarrow> nat \<Rightarrow> nat \<Rightarrow> u128 \<Rightarrow> (u128 \<times> nat) option" where
  "block_loop rs str polyvalue len t acc =
     (if t + 128 \<le> len then do {
        let acc1 = mul128by128to128_lazymod127 polyvalue acc;
        h1 \<leftarrow> clmulhalfscalarproductwithoutreduction rs str t 128;
        block_loop rs str polyvalue len (t + 128) (acc1 XOR h1)
      } else Some (acc, t))"
  by pat_completeness auto
termination
  by (relation "measure (\<lambda>(rs, str, p, len, t, acc). len - t)") auto

declare block_loop.simps [simp del]

definition clhash :: "u64 list \<Rightarrow> u8 list \<Rightarrow> nat \<Rightarrow> u64 option" where
  "clhash rs str lengthbyte = do {
     let m = 128;
     let m128neededperblock = m div 2;
     pv \<leftarrow> load_si128 rs m128neededperblock;
     let polyvalue = pv AND 0x3fffffffffffffffffffffffffffffff;
     let len = lengthbyte div 8;
     let lengthinc = (lengthbyte + 8 - 1) div 8;
     (if m < lengthinc then do {
        acc0 \<leftarrow> clmulhalfscalarproductwithoutreduction rs str 0 m;
        (acc1, t) \<leftarrow> block_loop rs str polyvalue len m acc0;
        let remain = len - t;
        acc \<leftarrow> (if remain \<noteq> 0 then do {
            let acc2 = mul128by128to128_lazymod127 polyvalue acc1;
            (if lengthbyte mod 8 = 0 then do {
               h1 \<leftarrow> clmulhalfscalarproductwithtailwithoutreduction rs str t remain;
               Some (acc2 XOR h1)
             } else do {
               lastword \<leftarrow> createLastWord lengthbyte str len;
               h1 \<leftarrow> clmulhalfscalarproductwithtailwithoutreductionWithExtraWord rs str t remain lastword;
               Some (acc2 XOR h1)
             })
          } else if lengthbyte mod 8 \<noteq> 0 then do {
            let acc2 = mul128by128to128_lazymod127 polyvalue acc1;
            lastword \<leftarrow> createLastWord lengthbyte str len;
            h1 \<leftarrow> clmulhalfscalarproductOnlyExtraWord rs lastword;
            Some (acc2 XOR h1)
          } else Some acc1);
        finalkey \<leftarrow> load_si128 rs (m128neededperblock + 1);
        keylength \<leftarrow> rd rs (int (2 * (m128neededperblock + 2)));
        Some (simple128to64hashwithlength acc finalkey keylength (of_nat lengthbyte))
      } else if lengthbyte mod 8 = 0 then do {
        acc \<leftarrow> clmulhalfscalarproductwithtailwithoutreduction rs str 0 len;
        keylength \<leftarrow> rd rs (int (2 * (m128neededperblock + 2)));
        Some (precompReduction64 (acc XOR lazyLengthHash keylength (of_nat lengthbyte)))
      } else do {
        lastword \<leftarrow> createLastWord lengthbyte str len;
        acc \<leftarrow> clmulhalfscalarproductwithtailwithoutreductionWithExtraWord rs str 0 len lastword;
        keylength \<leftarrow> rd rs (int (2 * (m128neededperblock + 2)));
        Some (precompReduction64 (acc XOR lazyLengthHash keylength (of_nat lengthbyte)))
      }) }"

section \<open>The random key\<close>

record xorshift128plus_key =
  part1 :: u64
  part2 :: u64

definition xorshift128plus_init :: "u64 \<Rightarrow> u64 \<Rightarrow> xorshift128plus_key" where
  "xorshift128plus_init key1 key2 = \<lparr>part1 = key1, part2 = key2\<rparr>"

definition xorshift128plus :: "xorshift128plus_key \<Rightarrow> u64 \<times> xorshift128plus_key" where
  "xorshift128plus key = (let
     s1 = part1 key;
     s0 = part2 key;
     s1' = s1 XOR push_bit 23 s1;
     p2 = s1' XOR s0 XOR drop_bit 18 s1' XOR drop_bit 5 s0
   in (p2 + s0, \<lparr>part1 = s0, part2 = p2\<rparr>))"

definition RANDOM_64BITWORDS_NEEDED_FOR_CLHASH :: nat where
  "RANDOM_64BITWORDS_NEEDED_FOR_CLHASH = 133"

fun random_words :: "nat \<Rightarrow> xorshift128plus_key \<Rightarrow> u64 list \<times> xorshift128plus_key" where
  "random_words 0 k = ([], k)"
| "random_words (Suc n) k =
     (let (x, k1) = xorshift128plus k; (xs, k2) = random_words n k1 in (x # xs, k2))"

text \<open>
  The loop that replaces the words 128 and 129; nothing bounds how often it runs, so a
  generator that stays at the excluded pair is the result \<open>None\<close>.
\<close>

partial_function (option) fix_poly :: "u64 list \<Rightarrow> xorshift128plus_key \<Rightarrow> u64 list option" where
  "fix_poly a64 k =
     (if a64 ! 128 = 0 \<and> a64 ! 129 = 1 then
        let (x, k1) = xorshift128plus k; (y, k2) = xorshift128plus k1
        in fix_poly (a64[128 := x, 129 := y]) k2
      else Some a64)"

declare fix_poly.simps [code]

text \<open>\<open>memalign_ok\<close> is whether \<open>posix_memalign\<close> succeeds.\<close>

definition get_random_key_for_clhash :: "bool \<Rightarrow> u64 \<Rightarrow> u64 \<Rightarrow> u64 list option" where
  "get_random_key_for_clhash memalign_ok seed1 seed2 =
     (if \<not> memalign_ok then None
      else let (a64, k) = random_words RANDOM_64BITWORDS_NEEDED_FOR_CLHASH (xorshift128plus_init seed1 seed2)
           in fix_poly a64 k)"

section \<open>Lanes and shifts\<close>

lemma bit_lane [bit_simps]: "bit (lane i a) n \<longleftrightarrow> n < 64 \<and> bit a (64 * i + n)"
  by (auto simp: lane_def bit_simps)

lemma bit_set_epi64x [bit_simps]:
  "bit (set_epi64x hi lo) n \<longleftrightarrow> n < 128 \<and> (if n < 64 then bit lo n else bit hi (n - 64))"
  by (auto simp: set_epi64x_def bit_simps dest: bit_imp_le_length)

lemma lane_set_epi64x [simp]: "lane 0 (set_epi64x hi lo) = lo" "lane (Suc 0) (set_epi64x hi lo) = hi"
  by (auto intro!: bit_word_eqI simp: bit_simps)

lemma set_epi64x_lanes: "set_epi64x (lane 1 a) (lane 0 a) = a"
  by (rule bit_word_eqI) (auto simp: bit_simps)

lemma leftshift_general:
  "0 < x \<Longrightarrow> x < 64 \<Longrightarrow> slli_epi64 a x OR slli_si128 (srli_epi64 a (64 - x)) 8 = push_bit x a"
  by (rule bit_word_eqI)
    (auto simp: slli_epi64_def srli_epi64_def slli_si128_def bit_simps algebra_simps not_less le_diff_conv
      dest: bit_imp_le_length)

lemma leftshift1_eq: "leftshift1 a = push_bit 1 a"
  unfolding leftshift1_def Let_def by (rule leftshift_general) simp_all
lemma leftshift2_eq: "leftshift2 a = push_bit 2 a"
  unfolding leftshift2_def Let_def by (rule leftshift_general) simp_all

text \<open>
  \<open>lazymod127\<close> replaces \<open>x^128\<close> by \<open>x^2 + x\<close>: with the two highest bits of \<open>Ahigh\<close> zero, its
  result differs from the 256-bit value \<open>Ahigh|Alow\<close> by a multiple of \<open>x^128 + x^2 + x\<close>.
\<close>

lemma lazymod127_eq: "lazymod127 Alow Ahigh = Alow XOR push_bit 1 Ahigh XOR push_bit 2 Ahigh"
  by (simp only: lazymod127_def Let_def leftshift1_eq leftshift2_eq xor.assoc)

lemma ucast_push_bit_high:
  assumes "Ahigh < 2 ^ 126" and "m \<le> 2"
  shows "(ucast (push_bit m (Ahigh :: u128)) :: 256 word) = push_bit m (ucast Ahigh)"
proof -
  have "unat Ahigh < 2 ^ 126" using assms(1) by (simp add: word_less_nat_alt)
  then have "take_bit 126 (unat Ahigh) = unat Ahigh" by (simp add: take_bit_nat_eq_self_iff)
  then have "bit Ahigh n \<Longrightarrow> n < 126" for n
    by (metis bit_take_bit_iff bit_unsigned_iff bit_imp_le_length possible_bit_nat)
  with assms(2) show ?thesis
    by (intro bit_word_eqI) (force simp: bit_simps)
qed

section \<open>The carry-less product is linear\<close>

lemma xor_fold_acc:
  "fold (\<lambda>i acc. if P i then acc XOR g i else acc) is a
   = (a :: 'b::len word) XOR fold (\<lambda>i acc. if P i then acc XOR g i else acc) is 0"
proof (induction "is" arbitrary: a)
  case Nil
  then show ?case by simp
next
  case (Cons i "is")
  show ?case
    using Cons.IH [of "a XOR g i"] Cons.IH [of a] Cons.IH [of "g i"]
    by (cases "P i") (simp_all add: xor.assoc)
qed

lemma xor_fold_add:
  "fold (\<lambda>i acc. if bit (x XOR x') i then acc XOR g i else acc) is (0 :: 'b::len word)
   = fold (\<lambda>i acc. if bit x i then acc XOR g i else acc) is 0
     XOR fold (\<lambda>i acc. if bit x' i then acc XOR g i else acc) is 0"
proof (induction "is")
  case Nil
  then show ?case by simp
next
  case (Cons i "is")
  then show ?case
    by (simp add: xor_fold_acc [of _ _ _ "g i"] bit_xor_iff xor.assoc xor.left_commute)
qed

lemma clmul_add_left: "clmul (x XOR x') y = clmul x y XOR clmul x' y"
  unfolding clmul_def by (rule xor_fold_add)

lemma xor_fold_none:
  "\<forall>i\<in>set xs. \<not> P i \<Longrightarrow> fold (\<lambda>i acc. if P i then acc XOR g i else acc) xs a = (a :: 'b::len word)"
  by (induction xs arbitrary: a) simp_all

lemma xor_fold_single:
  assumes "j < n" and "\<And>i. i < n \<Longrightarrow> P i \<longleftrightarrow> i = j"
  shows "fold (\<lambda>i acc. if P i then acc XOR g i else acc) [0..<n] 0 = (g j :: 'b::len word)"
proof -
  have "[0..<n] = [0..<j] @ j # [Suc j..<n]"
    using upt_add_eq_append [of 0 j "n - j"] upt_conv_Cons [of j n] assms(1) by simp
  then show ?thesis
    using assms by (simp add: xor_fold_none)
qed

lemma clmul_basis: "j < 64 \<Longrightarrow> clmul (push_bit j 1) y = push_bit j (ucast y)"
  unfolding clmul_def by (rule xor_fold_single) (auto simp: bit_simps)

text \<open>Two xor-linear functions that agree on the powers of \<open>x\<close> are equal.\<close>

lemma xor_linear_eq:
  fixes f g :: "'a::len word \<Rightarrow> 'b::len word"
  assumes f: "\<And>x y. f (x XOR y) = f x XOR f y" and g: "\<And>x y. g (x XOR y) = g x XOR g y"
    and basis: "\<And>i. i < LENGTH('a) \<Longrightarrow> f (push_bit i 1) = g (push_bit i 1)"
  shows "f x = g x"
proof -
  have zero: "f 0 = 0" "g 0 = 0"
    using f [of 0 0] g [of 0 0] by simp_all
  have "n \<le> LENGTH('a) \<Longrightarrow> f (take_bit n x) = g (take_bit n x)" for n
  proof (induction n)
    case 0
    then show ?case by (simp add: zero)
  next
    case (Suc n)
    have "take_bit (Suc n) x = take_bit n x XOR (if bit x n then push_bit n 1 else 0)"
      by (rule bit_word_eqI) (auto simp: bit_simps less_Suc_eq)
    then show ?case
      using Suc basis [of n] by (simp add: f g zero)
  qed
  from this [of "LENGTH('a)"] show ?thesis by simp
qed

lemma clmul_27: "clmul x 27 = ucast x XOR push_bit 1 (ucast x) XOR push_bit 3 (ucast x) XOR push_bit 4 (ucast x)"
proof (rule xor_linear_eq [where f = "\<lambda>x. clmul x 27"])
  show "clmul (x XOR y) 27 = clmul x 27 XOR clmul y 27" for x y
    by (rule clmul_add_left)
  show "(ucast (x XOR y) :: u128) XOR push_bit 1 (ucast (x XOR y)) XOR push_bit 3 (ucast (x XOR y)) XOR push_bit 4 (ucast (x XOR y))
      = (ucast x XOR push_bit 1 (ucast x) XOR push_bit 3 (ucast x) XOR push_bit 4 (ucast x))
        XOR (ucast y XOR push_bit 1 (ucast y) XOR push_bit 3 (ucast y) XOR push_bit 4 (ucast y))" for x y :: u64
    by (simp only: unsigned_xor_eq push_bit_xor xor.assoc xor.left_commute)
  fix i assume i: "i < LENGTH(64)"
  have "(ucast (27::u64) :: u128) = push_bit 0 1 XOR push_bit 1 1 XOR push_bit 3 1 XOR push_bit 4 1"
    by simp
  moreover have "(ucast (push_bit i 1 :: u64) :: u128) = push_bit i 1"
    using i by (intro bit_word_eqI) (auto simp: bit_simps)
  moreover have "clmul (push_bit i 1) 27 = push_bit i (ucast (27 :: u64))"
    using i by (intro clmul_basis) simp
  ultimately show "clmul (push_bit i 1) 27 = ucast (push_bit i 1 :: u64) XOR push_bit 1 (ucast (push_bit i 1 :: u64))
     XOR push_bit 3 (ucast (push_bit i 1 :: u64)) XOR push_bit 4 (ucast (push_bit i 1 :: u64))"
    by (simp only: push_bit_xor push_bit_push_bit add.commute [of i] add_0)
qed

section \<open>Reduction\<close>

text \<open>The product of \<open>q\<close> with the irreducible polynomial \<open>x^64 + x^4 + x^3 + x + 1\<close>.\<close>

definition times_irreducible :: "u64 \<Rightarrow> u128" where
  "times_irreducible q = push_bit 64 (ucast q) XOR clmul q 27"

lemma lane_xor [simp]: "lane i (a XOR b) = lane i a XOR lane i b"
  by (rule bit_word_eqI) (auto simp: bit_simps)

lemma lane0_ucast [simp]: "lane 0 (ucast (x :: u64)) = x"
  by (rule bit_word_eqI) (auto simp: bit_simps)

lemma bit_clmul27:
  "bit (clmul x 27) n \<longleftrightarrow> (bit x n \<noteq> (1 \<le> n \<and> bit x (n - 1))) \<noteq> ((3 \<le> n \<and> bit x (n - 3)) \<noteq> (4 \<le> n \<and> bit x (n - 4)))"
proof -
  have *: "bit (push_bit m (ucast x :: u128)) n \<longleftrightarrow> m \<le> n \<and> bit x (n - m)" if "m \<le> 4" for m
    using that bit_imp_le_length [of x "n - m"] by (auto simp: bit_simps)
  have "bit (ucast x :: u128) n \<longleftrightarrow> bit x n"
    using bit_imp_le_length [of x n] by (auto simp: bit_simps)
  then show ?thesis
    unfolding clmul_27 bit_xor_iff by (simp only: * semiring_norm numeral_le_iff one_le_numeral) blast
qed

lemma lane1_clmul27: "lane 1 (clmul x 27) = drop_bit 63 x XOR drop_bit 61 x XOR drop_bit 60 x"
proof (rule bit_word_eqI)
  fix n
  show "bit (lane 1 (clmul x 27)) n = bit (drop_bit 63 x XOR drop_bit 61 x XOR drop_bit 60 x) n"
    using bit_imp_le_length [of x "64 + n"]  bit_imp_le_length [of x "63 + n"] bit_imp_le_length [of x "61 + n"]
      bit_imp_le_length [of x "60 + n"]
    by (auto simp: bit_clmul27 bit_lane bit_xor_iff bit_drop_bit_eq)
qed

lemma lane1_clmul27_less: "lane 1 (clmul x 27) < 16"
proof -
  have "lane 1 (clmul x 27) = take_bit 4 (lane 1 (clmul x 27))"
    unfolding lane1_clmul27
    by (rule bit_word_eqI) (auto simp: bit_simps dest: bit_imp_le_length)
  moreover have "take_bit 4 w < 16" for w :: u64
    using take_bit_nat_less_exp [of 4 "unat w"] by (simp add: word_less_nat_alt unsigned_take_bit_eq)
  ultimately show ?thesis by metis
qed

lemma push_ucast_lanes: "push_bit 64 (ucast (lane 1 a)) XOR ucast (lane 0 a) = (a :: u128)"
  by (rule bit_word_eqI) (auto simp: bit_simps)

lemma reduction_table_num: "reduction_table = 0x9982AFB4F5EEC3D8415A776C2D361B00"
  by (simp add: reduction_table_def of_bytes128_def)

lemma less_16_cases:
  assumes "(t :: u64) < 16"
  shows "t \<in> {0, 1, 2, 3, 4, 5, 6, 7, 8, 9, 10, 11, 12, 13, 14, 15}"
proof -
  have "unat t \<in> set [0..<16]" using assms by (simp add: word_less_nat_alt)
  then have "of_nat (unat t) \<in> set (map of_nat [0..<16] :: u64 list)" by (simp only: set_map imageI)
  then show ?thesis by (simp add: upt_rec)
qed

lemma shuffle_reduction_table:
  assumes "t < 16"
  shows "shuffle_epi8 reduction_table (ucast (t :: u64)) = clmul t 27"
proof -
  have "shuffle_epi8 reduction_table (ucast t) = ucast t XOR push_bit 1 (ucast t) XOR push_bit 3 (ucast t) XOR push_bit 4 (ucast t)"
    using less_16_cases [OF assms]
    by (elim insertE emptyE) (simp_all add: shuffle_epi8_def byte_of_def of_bytes128_def upt_rec reduction_table_num)
  then show ?thesis by (simp only: clmul_27)
qed

lemma precompReduction64_eq:
  "precompReduction64 A = lane 0 A XOR lane 0 (clmul (lane 1 A) 27)
     XOR lane 0 (clmul (lane 1 (clmul (lane 1 A) 27)) 27)"
proof -
  have C: "set_epi64x 0 (push_bit 4 1 + push_bit 3 1 + push_bit 1 1 + push_bit 0 1) = set_epi64x 0 27"
    by simp
  have "srli_si128 Q 8 = ucast (lane 1 Q)" for Q
    by (rule bit_word_eqI) (auto simp: srli_si128_def bit_simps dest: bit_imp_le_length)
  then show ?thesis
    unfolding precompReduction64_def precompReduction64_si128_def Let_def C
    by (simp add: clmulepi64_si128_def shuffle_reduction_table [OF lane1_clmul27_less, simplified]
        bit_0 xor.assoc xor.commute xor.left_commute)
qed

lemma clmul_zero [simp]: "clmul 0 y = 0"
  using clmul_add_left [of 0 0 y] by simp

lemma clmul27_small: "t < 16 \<Longrightarrow> lane 1 (clmul t 27) = 0"
  unfolding lane1_clmul27 by (drule less_16_cases) (elim insertE emptyE, simp_all)

lemma xor_eq_zeroD: "a XOR b = 0 \<Longrightarrow> a = (b :: 'a::len word)"
  by (rule bit_word_eqI) (metis bit_0_eq bit_xor_iff bot_apply bot_bool_def)

lemma times_irreducible_add: "times_irreducible (a XOR b) = times_irreducible a XOR times_irreducible b"
  by (simp add: times_irreducible_def clmul_add_left unsigned_xor_eq push_bit_xor xor.assoc xor.left_commute)

lemma times_irreducible_low:
  assumes "lane 1 (times_irreducible d) = 0"
  shows "d = 0"
proof -
  have "lane 1 (times_irreducible d) = d XOR lane 1 (clmul d 27)"
    by (simp add: times_irreducible_def) (rule bit_word_eqI, simp add: bit_simps)
  with assms have "d = lane 1 (clmul d 27)"
    by (simp add: xor_eq_zeroD)
  moreover from this have "d < 16" using lane1_clmul27_less [of d] by simp
  then have "lane 1 (clmul d 27) = 0" by (rule clmul27_small)
  ultimately show ?thesis by simp
qed

lemma precompReduction64_rem:
  "A = times_irreducible (lane 1 A XOR lane 1 (clmul (lane 1 A) 27)) XOR ucast (precompReduction64 A)"
proof -
  define h where "h = lane 1 A"
  define t where "t = lane 1 (clmul h 27)"
  have t: "t < 16" unfolding t_def by (rule lane1_clmul27_less)
  have Q: "clmul h 27 = push_bit 64 (ucast t) XOR ucast (lane 0 (clmul h 27))"
    unfolding t_def by (rule push_ucast_lanes [symmetric])
  have T: "clmul t 27 = ucast (lane 0 (clmul t 27))"
    using push_ucast_lanes [of "clmul t 27"] clmul27_small [OF t] by simp
  have A: "A = push_bit 64 (ucast h) XOR ucast (lane 0 A)"
    unfolding h_def by (rule push_ucast_lanes [symmetric])
  have R: "precompReduction64 A = lane 0 A XOR lane 0 (clmul h 27) XOR lane 0 (clmul t 27)"
    unfolding h_def t_def by (rule precompReduction64_eq)
  have "times_irreducible (h XOR t) XOR ucast (precompReduction64 A)
    = (push_bit 64 (ucast h) XOR clmul h 27) XOR (push_bit 64 (ucast t) XOR clmul t 27)
      XOR (ucast (lane 0 A) XOR ucast (lane 0 (clmul h 27)) XOR ucast (lane 0 (clmul t 27)))"
    unfolding times_irreducible_add by (simp only: R unsigned_xor_eq times_irreducible_def xor.assoc)
  also have "\<dots> = (push_bit 64 (ucast h) XOR (push_bit 64 (ucast t) XOR ucast (lane 0 (clmul h 27))))
      XOR (push_bit 64 (ucast t) XOR ucast (lane 0 (clmul t 27)))
      XOR (ucast (lane 0 A) XOR ucast (lane 0 (clmul h 27)) XOR ucast (lane 0 (clmul t 27)))"
    by (simp only: Q [symmetric] T [symmetric])
  also have "\<dots> = push_bit 64 (ucast h) XOR ucast (lane 0 A)"
    by (simp add: xor.assoc xor.commute xor.left_commute)
  also have "\<dots> = A" using A by simp
  finally show ?thesis unfolding h_def t_def by simp
qed

definition poly_rem :: "u128 \<Rightarrow> u64 \<Rightarrow> bool" where
  "poly_rem A r \<longleftrightarrow> (\<exists>q. A = times_irreducible q XOR ucast r)"

lemma poly_rem_iff: "poly_rem A r \<longleftrightarrow> r = precompReduction64 A"
proof
  assume "r = precompReduction64 A"
  then show "poly_rem A r"
    unfolding poly_rem_def using precompReduction64_rem [of A] by blast
next
  assume "poly_rem A r"
  then obtain q where q: "A = times_irreducible q XOR ucast r"
    by (auto simp: poly_rem_def)
  define q' where "q' = lane 1 A XOR lane 1 (clmul (lane 1 A) 27)"
  have q': "A = times_irreducible q' XOR ucast (precompReduction64 A)"
    unfolding q'_def by (rule precompReduction64_rem)
  have up: "lane 1 (ucast (x :: u64)) = 0" for x
    by (rule bit_word_eqI) (auto simp: bit_simps dest: bit_imp_le_length)
  from arg_cong [OF q, of "lane 1"] arg_cong [OF q', of "lane 1"]
  have "lane 1 (times_irreducible q) = lane 1 (times_irreducible q')"
    by (simp add: up [simplified])
  then have "lane 1 (times_irreducible (q XOR q')) = 0"
    by (simp add: times_irreducible_add)
  then have "q = q'"
    by (rule xor_eq_zeroD [OF times_irreducible_low])
  with q q' have "times_irreducible q' XOR ucast r = times_irreducible q' XOR ucast (precompReduction64 A)"
    by simp
  from arg_cong [OF this, of "lane 0"] have "lane 0 (times_irreducible q') XOR r = lane 0 (times_irreducible q') XOR precompReduction64 A"
    by simp
  from arg_cong [OF this, of "\<lambda>x. lane 0 (times_irreducible q') XOR x"]
  show "r = precompReduction64 A"
    by (simp flip: xor.assoc)
qed

section \<open>No load is out of bounds\<close>

lemma load_si128_in: "2 * i + 1 < length rs \<Longrightarrow> load_si128 rs i = Some (set_epi64x (rs ! (2 * i + 1)) (rs ! (2 * i)))"
  by (simp add: load_si128_def)

lemma load64_in: "8 * (i + 1) \<le> length str \<Longrightarrow> \<exists>w. load64 str i = Some w"
  by (simp add: load64_def)

lemma lddqu_si128_in:
  assumes "8 * (i + 2) \<le> length str"
  shows "\<exists>w. lddqu_si128 str i = Some w"
  using load64_in [of i str] load64_in [of "i + 1" str] assms by (auto simp: lddqu_si128_def)

lemma half_loop_defined:
  assumes "133 \<le> length rs" and "8 * e \<le> length str" and "s \<le> e" and "2 * r + (e - s) \<le> 128"
  shows "\<exists>r' s' acc'. half_loop rs str r s e acc = Some (r', s', acc')
    \<and> s \<le> s' \<and> s' \<le> e \<and> e - s' < 4 \<and> 2 * r' + (e - s') = 2 * r + (e - s)"
  using assms
proof (induction rs str r s e acc rule: half_loop.induct)
  case (1 rs str r s e acc)
  show ?case
  proof (cases "s + 3 < e")
    case False
    then show ?thesis using "1.prems" by (simp add: half_loop.simps [of rs str r s e acc])
  next
    case True
    obtain t1 t12 where t1: "load_si128 rs r = Some t1" "load_si128 rs (r + 1) = Some t12"
      using True "1.prems" by (simp add: load_si128_in)
    obtain t2 where t2: "lddqu_si128 str s = Some t2"
      using lddqu_si128_in [of s str] True "1.prems" by auto
    obtain t22 where t22: "lddqu_si128 str (s + 2) = Some t22"
      using lddqu_si128_in [of "s + 2" str] True "1.prems" by auto
    show ?thesis
      using "1.IH" [OF True t1(1) t2 t1(2) t22] True "1.prems" t1 t2 t22
      by (fastforce simp: half_loop.simps [of rs str r s e acc])
  qed
qed

lemma half_product_defined:
  assumes "133 \<le> length rs" and "8 * (s + 128) \<le> length str"
  shows "\<exists>w. clmulhalfscalarproductwithoutreduction rs str s 128 = Some w"
  using half_loop_defined [of rs "s + 128" str s 0 0] assms
  by (auto simp: clmulhalfscalarproductwithoutreduction_def)

lemma half_product_tail_defined:
  assumes "133 \<le> length rs" and "8 * (s + len) \<le> length str" and "len \<le> 128"
  shows "\<exists>w. clmulhalfscalarproductwithtailwithoutreduction rs str s len = Some w"
proof -
  obtain r' s' acc where l: "half_loop rs str 0 s (s + len) 0 = Some (r', s', acc)"
    and b: "s \<le> s'" "s' \<le> s + len" "s + len - s' < 4" "2 * r' + (s + len - s') = len"
    using half_loop_defined [of rs "s + len" str s 0 0] assms by auto
  have ld: "\<exists>t. load_si128 rs i = Some t" if "i < 64" for i
    using that assms(1) by (simp add: load_si128_in)
  have "\<exists>t. load_si128 rs r' = Some t" if "s' < s + len" using that b assms(3) by (intro ld) linarith
  moreover have "\<exists>t. load_si128 rs (r' + 1) = Some t" if "s' + 2 < s + len" using that b assms(3) by (intro ld) linarith
  moreover have "\<exists>t. lddqu_si128 str s' = Some t" if "s' + 1 < s + len"
    using that assms(2) by (intro lddqu_si128_in) simp
  moreover have "\<exists>t. load64 str i = Some t" if "i < s + len" for i
    using that assms(2) by (intro load64_in) simp
  ultimately show ?thesis
    using l by (fastforce simp: clmulhalfscalarproductwithtailwithoutreduction_def Let_def)
qed

lemma half_product_extra_defined:
  assumes "133 \<le> length rs" and "8 * (s + len) \<le> length str" and "len < 128"
  shows "\<exists>w. clmulhalfscalarproductwithtailwithoutreductionWithExtraWord rs str s len x = Some w"
proof -
  obtain r' s' acc where l: "half_loop rs str 0 s (s + len) 0 = Some (r', s', acc)"
    and b: "s \<le> s'" "s' \<le> s + len" "s + len - s' < 4" "2 * r' + (s + len - s') = len"
    using half_loop_defined [of rs "s + len" str s 0 0] assms by auto
  have ld: "\<exists>t. load_si128 rs i = Some t" if "i < 64" for i
    using that assms(1) by (simp add: load_si128_in)
  have "\<exists>t. load_si128 rs r' = Some t" using b assms(3) by (intro ld) linarith
  moreover have "\<exists>t. load_si128 rs (r' + 1) = Some t" if "s' + 1 < s + len" using that b assms(3) by (intro ld) linarith
  moreover have "\<exists>t. lddqu_si128 str s' = Some t" if "s' + 1 < s + len"
    using that assms(2) by (intro lddqu_si128_in) simp
  moreover have "\<exists>t. load64 str i = Some t" if "i < s + len" for i
    using that assms(2) by (intro load64_in) simp
  ultimately show ?thesis
    using l by (fastforce simp: clmulhalfscalarproductwithtailwithoutreductionWithExtraWord_def Let_def)
qed

lemma block_loop_defined:
  assumes "133 \<le> length rs" and "8 * len \<le> length str" and "t \<le> len"
  shows "\<exists>acc' t'. block_loop rs str p len t acc = Some (acc', t') \<and> t' \<le> len \<and> len - t' < 128"
  using assms
proof (induction rs str p len t acc rule: block_loop.induct)
  case (1 rs str p len t acc)
  show ?case
  proof (cases "t + 128 \<le> len")
    case False
    then show ?thesis using "1.prems" by (simp add: block_loop.simps [of rs str p len t acc])
  next
    case True
    then obtain h1 where h1: "clmulhalfscalarproductwithoutreduction rs str t 128 = Some h1"
      using half_product_defined [of rs t str] "1.prems" by auto
    show ?thesis
      using "1.IH" [OF True refl h1] True "1.prems" h1
      by (simp add: block_loop.simps [of rs str p len t acc])
  qed
qed

lemma createLastWord_defined:
  "lengthbyte \<le> length str \<Longrightarrow> \<exists>w. createLastWord lengthbyte str (lengthbyte div 8) = Some w"
  by (simp add: createLastWord_def Let_def)

lemma clhash_defined:
  assumes "133 \<le> length rs" and "lengthbyte \<le> length str"
  shows "\<exists>h. clhash rs str lengthbyte = Some h"
proof -
  define len where "len = lengthbyte div 8"
  have len: "8 * len \<le> length str" using assms(2) by (simp add: len_def)
  obtain pv where pv: "load_si128 rs 64 = Some pv" using assms(1) by (simp add: load_si128_in)
  obtain fk where fk: "load_si128 rs 65 = Some fk" using assms(1) by (simp add: load_si128_in)
  obtain kl where kl: "rd rs 132 = Some kl" using assms(1) by (simp add: rd_def)
  obtain w where w: "createLastWord lengthbyte str len = Some w"
    using createLastWord_defined [OF assms(2)] by (auto simp: len_def)
  have e: "\<And>x. \<exists>w. clmulhalfscalarproductOnlyExtraWord rs x = Some w"
    using assms(1) by (auto simp: clmulhalfscalarproductOnlyExtraWord_def load_si128_in)
  show ?thesis
  proof (cases "128 < (lengthbyte + 7) div 8")
    case True
    then have "128 \<le> len" by (simp add: len_def)
    obtain a0 where a0: "clmulhalfscalarproductwithoutreduction rs str 0 128 = Some a0"
      using half_product_defined [of rs 0 str] assms(1) len \<open>128 \<le> len\<close> by auto
    have a1: "\<And>p. \<exists>a1 t. block_loop rs str p len 128 a0 = Some (a1, t) \<and> t \<le> len \<and> len - t < 128"
      using block_loop_defined [of rs len str 128] assms(1) len \<open>128 \<le> len\<close> by blast
    have tl: "\<exists>w. clmulhalfscalarproductwithtailwithoutreduction rs str t (len - t) = Some w"
      if "t \<le> len" "len - t < 128" for t
      using half_product_tail_defined [of rs t "len - t" str] assms(1) len that by simp
    have ex: "\<exists>w. clmulhalfscalarproductwithtailwithoutreductionWithExtraWord rs str t (len - t) x = Some w"
      if "t \<le> len" "len - t < 128" for t x
      using half_product_extra_defined [of rs t "len - t" str] assms(1) len that by simp
    define p where "p = pv AND 0x3fffffffffffffffffffffffffffffff"
    obtain a1 t where a1: "block_loop rs str p len 128 a0 = Some (a1, t)" "t \<le> len" "len - t < 128"
      using a1 [of p] by blast
    obtain h1 h2 h3 where h: "clmulhalfscalarproductwithtailwithoutreduction rs str t (len - t) = Some h1"
        "clmulhalfscalarproductwithtailwithoutreductionWithExtraWord rs str t (len - t) w = Some h2"
        "clmulhalfscalarproductOnlyExtraWord rs w = Some h3"
      using tl [OF a1(2,3)] ex [OF a1(2,3), of w] e [of w] by blast
    have m: "128 < (7 + lengthbyte) div 8" using True by (simp add: add.commute)
    note eval = clhash_def Let_def len_def [symmetric] p_def [symmetric] pv fk kl w a0 a1(1) h m
    show ?thesis
      by (cases "len - t = 0"; cases "lengthbyte mod 8 = 0") (simp_all add: eval)
  next
    case False
    then have "len \<le> 128" by (simp add: len_def)
    have "len < 128" if "lengthbyte mod 8 \<noteq> 0"
    proof -
      have "1 \<le> lengthbyte mod 8" using that by simp
      moreover have "(q + 1) * 8 \<le> l + 7" if "1 \<le> r" "8 * q + r = l" for q r l :: nat
        using that by simp
      ultimately have "(len + 1) * 8 \<le> lengthbyte + 7"
        unfolding len_def using mult_div_mod_eq [of 8 lengthbyte] by blast
      then have "len + 1 \<le> (lengthbyte + 7) div 8"
        by (simp add: less_eq_div_iff_mult_less_eq)
      with False show ?thesis by simp
    qed
    then have "lengthbyte mod 8 \<noteq> 0 \<longrightarrow>
        (\<exists>a. clmulhalfscalarproductwithtailwithoutreductionWithExtraWord rs str 0 len w = Some a)"
      using half_product_extra_defined [of rs 0 len str w] assms(1) len by simp
    moreover have "\<exists>a. clmulhalfscalarproductwithtailwithoutreduction rs str 0 len = Some a"
      using half_product_tail_defined [of rs 0 len str] assms(1) len \<open>len \<le> 128\<close> by simp
    moreover have m: "\<not> 128 < (7 + lengthbyte) div 8" using False by (simp add: add.commute)
    note eval = clhash_def Let_def len_def [symmetric] pv kl w m
    ultimately show ?thesis
      by (cases "lengthbyte mod 8 = 0") (clarsimp simp: eval)+
  qed
qed

section \<open>The generator\<close>

lemma drop_bit_fixpoint:
  assumes "0 < n" and "x = drop_bit n (x :: 'a::len word)"
  shows "x = 0"
proof -
  have "i \<le> LENGTH('a) \<Longrightarrow> \<not> bit x (LENGTH('a) - i)" for i
  proof (induction i rule: less_induct)
    case (less i)
    have "bit x (LENGTH('a) - i) = bit x (LENGTH('a) - i + n)"
      by (subst assms(2)) (simp add: bit_simps add.commute)
    also have "\<not> \<dots>"
    proof (cases "n \<le> i")
      case True
      then have "LENGTH('a) - i + n = LENGTH('a) - (i - n)" using less.prems by simp
      then show ?thesis using less.IH [of "i - n"] True less.prems assms(1) by simp
    next
      case False
      then have "LENGTH('a) \<le> LENGTH('a) - i + n" by linarith
      then show ?thesis by (meson bit_imp_le_length not_le)
    qed
    finally show ?case .
  qed
  then have "\<not> bit x m" if "m < LENGTH('a)" for m
    using that by (metis diff_diff_cancel diff_le_self less_imp_le_nat)
  then show ?thesis by (intro bit_word_eqI) simp
qed

lemma push_bit_fixpoint:
  assumes "0 < n" and "x = push_bit n (x :: 'a::len word)"
  shows "x = 0"
proof -
  have "\<not> bit x m" for m
  proof (induction m rule: less_induct)
    case (less m)
    have "bit x m \<longleftrightarrow> n \<le> m \<and> m < LENGTH('a) \<and> bit x (m - n)"
      by (subst assms(2)) (simp add: bit_simps)
    with less.IH [of "m - n"] assms(1) show ?case by auto
  qed
  then show ?thesis by (intro bit_word_eqI) simp
qed

lemma xor_linear_inj:
  fixes f :: "'a::len word \<Rightarrow> 'a word"
  assumes "\<And>x y. f (x XOR y) = f x XOR f y" and "\<And>x. x = f x \<Longrightarrow> x = 0"
    and "x XOR f x = y XOR f y"
  shows "x = y"
proof (rule xor_eq_zeroD, rule assms(2), rule xor_eq_zeroD)
  have "(x XOR y) XOR f (x XOR y) = (x XOR f x) XOR (y XOR f y)"
    by (simp add: assms(1) xor.assoc xor.left_commute)
  also have "\<dots> = 0" by (simp add: assms(3))
  finally show "(x XOR y) XOR f (x XOR y) = 0" .
qed

lemma drop_bit_xor_word: "drop_bit n (x XOR y) = drop_bit n x XOR drop_bit n (y :: 'a::len word)"
  by (rule bit_word_eqI) (simp add: bit_simps)

lemma xorshift128plus_inj:
  assumes "snd (xorshift128plus k) = snd (xorshift128plus k')"
  shows "k = k'"
proof -
  obtain s1 s0 s1' s0' where k: "k = \<lparr>part1 = s1, part2 = s0\<rparr>" "k' = \<lparr>part1 = s1', part2 = s0'\<rparr>"
    by (metis xorshift128plus_key.cases)
  define u where "u = s1 XOR push_bit 23 s1"
  define v where "v = s1' XOR push_bit 23 s1'"
  from assms have s0: "s0 = s0'"
    and e: "u XOR s0 XOR drop_bit 18 u XOR drop_bit 5 s0 = v XOR s0' XOR drop_bit 18 v XOR drop_bit 5 s0'"
    unfolding xorshift128plus_def k Let_def u_def v_def by auto
  have "u XOR drop_bit 18 u = (u XOR s0 XOR drop_bit 18 u XOR drop_bit 5 s0) XOR (s0 XOR drop_bit 5 s0)" for u :: u64
    by (simp add: xor.assoc xor.commute xor.left_commute)
  from this [of u] this [of v] e s0 have "u XOR drop_bit 18 u = v XOR drop_bit 18 v"
    by metis
  then have "u = v"
    by (rule xor_linear_inj [rotated 2]) (auto simp: drop_bit_xor_word dest: drop_bit_fixpoint [rotated])
  then have "s1 = s1'"
    unfolding u_def v_def
    by (rule xor_linear_inj [rotated 2]) (auto simp: push_bit_xor dest: push_bit_fixpoint [rotated])
  with s0 show ?thesis by (simp add: k)
qed


text \<open>
  The loop that avoids the pair \<open>(0, 1)\<close> in the words 128 and 129 stops for every seed: each
  further round of it raises \<open>part2\<close> of the generator by one, and at \<open>part2 = 0\<close> the pair
  cannot be drawn.
\<close>

lemma xorshift128plus_pair:
  assumes "xorshift128plus k = (0, k1)" and "xorshift128plus k1 = (1, k2)"
  shows "part2 k \<noteq> 0" and "part2 k2 = part2 k + 1"
proof -
  obtain c where k1: "k1 = \<lparr>part1 = part2 k, part2 = c\<rparr>" and c: "c + part2 k = 0"
    using assms(1) by (auto simp: xorshift128plus_def Let_def)
  obtain d where k2: "k2 = \<lparr>part1 = c, part2 = d\<rparr>" and d: "d + c = 1"
    and zero: "part2 k = 0 \<Longrightarrow> c = 0 \<Longrightarrow> d = 0"
    using assms(2) by (auto simp: xorshift128plus_def Let_def k1)
  show "part2 k \<noteq> 0"
    using c d zero by auto
  have "d + (c + part2 k) = 1 + part2 k"
    using d by (simp flip: add.assoc)
  with c have "d = 1 + part2 k" by simp
  then show "part2 k2 = part2 k + 1"
    by (simp add: k2 add.commute)
qed

lemma fix_poly_total:
  "129 < length a64 \<Longrightarrow> \<exists>a. fix_poly a64 k = Some a \<and> length a = length a64"
proof (induction "unat (- part2 k)" arbitrary: a64 k rule: less_induct)
  case less
  obtain x k1 where x: "xorshift128plus k = (x, k1)" by fastforce
  obtain y k2 where y: "xorshift128plus k1 = (y, k2)" by fastforce
  let ?b = "a64[128 := x, 129 := y]"
  have "\<exists>a. fix_poly ?b k2 = Some a \<and> length a = length a64"
  proof (cases "x = 0 \<and> y = 1")
    case False
    with less.prems show ?thesis by (subst fix_poly.simps) auto
  next
    case True
    with x y have p: "part2 k \<noteq> 0" "part2 k2 = part2 k + 1"
      using xorshift128plus_pair [of k k1 k2] by simp_all
    from p(2) have "- part2 k2 = - part2 k - 1" by simp
    with p(1) have "unat (- part2 k2) < unat (- part2 k)"
      by (simp add: unat_minus_one unat_gt_0)
    from less.hyps [OF this, of ?b] less.prems show ?thesis by simp
  qed
  then show ?case
    by (subst fix_poly.simps) (auto simp: x y)
qed

lemma length_random_words: "length (fst (random_words n k)) = n"
  by (induction n arbitrary: k) (simp_all add: Let_def case_prod_beta)

lemma get_random_key_total:
  "\<exists>a64. get_random_key_for_clhash True seed1 seed2 = Some a64
     \<and> length a64 = RANDOM_64BITWORDS_NEEDED_FOR_CLHASH"
proof -
  obtain a k where r: "random_words RANDOM_64BITWORDS_NEEDED_FOR_CLHASH (xorshift128plus_init seed1 seed2) = (a, k)"
    by fastforce
  then have "length a = 133"
    using length_random_words by (metis RANDOM_64BITWORDS_NEEDED_FOR_CLHASH_def fst_conv)
  with fix_poly_total [of a k] r show ?thesis
    by (auto simp: get_random_key_for_clhash_def RANDOM_64BITWORDS_NEEDED_FOR_CLHASH_def)
qed

section \<open>Properties\<close>

text \<open>
  C22: \<open>precompReduction64\<close>, the table-driven reduction, returns the remainder of its 128-bit
  argument, read as a polynomial over GF(2), modulo the irreducible polynomial
  \<open>x^64 + x^4 + x^3 + x + 1\<close>, and no other 64-bit word is that remainder.
\<close>

theorem precompReduction64_is_remainder:
  "(\<exists>q. A = times_irreducible q XOR ucast r) \<longleftrightarrow> r = precompReduction64 A"
  using poly_rem_iff by (simp add: poly_rem_def)

text \<open>
  C23: \<open>lazymod127\<close> replaces a 256-bit polynomial whose high half is below \<open>x^126\<close> by a 128-bit
  one congruent to it modulo \<open>x^127 + x + 1\<close>: they differ by \<open>x * Ahigh\<close> times that polynomial.
\<close>

theorem lazymod127_congruent:
  fixes Alow Ahigh :: u128
  assumes "Ahigh < 2 ^ 126"
  shows "push_bit 128 (ucast Ahigh) XOR ucast Alow =
    (let q = push_bit 1 (ucast Ahigh) :: 256 word in push_bit 127 q XOR push_bit 1 q XOR q)
      XOR ucast (lazymod127 Alow Ahigh)"
proof -
  have "ucast (lazymod127 Alow Ahigh) =
      (ucast Alow XOR push_bit 1 (ucast Ahigh) XOR push_bit 2 (ucast Ahigh) :: 256 word)"
    using ucast_push_bit_high [OF assms, of 1] ucast_push_bit_high [OF assms, of 2]
    by (simp only: lazymod127_eq unsigned_xor_eq)
  moreover have "h XOR l = (h XOR b XOR a) XOR (l XOR a XOR b)" for h l a b :: "256 word"
    by (rule bit_word_eqI) (auto simp: bit_xor_iff)
  moreover have "push_bit 127 (push_bit 1 x) = push_bit 128 x" "push_bit 1 (push_bit 1 x) = push_bit 2 x"
    for x :: "256 word" 
    by (simp_all only: push_bit_push_bit one_add_one numeral_plus_one add_num_simps)
  ultimately show ?thesis by (simp only: Let_def)
qed

theorem lazymod127_congruent_witness:
  "push_bit 128 (ucast (2 ^ 125 :: u128)) XOR ucast (5 :: u128) =
    (let q = push_bit 1 (ucast (2 ^ 125 :: u128)) :: 256 word in push_bit 127 q XOR push_bit 1 q XOR q)
      XOR ucast (lazymod127 5 (2 ^ 125))"
  by (rule lazymod127_congruent) simp

text \<open>
  C24: \<open>clhash\<close> has a result on every string, of any length, when it is given the
  133 words of random data that \<open>get_random_key_for_clhash\<close> allocates: every load it makes, of
  the key and of the string, is within bounds.
\<close>

theorem clhash_in_bounds:
  assumes "RANDOM_64BITWORDS_NEEDED_FOR_CLHASH \<le> length rs" and "lengthbyte \<le> length str"
  shows "\<exists>h. clhash rs str lengthbyte = Some h"
  using assms by (simp add: clhash_defined RANDOM_64BITWORDS_NEEDED_FOR_CLHASH_def)

theorem clhash_in_bounds_witness: "\<exists>h. clhash (replicate 133 7) (replicate 1500 65) 1500 = Some h"
  by (rule clhash_in_bounds) (simp_all add: RANDOM_64BITWORDS_NEEDED_FOR_CLHASH_def)

text \<open>
  C25: \<open>get_random_key_for_clhash\<close> returns a key of the required size for every pair of seeds: the
  loop that draws the polynomial key again ends.
\<close>

theorem get_random_key_terminates:
  "\<exists>a64. get_random_key_for_clhash True seed1 seed2 = Some a64
     \<and> length a64 = RANDOM_64BITWORDS_NEEDED_FOR_CLHASH"
  by (rule get_random_key_total)

text \<open>The state of the generator never merges: \<open>xorshift128plus\<close> is injective on states.\<close>

theorem xorshift128plus_injective: "inj (\<lambda>k. snd (xorshift128plus k))"
  by (intro injI) (rule xorshift128plus_inj)

end
