(* ===== verification/Utility.thy ===== *)
theory Utility
  imports Clhash
begin

text \<open>
  \<open>include/utility/utility.h\<close> and \<open>src/utility.cpp\<close>: the constants of the system, the
  persistent pointers, the size of a leaf, the bit count that restores a leaf's number of
  entries, and the fingerprint \<open>keyHash\<close> of a key. \<open>getPNext\<close>, which reads a leaf file, is
  in theory \<open>Layout\<close>. Shown here: the size of a leaf is 1934 bytes without overflow,
  \<open>countOneBits\<close> is the number of one bits, and \<open>keyHash\<close> has a result for every key.
\<close>

section \<open>Constants\<close>

definition LEAF_DEGREE :: int where [fp_consts]: "LEAF_DEGREE = 56"
definition LEAF_GROUP_AMOUNT :: nat where [fp_consts]: "LEAF_GROUP_AMOUNT = 16"
definition ILLEGAL_FILE_ID :: u64 where [fp_consts]: "ILLEGAL_FILE_ID = 0"
definition MAX_KEY :: u64 where "MAX_KEY = - 1"
definition MAX_VALUE :: u64 where "MAX_VALUE = - 1"
definition DATA_DIR :: string where "DATA_DIR = ''/mnt/mem/''"

text \<open>\<open>sizeof(uint64_t) + LEAF_GROUP_AMOUNT\<close>\<close>

definition LEAF_GROUP_HEAD :: u64 where "LEAF_GROUP_HEAD = 8 + of_nat LEAF_GROUP_AMOUNT"

record PPointer =
  fileId :: u64
  offset :: u64

definition PPointer_eq :: "PPointer \<Rightarrow> PPointer \<Rightarrow> bool" where
  "PPointer_eq self p = (if fileId self = fileId p \<and> offset self = offset p then True else False)"

lemma PPointer_eq_iff [simp]: "PPointer_eq p q \<longleftrightarrow> p = q"
  by (cases p; cases q) (simp add: PPointer_eq_def)

section \<open>calLeafSize and countOneBits\<close>

definition calLeafSize :: u64 where
  "calLeafSize = (let
     n = LEAF_DEGREE * 2;
     bitArrNum = (n + 7) div 8;
     sizeof_PPointer = 16; sizeof_Byte = 1; sizeof_Key = 8; sizeof_Value = 8
   in of_int bitArrNum + sizeof_PPointer + of_int n * sizeof_Byte
      + of_int n * (sizeof_Key + sizeof_Value))"

lemma calLeafSize_eq [fp_consts]: "calLeafSize = 1934"
  by (simp add: calLeafSize_def LEAF_DEGREE_def)

lemma LEAF_GROUP_HEAD_eq [fp_consts]: "LEAF_GROUP_HEAD = 24"
  by (simp add: LEAF_GROUP_HEAD_def LEAF_GROUP_AMOUNT_def)

lemma and_pred_less: "b \<noteq> 0 \<Longrightarrow> b AND (b - 1) < (b :: u8)"
proof -
  assume "b \<noteq> 0"
  then have "b - 1 < b"
    by (simp add: word_less_nat_alt unat_minus_one unat_gt_0)
  moreover have "b AND (b - 1) \<le> b - 1"
    by (rule word_and_le1)
  ultimately show ?thesis by simp
qed

function count_loop :: "u8 \<Rightarrow> u64 \<Rightarrow> u64" where
  "count_loop b count = (if b \<noteq> 0 then count_loop (b AND (b - 1)) (count + 1) else count)"
  by pat_completeness auto
termination
  by (relation "measure (\<lambda>(b, c). unat b)") (auto simp: and_pred_less word_less_nat_alt [symmetric])

declare count_loop.simps [simp del]

definition countOneBits :: "u8 \<Rightarrow> u64" where
  "countOneBits b = count_loop b 0"

section \<open>keyHash\<close>

fun digits :: "nat \<Rightarrow> string" where
  "digits n = (if n < 10 then [char_of (48 + n)] else digits (n div 10) @ [char_of (48 + n mod 10)])"

declare digits.simps [simp del]

text \<open>\<open>std::to_string\<close> of an unsigned 64-bit integer.\<close>

definition to_string :: "u64 \<Rightarrow> string" where
  "to_string k = digits (unat k)"

definition keyHash :: "u64 \<Rightarrow> u8 option" where
  "keyHash k = do {
     random_data \<leftarrow> get_random_key_for_clhash True 0x23a23cf5033c3c81 0xb3816f6a2c68e530;
     let kStr = map of_char (to_string k);
     temp \<leftarrow> clhash random_data kStr (length kStr);
     Some (ucast temp) }"

section \<open>Properties\<close>

text \<open>The value of the fingerprint, which exists for every key.\<close>

definition fingerprint :: "u64 \<Rightarrow> u8" where
  "fingerprint k = the (keyHash k)"

lemma keyHash_eq: "keyHash k = Some (fingerprint k)"
proof -
  obtain rs where rs: "get_random_key_for_clhash True 0x23a23cf5033c3c81 0xb3816f6a2c68e530 = Some rs"
    and len: "length rs = 133"
    using get_random_key_total [of "0x23a23cf5033c3c81" "0xb3816f6a2c68e530"]
    by (auto simp: RANDOM_64BITWORDS_NEEDED_FOR_CLHASH_def)
  have "\<exists>h. clhash rs (map of_char (to_string k)) (length (map of_char (to_string k) :: u8 list)) = Some h"
    by (rule clhash_defined) (simp_all add: len)
  then have "\<exists>h. keyHash k = Some h"
    by (auto simp: keyHash_def rs Let_def)
  then show ?thesis
    by (auto simp: fingerprint_def)
qed

text \<open>The number of one bits.\<close>

definition ones :: "nat \<Rightarrow> nat set" where
  "ones n = {i. bit n i}"

lemma ones_0 [simp]: "ones 0 = {}"
  by (simp add: ones_def)

lemma ones_even: "ones (2 * n) = Suc ` ones n"
proof -
  have "i \<in> ones (2 * n) \<longleftrightarrow> i \<in> Suc ` ones n" for i
    by (cases i) (auto simp: ones_def bit_double_iff)
  then show ?thesis by blast
qed

lemma ones_odd: "ones (Suc (2 * n)) = insert 0 (Suc ` ones n)"
proof -
  have "i \<in> ones (Suc (2 * n)) \<longleftrightarrow> i \<in> insert 0 (Suc ` ones n)" for i
    by (cases i) (auto simp: ones_def bit_0 bit_Suc)
  then show ?thesis by blast
qed

lemma finite_ones [simp]: "finite (ones n)"
  by (induction n rule: nat_bit_induct) (simp_all add: ones_even ones_odd)

lemma and_pred_even:
  assumes "0 < (n :: nat)"
  shows "(2 * n) AND (2 * n - Suc 0) = 2 * (n AND (n - Suc 0))"
proof (rule bit_eqI)
  fix i
  have "(2 * n - Suc 0) div 2 = n - Suc 0" using assms by simp
  then show "bit ((2 * n) AND (2 * n - Suc 0)) i = bit (2 * (n AND (n - Suc 0))) i"
    unfolding bit_and_iff by (cases i) (simp_all add: bit_and_iff bit_0 bit_Suc)
qed

lemma card_ones_and_pred: "0 < n \<Longrightarrow> card (ones n) = Suc (card (ones (n AND (n - Suc 0))))"
proof (induction n rule: nat_bit_induct)
  case zero
  then show ?case by simp
next
  case (even n)
  then show ?case
    by (simp add: and_pred_even ones_even card_image)
next
  case (odd n)
  have "Suc (2 * n) AND (2 * n) = 2 * n"
  proof (rule bit_eqI)
    show "bit (Suc (2 * n) AND (2 * n)) i = bit (2 * n) i" for i
      unfolding bit_and_iff by (cases i) (simp_all add: bit_0 bit_Suc)
  qed
  then show ?case
    by (simp add: ones_even ones_odd card_image)
qed

lemma count_loop_eq: "count_loop b c = c + of_nat (card (ones (unat b)))"
proof (induction b c rule: count_loop.induct)
  case (1 b c)
  show ?case
  proof (cases "b = 0")
    case True
    then show ?thesis by (simp add: count_loop.simps)
  next
    case False
    then have "unat (b AND (b - 1)) = unat b AND (unat b - 1)"
      by (simp add: unsigned_and_eq unat_minus_one)
    with False 1 card_ones_and_pred [of "unat b"] show ?thesis
      by (simp add: count_loop.simps [of b c] unat_gt_0)
  qed
qed

text \<open>\<open>countOneBits\<close> terminates on every byte and counts its one bits.\<close>

theorem countOneBits_correct: "countOneBits b = of_nat (card {i. bit b i})"
proof -
  have "ones (unat b) = {i. bit b i}"
    by (auto simp: ones_def bit_unsigned_iff dest: bit_imp_le_length)
  then show ?thesis by (simp add: countOneBits_def count_loop_eq)
qed

text \<open>Every key has a fingerprint, \<open>keyHash\<close> returns for every key.\<close>

theorem keyHash_returns: "\<exists>h. keyHash k = Some h"
  by (rule exI) (rule keyHash_eq)

end
