(* ===== verification/PMem.thy ===== *)
theory PMem
  imports Utility
begin

text \<open>
  The persistent memory the tree lives in.

  A leaf group file is \<open>| usedNum | bitmap (one byte per leaf) | leaf 0 | ... | leaf 15 |\<close> and a
  leaf is \<open>| bitmap | pNext | fingerprints | KV |\<close> (comments of \<open>p_allocator.cpp\<close> and
  \<open>fptree.h\<close>); both are records here, and theory \<open>Layout\<close> gives their bytes. The device keeps,
  per file, what the program sees through the mapping (\<open>cur\<close>) and what has reached the
  persistent medium (\<open>dur\<close>).

  libpmem and the file system are not part of the program: they are the fields of \<open>env\<close>, a
  parameter of every operation that uses them. \<open>libpmem_ok\<close> states the documented behaviour the
  program relies on: a mapping is page aligned and creates a missing file filled with zeros;
  \<open>pmem_persist\<close> and \<open>pmem_msync\<close> make the range they are given durable, change nothing the
  program sees, and never make a range that is durable less so.
\<close>

record leaf_image =
  bitmap :: "u8 list"
  pNext :: PPointer
  fingerprints :: "u8 list"
  kv :: "(u64 \<times> u64) list"

record group_image =
  usedNum :: u64
  leafBitmap :: "u8 list"
  leaves :: "leaf_image list"

abbreviation nullPPointer :: PPointer where
  "nullPPointer \<equiv> \<lparr>fileId = 0, offset = 0\<rparr>"

definition zero_leaf :: leaf_image where
  "zero_leaf = \<lparr>bitmap = replicate 14 0, pNext = nullPPointer, fingerprints = replicate 112 0,
     kv = replicate 112 (0, 0)\<rparr>"

definition zero_group :: group_image where
  "zero_group = \<lparr>usedNum = 0, leafBitmap = replicate LEAF_GROUP_AMOUNT 0,
     leaves = replicate LEAF_GROUP_AMOUNT zero_leaf\<rparr>"

record device =
  cur :: "u64 \<Rightarrow> group_image option"
  dur :: "u64 \<Rightarrow> group_image option"

text \<open>Reads and writes of mapped memory; a file that is not there has no mapping.\<close>

definition put_group :: "u64 \<Rightarrow> group_image \<Rightarrow> device \<Rightarrow> device" where
  "put_group f g d = d\<lparr>cur := (cur d)(f := Some g)\<rparr>"

definition get_leaf :: "u64 \<Rightarrow> nat \<Rightarrow> device \<Rightarrow> leaf_image option" where
  "get_leaf f i d = do { g \<leftarrow> cur d f; rd (leaves g) (int i) }"

definition put_leaf :: "u64 \<Rightarrow> nat \<Rightarrow> leaf_image \<Rightarrow> device \<Rightarrow> device option" where
  "put_leaf f i l d = do {
     g \<leftarrow> cur d f;
     ls \<leftarrow> wr (leaves g) (int i) l;
     Some (put_group f (g\<lparr>leaves := ls\<rparr>) d) }"

section \<open>Durability\<close>

datatype region = LeafRegion u64 nat | HeadRegion u64 | FileRegion u64

datatype region_image = LeafImage leaf_image | HeadImage u64 "u8 list" | FileImage group_image

fun region_view :: "region \<Rightarrow> (u64 \<Rightarrow> group_image option) \<Rightarrow> region_image option" where
  "region_view (LeafRegion f i) m = map_option (\<lambda>g. LeafImage (leaves g ! i)) (m f)"
| "region_view (HeadRegion f) m = map_option (\<lambda>g. HeadImage (usedNum g) (leafBitmap g)) (m f)"
| "region_view (FileRegion f) m = map_option FileImage (m f)"

definition synced :: "region \<Rightarrow> device \<Rightarrow> bool" where
  "synced r d \<longleftrightarrow> region_view r (cur d) = region_view r (dur d)"

section \<open>libpmem and the file system\<close>

record env =
  pmem_map_file :: "u64 \<Rightarrow> device \<Rightarrow> (u64 \<times> bool) option \<times> device"
  pmem_persist :: "region \<Rightarrow> device \<Rightarrow> device"
  pmem_msync :: "region \<Rightarrow> device \<Rightarrow> device"
  open_out :: "string \<Rightarrow> bool"

definition create_file :: "u64 \<Rightarrow> device \<Rightarrow> device" where
  "create_file f d = (case cur d f of Some _ \<Rightarrow> d
     | None \<Rightarrow> d\<lparr>cur := (cur d)(f := Some zero_group), dur := (dur d)(f := Some zero_group)\<rparr>)"

definition flush_ok :: "(region \<Rightarrow> device \<Rightarrow> device) \<Rightarrow> bool" where
  "flush_ok fl \<longleftrightarrow> (\<forall>r d. cur (fl r d) = cur d \<and> synced r (fl r d)
     \<and> (\<forall>q. synced q d \<longrightarrow> synced q (fl r d)))"

definition map_file_ok :: "(u64 \<Rightarrow> device \<Rightarrow> (u64 \<times> bool) option \<times> device) \<Rightarrow> bool" where
  "map_file_ok mp \<longleftrightarrow> (\<forall>f d. case mp f d of
      (None, d') \<Rightarrow> d' = d
    | (Some (a, is_pmem), d') \<Rightarrow> a \<noteq> 0 \<and> take_bit 12 a = 0 \<and> d' = create_file f d)"

definition libpmem_ok :: "env \<Rightarrow> bool" where
  "libpmem_ok E \<longleftrightarrow> map_file_ok (pmem_map_file E) \<and> flush_ok (pmem_persist E) \<and> flush_ok (pmem_msync E)"

text \<open>
  An environment in which every mapping and every file opens, and a flush writes back the
  whole file its range is in.
\<close>

definition region_file :: "region \<Rightarrow> u64" where
  "region_file r = (case r of LeafRegion f i \<Rightarrow> f | HeadRegion f \<Rightarrow> f | FileRegion f \<Rightarrow> f)"

definition flush_file :: "region \<Rightarrow> device \<Rightarrow> device" where
  "flush_file r d = d\<lparr>dur := (dur d)(region_file r := cur d (region_file r))\<rparr>"

definition ideal_addr :: "u64 \<Rightarrow> u64" where
  "ideal_addr f = push_bit 20 (f OR 1)"

definition ideal_env :: env where
  "ideal_env = \<lparr>pmem_map_file = (\<lambda>f d. (Some (ideal_addr f, True), create_file f d)),
     pmem_persist = flush_file, pmem_msync = flush_file, open_out = (\<lambda>_. True)\<rparr>"

lemma synced_flush_file: "region_file r = region_file q \<or> synced r d \<Longrightarrow> synced r (flush_file q d)"
  by (cases r) (auto simp: synced_def flush_file_def region_file_def)

lemma flush_ok_flush_file: "flush_ok flush_file"
proof -
  have "cur (flush_file r d) = cur d" for r d
    by (simp add: flush_file_def)
  then show ?thesis
    by (simp add: flush_ok_def synced_flush_file)
qed

lemma map_file_ok_ideal:
  "map_file_ok (\<lambda>f d. (Some (ideal_addr f, True), create_file f d))"
proof -
  have "bit (ideal_addr f) 20" for f
    by (simp add: ideal_addr_def bit_push_bit_iff bit_or_iff bit_0)
  then have "ideal_addr f \<noteq> 0" for f
    by (metis bit_0_eq bot_apply bot_bool_def)
  moreover have "take_bit 12 (ideal_addr f) = 0" for f
    unfolding ideal_addr_def by (rule bit_word_eqI) (simp add: bit_take_bit_iff bit_push_bit_iff del: push_bit_or)
  ultimately show ?thesis by (simp add: map_file_ok_def)
qed

lemma libpmem_ok_ideal: "libpmem_ok ideal_env"
  by (simp add: libpmem_ok_def ideal_env_def flush_ok_flush_file map_file_ok_ideal)

end
