(* ===== verification/PAllocator.thy ===== *)
theory PAllocator
  imports PMem
begin

text \<open>
  The allocator of leaves, \<open>include/utility/p_allocator.h\<close> and \<open>src/p_allocator.cpp\<close>.

  \<open>PAllocator\<close> is the object, \<open>nvm\<close> the part of the state it works on: the singleton
  (\<open>None\<close> is \<open>NULL\<close>), the device, and the two files \<open>p_allocator_catalog\<close> and
  \<open>free_list\<close> as the records and entries they hold. A catalog is there with all its three values or
  not at all: one that is cut off or partly written has no representation here, since
  \<open>persistCatalog\<close> writes it whole and the constructor reads it back without a check. An operation that returns a \<open>bool\<close> and
  writes through references returns the written values as well.
\<close>

section \<open>State\<close>

record PAllocator =
  startLeaf :: PPointer
  maxFileId :: u64
  freeNum :: u64
  freeList :: "PPointer list"
  fId2PmAddr :: "u64 \<Rightarrow> u64 option"
  fId2IsPmAddr :: "u64 \<Rightarrow> bool option"

record nvm =
  allocator :: "PAllocator option"
  dev :: device
  catalogFile :: "(u64 \<times> u64 \<times> PPointer) option"
  freeListFile :: "PPointer list option"

definition catalogPath :: string where
  "catalogPath = DATA_DIR @ ''p_allocator_catalog''"

definition freeListPath :: string where
  "freeListPath = DATA_DIR @ ''free_list''"

section \<open>Queries\<close>

definition ifLeafExist :: "PAllocator \<Rightarrow> PPointer \<Rightarrow> bool" where
  "ifLeafExist A p =
     (if fileId p = ILLEGAL_FILE_ID \<or> fileId p \<ge> maxFileId A then False
      else if offset p \<ge> LEAF_GROUP_HEAD + of_nat LEAF_GROUP_AMOUNT * calLeafSize then False
      else if (offset p - LEAF_GROUP_HEAD) mod calLeafSize \<noteq> 0 then False
      else True)"

text \<open>The number of the leaf in its group, \<open>(p.offset - LEAF_GROUP_HEAD) / calLeafSize()\<close>.\<close>

definition leaf_index :: "PPointer \<Rightarrow> nat" where
  "leaf_index p = unat ((offset p - LEAF_GROUP_HEAD) div calLeafSize)"

text \<open>The memory behind \<open>fId2PmAddr[f]\<close>; a file that is not mapped is a null pointer.\<close>

definition group_at :: "PAllocator \<Rightarrow> device \<Rightarrow> u64 \<Rightarrow> group_image option" where
  "group_at A d f = do { a \<leftarrow> fId2PmAddr A f; cur d f }"

definition ifLeafFree :: "PAllocator \<Rightarrow> device \<Rightarrow> PPointer \<Rightarrow> bool option" where
  "ifLeafFree A d p =
     (if ifLeafExist A p then do {
        g \<leftarrow> group_at A d (fileId p);
        b \<leftarrow> rd (leafBitmap g) (int (leaf_index p));
        Some (b = 0)
      } else Some False)"

definition ifLeafUsed :: "PAllocator \<Rightarrow> device \<Rightarrow> PPointer \<Rightarrow> bool option" where
  "ifLeafUsed A d p =
     (if ifLeafExist A p then do {
        fr \<leftarrow> ifLeafFree A d p;
        Some (\<not> fr)
      } else Some False)"

text \<open>The address as an unsigned number; \<open>0\<close> is \<open>NULL\<close>.\<close>

definition getLeafPmemAddr :: "PAllocator \<Rightarrow> PPointer \<Rightarrow> u64 option" where
  "getLeafPmemAddr A p =
     (if ifLeafExist A p then do { a \<leftarrow> fId2PmAddr A (fileId p); Some (a + offset p) }
      else Some 0)"

definition ifPmemAddr :: "PAllocator \<Rightarrow> u64 \<Rightarrow> bool" where
  "ifPmemAddr A f = (case fId2IsPmAddr A f of None \<Rightarrow> False | Some b \<Rightarrow> b)"

text \<open>\<open>if (is_pmem) pmem_persist(...) else pmem_msync(...)\<close>\<close>

definition flush :: "env \<Rightarrow> bool \<Rightarrow> region \<Rightarrow> device \<Rightarrow> device" where
  "flush E is_pmem r d = (if is_pmem then pmem_persist E r d else pmem_msync E r d)"

section \<open>The catalog\<close>

definition persistCatalog :: "env \<Rightarrow> PAllocator \<Rightarrow> nvm \<Rightarrow> bool \<times> nvm" where
  "persistCatalog E A n =
     (if open_out E catalogPath
      then (True, n\<lparr>catalogFile := Some (maxFileId A, freeNum A, startLeaf A)\<rparr>)
      else (False, n))"

text \<open>
  Opening the free list with \<open>ios::out\<close> empties the file; seeking to entry \<open>k\<close> and writing
  fills what lies before with zeros.
\<close>

definition write_free_list :: "env \<Rightarrow> nat \<Rightarrow> PPointer list \<Rightarrow> nvm \<Rightarrow> nvm" where
  "write_free_list E k ps n =
     (if open_out E freeListPath
      then n\<lparr>freeListFile := Some (replicate k nullPPointer @ ps)\<rparr> else n)"

section \<open>Allocation\<close>

text \<open>\<open>newLeafGroup\<close>: the loop pushes and writes the sixteen leaves of the new group.\<close>

definition group_pointers :: "u64 \<Rightarrow> PPointer list" where
  "group_pointers f = map (\<lambda>i. \<lparr>fileId = f, offset = LEAF_GROUP_HEAD + of_nat i * calLeafSize\<rparr>)
     [0..<LEAF_GROUP_AMOUNT]"

definition newLeafGroup :: "env \<Rightarrow> PAllocator \<Rightarrow> nvm \<Rightarrow> bool \<times> PAllocator \<times> nvm" where
  "newLeafGroup E A n = (let f = maxFileId A in
     case pmem_map_file E f (dev n) of
       (None, d1) \<Rightarrow> (False, A, n\<lparr>dev := d1\<rparr>)
     | (Some (pmem_addr, is_pmem), d1) \<Rightarrow>
         let A1 = A\<lparr>fId2PmAddr := (fId2PmAddr A)(f \<mapsto> pmem_addr),
                    fId2IsPmAddr := (fId2IsPmAddr A)(f \<mapsto> is_pmem)\<rparr>;
             d2 = put_group f zero_group d1
         in if \<not> open_out E freeListPath then (False, A1, n\<lparr>dev := d2\<rparr>)
            else let n1 = write_free_list E (unat (freeNum A)) (group_pointers f) (n\<lparr>dev := d2\<rparr>);
                     A2 = A1\<lparr>freeList := freeList A1 @ group_pointers f,
                             freeNum := freeNum A1 + of_nat LEAF_GROUP_AMOUNT,
                             maxFileId := maxFileId A1 + 1\<rparr>
                 in (True, A2, n1\<lparr>dev := flush E is_pmem (FileRegion f) (dev n1)\<rparr>))"

text \<open>
  Taking the last free leaf: the start leaf, the zeroed leaf, the group header. The result is
  the leaf and its address, or \<open>None\<close> where the C++ function returns \<open>false\<close>.
\<close>

definition mark_leaf :: "(u64 \<Rightarrow> u64) \<Rightarrow> u8 \<Rightarrow> PAllocator \<Rightarrow> PPointer \<Rightarrow> device \<Rightarrow> device option" where
  "mark_leaf f b A p d = do {
     g \<leftarrow> group_at A d (fileId p);
     bm \<leftarrow> wr (leafBitmap g) (int (leaf_index p)) b;
     Some (put_group (fileId p) (g\<lparr>usedNum := f (usedNum g), leafBitmap := bm\<rparr>) d) }"

definition takeLeaf :: "env \<Rightarrow> PAllocator \<Rightarrow> nvm \<Rightarrow> ((PPointer \<times> u64) option \<times> PAllocator \<times> nvm) option" where
  "takeLeaf E A n = do {
     p \<leftarrow> (if freeList A = [] then None else Some (last (freeList A)));
     pmem_addr \<leftarrow> getLeafPmemAddr A p;
     (if pmem_addr = 0 then Some (None, A, n)
      else do {
        used \<leftarrow> ifLeafUsed A (dev n) (startLeaf A);
        let A1 = (if \<not> used then A\<lparr>startLeaf := p\<rparr> else A);
        let A2 = A1\<lparr>freeList := butlast (freeList A1), freeNum := freeNum A1 - 1\<rparr>;
        d1 \<leftarrow> put_leaf (fileId p) (leaf_index p) zero_leaf (dev n);
        let d2 = flush E (ifPmemAddr A2 (fileId p)) (LeafRegion (fileId p) (leaf_index p)) d1;
        d3 \<leftarrow> mark_leaf (\<lambda>u. u + 1) 1 A2 p d2;
        let d4 = flush E (ifPmemAddr A2 (fileId p)) (HeadRegion (fileId p)) d3;
        Some (Some (p, pmem_addr), A2, n\<lparr>dev := d4\<rparr>) }) }"

definition getLeaf :: "env \<Rightarrow> PAllocator \<Rightarrow> nvm \<Rightarrow> ((PPointer \<times> u64) option \<times> PAllocator \<times> nvm) option" where
  "getLeaf E A n =
     (if freeNum A = 0 then
        case newLeafGroup E A n of
          (False, A1, n1) \<Rightarrow> Some (None, A1, n1)
        | (True, A1, n1) \<Rightarrow> takeLeaf E A1 n1
      else takeLeaf E A n)"

definition freeLeaf :: "env \<Rightarrow> PPointer \<Rightarrow> PAllocator \<Rightarrow> nvm \<Rightarrow> (bool \<times> PAllocator \<times> nvm) option" where
  "freeLeaf E p A n = do {
     used \<leftarrow> ifLeafUsed A (dev n) p;
     (if \<not> used then Some (False, A, n)
      else do {
        (A1, n1) \<leftarrow> (if PPointer_eq (startLeaf A) p then do {
            g \<leftarrow> group_at A (dev n) (fileId p);
            l \<leftarrow> rd (leaves g) (int (leaf_index p));
            let A1 = A\<lparr>startLeaf := pNext l\<rparr>;
            Some (A1, snd (persistCatalog E A1 n))
          } else Some (A, n));
        let n2 = write_free_list E (unat (freeNum A1)) [p] n1;
        let A2 = A1\<lparr>freeList := freeList A1 @ [p], freeNum := freeNum A1 + 1\<rparr>;
        d1 \<leftarrow> mark_leaf (\<lambda>u. u - 1) 0 A2 p (dev n2);
        let d2 = flush E (ifPmemAddr A2 (fileId p)) (HeadRegion (fileId p)) d1;
        Some (True, A2, n2\<lparr>dev := d2\<rparr>) }) }"

section \<open>Construction and destruction\<close>

text \<open>
  Reading \<open>k\<close> entries of the free list file. A read past the end leaves \<open>pt\<close> as it is; before
  the first successful read \<open>pt\<close> is indeterminate, and copying it has no defined result.
\<close>

fun read_free_list :: "nat \<Rightarrow> PPointer option \<Rightarrow> PPointer list \<Rightarrow> PPointer list option" where
  "read_free_list 0 pt file = Some []"
| "read_free_list (Suc k) pt (q # file) = do { ps \<leftarrow> read_free_list k (Some q) file; Some (q # ps) }"
| "read_free_list (Suc k) pt [] = do { q \<leftarrow> pt; ps \<leftarrow> read_free_list k pt []; Some (q # ps) }"

text \<open>\<open>initFilePmemAddr\<close>: maps the files \<open>1 .. maxFileId - 1\<close>; \<open>exit(1)\<close> if one cannot be mapped.\<close>

fun map_files :: "env \<Rightarrow> nat list \<Rightarrow> PAllocator \<Rightarrow> nvm \<Rightarrow> (PAllocator \<times> nvm) option" where
  "map_files E [] A n = Some (A, n)"
| "map_files E (i # is) A n =
     (let f = of_nat i in
      case pmem_map_file E f (dev n) of
        (None, d1) \<Rightarrow> None
      | (Some (pmem_addr, is_pmem), d1) \<Rightarrow>
          map_files E is
            (A\<lparr>fId2PmAddr := (if fId2PmAddr A f = None then (fId2PmAddr A)(f \<mapsto> pmem_addr) else fId2PmAddr A),
               fId2IsPmAddr := (if fId2IsPmAddr A f = None then (fId2IsPmAddr A)(f \<mapsto> is_pmem) else fId2IsPmAddr A)\<rparr>)
            (n\<lparr>dev := d1\<rparr>))"

definition initFilePmemAddr :: "env \<Rightarrow> PAllocator \<Rightarrow> nvm \<Rightarrow> (PAllocator \<times> nvm) option" where
  "initFilePmemAddr E A n = map_files E [1..<unat (maxFileId A)] A n"

definition newPAllocator :: "env \<Rightarrow> nvm \<Rightarrow> (PAllocator \<times> nvm) option" where
  "newPAllocator E n =
     (case (catalogFile n, freeListFile n) of
        (Some (mf, fn, sl), Some file) \<Rightarrow> do {
          fl \<leftarrow> read_free_list (unat fn) None file;
          initFilePmemAddr E \<lparr>startLeaf = sl, maxFileId = mf, freeNum = fn, freeList = fl,
            fId2PmAddr = Map.empty, fId2IsPmAddr = Map.empty\<rparr> n }
      | _ \<Rightarrow>
          let A = \<lparr>startLeaf = \<lparr>fileId = ILLEGAL_FILE_ID, offset = 0\<rparr>, maxFileId = 1, freeNum = 0,
                 freeList = [], fId2PmAddr = Map.empty, fId2IsPmAddr = Map.empty\<rparr>;
              n1 = (if open_out E freeListPath then n\<lparr>freeListFile := Some []\<rparr> else n);
              n2 = snd (persistCatalog E A n1)
          in initFilePmemAddr E A n2)"

definition getAllocator :: "env \<Rightarrow> nvm \<Rightarrow> (PAllocator \<times> nvm) option" where
  "getAllocator E n =
     (case allocator n of
        Some A \<Rightarrow> Some (A, n)
      | None \<Rightarrow> do { (A, n1) \<leftarrow> newPAllocator E n; Some (A, n1\<lparr>allocator := Some A\<rparr>) })"

text \<open>
  \<open>~PAllocator\<close>: the catalog, then every mapped file is flushed and unmapped; the singleton
  becomes \<open>NULL\<close>.
\<close>

definition deletePAllocator :: "env \<Rightarrow> PAllocator \<Rightarrow> nvm \<Rightarrow> nvm" where
  "deletePAllocator E A n = (let
     n1 = snd (persistCatalog E A n);
     d1 = fold (\<lambda>i d. flush E (ifPmemAddr A (of_nat i)) (FileRegion (of_nat i)) d)
            [1..<unat (maxFileId A)] (dev n1)
   in n1\<lparr>dev := d1, allocator := None\<rparr>)"

section \<open>Leaf pointers\<close>

definition leaf_pp :: "u64 \<Rightarrow> nat \<Rightarrow> PPointer" where
  "leaf_pp f i = \<lparr>fileId = f, offset = LEAF_GROUP_HEAD + of_nat i * calLeafSize\<rparr>"

lemma fileId_leaf_pp [simp]: "fileId (leaf_pp f i) = f"
  by (simp add: leaf_pp_def)

lemma unat_offset_leaf_pp: "i < 16 \<Longrightarrow> unat (offset (leaf_pp f i)) = 24 + i * 1934"
  by (simp add: leaf_pp_def fp_consts unat_word_ariths unat_of_nat)

lemma leaf_index_leaf_pp [simp]: "i < 16 \<Longrightarrow> leaf_index (leaf_pp f i) = i"
  by (simp add: leaf_index_def leaf_pp_def fp_consts unat_div_distrib unat_word_ariths unat_of_nat)

lemma leaf_pp_inj: "i < 16 \<Longrightarrow> j < 16 \<Longrightarrow> leaf_pp f i = leaf_pp g j \<longleftrightarrow> f = g \<and> i = j"
  by (metis fileId_leaf_pp leaf_index_leaf_pp)

text \<open>
  An offset below the header cannot pass the test of \<open>ifLeafExist\<close>, although the subtraction
  wraps around: \<open>2^64 - 24 + o\<close> is not a multiple of the leaf size for any \<open>o < 24\<close>.
\<close>

lemma wrapped_offset:
  assumes "o' < (24 :: u64)"
  shows "(o' - 24) mod 1934 \<noteq> 0"
proof -
  have "unat o' \<in> set [0..<24]" using assms by (simp add: word_less_nat_alt)
  then have "of_nat (unat o') \<in> set (map of_nat [0..<24] :: u64 list)" by (simp only: set_map imageI)
  then have "o' \<in> {0, 1, 2, 3, 4, 5, 6, 7, 8, 9, 10, 11, 12, 13, 14, 15, 16, 17, 18, 19, 20, 21, 22, 23}"
    by (simp add: upt_rec)
  then show ?thesis
    by (elim insertE emptyE) simp_all
qed

lemma offset_leaf_pp:
  assumes "offset p < 30968" and "(offset p - 24) mod 1934 = 0"
  shows "\<exists>i<16. p = leaf_pp (fileId p) i"
proof -
  have "\<not> offset p < 24" using wrapped_offset [of "offset p"] assms(2) by blast
  then have ge: "24 \<le> unat (offset p)" by (simp add: word_less_nat_alt)
  have lt: "unat (offset p) < 30968" using assms(1) by (simp add: word_less_nat_alt)
  have sub: "unat (offset p - 24) = unat (offset p) - 24"
    using ge by (simp add: unat_sub word_le_nat_alt)
  have "unat ((offset p - 24) mod 1934) = 0" using assms(2) by simp
  then have m: "(unat (offset p) - 24) mod 1934 = 0" by (simp add: unat_mod_distrib sub)
  define i where "i = (unat (offset p) - 24) div 1934"
  have i: "unat (offset p) = 24 + i * 1934"
    using m ge by (simp add: i_def) (metis add.commute div_mult_mod_eq add_0_right le_add_diff_inverse2)
  have "i < 16" using i lt by simp
  moreover have "offset p = offset (leaf_pp (fileId p) i)"
    using i unat_offset_leaf_pp [OF \<open>i < 16\<close>] by (metis word_unat_eq_iff)
  then have "p = leaf_pp (fileId p) i" by (simp add: PPointer.equality)
  ultimately show ?thesis by blast
qed

lemma ifLeafExist_iff:
  "ifLeafExist A p \<longleftrightarrow> (\<exists>f i. p = leaf_pp f i \<and> i < 16 \<and> f \<noteq> 0 \<and> f < maxFileId A)"
proof
  assume "ifLeafExist A p"
  then have h: "fileId p \<noteq> 0" "fileId p < maxFileId A" "offset p < 30968" "(offset p - 24) mod 1934 = 0"
    by (auto simp: ifLeafExist_def fp_consts split: if_splits)
  with offset_leaf_pp [OF h(3,4)] show "\<exists>f i. p = leaf_pp f i \<and> i < 16 \<and> f \<noteq> 0 \<and> f < maxFileId A"
    by metis
next
  assume "\<exists>f i. p = leaf_pp f i \<and> i < 16 \<and> f \<noteq> 0 \<and> f < maxFileId A"
  then obtain f i where p: "p = leaf_pp f i" "i < 16" "f \<noteq> 0" "f < maxFileId A" by blast
  then have "offset p < 30968"
    by (simp add: word_less_nat_alt unat_offset_leaf_pp)
  moreover have "(offset p - 24) mod 1934 = 0"
    using p(2) by (simp add: p(1) leaf_pp_def fp_consts word_unat_eq_iff unat_mod_distrib unat_word_ariths unat_of_nat)
  ultimately show "ifLeafExist A p"
    using p by (auto simp: ifLeafExist_def fp_consts)
qed

section \<open>Durability of single writes\<close>

definition durable :: "device \<Rightarrow> bool" where
  "durable d \<longleftrightarrow> (\<forall>f. synced (HeadRegion f) d \<and> (\<forall>i<16. synced (LeafRegion f i) d))"

lemma flush_okD:
  assumes "libpmem_ok E"
  shows "cur (flush E b r d) = cur d" and "synced r (flush E b r d)"
    and "synced q d \<Longrightarrow> synced q (flush E b r d)"
  using assms by (auto simp: libpmem_ok_def flush_ok_def flush_def)

lemma synced_put_group:
  "region_file r \<noteq> f \<Longrightarrow> synced r (put_group f g d) = synced r d"
  by (cases r) (auto simp: synced_def put_group_def region_file_def)

lemma durable_write_flush:
  assumes "libpmem_ok E" and "durable d" and "region_file r = f"
    and "\<And>q. q \<noteq> r \<Longrightarrow> region_file q = f \<Longrightarrow> (\<forall>f. q \<noteq> FileRegion f) \<Longrightarrow> (\<forall>i. q = LeafRegion f i \<longrightarrow> i < 16) \<Longrightarrow>
      synced q d \<Longrightarrow> synced q (put_group f g d)"
  shows "durable (flush E b r (put_group f g d))"
proof -
  have "synced q (flush E b r (put_group f g d))"
    if "\<forall>f. q \<noteq> FileRegion f" "\<forall>f i. q = LeafRegion f i \<longrightarrow> i < 16" "synced q d" for q
  proof (cases "q = r")
    case True
    then show ?thesis using flush_okD(2) [OF assms(1)] by simp
  next
    case False
    then have "synced q (put_group f g d)"
      using assms(4) [of q] that synced_put_group [of q f g d] by (cases "region_file q = f") auto
    then show ?thesis by (rule flush_okD(3) [OF assms(1)])
  qed
  then show ?thesis
    using assms(2) by (simp add: durable_def)
qed

lemma synced_FileRegion: "synced (FileRegion f) d \<longleftrightarrow> cur d f = dur d f"
  by (cases "cur d f"; cases "dur d f") (simp_all add: synced_def)

lemma durable_flush_file:
  assumes "libpmem_ok E" and "\<And>g. g \<noteq> f \<Longrightarrow> synced (HeadRegion g) d \<and> (\<forall>i<16. synced (LeafRegion g i) d)"
  shows "durable (flush E b (FileRegion f) d)"
proof -
  have "synced (FileRegion f) (flush E b (FileRegion f) d)"
    by (rule flush_okD(2) [OF assms(1)])
  then have "synced (HeadRegion f) (flush E b (FileRegion f) d)
      \<and> (\<forall>i. synced (LeafRegion f i) (flush E b (FileRegion f) d))"
    by (auto simp: synced_FileRegion) (simp_all add: synced_def)
  moreover have "synced (HeadRegion g) (flush E b (FileRegion f) d)
      \<and> (\<forall>i<16. synced (LeafRegion g i) (flush E b (FileRegion f) d))" if "g \<noteq> f" for g
    using assms(2) [OF that] by (simp add: flush_okD(3) [OF assms(1)])
  ultimately show ?thesis
    unfolding durable_def by metis
qed

section \<open>The allocator's invariant\<close>

definition wf_leaf :: "leaf_image \<Rightarrow> bool" where
  "wf_leaf l \<longleftrightarrow> length (bitmap l) = 14 \<and> length (fingerprints l) = 112 \<and> length (kv l) = 112"

definition wf_group :: "group_image \<Rightarrow> bool" where
  "wf_group g \<longleftrightarrow> length (leafBitmap g) = 16 \<and> length (leaves g) = 16
     \<and> (\<forall>l\<in>set (leaves g). wf_leaf l)
     \<and> usedNum g = of_nat (length (filter (\<lambda>b. b \<noteq> 0) (leafBitmap g)))"

lemma wf_zero_leaf [simp]: "wf_leaf zero_leaf"
  by (simp add: wf_leaf_def zero_leaf_def)

lemma wf_zero_group [simp]: "wf_group zero_group"
  by (simp add: wf_group_def zero_group_def LEAF_GROUP_AMOUNT_def)

definition mapped :: "PAllocator \<Rightarrow> device \<Rightarrow> u64 \<Rightarrow> bool" where
  "mapped A d f \<longleftrightarrow> (\<exists>a g. fId2PmAddr A f = Some a \<and> take_bit 12 a = 0 \<and> cur d f = Some g \<and> wf_group g)"

definition leaf_byte :: "device \<Rightarrow> PPointer \<Rightarrow> u8" where
  "leaf_byte d p = (case cur d (fileId p) of None \<Rightarrow> 0 | Some g \<Rightarrow> leafBitmap g ! leaf_index p)"

definition used_set :: "PAllocator \<Rightarrow> device \<Rightarrow> PPointer set" where
  "used_set A d = {p. ifLeafExist A p \<and> leaf_byte d p \<noteq> 0}"

definition free_set :: "PAllocator \<Rightarrow> device \<Rightarrow> PPointer set" where
  "free_set A d = {p. ifLeafExist A p \<and> leaf_byte d p = 0}"

definition palloc_inv :: "PAllocator \<Rightarrow> device \<Rightarrow> bool" where
  "palloc_inv A d \<longleftrightarrow> maxFileId A \<noteq> 0
     \<and> (\<forall>f. f \<noteq> 0 \<longrightarrow> f < maxFileId A \<longrightarrow> mapped A d f)
     \<and> distinct (freeList A) \<and> unat (freeNum A) = length (freeList A)
     \<and> set (freeList A) = free_set A d"

lemma existE:
  assumes "palloc_inv A d" and "ifLeafExist A p"
  obtains f i a g where "p = leaf_pp f i" "i < 16" "f \<noteq> 0" "f < maxFileId A"
    "fId2PmAddr A f = Some a" "take_bit 12 a = 0" "cur d f = Some g" "wf_group g"
  using assms unfolding palloc_inv_def ifLeafExist_iff mapped_def by blast

lemma ifLeafFree_eq:
  "palloc_inv A d \<Longrightarrow> ifLeafFree A d p = Some (p \<in> free_set A d)"
  by (cases "ifLeafExist A p")
    (auto elim!: existE simp: ifLeafFree_def free_set_def group_at_def leaf_byte_def wf_group_def rd_Some)

lemma ifLeafUsed_eq:
  "palloc_inv A d \<Longrightarrow> ifLeafUsed A d p = Some (p \<in> used_set A d)"
  by (auto simp: ifLeafUsed_def ifLeafFree_eq used_set_def free_set_def)

text \<open>No leaf starts on a page boundary, so its address is never \<open>NULL\<close>.\<close>

lemma leaf_addr_low_bits:
  assumes "take_bit 12 a = 0" and "i < 16"
  shows "take_bit 12 (a + offset (leaf_pp f i)) \<noteq> 0"
proof -
  have "unat (a + offset (leaf_pp f i)) mod 4096 = (unat a + (24 + i * 1934)) mod 4096"
    using assms(2) by (simp add: unat_word_ariths unat_offset_leaf_pp mod_mod_cancel)
  also have "unat a mod 4096 = 0"
    using arg_cong [OF assms(1), of unat] by (simp add: take_bit_eq_mod unat_mod_distrib)
  then have "(unat a + (24 + i * 1934)) mod 4096 = (24 + i * 1934) mod 4096"
    by (metis mod_add_left_eq add_0)
  also have "\<dots> \<noteq> 0"
  proof -
    have "list_all (\<lambda>i. (24 + i * 1934) mod 4096 \<noteq> (0 :: nat)) [0..<16]"
      by (simp add: upt_rec)
    then show ?thesis using assms(2) by (simp add: list_all_iff)
  qed
  finally have "take_bit 12 (unat (a + offset (leaf_pp f i))) \<noteq> 0"
    by (simp add: take_bit_eq_mod)
  then show ?thesis
    by (metis unat_0 unsigned_take_bit_eq take_bit_of_0 unsigned_0)
qed

section \<open>Marking a leaf in its group\<close>

lemma filter_length_update:
  "i < length xs \<Longrightarrow> length (filter P (xs[i := v])) + (if P (xs ! i) then 1 else 0)
    = length (filter P xs) + (if P v then 1 else 0)"
proof (induction xs arbitrary: i)
  case (Cons x xs)
  show ?case
  proof (cases i)
    case (Suc j)
    with Cons.prems Cons.IH [of j] show ?thesis by simp
  qed simp
qed simp

definition leaf_at :: "device \<Rightarrow> PPointer \<Rightarrow> leaf_image option" where
  "leaf_at d p = get_leaf (fileId p) (leaf_index p) d"

lemma mark_leafE:
  assumes inv: "palloc_inv A d" and ex: "ifLeafExist A p"
    and flip: "(leaf_byte d p = 0) \<noteq> (b = 0)"
    and fn: "\<And>k :: u64. fn k = (if b = 0 then k - 1 else k + 1)"
  obtains g d' where "mark_leaf fn b A p d = Some d'" "d' = put_group (fileId p) g d" "wf_group g"
    "\<And>q. ifLeafExist A q \<Longrightarrow> leaf_byte d' q = (if q = p then b else leaf_byte d q)"
    "\<And>q. leaf_at d' q = leaf_at d q"
    "\<And>q. q \<noteq> HeadRegion (fileId p) \<Longrightarrow> (\<forall>f. q \<noteq> FileRegion f) \<Longrightarrow> synced q d \<Longrightarrow> synced q d'"
proof -
  obtain f i a g where p: "p = leaf_pp f i" "i < 16" and f: "fId2PmAddr A f = Some a"
    and g: "cur d f = Some g" "wf_group g"
    using existE [OF inv ex] by metis
  define g' where "g' = g\<lparr>usedNum := fn (usedNum g), leafBitmap := (leafBitmap g)[i := b]\<rparr>"
  have lens: "length (leafBitmap g) = 16" "length (leaves g) = 16"
    using g(2) by (simp_all add: wf_group_def)
  have m: "mark_leaf fn b A p d = Some (put_group f g' d)"
    using p f g lens by (simp add: mark_leaf_def group_at_def wr_Some g'_def)
  have old: "leaf_byte d p = leafBitmap g ! i"
    using p g by (simp add: leaf_byte_def)
  have cnt: "length (filter (\<lambda>b. b \<noteq> 0) ((leafBitmap g)[i := b])) + (if leafBitmap g ! i \<noteq> 0 then 1 else 0)
      = length (filter (\<lambda>b. b \<noteq> 0) (leafBitmap g)) + (if b \<noteq> 0 then 1 else 0)"
    by (rule filter_length_update) (use p lens in simp)
  have "usedNum g' = of_nat (length (filter (\<lambda>b. b \<noteq> 0) (leafBitmap g')))"
  proof (cases "b = 0")
    case True
    with flip old cnt have "length (filter (\<lambda>b. b \<noteq> 0) (leafBitmap g))
        = Suc (length (filter (\<lambda>b. b \<noteq> 0) ((leafBitmap g)[i := b])))" by simp
    then show ?thesis
      using g(2) True by (simp add: g'_def wf_group_def fn)
  next
    case False
    with flip old cnt have "length (filter (\<lambda>b. b \<noteq> 0) ((leafBitmap g)[i := b]))
        = Suc (length (filter (\<lambda>b. b \<noteq> 0) (leafBitmap g)))" by simp
    then show ?thesis
      using g(2) False by (simp add: g'_def wf_group_def fn)
  qed
  then have wf: "wf_group g'"
    using g(2) by (simp add: wf_group_def g'_def)
  have byt: "leaf_byte (put_group f g' d) q = (if q = p then b else leaf_byte d q)" if exq: "ifLeafExist A q" for q
  proof -
    obtain h j where q: "q = leaf_pp h j" "j < 16" using exq by (auto simp: ifLeafExist_iff)
    show ?thesis
      using p q g lens by (auto simp: leaf_byte_def put_group_def g'_def leaf_pp_inj nth_list_update)
  qed
  have lf: "leaf_at (put_group f g' d) q = leaf_at d q" for q
    using g by (simp add: leaf_at_def get_leaf_def put_group_def g'_def)
  have sy: "synced q (put_group f g' d)"
    if "q \<noteq> HeadRegion f" "\<forall>f. q \<noteq> FileRegion f" "synced q d" for q
    using that g by (cases q) (auto simp: synced_def put_group_def g'_def)
  show thesis
    by (rule that [of "put_group f g' d" g']) (use m wf byt lf sy p in auto)
qed

section \<open>Allocation keeps the invariant\<close>

text \<open>
  What a client may rely on after an allocation or a release: the address map of the old
  leaves and the contents of the leaves in use are as they were.
\<close>

definition leaves_kept :: "PPointer set \<Rightarrow> PAllocator \<Rightarrow> device \<Rightarrow> PAllocator \<Rightarrow> device \<Rightarrow> bool" where
  "leaves_kept S A d A' d' \<longleftrightarrow>
     (\<forall>q\<in>S. leaf_at d' q = leaf_at d q \<and> getLeafPmemAddr A' q = getLeafPmemAddr A q)"

lemma getLeafPmemAddr_eq:
  assumes "palloc_inv A d" and "ifLeafExist A p"
  shows "\<exists>a. getLeafPmemAddr A p = Some a \<and> take_bit 12 a \<noteq> 0"
  by (rule existE [OF assms]) (use assms(2) in \<open>auto simp: getLeafPmemAddr_def leaf_addr_low_bits\<close>)

lemma put_leafE:
  assumes inv: "palloc_inv A d" and ex: "ifLeafExist A p" and l: "wf_leaf l"
  obtains g d' where "put_leaf (fileId p) (leaf_index p) l d = Some d'" "d' = put_group (fileId p) g d"
    "palloc_inv A d'" "\<And>q. leaf_byte d' q = leaf_byte d q"
    "\<And>q. ifLeafExist A q \<Longrightarrow> leaf_at d' q = (if q = p then Some l else leaf_at d q)"
    "\<And>q. q \<noteq> LeafRegion (fileId p) (leaf_index p) \<Longrightarrow> (\<forall>f. q \<noteq> FileRegion f) \<Longrightarrow> synced q d \<Longrightarrow> synced q d'"
proof -
  obtain f i a g where p: "p = leaf_pp f i" "i < 16" and f: "fId2PmAddr A f = Some a" "take_bit 12 a = 0"
    and g: "cur d f = Some g" "wf_group g"
    using existE [OF inv ex] by metis
  define g' where "g' = g\<lparr>leaves := (leaves g)[i := l]\<rparr>"
  have lens: "length (leaves g) = 16" using g(2) by (simp add: wf_group_def)
  have m: "put_leaf f i l d = Some (put_group f g' d)"
    using g lens p by (simp add: put_leaf_def wr_Some g'_def)
  have wf: "wf_group g'"
    using g(2) l set_update_subset_insert [of "leaves g" i l] by (auto simp: wf_group_def g'_def)
  have bytes: "leaf_byte (put_group f g' d) q = leaf_byte d q" for q
    using g by (simp add: leaf_byte_def put_group_def g'_def)
  have "mapped A (put_group f g' d) h" if "mapped A d h" for h
    using that wf f by (auto simp: mapped_def put_group_def)
  then have inv': "palloc_inv A (put_group f g' d)"
    using inv by (simp add: palloc_inv_def free_set_def bytes)
  have lf: "leaf_at (put_group f g' d) q = (if q = p then Some l else leaf_at d q)"
    if exq: "ifLeafExist A q" for q
  proof -
    obtain h j where q: "q = leaf_pp h j" "j < 16" using exq by (auto simp: ifLeafExist_iff)
    show ?thesis
      using p q g lens
      by (auto simp: leaf_at_def get_leaf_def put_group_def g'_def leaf_pp_inj rd_def nth_list_update)
  qed
  have sy: "synced q (put_group f g' d)"
    if "q \<noteq> LeafRegion f i" "\<forall>f. q \<noteq> FileRegion f" "synced q d" for q
    using that g by (cases q) (auto simp: synced_def put_group_def g'_def map_option_case split: option.splits)
  show thesis
    by (rule that [of "put_group f g' d" g']) (use m inv' bytes lf sy p in auto)
qed

lemma flush_views [simp]:
  assumes "libpmem_ok E"
  shows "leaf_byte (flush E b r d) q = leaf_byte d q" and "leaf_at (flush E b r d) q = leaf_at d q"
    and "palloc_inv A (flush E b r d) = palloc_inv A d"
    and "group_at A (flush E b r d) f = group_at A d f"
    and "get_leaf f i (flush E b r d) = get_leaf f i d" and "used_set A (flush E b r d) = used_set A d"
  by (simp_all add: flush_okD(1) [OF assms] leaf_byte_def leaf_at_def get_leaf_def palloc_inv_def
      mapped_def free_set_def used_set_def group_at_def)

lemma durable_after_write:
  assumes "libpmem_ok E" and "durable d"
    and "\<And>q. q \<noteq> r \<Longrightarrow> (\<forall>f. q \<noteq> FileRegion f) \<Longrightarrow> synced q d \<Longrightarrow> synced q d'"
  shows "durable (flush E b r d')"
proof -
  have "synced q (flush E b r d')" if "\<forall>f. q \<noteq> FileRegion f" "synced q d" for q
    using that assms(3) [of q] flush_okD(2,3) [OF assms(1)] by (cases "q = r") auto
  then show ?thesis
    using assms(2) by (simp add: durable_def)
qed

text \<open>Marking a free leaf as used, and a used leaf as free, seen through the invariant.\<close>

lemma mapped_put_group:
  "mapped A d h \<Longrightarrow> wf_group g \<Longrightarrow> mapped A (put_group f g d) h"
  by (auto simp: mapped_def put_group_def)

lemma ifLeafExist_cong: "maxFileId A' = maxFileId A \<Longrightarrow> ifLeafExist A' p = ifLeafExist A p"
  by (simp add: ifLeafExist_def)

lemma mapped_cong: "fId2PmAddr A' = fId2PmAddr A \<Longrightarrow> mapped A' d f = mapped A d f"
  by (simp add: mapped_def)

lemma getLeafPmemAddr_cong:
  "maxFileId A' = maxFileId A \<Longrightarrow> fId2PmAddr A' = fId2PmAddr A \<Longrightarrow> getLeafPmemAddr A' p = getLeafPmemAddr A p"
  by (simp add: getLeafPmemAddr_def ifLeafExist_cong [of A' A])

lemma mark_leaf_upd [simp]:
  "mark_leaf fn b (A\<lparr>startLeaf := s\<rparr>) p d = mark_leaf fn b A p d"
  "mark_leaf fn b (A\<lparr>freeList := fl\<rparr>) p d = mark_leaf fn b A p d"
  "mark_leaf fn b (A\<lparr>freeNum := m\<rparr>) p d = mark_leaf fn b A p d"
  by (simp_all add: mark_leaf_def group_at_def)

lemma mark_used:
  assumes inv: "palloc_inv A d" and ne: "freeList A \<noteq> []" and p: "p = last (freeList A)"
  obtains g d' where "mark_leaf (\<lambda>u. u + 1) 1 A p d = Some d'" "d' = put_group (fileId p) g d"
    "palloc_inv (A\<lparr>startLeaf := s, freeList := butlast (freeList A), freeNum := freeNum A - 1\<rparr>) d'"
    "used_set A d' = insert p (used_set A d)" "p \<notin> used_set A d" "\<And>q. leaf_at d' q = leaf_at d q"
    "\<And>q. q \<noteq> HeadRegion (fileId p) \<Longrightarrow> (\<forall>f. q \<noteq> FileRegion f) \<Longrightarrow> synced q d \<Longrightarrow> synced q d'"
proof -
  have fl: "distinct (freeList A)" "set (freeList A) = free_set A d" "unat (freeNum A) = length (freeList A)"
    using inv by (simp_all add: palloc_inv_def)
  have pfree: "ifLeafExist A p" "leaf_byte d p = 0"
    using last_in_set [OF ne] fl(2) p by (auto simp: free_set_def)
  obtain g d' where m: "mark_leaf (\<lambda>u. u + 1) 1 A p d = Some d'" "d' = put_group (fileId p) g d" "wf_group g"
    and b: "\<And>q. ifLeafExist A q \<Longrightarrow> leaf_byte d' q = (if q = p then 1 else leaf_byte d q)"
    and rest: "\<And>q. leaf_at d' q = leaf_at d q"
      "\<And>q. q \<noteq> HeadRegion (fileId p) \<Longrightarrow> (\<forall>f. q \<noteq> FileRegion f) \<Longrightarrow> synced q d \<Longrightarrow> synced q d'"
    by (rule mark_leafE [OF inv pfree(1), of 1 "\<lambda>u. u + 1"]) (use pfree in auto)
  let ?A = "A\<lparr>startLeaf := s, freeList := butlast (freeList A), freeNum := freeNum A - 1\<rparr>"
  have split: "freeList A = butlast (freeList A) @ [p]" using ne p by simp
  have "p \<notin> set (butlast (freeList A))" using fl(1) split
    by (metis distinct_butlast not_distinct_conv_prefix append_Nil2 distinct_append disjoint_insert(2) list.simps(15))
  then have "set (butlast (freeList A)) = free_set A d - {p}"
    using split fl(2) by (metis Diff_insert_absorb Un_insert_right append.right_neutral list.set(1,2) set_append sup_bot.right_neutral)
  also have "\<dots> = free_set ?A d'"
    using b by (auto simp: free_set_def ifLeafExist_cong [of ?A A] split: if_splits)
  finally have fs: "set (butlast (freeList A)) = free_set ?A d'" .
  have "freeNum A \<noteq> 0" using fl(3) ne by auto
  then have fn: "unat (freeNum A - 1) = length (butlast (freeList A))"
    using fl(3) by (simp add: unat_minus_one)
  have mp: "mapped ?A d' h" if "mapped A d h" for h
    using mapped_put_group [OF that m(3)] m(2) by (simp add: mapped_def)
  have "palloc_inv ?A d'"
    unfolding palloc_inv_def using inv mp fs fn distinct_butlast [OF fl(1)] by (simp add: palloc_inv_def)
  moreover have "used_set A d' = insert p (used_set A d)"
    using b pfree by (auto simp: used_set_def split: if_splits)
  moreover have "p \<notin> used_set A d" using pfree by (simp add: used_set_def)
  ultimately show thesis using that m rest by blast
qed

lemma mark_free:
  assumes inv: "palloc_inv A d" and p: "p \<in> used_set A d" and room: "unat (freeNum A) + 1 < 2 ^ 64"
  obtains g d' where "mark_leaf (\<lambda>u. u - 1) 0 A p d = Some d'" "d' = put_group (fileId p) g d"
    "palloc_inv (A\<lparr>startLeaf := s, freeList := freeList A @ [p], freeNum := freeNum A + 1\<rparr>) d'"
    "used_set A d' = used_set A d - {p}" "\<And>q. leaf_at d' q = leaf_at d q"
    "\<And>q. q \<noteq> HeadRegion (fileId p) \<Longrightarrow> (\<forall>f. q \<noteq> FileRegion f) \<Longrightarrow> synced q d \<Longrightarrow> synced q d'"
proof -
  have fl: "distinct (freeList A)" "set (freeList A) = free_set A d" "unat (freeNum A) = length (freeList A)"
    using inv by (simp_all add: palloc_inv_def)
  have pused: "ifLeafExist A p" "leaf_byte d p \<noteq> 0"
    using p by (auto simp: used_set_def)
  obtain g d' where m: "mark_leaf (\<lambda>u. u - 1) 0 A p d = Some d'" "d' = put_group (fileId p) g d" "wf_group g"
    and b: "\<And>q. ifLeafExist A q \<Longrightarrow> leaf_byte d' q = (if q = p then 0 else leaf_byte d q)"
    and rest: "\<And>q. leaf_at d' q = leaf_at d q"
      "\<And>q. q \<noteq> HeadRegion (fileId p) \<Longrightarrow> (\<forall>f. q \<noteq> FileRegion f) \<Longrightarrow> synced q d \<Longrightarrow> synced q d'"
    by (rule mark_leafE [OF inv pused(1), of 0 "\<lambda>u. u - 1"]) (use pused in auto)
  let ?A = "A\<lparr>startLeaf := s, freeList := freeList A @ [p], freeNum := freeNum A + 1\<rparr>"
  have nin: "p \<notin> set (freeList A)" using fl(2) pused by (simp add: free_set_def)
  have fs: "set (freeList A @ [p]) = free_set ?A d'"
    using b pused fl(2) by (auto simp: free_set_def ifLeafExist_cong [of ?A A] split: if_splits)
  have fn: "unat (freeNum A + 1) = length (freeList A @ [p])"
    using fl(3) room by (simp add: unat_word_ariths)
  have mp: "mapped ?A d' h" if "mapped A d h" for h
    using mapped_put_group [OF that m(3)] m(2) by (simp add: mapped_def)
  have "palloc_inv ?A d'"
    unfolding palloc_inv_def using inv mp fs fn fl(1) nin by (simp add: palloc_inv_def)
  moreover have "used_set A d' = used_set A d - {p}"
    using b by (auto simp: used_set_def split: if_splits)
  ultimately show thesis using that m rest by blast
qed

subsection \<open>takeLeaf, newLeafGroup, getLeaf, freeLeaf\<close>

lemma used_set_cong: "maxFileId A' = maxFileId A \<Longrightarrow> used_set A' d = used_set A d"
  by (simp add: used_set_def ifLeafExist_cong [of A' A])

lemma takeLeaf_spec:
  assumes E: "libpmem_ok E" and inv: "palloc_inv A (dev n)" and ne: "freeNum A \<noteq> 0"
  obtains p a A' d' where "takeLeaf E A n = Some (Some (p, a), A', n\<lparr>dev := d'\<rparr>)"
    "palloc_inv A' d'" "p \<notin> used_set A (dev n)" "used_set A' d' = insert p (used_set A (dev n))"
    "getLeafPmemAddr A' p = Some a" "take_bit 12 a \<noteq> 0" "leaf_at d' p = Some zero_leaf"
    "leaves_kept (used_set A (dev n)) A (dev n) A' d'"
    "startLeaf A' = (if startLeaf A \<in> used_set A (dev n) then startLeaf A else p)"
    "p = last (freeList A)" "freeList A' = butlast (freeList A)" "maxFileId A' = maxFileId A"
    "durable (dev n) \<Longrightarrow> durable d'"
proof -
  have fl: "set (freeList A) = free_set A (dev n)" "unat (freeNum A) = length (freeList A)"
    using inv by (simp_all add: palloc_inv_def)
  have ne': "freeList A \<noteq> []" using fl(2) ne by (auto simp: unat_0_iff)
  define p where "p = last (freeList A)"
  have ex: "ifLeafExist A p" using last_in_set [OF ne'] fl(1) by (auto simp: p_def free_set_def)
  obtain a where a: "getLeafPmemAddr A p = Some a" "take_bit 12 a \<noteq> 0"
    using getLeafPmemAddr_eq [OF inv ex] by blast
  then have a0: "a \<noteq> 0" by auto
  let ?f = "fileId p" and ?r = "LeafRegion (fileId p) (leaf_index p)"
  define s where "s = (if startLeaf A \<in> used_set A (dev n) then startLeaf A else p)"
  define A' where "A' = A\<lparr>startLeaf := s, freeList := butlast (freeList A), freeNum := freeNum A - 1\<rparr>"
  obtain g1 d1 where d1: "put_leaf ?f (leaf_index p) zero_leaf (dev n) = Some d1" "palloc_inv A d1"
    "\<And>q. leaf_byte d1 q = leaf_byte (dev n) q"
    "\<And>q. ifLeafExist A q \<Longrightarrow> leaf_at d1 q = (if q = p then Some zero_leaf else leaf_at (dev n) q)"
    "\<And>q. q \<noteq> ?r \<Longrightarrow> (\<forall>f. q \<noteq> FileRegion f) \<Longrightarrow> synced q (dev n) \<Longrightarrow> synced q d1"
    by (rule put_leafE [OF inv ex wf_zero_leaf]) blast
  let ?d2 = "flush E (ifPmemAddr A ?f) ?r d1"
  have inv2: "palloc_inv A ?d2" using d1(2) E by simp
  obtain g3 d3 where d3: "mark_leaf (\<lambda>u. u + 1) 1 A p ?d2 = Some d3" "palloc_inv A' d3"
    "used_set A d3 = insert p (used_set A ?d2)" "p \<notin> used_set A ?d2" "\<And>q. leaf_at d3 q = leaf_at ?d2 q"
    "\<And>q. q \<noteq> HeadRegion ?f \<Longrightarrow> (\<forall>f. q \<noteq> FileRegion f) \<Longrightarrow> synced q ?d2 \<Longrightarrow> synced q d3"
    unfolding A'_def by (rule mark_used [OF inv2 ne' p_def, of s]) blast
  let ?d4 = "flush E (ifPmemAddr A ?f) (HeadRegion ?f) d3"
  have us: "used_set A ?d2 = used_set A (dev n)" using E by (simp add: used_set_def d1(3))
  have upd: "(if \<not> startLeaf A \<in> used_set A (dev n) then A\<lparr>startLeaf := p\<rparr> else A) = A\<lparr>startLeaf := s\<rparr>"
    by (simp add: s_def)
  have run: "takeLeaf E A n = Some (Some (p, a), A', n\<lparr>dev := ?d4\<rparr>)"
    using ne' a a0 d1(1) d3(1)
    by (simp add: takeLeaf_def p_def [symmetric] ifLeafUsed_eq [OF inv] upd Let_def A'_def ifPmemAddr_def)
  have "used_set A' ?d4 = insert p (used_set A (dev n))"
    using d3(3) E us used_set_cong [of A' A] by (simp add: A'_def)
  moreover have "leaf_at ?d4 q = (if q = p then Some zero_leaf else leaf_at (dev n) q)" if "ifLeafExist A q" for q
    using d3(5) d1(4) that E by simp
  moreover have "durable ?d4" if "durable (dev n)"
    by (rule durable_after_write [OF E durable_after_write [OF E that d1(5)] d3(6)]) auto
  moreover have "getLeafPmemAddr A' q = getLeafPmemAddr A q" for q
    by (rule getLeafPmemAddr_cong) (simp_all add: A'_def)
  ultimately show thesis
    using run d3(2) d3(4) us a ex E
    by (auto simp: leaves_kept_def used_set_def A'_def s_def p_def intro!: that)
qed

lemma group_pointers_eq: "group_pointers f = map (leaf_pp f) [0..<16]"
  by (simp add: group_pointers_def leaf_pp_def LEAF_GROUP_AMOUNT_def)

lemma leaf_byte_zero_group:
  "cur d f = Some zero_group \<Longrightarrow> i < 16 \<Longrightarrow> leaf_byte d (leaf_pp f i) = 0"
  by (simp add: leaf_byte_def zero_group_def LEAF_GROUP_AMOUNT_def)

lemma map_file_okD:
  assumes "libpmem_ok E" and "pmem_map_file E f d = (Some (a, b), d1)"
  shows "a \<noteq> 0" "take_bit 12 a = 0" "d1 = create_file f d"
proof -
  have "map_file_ok (pmem_map_file E)" using assms(1) by (simp add: libpmem_ok_def)
  note spec [OF spec [OF this [unfolded map_file_ok_def], of f], of d]
  with assms(2) show "a \<noteq> 0" "take_bit 12 a = 0" "d1 = create_file f d" by simp_all
qed

text \<open>The conditions under which \<open>newLeafGroup\<close> returns \<open>true\<close>.\<close>

definition can_grow :: "env \<Rightarrow> PAllocator \<Rightarrow> nvm \<Rightarrow> bool" where
  "can_grow E A n \<longleftrightarrow> fst (pmem_map_file E (maxFileId A) (dev n)) \<noteq> None
     \<and> open_out E freeListPath \<and> maxFileId A + 1 \<noteq> 0"

lemma newLeafGroup_spec:
  assumes E: "libpmem_ok E" and inv: "palloc_inv A (dev n)" and grow: "can_grow E A n"
    and room: "unat (freeNum A) + 16 < 2 ^ 64"
  obtains A' n' where "newLeafGroup E A n = (True, A', n')"
    "palloc_inv A' (dev n')" "used_set A' (dev n') = used_set A (dev n)"
    "leaves_kept (used_set A (dev n)) A (dev n) A' (dev n')"
    "startLeaf A' = startLeaf A" "freeList A' = freeList A @ group_pointers (maxFileId A)"
    "maxFileId A' = maxFileId A + 1" "allocator n' = allocator n" "catalogFile n' = catalogFile n"
    "freeListFile n' = Some (replicate (unat (freeNum A)) nullPPointer @ group_pointers (maxFileId A))"
    "durable (dev n) \<Longrightarrow> durable (dev n')"
proof -
  let ?f = "maxFileId A"
  obtain a b d1 where mp: "pmem_map_file E ?f (dev n) = (Some (a, b), d1)"
    using grow unfolding can_grow_def by (metis fst_conv option.exhaust prod.exhaust)
  note ok = map_file_okD [OF E mp]
  let ?d2 = "put_group ?f zero_group d1"
  let ?d3 = "flush E b (FileRegion ?f) ?d2"
  define A' where "A' = A\<lparr>fId2PmAddr := (fId2PmAddr A)(?f \<mapsto> a), fId2IsPmAddr := (fId2IsPmAddr A)(?f \<mapsto> b),
      freeList := freeList A @ group_pointers ?f, freeNum := freeNum A + of_nat LEAF_GROUP_AMOUNT,
      maxFileId := ?f + 1\<rparr>"
  define n' where "n' = n\<lparr>dev := ?d3, freeListFile := Some (replicate (unat (freeNum A)) nullPPointer @ group_pointers ?f)\<rparr>"
  have run: "newLeafGroup E A n = (True, A', n')"
    using grow mp by (simp add: newLeafGroup_def write_free_list_def can_grow_def Let_def A'_def n'_def)
  have cur: "cur ?d3 h = (if h = ?f then Some zero_group else cur (dev n) h)" for h
    using E ok by (simp add: flush_okD put_group_def create_file_def split: option.splits)
  have f1: "unat (?f + 1) = unat ?f + 1" using grow unatSuc [of ?f] by (simp add: can_grow_def add.commute)
  then have lt: "h < ?f + 1 \<longleftrightarrow> h < ?f \<or> h = ?f" for h
    by (auto simp: word_less_nat_alt less_Suc_eq word_unat_eq_iff)
  have f0: "?f \<noteq> 0" using inv by (simp add: palloc_inv_def)
  have fresh: "fileId q \<noteq> ?f" if "ifLeafExist A q" for q
    using that by (auto simp: ifLeafExist_iff)
  have ex: "ifLeafExist A' q \<longleftrightarrow> ifLeafExist A q \<or> q \<in> set (group_pointers ?f)" for q
    using f0 by (auto simp: ifLeafExist_iff A'_def lt group_pointers_eq) blast
  have byte: "leaf_byte ?d3 q = (if fileId q = ?f then leaf_byte ?d3 q else leaf_byte (dev n) q)" for q
    by (simp add: leaf_byte_def cur)
  have byte': "leaf_byte ?d3 q = leaf_byte (dev n) q" if "ifLeafExist A q" for q
    using fresh [OF that] by (simp add: leaf_byte_def cur)
  have byte0: "leaf_byte ?d3 q = 0" if "q \<in> set (group_pointers ?f)" for q
    using that leaf_byte_zero_group [of ?d3 ?f] cur by (auto simp: group_pointers_eq)
  have free: "free_set A' ?d3 = free_set A (dev n) \<union> set (group_pointers ?f)"
    using ex byte' byte0 by (auto simp: free_set_def)
  have used: "used_set A' ?d3 = used_set A (dev n)"
    using ex byte' byte0 by (auto simp: used_set_def)
  have fl: "set (freeList A) = free_set A (dev n)" "unat (freeNum A) = length (freeList A)" "distinct (freeList A)"
    using inv by (simp_all add: palloc_inv_def)
  have dis: "distinct (group_pointers ?f)"
    by (auto simp: group_pointers_eq distinct_map inj_on_def leaf_pp_inj)
  have disj: "set (freeList A) \<inter> set (group_pointers ?f) = {}"
    using fl(1) by (auto simp: free_set_def group_pointers_eq dest: fresh)
  have num: "unat (freeNum A + of_nat LEAF_GROUP_AMOUNT) = length (freeList A @ group_pointers ?f)"
    using fl(2) room by (simp add: unat_word_ariths LEAF_GROUP_AMOUNT_def group_pointers_def)
  have "mapped A' ?d3 h" if "h \<noteq> 0" "h < ?f + 1" for h
  proof (cases "h = ?f")
    case True
    then show ?thesis using ok cur by (simp add: mapped_def A'_def)
  next
    case False
    with that lt inv have "mapped A (dev n) h" by (simp add: palloc_inv_def)
    with False cur show ?thesis by (simp add: mapped_def A'_def)
  qed
  then have "palloc_inv A' ?d3"
    unfolding palloc_inv_def free using grow fl dis disj num
    by (auto simp: A'_def can_grow_def)
  moreover have "leaves_kept (used_set A (dev n)) A (dev n) A' ?d3"
    using fresh ex by (auto simp: leaves_kept_def leaf_at_def get_leaf_def cur getLeafPmemAddr_def used_set_def A'_def)
  moreover have "durable ?d3" if dur: "durable (dev n)"
  proof (rule durable_flush_file [OF E])
    fix g assume "g \<noteq> ?f"
    then have "synced r ?d2 = synced r (dev n)" if "region_file r = g" for r
      using that ok by (cases r) (auto simp: synced_def put_group_def create_file_def region_file_def split: option.splits)
    then show "synced (HeadRegion g) ?d2 \<and> (\<forall>i<16. synced (LeafRegion g i) ?d2)"
      using dur by (simp add: durable_def region_file_def)
  qed
  ultimately show thesis
    using that [OF run] used by (simp add: A'_def n'_def)
qed

lemma leaves_kept_trans:
  "leaves_kept S A d A1 d1 \<Longrightarrow> leaves_kept S A1 d1 A2 d2 \<Longrightarrow> leaves_kept S A d A2 d2"
  by (simp add: leaves_kept_def)

text \<open>
  \<open>getLeaf\<close> returns a leaf that was not in use, zeroed, and changes nothing a client sees in the
  leaves in use.
\<close>

definition leaf_available :: "env \<Rightarrow> PAllocator \<Rightarrow> nvm \<Rightarrow> bool" where
  "leaf_available E A n \<longleftrightarrow> freeNum A \<noteq> 0 \<or> can_grow E A n"

lemma getLeaf_spec:
  assumes E: "libpmem_ok E" and inv: "palloc_inv A (dev n)" and av: "leaf_available E A n"
  obtains p a A' n' where "getLeaf E A n = Some (Some (p, a), A', n')"
    "palloc_inv A' (dev n')" "p \<notin> used_set A (dev n)" "used_set A' (dev n') = insert p (used_set A (dev n))"
    "getLeafPmemAddr A' p = Some a" "take_bit 12 a \<noteq> 0" "leaf_at (dev n') p = Some zero_leaf"
    "leaves_kept (used_set A (dev n)) A (dev n) A' (dev n')"
    "startLeaf A' = (if startLeaf A \<in> used_set A (dev n) then startLeaf A else p)"
    "allocator n' = allocator n" "durable (dev n) \<Longrightarrow> durable (dev n')"
    "maxFileId A' = maxFileId A \<or> maxFileId A' = maxFileId A + 1"
proof (cases "freeNum A = 0")
  case False
  then have run: "getLeaf E A n = takeLeaf E A n" by (simp add: getLeaf_def)
  show thesis
    by (rule takeLeaf_spec [OF E inv False], rule that [OF trans [OF run]], assumption) simp_all
next
  case True
  with av have grow: "can_grow E A n" by (simp add: leaf_available_def)
  have room: "unat (freeNum A) + 16 < 2 ^ 64" using True by simp
  obtain A1 n1 where g: "newLeafGroup E A n = (True, A1, n1)" "palloc_inv A1 (dev n1)"
    "used_set A1 (dev n1) = used_set A (dev n)" "leaves_kept (used_set A (dev n)) A (dev n) A1 (dev n1)"
    "startLeaf A1 = startLeaf A" "freeList A1 = freeList A @ group_pointers (maxFileId A)"
    "allocator n1 = allocator n" "durable (dev n) \<Longrightarrow> durable (dev n1)" "maxFileId A1 = maxFileId A + 1"
    by (rule newLeafGroup_spec [OF E inv grow room]) blast
  have "freeNum A1 \<noteq> 0"
    using g(2,6) by (auto simp: palloc_inv_def group_pointers_def LEAF_GROUP_AMOUNT_def)
  then obtain p a A' d' where t: "takeLeaf E A1 n1 = Some (Some (p, a), A', n1\<lparr>dev := d'\<rparr>)"
    "palloc_inv A' d'" "p \<notin> used_set A1 (dev n1)" "used_set A' d' = insert p (used_set A1 (dev n1))"
    "getLeafPmemAddr A' p = Some a" "take_bit 12 a \<noteq> 0" "leaf_at d' p = Some zero_leaf"
    "leaves_kept (used_set A1 (dev n1)) A1 (dev n1) A' d'"
    "startLeaf A' = (if startLeaf A1 \<in> used_set A1 (dev n1) then startLeaf A1 else p)"
    "durable (dev n1) \<Longrightarrow> durable d'" "maxFileId A' = maxFileId A1"
    by (rule takeLeaf_spec [OF E g(2)]) blast
  show thesis
    by (rule that [of p a A' "n1\<lparr>dev := d'\<rparr>"])
      (use True g t leaves_kept_trans in \<open>auto simp: getLeaf_def\<close>)
qed

text \<open>
  \<open>freeLeaf\<close> gives back a leaf in use and no other one: it is marked free and is the next leaf
  \<open>getLeaf\<close> returns; a leaf that is not in use is refused.
\<close>

lemma freeLeaf_unused:
  "palloc_inv A (dev n) \<Longrightarrow> p \<notin> used_set A (dev n) \<Longrightarrow> freeLeaf E p A n = Some (False, A, n)"
  by (simp add: freeLeaf_def ifLeafUsed_eq)

lemma dev_files [simp]:
  "dev (snd (persistCatalog E A n)) = dev n" "dev (write_free_list E k ps n) = dev n"
  "allocator (snd (persistCatalog E A n)) = allocator n" "allocator (write_free_list E k ps n) = allocator n"
  by (simp_all add: persistCatalog_def write_free_list_def)

lemma palloc_inv_startLeaf [simp]: "palloc_inv (A\<lparr>startLeaf := s\<rparr>) d = palloc_inv A d"
  by (simp add: palloc_inv_def mapped_def free_set_def ifLeafExist_def)

lemma leaf_atE:
  assumes "palloc_inv A d" and "ifLeafExist A p"
  obtains g l where "group_at A d (fileId p) = Some g" "rd (leaves g) (int (leaf_index p)) = Some l"
    "leaf_at d p = Some l" "wf_leaf l"
  by (rule existE [OF assms])
    (auto simp: group_at_def leaf_at_def get_leaf_def wf_group_def rd_Some intro!: that)

lemma freeLeaf_spec:
  assumes E: "libpmem_ok E" and inv: "palloc_inv A (dev n)" and p: "p \<in> used_set A (dev n)"
    and room: "unat (freeNum A) + 1 < 2 ^ 64"
  obtains A' n' l where "freeLeaf E p A n = Some (True, A', n')"
    "palloc_inv A' (dev n')" "used_set A' (dev n') = used_set A (dev n) - {p}"
    "leaves_kept (used_set A (dev n)) A (dev n) A' (dev n')"
    "leaf_at (dev n) p = Some l" "startLeaf A' = (if startLeaf A = p then pNext l else startLeaf A)"
    "freeList A' = freeList A @ [p]" "allocator n' = allocator n" "durable (dev n) \<Longrightarrow> durable (dev n')"
    "open_out E freeListPath \<Longrightarrow> freeListFile n' = Some (replicate (unat (freeNum A)) nullPPointer @ [p])"
proof -
  have ex: "ifLeafExist A p" using p by (simp add: used_set_def)
  obtain g l where l: "group_at A (dev n) (fileId p) = Some g"
    "rd (leaves g) (int (leaf_index p)) = Some l" "leaf_at (dev n) p = Some l"
    by (rule leaf_atE [OF inv ex])
  define s where "s = (if startLeaf A = p then pNext l else startLeaf A)"
  define n1 where "n1 = (if startLeaf A = p then snd (persistCatalog E (A\<lparr>startLeaf := s\<rparr>) n) else n)"
  define n2 where "n2 = write_free_list E (unat (freeNum A)) [p] n1"
  define A' where "A' = A\<lparr>startLeaf := s, freeList := freeList A @ [p], freeNum := freeNum A + 1\<rparr>"
  have dev2: "dev n2 = dev n" "allocator n2 = allocator n" by (simp_all add: n2_def n1_def)
  obtain g' d1 where d1: "mark_leaf (\<lambda>u. u - 1) 0 A p (dev n) = Some d1" "palloc_inv A' d1"
    "used_set A d1 = used_set A (dev n) - {p}" "\<And>q. leaf_at d1 q = leaf_at (dev n) q"
    "\<And>q. q \<noteq> HeadRegion (fileId p) \<Longrightarrow> (\<forall>f. q \<noteq> FileRegion f) \<Longrightarrow> synced q (dev n) \<Longrightarrow> synced q d1"
    unfolding A'_def by (rule mark_free [OF inv p room, of s]) blast
  let ?d2 = "flush E (ifPmemAddr A' (fileId p)) (HeadRegion (fileId p)) d1"
  have pe: "PPointer_eq (startLeaf A) p \<longleftrightarrow> startLeaf A = p" by (auto simp: PPointer_eq_def)
  have run: "freeLeaf E p A n = Some (True, A', n2\<lparr>dev := ?d2\<rparr>)"
    using p l d1(1)
    by (cases "startLeaf A = p")
      (simp_all add: freeLeaf_def ifLeafUsed_eq [OF inv] pe Let_def A'_def n2_def n1_def s_def)
  have dur: "durable ?d2" if "durable (dev n)"
    by (rule durable_after_write [OF E that d1(5)])
  have us: "used_set A' ?d2 = used_set A (dev n) - {p}"
    using d1(3) used_set_cong [of A' A] E by (simp add: A'_def)
  have kept: "leaves_kept (used_set A (dev n)) A (dev n) A' ?d2"
    using getLeafPmemAddr_cong [of A' A] d1(4) E by (simp add: leaves_kept_def A'_def)
  show thesis
    by (rule that [OF run _ _ _ l(3)]) (use d1(2) us kept dur dev2 E in \<open>auto simp: A'_def s_def n2_def write_free_list_def\<close>)
qed

section \<open>Closing and reopening the allocator\<close>

text \<open>
  The free list file holds the free list in its first \<open>freeNum\<close> entries: what the comment of
  \<open>getLeaf\<close> relies on when it does not rewrite the file.
\<close>

definition free_file_ok :: "PAllocator \<Rightarrow> nvm \<Rightarrow> bool" where
  "free_file_ok A n = (case freeListFile n of None \<Rightarrow> False
     | Some file \<Rightarrow> take (length (freeList A)) file = freeList A)"

lemma free_file_ok_cong:
  "freeListFile n' = freeListFile n \<Longrightarrow> freeList A' = freeList A \<Longrightarrow> free_file_ok A' n' = free_file_ok A n"
  by (simp add: free_file_ok_def cong: option.case_cong)

lemma read_free_list_take:
  "k \<le> length ps \<Longrightarrow> read_free_list k pt ps = Some (take k ps)"
proof (induction k arbitrary: pt ps)
  case (Suc k)
  then obtain q qs where "ps = q # qs" by (cases ps) auto
  with Suc show ?case by simp
qed simp

lemma getLeaf_free_file:
  assumes E: "libpmem_ok E" and inv: "palloc_inv A (dev n)" and av: "leaf_available E A n"
    and ok: "free_file_ok A n" and run: "getLeaf E A n = Some (r, A', n')"
  shows "free_file_ok A' n'"
proof -
  have pop: "free_file_ok A2 n2"
    if i1: "palloc_inv A1 (dev n1)" "freeNum A1 \<noteq> 0" and ok1: "free_file_ok A1 n1"
      and t1: "takeLeaf E A1 n1 = Some (r, A2, n2)" for A1 n1 A2 n2
  proof -
    have "freeListFile n2 = freeListFile n1 \<and> freeList A2 = butlast (freeList A1)"
      by (rule takeLeaf_spec [OF E i1]) (use t1 in auto)
    with ok1 show ?thesis
      by (auto simp: free_file_ok_def butlast_conv_take split: option.splits) (metis min.absorb1 diff_le_self take_take)
  qed
  show ?thesis
  proof (cases "freeNum A = 0")
    case False
    with pop [OF inv _ ok] run show ?thesis by (simp add: getLeaf_def)
  next
    case True
    with av have grow: "can_grow E A n" by (simp add: leaf_available_def)
    have none: "freeList A = []" using inv True by (simp add: palloc_inv_def)
    obtain A1 n1 where g: "newLeafGroup E A n = (True, A1, n1)" "palloc_inv A1 (dev n1)"
      "freeList A1 = freeList A @ group_pointers (maxFileId A)"
      "freeListFile n1 = Some (replicate (unat (freeNum A)) nullPPointer @ group_pointers (maxFileId A))"
      by (rule newLeafGroup_spec [OF E inv grow]) (use True in auto)
    have "freeNum A1 \<noteq> 0" "free_file_ok A1 n1"
      using g(2,3,4) none True
      by (auto simp: palloc_inv_def free_file_ok_def group_pointers_def LEAF_GROUP_AMOUNT_def)
    with pop g run True show ?thesis by (simp add: getLeaf_def)
  qed
qed

text \<open>The files of the groups are mapped again, in order, without changing their contents.\<close>

definition mappable :: "env \<Rightarrow> device \<Rightarrow> nat list \<Rightarrow> bool" where
  "mappable E d is \<longleftrightarrow> (\<forall>i\<in>set is. fst (pmem_map_file E (of_nat i) d) \<noteq> None)"

lemma map_files_spec:
  assumes E: "libpmem_ok E" and "mappable E (dev n) is"
    and "\<forall>i\<in>set is. cur (dev n) (of_nat i) \<noteq> None"
    and "\<forall>f a. fId2PmAddr A f = Some a \<longrightarrow> take_bit 12 a = 0"
  obtains pm ip where "map_files E is A n = Some (A\<lparr>fId2PmAddr := pm, fId2IsPmAddr := ip\<rparr>, n)"
    "\<forall>f a. pm f = Some a \<longrightarrow> take_bit 12 a = 0"
    "\<forall>f. fId2PmAddr A f \<noteq> None \<longrightarrow> pm f = fId2PmAddr A f"
    "\<forall>i\<in>set is. pm (of_nat i) \<noteq> None"
  using assms(2-)
proof (induction "is" arbitrary: A thesis)
  case Nil
  show ?case by (rule Nil(1) [of "fId2IsPmAddr A" "fId2PmAddr A"]) (use Nil in auto)
next
  case (Cons i "is")
  let ?f = "of_nat i :: u64"
  obtain a b d1 where mp: "pmem_map_file E ?f (dev n) = (Some (a, b), d1)"
    using Cons.prems(2) unfolding mappable_def by (metis fst_conv list.set_intros(1) option.exhaust prod.exhaust)
  have d1: "d1 = dev n"
    using map_file_okD(3) [OF E mp] Cons.prems(3) by (auto simp: create_file_def split: option.splits)
  define A1 where "A1 = A\<lparr>fId2PmAddr := (if fId2PmAddr A ?f = None then (fId2PmAddr A)(?f \<mapsto> a) else fId2PmAddr A),
    fId2IsPmAddr := (if fId2IsPmAddr A ?f = None then (fId2IsPmAddr A)(?f \<mapsto> b) else fId2IsPmAddr A)\<rparr>"
  have prems: "mappable E (dev n) is" "\<forall>i\<in>set is. cur (dev n) (of_nat i) \<noteq> None"
    "\<forall>f a. fId2PmAddr A1 f = Some a \<longrightarrow> take_bit 12 a = 0"
    using Cons.prems(2-) map_file_okD(2) [OF E mp] by (auto simp: mappable_def A1_def)
  obtain pm ip where r: "map_files E is A1 n = Some (A1\<lparr>fId2PmAddr := pm, fId2IsPmAddr := ip\<rparr>, n)"
    "\<forall>f a. pm f = Some a \<longrightarrow> take_bit 12 a = 0" "\<forall>f. fId2PmAddr A1 f \<noteq> None \<longrightarrow> pm f = fId2PmAddr A1 f"
    "\<forall>i\<in>set is. pm (of_nat i) \<noteq> None"
    by (rule Cons.IH [OF _ prems])
  have "pm ?f \<noteq> None" using r(3) [rule_format, of ?f] by (auto simp: A1_def)
  moreover have "pm f = fId2PmAddr A f" if "fId2PmAddr A f \<noteq> None" for f
    using r(3) [rule_format, of f] that by (auto simp: A1_def split: if_splits)
  moreover have "map_files E (i # is) A n = Some (A\<lparr>fId2PmAddr := pm, fId2IsPmAddr := ip\<rparr>, n)"
    using r(1) by (simp add: mp d1 Let_def A1_def)
  ultimately show ?case using Cons.prems(1) r(2,4) by auto
qed

definition reopen :: "env \<Rightarrow> PAllocator \<Rightarrow> nvm \<Rightarrow> (PAllocator \<times> nvm) option" where
  "reopen E A n = getAllocator E (deletePAllocator E A n)"

lemma fold_flush_cur:
  "libpmem_ok E \<Longrightarrow> cur (fold (\<lambda>i d. flush E (b i) (r i) d) is d) = cur d"
  by (induction "is" arbitrary: d) (simp_all add: flush_okD)

lemma device_views_cong:
  assumes "cur d' = cur d"
  shows "used_set A d' = used_set A d" "free_set A d' = free_set A d" "mapped A d' f = mapped A d f"
    "leaf_at d' p = leaf_at d p" "leaf_byte d' p = leaf_byte d p"
  using assms by (simp_all add: used_set_def free_set_def leaf_byte_def mapped_def leaf_at_def get_leaf_def)

lemma device_views_agree:
  assumes agree: "\<forall>f. f \<noteq> 0 \<longrightarrow> f < maxFileId A \<longrightarrow> cur d' f = cur d f"
  shows "used_set A d' = used_set A d" "free_set A d' = free_set A d"
    "f \<noteq> 0 \<Longrightarrow> f < maxFileId A \<Longrightarrow> mapped A d' f = mapped A d f"
    "ifLeafExist A p \<Longrightarrow> leaf_at d' p = leaf_at d p"
proof -
  have ex: "cur d' (fileId q) = cur d (fileId q)" if "ifLeafExist A q" for q
    using that agree by (auto simp: ifLeafExist_def ILLEGAL_FILE_ID_def split: if_splits)
  then have "leaf_byte d' q = leaf_byte d q" if "ifLeafExist A q" for q using that by (simp add: leaf_byte_def)
  then show "used_set A d' = used_set A d" "free_set A d' = free_set A d" by (auto simp: used_set_def free_set_def)
  show "mapped A d' f = mapped A d f" if "f \<noteq> 0" "f < maxFileId A" using agree that by (simp add: mapped_def)
  show "leaf_at d' p = leaf_at d p" if "ifLeafExist A p" using ex [OF that] by (simp add: leaf_at_def get_leaf_def)
qed

text \<open>
  A start on files that hold what the allocator \<open>A\<close> last knew: the constructor reads the same state.
\<close>

lemma open_files:
  assumes E: "libpmem_ok E" and inv: "palloc_inv A d" and mp: "mappable E (dev n) [1..<unat (maxFileId A)]"
    and n: "allocator n = None" "catalogFile n = Some (maxFileId A, freeNum A, startLeaf A)"
    and agree: "\<forall>f. f \<noteq> 0 \<longrightarrow> f < maxFileId A \<longrightarrow> cur (dev n) f = cur d f"
    and fl: "freeListFile n = Some ps" "length (freeList A) \<le> length ps"
  obtains pm ip A' where "A' = A\<lparr>freeList := take (length (freeList A)) ps, fId2PmAddr := pm, fId2IsPmAddr := ip\<rparr>"
    "getAllocator E n = Some (A', n\<lparr>allocator := Some A'\<rparr>)"
    "\<And>f. f \<noteq> 0 \<Longrightarrow> f < maxFileId A \<Longrightarrow> \<exists>a. pm f = Some a \<and> take_bit 12 a = 0"
proof -
  let ?is = "[1..<unat (maxFileId A)]" and ?fl = "take (length (freeList A)) ps"
  let ?A0 = "\<lparr>startLeaf = startLeaf A, maxFileId = maxFileId A, freeNum = freeNum A,
      freeList = ?fl, fId2PmAddr = Map.empty, fId2IsPmAddr = Map.empty\<rparr>"
  have word: "of_nat i \<noteq> (0 :: u64) \<and> of_nat i < maxFileId A" if "i \<in> set ?is" for i
  proof -
    have "unat (maxFileId A) < 2 ^ 64" by (rule order.strict_trans2 [OF unsigned_less]) simp
    with that have "i < 2 ^ 64" by simp
    then have "unat (of_nat i :: u64) = i" by (simp add: unat_of_nat)
    then show ?thesis using that by (metis atLeastLessThan_iff atLeastLessThan_upt not_one_le_zero unat_0 word_less_nat_alt)
  qed
  have "\<forall>i\<in>set ?is. cur (dev n) (of_nat i) \<noteq> None"
  proof
    fix i assume i: "i \<in> set ?is"
    have "mapped A d (of_nat i)" using inv word [OF i] unfolding palloc_inv_def by blast
    then show "cur (dev n) (of_nat i) \<noteq> None" using agree word [OF i] by (auto simp: mapped_def)
  qed
  then obtain pm ip where m: "map_files E ?is ?A0 n = Some (?A0\<lparr>fId2PmAddr := pm, fId2IsPmAddr := ip\<rparr>, n)"
    "\<forall>f a. pm f = Some a \<longrightarrow> take_bit 12 a = 0" "\<forall>i\<in>set ?is. pm (of_nat i) \<noteq> None"
    by (rule map_files_spec [OF E mp, where A = ?A0]) auto
  have "read_free_list (unat (freeNum A)) None ps = Some ?fl"
    using read_free_list_take fl(2) inv by (simp add: palloc_inv_def)
  then have run: "getAllocator E n = Some (A\<lparr>freeList := ?fl, fId2PmAddr := pm, fId2IsPmAddr := ip\<rparr>,
      n\<lparr>allocator := Some (A\<lparr>freeList := ?fl, fId2PmAddr := pm, fId2IsPmAddr := ip\<rparr>)\<rparr>)"
    using n m(1) fl by (simp add: getAllocator_def newPAllocator_def initFilePmemAddr_def)
  have "\<exists>a. pm f = Some a \<and> take_bit 12 a = 0" if "f \<noteq> 0" "f < maxFileId A" for f
  proof -
    have "unat f \<in> set ?is" using that by (simp add: word_less_nat_alt unat_gt_0 Suc_leI)
    then have "pm (of_nat (unat f)) \<noteq> None" using m(3) by blast
    then show ?thesis using m(2) by auto
  qed
  then show thesis by (intro that [OF refl run])
qed

lemma open_ok:
  assumes E: "libpmem_ok E" and inv: "palloc_inv A d" and mp: "mappable E (dev n) [1..<unat (maxFileId A)]"
    and n: "allocator n = None" "catalogFile n = Some (maxFileId A, freeNum A, startLeaf A)"
    and agree: "\<forall>f. f \<noteq> 0 \<longrightarrow> f < maxFileId A \<longrightarrow> cur (dev n) f = cur d f" and ok: "free_file_ok A n"
  obtains A' where "getAllocator E n = Some (A', n\<lparr>allocator := Some A'\<rparr>)" "palloc_inv A' (dev n)"
    "used_set A' (dev n) = used_set A d" "\<And>p. p \<in> used_set A d \<Longrightarrow> leaf_at (dev n) p = leaf_at d p"
    "startLeaf A' = startLeaf A" "freeList A' = freeList A" "maxFileId A' = maxFileId A" "freeNum A' = freeNum A"
proof -
  obtain ps where fl: "freeListFile n = Some ps" "take (length (freeList A)) ps = freeList A"
    using ok by (auto simp: free_file_ok_def split: option.splits)
  from fl(2) have len: "length (freeList A) \<le> length ps" by (metis length_take min.cobounded1)
  obtain pm ip A' where r: "A' = A\<lparr>freeList := take (length (freeList A)) ps, fId2PmAddr := pm, fId2IsPmAddr := ip\<rparr>"
    "getAllocator E n = Some (A', n\<lparr>allocator := Some A'\<rparr>)"
    "\<And>f. f \<noteq> 0 \<Longrightarrow> f < maxFileId A \<Longrightarrow> \<exists>a. pm f = Some a \<and> take_bit 12 a = 0"
    by (rule open_files [OF E inv mp n agree fl(1) len]) blast
  have f: "startLeaf A' = startLeaf A" "freeList A' = freeList A" "maxFileId A' = maxFileId A" "freeNum A' = freeNum A"
    "fId2PmAddr A' = pm" using r(1) fl(2) by simp_all
  have ex: "ifLeafExist A' p = ifLeafExist A p" for p by (rule ifLeafExist_cong) (rule f(3))
  have views: "used_set A' (dev n) = used_set A d" "free_set A' (dev n) = free_set A d"
    using device_views_agree(1,2) [OF agree] by (simp_all add: used_set_def free_set_def ex)
  have "mapped A' (dev n) f" if "f \<noteq> 0" "f < maxFileId A" for f
    using r(3) [OF that] inv that agree by (auto simp: palloc_inv_def mapped_def f)
  then have "palloc_inv A' (dev n)" using inv by (simp add: palloc_inv_def views f)
  moreover have "leaf_at (dev n) p = leaf_at d p" if "p \<in> used_set A d" for p
    by (rule device_views_agree(4) [OF agree]) (use that in \<open>simp add: used_set_def\<close>)
  ultimately show thesis using that r(2) views(1) f by blast
qed

lemma deletePAllocator_files:
  assumes "libpmem_ok E" and "open_out E catalogPath"
  shows "catalogFile (deletePAllocator E A n) = Some (maxFileId A, freeNum A, startLeaf A)"
    "allocator (deletePAllocator E A n) = None" "freeListFile (deletePAllocator E A n) = freeListFile n"
    "cur (dev (deletePAllocator E A n)) = cur (dev n)"
  using assms by (simp_all add: deletePAllocator_def persistCatalog_def Let_def fold_flush_cur)

lemma deletePAllocator_durable:
  assumes E: "libpmem_ok E" and dv: "durable (dev n)"
  shows "durable (dev (deletePAllocator E A n))"
proof -
  have "durable (fold (\<lambda>i d. flush E (ifPmemAddr A (of_nat i)) (FileRegion (of_nat i)) d) is d)" if "durable d" for "is" d
    using that by (induction "is" arbitrary: d) (simp_all add: durable_def flush_okD [OF E])
  then show ?thesis using dv by (simp add: deletePAllocator_def persistCatalog_def Let_def)
qed

lemma reopen_files:
  assumes E: "libpmem_ok E" and inv: "palloc_inv A (dev n)" and out: "open_out E catalogPath"
    and mp: "\<And>d. mappable E d [1..<unat (maxFileId A)]"
    and fl: "freeListFile n = Some ps" "length (freeList A) \<le> length ps"
  obtains pm ip n' where "reopen E A n = Some (A\<lparr>freeList := take (length (freeList A)) ps,
      fId2PmAddr := pm, fId2IsPmAddr := ip\<rparr>, n')"
    "\<And>f. f \<noteq> 0 \<Longrightarrow> f < maxFileId A \<Longrightarrow> \<exists>a. pm f = Some a \<and> take_bit 12 a = 0"
    "cur (dev n') = cur (dev n)"
proof -
  note n1 = deletePAllocator_files [OF E out, of A n]
  have ag: "\<forall>f. f \<noteq> 0 \<longrightarrow> f < maxFileId A \<longrightarrow> cur (dev (deletePAllocator E A n)) f = cur (dev n) f" using n1(4) by simp
  have "freeListFile (deletePAllocator E A n) = Some ps" using n1(3) fl(1) by simp
  then obtain pm ip A' where r: "A' = A\<lparr>freeList := take (length (freeList A)) ps, fId2PmAddr := pm, fId2IsPmAddr := ip\<rparr>"
    "reopen E A n = Some (A', (deletePAllocator E A n)\<lparr>allocator := Some A'\<rparr>)"
    "\<And>f. f \<noteq> 0 \<Longrightarrow> f < maxFileId A \<Longrightarrow> \<exists>a. pm f = Some a \<and> take_bit 12 a = 0"
    unfolding reopen_def by (rule open_files [OF E inv mp n1(2,1) ag _ fl(2)]) blast
  show thesis by (rule that [OF r(2) [unfolded r(1)] r(3)]) (simp_all add: n1(4))
qed

lemma reopen_ok:
  assumes E: "libpmem_ok E" and inv: "palloc_inv A (dev n)" and out: "open_out E catalogPath"
    and mp: "\<And>d. mappable E d [1..<unat (maxFileId A)]" and ok: "free_file_ok A n"
  obtains A' n' where "reopen E A n = Some (A', n')" "palloc_inv A' (dev n')"
    "used_set A' (dev n') = used_set A (dev n)" "\<And>p. leaf_at (dev n') p = leaf_at (dev n) p"
    "startLeaf A' = startLeaf A" "freeList A' = freeList A" "maxFileId A' = maxFileId A"
proof -
  let ?n1 = "deletePAllocator E A n"
  note n1 = deletePAllocator_files [OF E out, of A n]
  have ag: "\<forall>f. f \<noteq> 0 \<longrightarrow> f < maxFileId A \<longrightarrow> cur (dev ?n1) f = cur (dev n) f" using n1(4) by simp
  have ok1: "free_file_ok A ?n1" using ok n1(3) by (simp add: free_file_ok_def)
  obtain A' where r: "getAllocator E ?n1 = Some (A', ?n1\<lparr>allocator := Some A'\<rparr>)" "palloc_inv A' (dev ?n1)"
    "used_set A' (dev ?n1) = used_set A (dev n)"
    "startLeaf A' = startLeaf A" "freeList A' = freeList A" "maxFileId A' = maxFileId A"
    by (rule open_ok [OF E inv mp n1(2,1) ag ok1]) blast
  show thesis by (rule that [of A' "?n1\<lparr>allocator := Some A'\<rparr>"])
    (use r device_views_cong(4) [OF n1(4)] in \<open>simp_all add: reopen_def\<close>)
qed

lemma getLeaf_null_entry:
  assumes "freeNum A \<noteq> 0" and "freeList A \<noteq> []" and "last (freeList A) = nullPPointer"
  shows "getLeaf E A n = Some (None, A, n)"
  using assms by (simp add: getLeaf_def takeLeaf_def getLeafPmemAddr_def ifLeafExist_def ILLEGAL_FILE_ID_def)

end
