(* ===== verification/Leaf_Pool.thy ===== *)
theory Leaf_Pool
  imports PAllocator
begin

text \<open>
  The interface the tree has to the allocator. A \<open>leaf_pool\<close> hands out leaves that are not in
  use, takes back leaves that are, refuses to take back any other pointer, and never touches the
  contents of the leaves in use. The locale proves once that every script of allocations and
  releases returns and behaves like a set of leaves, as long as the storage has room; the
  interpretation discharges its laws for \<open>PAllocator::getLeaf\<close> and \<open>PAllocator::freeLeaf\<close>.
\<close>

datatype 'p pool_op = Get | Release 'p

text \<open>What an operation answers: the leaf, or whether the leaf was taken back.\<close>

datatype 'p pool_out = Got 'p | Released bool

fun run_pool :: "('s \<Rightarrow> ('p \<times> 's) option) \<Rightarrow> ('p \<Rightarrow> 's \<Rightarrow> (bool \<times> 's) option) \<Rightarrow> 'p pool_op list \<Rightarrow> 's
    \<Rightarrow> ('p pool_out list \<times> 's) option" where
  "run_pool get release [] s = Some ([], s)"
| "run_pool get release (Get # cs) s = do {
     (p, s1) \<leftarrow> get s;
     (os, s2) \<leftarrow> run_pool get release cs s1;
     Some (Got p # os, s2) }"
| "run_pool get release (Release p # cs) s = do {
     (b, s1) \<leftarrow> release p s;
     (os, s2) \<leftarrow> run_pool get release cs s1;
     Some (Released b # os, s2) }"

text \<open>
  The script never exhausts the storage: \<open>room c s\<close> before every operation \<open>c\<close>. Nothing is
  said here about an operation that does not return.
\<close>

fun supplied :: "('p pool_op \<Rightarrow> 's \<Rightarrow> bool) \<Rightarrow> ('s \<Rightarrow> ('p \<times> 's) option) \<Rightarrow> ('p \<Rightarrow> 's \<Rightarrow> (bool \<times> 's) option)
    \<Rightarrow> 'p pool_op list \<Rightarrow> 's \<Rightarrow> bool" where
  "supplied room get release [] s = True"
| "supplied room get release (Get # cs) s = (room Get s
     \<and> (case get s of None \<Rightarrow> True | Some (p, s1) \<Rightarrow> supplied room get release cs s1))"
| "supplied room get release (Release p # cs) s = (room (Release p) s
     \<and> (case release p s of None \<Rightarrow> True | Some (b, s1) \<Rightarrow> supplied room get release cs s1))"

text \<open>
  The abstract pool: a set of leaves. An allocation may return any leaf outside it; a release
  answers whether the leaf was in it and takes it out.
\<close>

inductive set_run :: "'p set \<Rightarrow> 'p pool_op list \<Rightarrow> 'p pool_out list \<Rightarrow> 'p set \<Rightarrow> bool" where
  Done: "set_run U [] [] U"
| Get: "p \<notin> U \<Longrightarrow> set_run (insert p U) cs os V \<Longrightarrow> set_run U (Get # cs) (Got p # os) V"
| Release: "set_run (U - {p}) cs os V \<Longrightarrow> set_run U (Release p # cs) (Released (p \<in> U) # os) V"

inductive_cases set_run_GetE: "set_run U (Get # cs) os V"
inductive_cases set_run_ReleaseE: "set_run U (Release p # cs) os V"
inductive_cases set_run_NilE: "set_run U [] os V"

lemma set_run_gets:
  assumes "set_run U (replicate k Get) os V"
  shows "\<exists>ps. os = map Got ps \<and> distinct ps \<and> length ps = k \<and> set ps \<inter> U = {} \<and> V = U \<union> set ps"
  using assms
proof (induction k arbitrary: U os)
  case 0
  then show ?case by (auto elim: set_run_NilE)
next
  case (Suc k)
  from Suc.prems obtain p os' where o: "os = Got p # os'" "p \<notin> U" "set_run (insert p U) (replicate k Get) os' V"
    unfolding replicate_Suc by (auto elim: set_run_GetE)
  from Suc.IH [OF o(3)] obtain ps where "os' = map Got ps" "distinct ps" "length ps = k"
    "set ps \<inter> insert p U = {}" "V = insert p U \<union> set ps" by blast
  with o(1,2) show ?case by (intro exI [of _ "p # ps"]) auto
qed

locale leaf_pool =
  fixes get :: "'s \<Rightarrow> ('p \<times> 's) option"
    and release :: "'p \<Rightarrow> 's \<Rightarrow> (bool \<times> 's) option"
    and room :: "'p pool_op \<Rightarrow> 's \<Rightarrow> bool"
    and used :: "'s \<Rightarrow> 'p set"
    and contents :: "'s \<Rightarrow> 'p \<Rightarrow> 'c"
    and pinv :: "'s \<Rightarrow> bool"
  assumes get_law: "pinv s \<Longrightarrow> room Get s \<Longrightarrow> \<exists>p s'. get s = Some (p, s') \<and> pinv s' \<and> p \<notin> used s
      \<and> used s' = insert p (used s) \<and> (\<forall>q\<in>used s. contents s' q = contents s q)"
    and release_law: "pinv s \<Longrightarrow> room (Release p) s \<Longrightarrow> \<exists>s'. release p s = Some (p \<in> used s, s') \<and> pinv s'
      \<and> used s' = used s - {p} \<and> (\<forall>q\<in>used s'. contents s' q = contents s q)"
begin

lemma run_refines:
  "pinv s \<Longrightarrow> supplied room get release cs s \<Longrightarrow>
    \<exists>os s'. run_pool get release cs s = Some (os, s') \<and> pinv s' \<and> set_run (used s) cs os (used s')
      \<and> (\<forall>q\<in>used s. Release q \<notin> set cs \<longrightarrow> q \<in> used s' \<and> contents s' q = contents s q)"
proof (induction cs arbitrary: s)
  case Nil
  then show ?case by (auto intro: set_run.intros)
next
  case (Cons c cs)
  show ?case
  proof (cases c)
    case Get
    with Cons.prems get_law obtain p s1 where g: "get s = Some (p, s1)" "pinv s1" "p \<notin> used s"
      "used s1 = insert p (used s)" "\<forall>q\<in>used s. contents s1 q = contents s q" by fastforce
    with Cons.IH [of s1] Cons.prems(2) Get show ?thesis by (fastforce intro: set_run.intros)
  next
    case (Release p)
    with Cons.prems release_law obtain s1 where r: "release p s = Some (p \<in> used s, s1)" "pinv s1"
      "used s1 = used s - {p}" "\<forall>q\<in>used s1. contents s1 q = contents s q" by fastforce
    with Cons.IH [of s1] Cons.prems(2) Release show ?thesis by (fastforce intro: set_run.intros)
  qed
qed

end

section \<open>PAllocator is a leaf pool\<close>

text \<open>
  The pool operations of the allocator are \<open>getLeaf\<close>, where a null pointer counts as no answer,
  and \<open>freeLeaf\<close>. There is room for an allocation if a leaf is free or a group can be added, and
  for a release if \<open>freeNum\<close> does not wrap around.
\<close>

definition pool_get :: "env \<Rightarrow> PAllocator \<times> nvm \<Rightarrow> (PPointer \<times> PAllocator \<times> nvm) option" where
  "pool_get E s = (case getLeaf E (fst s) (snd s) of Some (Some (p, a), s') \<Rightarrow> Some (p, s') | _ \<Rightarrow> None)"

definition pool_release :: "env \<Rightarrow> PPointer \<Rightarrow> PAllocator \<times> nvm \<Rightarrow> (bool \<times> PAllocator \<times> nvm) option" where
  "pool_release E p s = freeLeaf E p (fst s) (snd s)"

definition pool_room :: "env \<Rightarrow> PPointer pool_op \<Rightarrow> PAllocator \<times> nvm \<Rightarrow> bool" where
  "pool_room E c s = (case c of Get \<Rightarrow> leaf_available E (fst s) (snd s)
     | Release p \<Rightarrow> unat (freeNum (fst s)) + 1 < 2 ^ 64)"

definition pool_used :: "PAllocator \<times> nvm \<Rightarrow> PPointer set" where
  "pool_used s = used_set (fst s) (dev (snd s))"

definition pool_contents :: "PAllocator \<times> nvm \<Rightarrow> PPointer \<Rightarrow> leaf_image option \<times> u64 option" where
  "pool_contents s p = (leaf_at (dev (snd s)) p, getLeafPmemAddr (fst s) p)"

definition pool_inv :: "env \<Rightarrow> PAllocator \<times> nvm \<Rightarrow> bool" where
  "pool_inv E s \<longleftrightarrow> libpmem_ok E \<and> palloc_inv (fst s) (dev (snd s))"

lemma pool_get_law:
  assumes "pool_inv E s" and "pool_room E Get s"
  shows "\<exists>p s'. pool_get E s = Some (p, s') \<and> pool_inv E s' \<and> p \<notin> pool_used s
    \<and> pool_used s' = insert p (pool_used s) \<and> (\<forall>q\<in>pool_used s. pool_contents s' q = pool_contents s q)"
proof -
  have h: "libpmem_ok E" "palloc_inv (fst s) (dev (snd s))" "leaf_available E (fst s) (snd s)"
    using assms by (auto simp: pool_inv_def pool_room_def)
  show ?thesis
    by (rule getLeaf_spec [OF h])
      (use h in \<open>auto simp: pool_inv_def pool_get_def pool_used_def pool_contents_def leaves_kept_def\<close>)
qed

lemma pool_release_law:
  assumes "pool_inv E s" and "pool_room E (Release p) s"
  shows "\<exists>s'. pool_release E p s = Some (p \<in> pool_used s, s') \<and> pool_inv E s'
    \<and> pool_used s' = pool_used s - {p} \<and> (\<forall>q\<in>pool_used s'. pool_contents s' q = pool_contents s q)"
proof (cases "p \<in> pool_used s")
  case True
  then have h: "libpmem_ok E" "palloc_inv (fst s) (dev (snd s))" "p \<in> used_set (fst s) (dev (snd s))"
      "unat (freeNum (fst s)) + 1 < 2 ^ 64"
    using assms by (auto simp: pool_inv_def pool_room_def pool_used_def)
  show ?thesis
    by (rule freeLeaf_spec [OF h])
      (use h in \<open>auto simp: pool_inv_def pool_release_def pool_used_def pool_contents_def leaves_kept_def\<close>)
next
  case False
  then have "pool_release E p s = Some (False, s)"
    using assms(1) by (simp add: pool_release_def pool_inv_def pool_used_def freeLeaf_unused)
  with False assms(1) show ?thesis by auto
qed

interpretation lp: leaf_pool "pool_get E" "pool_release E" "pool_room E" pool_used pool_contents "pool_inv E" for E
  by unfold_locales (rule pool_get_law pool_release_law; assumption)+

section \<open>A fresh allocator\<close>

text \<open>The state after the first start in an empty directory, for the witnesses.\<close>

definition fresh_nvm :: nvm where
  "fresh_nvm = \<lparr>allocator = None, dev = \<lparr>cur = Map.empty, dur = Map.empty\<rparr>,
     catalogFile = Some (1, 0, nullPPointer), freeListFile = Some []\<rparr>"

definition fresh_alloc :: PAllocator where
  "fresh_alloc = \<lparr>startLeaf = nullPPointer, maxFileId = 1, freeNum = 0, freeList = [],
     fId2PmAddr = Map.empty, fId2IsPmAddr = Map.empty\<rparr>"

lemma fresh_fields [simp]: "startLeaf fresh_alloc = nullPPointer" "maxFileId fresh_alloc = 1"
  "freeNum fresh_alloc = 0" "freeList fresh_alloc = []"
  by (simp_all add: fresh_alloc_def)

lemma u64_less_1 [simp]: "f < (1 :: u64) \<longleftrightarrow> f = 0"
  by (simp add: word_less_nat_alt unat_0_iff)

lemma fresh_inv: "palloc_inv fresh_alloc (dev fresh_nvm)"
  by (auto simp: palloc_inv_def free_set_def ifLeafExist_iff)

lemma fresh_unused: "used_set fresh_alloc (dev fresh_nvm) = {}"
  by (auto simp: used_set_def ifLeafExist_iff)

lemma fresh_durable: "durable (dev fresh_nvm)"
  by (simp add: durable_def synced_def fresh_nvm_def)

lemma fresh_available: "leaf_available ideal_env fresh_alloc fresh_nvm"
  by (simp add: leaf_available_def can_grow_def ideal_env_def)

lemma fresh_first_start:
  "getAllocator ideal_env (fresh_nvm\<lparr>catalogFile := None, freeListFile := None\<rparr>)
    = Some (fresh_alloc, fresh_nvm\<lparr>allocator := Some fresh_alloc\<rparr>)"
  by (simp add: getAllocator_def newPAllocator_def fresh_nvm_def fresh_alloc_def ideal_env_def
      persistCatalog_def initFilePmemAddr_def Let_def ILLEGAL_FILE_ID_def)

section \<open>Properties\<close>

text \<open>
  A persistent pointer names an existing leaf exactly when its file is one of the files
  \<open>1 .. maxFileId - 1\<close> and its offset is that of one of the sixteen leaves after the header; the
  wrap-around of \<open>p.offset - LEAF_GROUP_HEAD\<close> for offsets inside the header lets none through.
\<close>

theorem ifLeafExist_correct:
  "ifLeafExist A p \<longleftrightarrow> fileId p \<noteq> ILLEGAL_FILE_ID \<and> fileId p < maxFileId A
     \<and> (\<exists>i<LEAF_GROUP_AMOUNT. unat (offset p) = unat LEAF_GROUP_HEAD + i * unat calLeafSize)"
proof -
  have "unat (offset p) = 24 + i * 1934 \<longleftrightarrow> p = leaf_pp (fileId p) i" if "i < 16" for i
    using unat_offset_leaf_pp [OF that, of "fileId p"]
    by (metis PPointer.equality fileId_leaf_pp old.unit.exhaust word_unat_eq_iff)
  then have "(\<exists>i<16. unat (offset p) = 24 + i * 1934) \<longleftrightarrow> (\<exists>i<16. p = leaf_pp (fileId p) i)"
    by blast
  then show ?thesis
    unfolding ifLeafExist_iff fp_consts by (simp add: fp_consts) (metis fileId_leaf_pp)
qed

text \<open>
  C18: when a leaf is free, or a group can be added, \<open>getLeaf\<close> succeeds. The leaf it returns was
  not in use, is in use afterwards, is zeroed and has a non-null address; all other leaves in
  use keep their contents and addresses; the invariant of the allocator holds again; the leaf
  becomes the start leaf exactly if the old start leaf was not in use; and everything written
  is durable when the function returns.
\<close>

theorem getLeaf_correct:
  assumes "libpmem_ok E" and "palloc_inv A (dev n)" and "leaf_available E A n" and "durable (dev n)"
  shows "\<exists>p a A' n'. getLeaf E A n = Some (Some (p, a), A', n') \<and> palloc_inv A' (dev n')
    \<and> p \<notin> used_set A (dev n) \<and> used_set A' (dev n') = insert p (used_set A (dev n))
    \<and> getLeafPmemAddr A' p = Some a \<and> a \<noteq> 0 \<and> leaf_at (dev n') p = Some zero_leaf
    \<and> leaves_kept (used_set A (dev n)) A (dev n) A' (dev n')
    \<and> startLeaf A' = (if startLeaf A \<in> used_set A (dev n) then startLeaf A else p) \<and> durable (dev n')"
proof -
  obtain p a A' n' where r: "getLeaf E A n = Some (Some (p, a), A', n')"
    "palloc_inv A' (dev n')" "p \<notin> used_set A (dev n)" "used_set A' (dev n') = insert p (used_set A (dev n))"
    "getLeafPmemAddr A' p = Some a" "take_bit 12 a \<noteq> 0" "leaf_at (dev n') p = Some zero_leaf"
    "leaves_kept (used_set A (dev n)) A (dev n) A' (dev n')"
    "startLeaf A' = (if startLeaf A \<in> used_set A (dev n) then startLeaf A else p)" "durable (dev n')"
    by (rule getLeaf_spec [OF assms(1-3)]) (use assms(4) in blast)
  moreover have "a \<noteq> 0" using r(6) by auto
  ultimately show ?thesis by (intro exI conjI)
qed

theorem getLeaf_correct_witness:
  "\<exists>p a A' n'. getLeaf ideal_env fresh_alloc fresh_nvm = Some (Some (p, a), A', n')
     \<and> palloc_inv A' (dev n') \<and> used_set A' (dev n') = {p} \<and> startLeaf A' = p \<and> durable (dev n')"
  using getLeaf_correct [OF libpmem_ok_ideal fresh_inv fresh_available fresh_durable]
  by (auto simp: fresh_unused)

text \<open>One leaf taken from a fresh allocator.\<close>

lemma one_leaf:
  obtains p a A n where "getLeaf ideal_env fresh_alloc fresh_nvm = Some (Some (p, a), A, n)"
    "palloc_inv A (dev n)" "used_set A (dev n) = {p}" "length (freeList A) = 15" "durable (dev n)"
    "free_file_ok A n" "maxFileId A = 2" "leaf_at (dev n) p = Some zero_leaf" "startLeaf A = p"
proof -
  have grow: "can_grow ideal_env fresh_alloc fresh_nvm"
    using fresh_available by (simp add: leaf_available_def)
  have room: "unat (freeNum fresh_alloc) + 16 < 2 ^ 64" by simp
  obtain A1 n1 where g: "newLeafGroup ideal_env fresh_alloc fresh_nvm = (True, A1, n1)"
    "palloc_inv A1 (dev n1)" "used_set A1 (dev n1) = {}" "startLeaf A1 = startLeaf fresh_alloc"
    "freeList A1 = group_pointers 1" "maxFileId A1 = 2" "durable (dev n1)"
    "freeListFile n1 = Some (group_pointers 1)"
    by (rule newLeafGroup_spec [OF libpmem_ok_ideal fresh_inv grow room])
      (simp add: fresh_unused fresh_durable)
  have ne: "freeNum A1 \<noteq> 0"
    using g(2,5) by (auto simp: palloc_inv_def group_pointers_def LEAF_GROUP_AMOUNT_def)
  obtain p a A' d' where t: "takeLeaf ideal_env A1 n1 = Some (Some (p, a), A', n1\<lparr>dev := d'\<rparr>)"
    "palloc_inv A' d'" "used_set A' d' = insert p (used_set A1 (dev n1))"
    "leaf_at d' p = Some zero_leaf" "startLeaf A' = p"
    "freeList A' = butlast (freeList A1)" "maxFileId A' = maxFileId A1" "durable d'"
    by (rule takeLeaf_spec [OF libpmem_ok_ideal g(2) ne]) (use g in auto)
  have run: "getLeaf ideal_env fresh_alloc fresh_nvm = Some (Some (p, a), A', n1\<lparr>dev := d'\<rparr>)"
    using t(1) g(1) by (simp add: getLeaf_def)
  show thesis
    by (rule that [OF run])
      (use t g in \<open>simp_all add: free_file_ok_def group_pointers_def LEAF_GROUP_AMOUNT_def butlast_conv_take\<close>)
qed

text \<open>
  C20: closing the allocator and opening it again restores it. If the free list file holds the
  free list (which \<open>getLeaf\<close> keeps true and \<open>freeLeaf\<close> does not), the catalog can be written and the
  files of the groups can be mapped, the new object has the same start leaf, free list and
  leaves in use, all leaves have the contents they had, and the invariant holds.
\<close>

theorem reopen_roundtrip:
  assumes "libpmem_ok E" and "palloc_inv A (dev n)" and "open_out E catalogPath"
    and "\<And>d. mappable E d [1..<unat (maxFileId A)]" and "free_file_ok A n"
  shows "\<exists>A' n'. reopen E A n = Some (A', n') \<and> palloc_inv A' (dev n')
    \<and> used_set A' (dev n') = used_set A (dev n) \<and> (\<forall>p. leaf_at (dev n') p = leaf_at (dev n) p)
    \<and> startLeaf A' = startLeaf A \<and> freeList A' = freeList A \<and> maxFileId A' = maxFileId A"
  by (rule reopen_ok [OF assms]) blast

lemma mappable_ideal: "mappable ideal_env d is"
  by (simp add: mappable_def ideal_env_def)

theorem reopen_roundtrip_witness:
  "\<exists>p A n A' n'. used_set A (dev n) = {p} \<and> reopen ideal_env A n = Some (A', n')
     \<and> used_set A' (dev n') = {p} \<and> leaf_at (dev n') p = Some zero_leaf \<and> startLeaf A' = p
     \<and> length (freeList A') = 15"
proof -
  obtain p a A n where h: "getLeaf ideal_env fresh_alloc fresh_nvm = Some (Some (p, a), A, n)"
    "palloc_inv A (dev n)" "used_set A (dev n) = {p}" "length (freeList A) = 15"
    "free_file_ok A n" "leaf_at (dev n) p = Some zero_leaf" "startLeaf A = p"
    by (rule one_leaf)
  have "open_out ideal_env catalogPath" by (simp add: ideal_env_def)
  from reopen_roundtrip [OF libpmem_ok_ideal h(2) this mappable_ideal h(5)] h show ?thesis
    by metis
qed

text \<open>
  C21: \<open>freeLeaf\<close> loses the free list file. It opens the file with \<open>ios::out\<close>, which empties
  it, and writes one entry at position \<open>freeNum\<close>: after closing and opening the allocator the
  older free leaves are null pointers, and once the freed leaf is taken \<open>getLeaf\<close> fails for
  good although leaves are free.
\<close>

theorem freeLeaf_loses_free_list:
  assumes "libpmem_ok E" and "palloc_inv A (dev n)" and "p \<in> used_set A (dev n)"
    and "unat (freeNum A) + 1 < 2 ^ 64" and "open_out E catalogPath" and "open_out E freeListPath"
    and "\<And>d k. mappable E d [1..<k]"
  shows "\<exists>A1 n1 A2 n2. freeLeaf E p A n = Some (True, A1, n1) \<and> freeList A1 = freeList A @ [p]
    \<and> reopen E A1 n1 = Some (A2, n2) \<and> freeList A2 = replicate (length (freeList A)) nullPPointer @ [p]
    \<and> (\<forall>A3 n3. freeList A3 = butlast (freeList A2) \<longrightarrow> unat (freeNum A3) = length (freeList A3) \<longrightarrow>
        freeList A \<noteq> [] \<longrightarrow> getLeaf E A3 n3 = Some (None, A3, n3))"
proof -
  obtain A1 n1 l where f: "freeLeaf E p A n = Some (True, A1, n1)" "palloc_inv A1 (dev n1)"
    "freeList A1 = freeList A @ [p]" "freeListFile n1 = Some (replicate (unat (freeNum A)) nullPPointer @ [p])"
    by (rule freeLeaf_spec [OF assms(1-4)]) (use assms(6) in blast)
  have len: "unat (freeNum A) = length (freeList A)" using assms(2) by (simp add: palloc_inv_def)
  obtain A2 n2 where r: "reopen E A1 n1 = Some (A2, n2)"
    "freeList A2 = take (length (freeList A1)) (replicate (unat (freeNum A)) nullPPointer @ [p])"
    by (rule reopen_files [OF assms(1) f(2) assms(5) assms(7) f(4)]) (use f(3) len in auto)
  have fl: "freeList A2 = replicate (length (freeList A)) nullPPointer @ [p]"
    using r(2) f(3) len by simp
  have "getLeaf E A3 n3 = Some (None, A3, n3)"
    if "freeList A3 = butlast (freeList A2)" "unat (freeNum A3) = length (freeList A3)" "freeList A \<noteq> []" for A3 n3
    by (rule getLeaf_null_entry) (use that fl in auto)
  with f(1,3) r(1) fl show ?thesis by blast
qed

theorem freeLeaf_loses_free_list_witness:
  "\<exists>p A n A1 n1 A2 n2. length (freeList A) = 15 \<and> freeLeaf ideal_env p A n = Some (True, A1, n1)
     \<and> reopen ideal_env A1 n1 = Some (A2, n2) \<and> freeList A2 = replicate 15 nullPPointer @ [p]"
proof -
  obtain p a A n where h: "getLeaf ideal_env fresh_alloc fresh_nvm = Some (Some (p, a), A, n)"
    "palloc_inv A (dev n)" "used_set A (dev n) = {p}" "length (freeList A) = 15"
    by (rule one_leaf)
  have "open_out ideal_env catalogPath" "open_out ideal_env freeListPath" by (simp_all add: ideal_env_def)
  moreover have "p \<in> used_set A (dev n)" "unat (freeNum A) + 1 < 2 ^ 64"
    using h(2,3,4) by (simp_all add: palloc_inv_def)
  ultimately show ?thesis
    using freeLeaf_loses_free_list [OF libpmem_ok_ideal h(2) _ _ _ _ mappable_ideal, of p] h(4) by metis
qed

text \<open>
  C19: every script of allocations and releases returns and is a run of the abstract pool, as
  long as a leaf is free or a group can be added before each allocation, and \<open>freeNum\<close> does not
  wrap around at a release: each \<open>getLeaf\<close> returns a leaf outside the current set of leaves in
  use; each \<open>freeLeaf\<close> takes its leaf out of the set and returns true, or returns false if the
  pointer is not that of a leaf in use; and a leaf that the script does not release stays in use
  with its contents and its address.
\<close>

theorem allocator_refines_pool:
  assumes "pool_inv E s" and "supplied (pool_room E) (pool_get E) (pool_release E) cs s"
  shows "\<exists>os s'. run_pool (pool_get E) (pool_release E) cs s = Some (os, s')
    \<and> pool_inv E s' \<and> set_run (pool_used s) cs os (pool_used s')
    \<and> (\<forall>q\<in>pool_used s. Release q \<notin> set cs \<longrightarrow> q \<in> pool_used s' \<and> pool_contents s' q = pool_contents s q)"
  by (rule lp.run_refines [OF assms])

theorem allocator_refines_pool_witness:
  "\<exists>p q os s. run_pool (pool_get ideal_env) (pool_release ideal_env) [Get, Release p, Release p, Get]
       (fresh_alloc, fresh_nvm) = Some (os, s) \<and> os = [Got p, Released True, Released False, Got q]
     \<and> pool_inv ideal_env s \<and> pool_used s = {q}"
proof -
  obtain p a A n where h: "getLeaf ideal_env fresh_alloc fresh_nvm = Some (Some (p, a), A, n)"
    "palloc_inv A (dev n)" "used_set A (dev n) = {p}" "length (freeList A) = 15"
    by (rule one_leaf)
  have room: "unat (freeNum A) + 1 < 2 ^ 64" using h(2,4) by (simp add: palloc_inv_def)
  have p: "p \<in> used_set A (dev n)" using h(3) by simp
  obtain A1 n1 where f: "freeLeaf ideal_env p A n = Some (True, A1, n1)" "palloc_inv A1 (dev n1)"
    "used_set A1 (dev n1) = {}" "freeList A1 = freeList A @ [p]"
    by (rule freeLeaf_spec [OF libpmem_ok_ideal h(2) p room]) (use h(3) in simp)
  have f2: "freeLeaf ideal_env p A1 n1 = Some (False, A1, n1)"
    using f(2,3) by (simp add: freeLeaf_unused)
  have n1: "unat (freeNum A1) = 16" using f(2,4) h(4) by (simp add: palloc_inv_def)
  then have "leaf_available ideal_env A1 n1" by (auto simp: leaf_available_def)
  with n1 have "supplied (pool_room ideal_env) (pool_get ideal_env) (pool_release ideal_env)
      [Get, Release p, Release p, Get] (fresh_alloc, fresh_nvm)"
    using h(1) room f(1) f2
    by (simp add: pool_room_def pool_get_def pool_release_def fresh_available split: option.splits)
  moreover have "pool_inv ideal_env (fresh_alloc, fresh_nvm)" "pool_used (fresh_alloc, fresh_nvm) = {}"
    by (simp_all add: pool_inv_def pool_used_def libpmem_ok_ideal fresh_inv fresh_unused)
  ultimately obtain os s where r: "run_pool (pool_get ideal_env) (pool_release ideal_env)
      [Get, Release p, Release p, Get] (fresh_alloc, fresh_nvm) = Some (os, s)" "pool_inv ideal_env s"
      "set_run {} [Get, Release p, Release p, Get] os (pool_used s)"
    using allocator_refines_pool [of ideal_env "(fresh_alloc, fresh_nvm)" "[Get, Release p, Release p, Get]"]
    by metis
  moreover have "\<exists>os'. os = Got p # os'"
    using r(1) h(1) by (auto simp: pool_get_def bind_eq_Some_conv)
  then have "\<exists>q. os = [Got p, Released True, Released False, Got q] \<and> pool_used s = {q}"
    using r(3) by (auto elim!: set_run_GetE set_run_ReleaseE set_run_NilE)
  ultimately show ?thesis by blast
qed

end
