(* ===== verification/Nodes.thy ===== *)
theory Nodes
  imports Leaf_Pool
begin

text \<open>
  The classes of \<open>include/fptree/fptree.h\<close> and the memory they live in: \<open>Node\<close> with its two
  subclasses as records, the C++ heap as a map from addresses to objects, and the world of the
  program, i.e. the heap, the allocator with the persistent memory, and the tree object (its
  \<open>root\<close> and \<open>degree\<close>). The field \<open>isLeaf\<close> is the constructor of \<open>node\<close>; the field
  \<open>tree\<close> is the one tree of the world.
\<close>

record Node =
  degree :: int

text \<open>\<open>keys\<close> is \<open>new Key[2*d + 1]\<close> and \<open>childrens\<close> is \<open>new Node*[2*d + 2]\<close>.\<close>

record InnerNode = Node +
  isRoot :: bool
  nKeys :: int
  nChild :: int
  keys :: "u64 option list"
  childrens :: "addr option list"

text \<open>
  The pointers \<open>bitmap\<close>, \<open>pNext\<close>, \<open>fingerprints\<close> and \<open>kv\<close> of the class point into the leaf at
  \<open>pmem_addr\<close>, see \<open>leaf_mem\<close> below.
\<close>

record LeafNode = Node +
  pmem_addr :: u64
  nEntries :: int
  prev :: addr
  "next" :: addr
  pPointer :: PPointer
  filePath :: string
  bitmapSize :: u64

text \<open>
  \<open>RawLeaf\<close> is a leaf whose constructor returned early because no leaf could be allocated:
  its fields are indeterminate.
\<close>

datatype node = Inner InnerNode | Leaf LeafNode | RawLeaf

record KeyNode =
  key :: u64
  node :: addr

record world =
  nv :: nvm
  heap :: "addr \<Rightarrow> node option"
  brk :: addr
  root :: addr
  tree_degree :: u64

section \<open>Objects\<close>

text \<open>\<open>new\<close> returns an address that no object had before; \<open>delete\<close> ends the object.\<close>

definition alloc :: "node \<Rightarrow> world \<Rightarrow> addr \<times> world" where
  "alloc obj w = (brk w, w\<lparr>heap := (heap w)(brk w \<mapsto> obj), brk := brk w + 1\<rparr>)"

definition put_node :: "addr \<Rightarrow> node \<Rightarrow> world \<Rightarrow> world" where
  "put_node a obj w = w\<lparr>heap := (heap w)(a \<mapsto> obj)\<rparr>"

definition dispose :: "addr \<Rightarrow> world \<Rightarrow> world" where
  "dispose a w = w\<lparr>heap := (heap w)(a := None)\<rparr>"

definition get_inner :: "world \<Rightarrow> addr \<Rightarrow> InnerNode option" where
  "get_inner w a = (case heap w a of Some (Inner x) \<Rightarrow> Some x | _ \<Rightarrow> None)"

definition get_leafnode :: "world \<Rightarrow> addr \<Rightarrow> LeafNode option" where
  "get_leafnode w a = (case heap w a of Some (Leaf l) \<Rightarrow> Some l | _ \<Rightarrow> None)"

definition ifLeaf :: "world \<Rightarrow> addr \<Rightarrow> bool option" where
  "ifLeaf w a = (case heap w a of Some (Inner x) \<Rightarrow> Some False | Some _ \<Rightarrow> Some True | None \<Rightarrow> None)"

text \<open>\<open>FPTree::getRoot\<close> and \<open>FPTree::changeRoot\<close>\<close>

definition getRoot :: "world \<Rightarrow> addr" where
  "getRoot w = root w"

definition changeRoot :: "addr \<Rightarrow> world \<Rightarrow> world" where
  "changeRoot newRoot w = w\<lparr>root := newRoot\<rparr>"

section \<open>The memory of a leaf\<close>

text \<open>
  The leaf in persistent memory an object's pointers point to. They are valid while the
  allocator has the leaf's file mapped at the address the object was built with.
\<close>

definition leaf_valid :: "LeafNode \<Rightarrow> world \<Rightarrow> bool" where
  "leaf_valid l w = (case allocator (nv w) of None \<Rightarrow> False
     | Some A \<Rightarrow> pmem_addr l \<noteq> 0 \<and> getLeafPmemAddr A (pPointer l) = Some (pmem_addr l))"

definition leaf_mem :: "LeafNode \<Rightarrow> world \<Rightarrow> leaf_image option" where
  "leaf_mem l w = (if leaf_valid l w
     then get_leaf (fileId (pPointer l)) (leaf_index (pPointer l)) (dev (nv w)) else None)"

definition set_leaf_mem :: "LeafNode \<Rightarrow> leaf_image \<Rightarrow> world \<Rightarrow> world option" where
  "set_leaf_mem l m w = (if leaf_valid l w
     then do {
       d \<leftarrow> put_leaf (fileId (pPointer l)) (leaf_index (pPointer l)) m (dev (nv w));
       Some (w\<lparr>nv := (nv w)\<lparr>dev := d\<rparr>\<rparr>) }
     else None)"

end
