(* ===== verification/LeafNode.thy ===== *)
theory LeafNode
  imports Nodes "HOL-Library.Multiset"
begin

text \<open>
  The class \<open>LeafNode\<close> of \<open>src/fptree.cpp\<close>. Its operations on the leaf in persistent memory
  come first (\<open>getBit\<close>, \<open>findFirstZero\<close>, the search of a slot by fingerprint and key,
  \<open>findSplitKey\<close>, the copy loop of \<open>split\<close>), as functions on \<open>leaf_image\<close>; then the member
  functions, which read and write that memory, the object and the allocator. A leaf in use is
  described by the list of its entries; every operation is shown to do to the entries what its
  comment says.
\<close>

section \<open>The leaf in memory\<close>

definition bit_mask :: "int \<Rightarrow> u8" where
  "bit_mask i = push_bit (nat (7 - i mod 8)) 1"

definition getBit :: "int \<Rightarrow> leaf_image \<Rightarrow> int \<Rightarrow> int option" where
  "getBit d m idx =
     (if idx < 0 \<or> idx \<ge> d * 2 then Some 0
      else do {
        b \<leftarrow> rd (bitmap m) (idx div 8);
        Some (if b AND bit_mask idx = 0 then 0 else 1) })"

definition findFirstZero :: "int \<Rightarrow> leaf_image \<Rightarrow> int option" where
  "findFirstZero d m = find_up 0 (d * 2) (\<lambda>i. do { b \<leftarrow> getBit d m i; Some (b = 0) })"

text \<open>\<open>getBit(i) && hash == fingerprints[i]\<close>, then \<open>k == kv[i].k\<close>.\<close>

definition match_slot :: "int \<Rightarrow> leaf_image \<Rightarrow> u8 \<Rightarrow> u64 \<Rightarrow> int \<Rightarrow> bool option" where
  "match_slot d m hash k i = do {
     b \<leftarrow> getBit d m i;
     (if b = 0 then Some False else do {
        f \<leftarrow> rd (fingerprints m) i;
        (if hash \<noteq> f then Some False else do {
           e \<leftarrow> rd (kv m) i;
           Some (k = fst e) }) }) }"

definition find_slot :: "int \<Rightarrow> leaf_image \<Rightarrow> u64 \<Rightarrow> int option" where
  "find_slot d m k = do { hash \<leftarrow> keyHash k; find_up 0 (d * 2) (match_slot d m hash k) }"

text \<open>\<open>bitmap[i / 8] |= (1 << (7 - i % 8))\<close> and \<open>bitmap[i / 8] &= ~(1 << (7 - i % 8))\<close>\<close>

definition set_bit8 :: "u8 list \<Rightarrow> int \<Rightarrow> u8 list option" where
  "set_bit8 bm i = do { b \<leftarrow> rd bm (i div 8); wr bm (i div 8) (b OR bit_mask i) }"

definition clear_bit8 :: "u8 list \<Rightarrow> int \<Rightarrow> u8 list option" where
  "clear_bit8 bm i = do { b \<leftarrow> rd bm (i div 8); wr bm (i div 8) (b AND NOT (bit_mask i)) }"

text \<open>The stores of \<open>insertNonFull\<close> into slot \<open>pos\<close>.\<close>

definition fill_slot :: "leaf_image \<Rightarrow> int \<Rightarrow> u64 \<Rightarrow> u64 \<Rightarrow> leaf_image option" where
  "fill_slot m pos k v = do {
     bm \<leftarrow> set_bit8 (bitmap m) pos;
     hash \<leftarrow> keyHash k;
     fp \<leftarrow> wr (fingerprints m) pos hash;
     es \<leftarrow> wr (kv m) pos (k, v);
     Some (m\<lparr>bitmap := bm, fingerprints := fp, kv := es\<rparr>) }"

text \<open>\<open>findSplitKey\<close> copies the keys, sorts them and takes the one in the middle.\<close>

definition findSplitKey :: "leaf_image \<Rightarrow> u64 option" where
  "findSplitKey m =
     (if int (length (kv m)) < LEAF_DEGREE * 2 then None
      else Some (sort (map fst (take (nat (LEAF_DEGREE * 2)) (kv m))) ! nat LEAF_DEGREE))"

text \<open>The loop of \<open>split\<close> that moves the entries not below \<open>midKey\<close>, with \<open>newBitmap\<close>.\<close>

definition split_step :: "leaf_image \<Rightarrow> u64 \<Rightarrow> int \<Rightarrow> u8 list \<times> leaf_image \<Rightarrow> (u8 list \<times> leaf_image) option" where
  "split_step m midKey i s = (case s of (newBitmap, newLeaf) \<Rightarrow> do {
     e \<leftarrow> rd (kv m) i;
     (if fst e \<ge> midKey then do {
        bm \<leftarrow> set_bit8 newBitmap i;
        f \<leftarrow> rd (fingerprints m) i;
        fp \<leftarrow> wr (fingerprints newLeaf) i f;
        es \<leftarrow> wr (kv newLeaf) i e;
        Some (bm, newLeaf\<lparr>fingerprints := fp, kv := es\<rparr>)
      } else Some (newBitmap, newLeaf)) })"

definition split_loop :: "int \<Rightarrow> leaf_image \<Rightarrow> u64 \<Rightarrow> leaf_image \<Rightarrow> (u8 list \<times> leaf_image) option" where
  "split_loop d m midKey newLeaf = for_up 0 (d * 2) (split_step m midKey) (replicate 14 0, newLeaf)"

section \<open>Member functions\<close>

definition persist :: "env \<Rightarrow> LeafNode \<Rightarrow> world \<Rightarrow> world option" where
  "persist E l w = do {
     (A, n1) \<leftarrow> getAllocator E (nv w);
     (if leaf_valid l (w\<lparr>nv := n1\<rparr>)
      then Some (w\<lparr>nv := n1\<lparr>dev := flush E (ifPmemAddr A (fileId (pPointer l)))
             (LeafRegion (fileId (pPointer l)) (leaf_index (pPointer l))) (dev n1)\<rparr>\<rparr>)
      else None) }"

definition bitmap_bytes :: u64 where
  "bitmap_bytes = of_int ((LEAF_DEGREE * 2 + 7) div 8)"

text \<open>\<open>LeafNode(FPTree* tree)\<close>: a new leaf.\<close>

definition newLeafNode :: "env \<Rightarrow> world \<Rightarrow> (addr \<times> world) option" where
  "newLeafNode E w = do {
     (A, n1) \<leftarrow> getAllocator E (nv w);
     (r, A1, n2) \<leftarrow> getLeaf E A n1;
     let w1 = w\<lparr>nv := n2\<lparr>allocator := Some A1\<rparr>\<rparr>;
     (case r of
        None \<Rightarrow> Some (alloc RawLeaf w1)
      | Some (ppt, pmem) \<Rightarrow> Some (alloc (Leaf \<lparr>degree = LEAF_DEGREE, pmem_addr = pmem, nEntries = 0,
            prev = NULL, next = NULL, pPointer = ppt, filePath = DATA_DIR @ to_string (fileId ppt),
            bitmapSize = bitmap_bytes\<rparr>) w1)) }"

text \<open>\<open>LeafNode(PPointer p, FPTree* t)\<close>: a leaf read back from persistent memory.\<close>

definition loadLeafNode :: "env \<Rightarrow> PPointer \<Rightarrow> world \<Rightarrow> (addr \<times> world) option" where
  "loadLeafNode E p w = do {
     (A, n1) \<leftarrow> getAllocator E (nv w);
     let w1 = w\<lparr>nv := n1\<rparr>;
     a \<leftarrow> getLeafPmemAddr A p;
     let l = \<lparr>degree = LEAF_DEGREE, pmem_addr = a, nEntries = 0, prev = NULL, next = NULL, pPointer = p,
        filePath = DATA_DIR @ to_string (fileId p), bitmapSize = bitmap_bytes\<rparr>;
     m \<leftarrow> leaf_mem l w1;
     cnt \<leftarrow> for_up 0 (uint bitmap_bytes)
        (\<lambda>i c. do { b \<leftarrow> rd (bitmap m) i; Some (c + uint (countOneBits b)) }) 0;
     Some (alloc (Leaf (l\<lparr>nEntries := cnt\<rparr>)) w1) }"

text \<open>\<open>delete leaf\<close>: the destructor persists the leaf.\<close>

definition deleteLeafNode :: "env \<Rightarrow> addr \<Rightarrow> world \<Rightarrow> world option" where
  "deleteLeafNode E a w = do {
     l \<leftarrow> get_leafnode w a;
     w1 \<leftarrow> persist E l w;
     Some (dispose a w1) }"

definition LeafNode_insertNonFull :: "env \<Rightarrow> addr \<Rightarrow> u64 \<Rightarrow> u64 \<Rightarrow> world \<Rightarrow> world option" where
  "LeafNode_insertNonFull E a k v w = do {
     l \<leftarrow> get_leafnode w a;
     m \<leftarrow> leaf_mem l w;
     pos \<leftarrow> findFirstZero (degree l) m;
     (if pos < 0 \<or> pos \<ge> degree l * 2 then Some w
      else do {
        m1 \<leftarrow> fill_slot m pos k v;
        w1 \<leftarrow> set_leaf_mem l m1 w;
        let l1 = l\<lparr>nEntries := nEntries l + 1\<rparr>;
        persist E l1 (put_node a (Leaf l1) w1) }) }"

text \<open>
  The end of \<open>split\<close>: the entry counts, then \<open>newNode\<close> (at \<open>b\<close>) between \<open>this\<close> (at \<open>a\<close>)
  and its successor.
\<close>

definition LeafNode_relink :: "addr \<Rightarrow> addr \<Rightarrow> LeafNode \<Rightarrow> LeafNode \<Rightarrow> world \<Rightarrow> world option" where
  "LeafNode_relink a b l newNode w = do {
     let w6 = put_node a (Leaf (l\<lparr>nEntries := degree l\<rparr>))
                (put_node b (Leaf (newNode\<lparr>nEntries := degree l, prev := a\<rparr>)) w);
     w7 \<leftarrow> (if next l \<noteq> NULL then do {
              nx \<leftarrow> get_leafnode w6 (next l);
              Some (put_node (next l) (Leaf (nx\<lparr>prev := b\<rparr>)) w6)
            } else Some w6);
     newNode7 \<leftarrow> get_leafnode w7 b;
     l7 \<leftarrow> get_leafnode w7 a;
     Some (put_node a (Leaf (l7\<lparr>next := b\<rparr>)) (put_node b (Leaf (newNode7\<lparr>next := next l7\<rparr>)) w7)) }"

definition LeafNode_split :: "env \<Rightarrow> addr \<Rightarrow> world \<Rightarrow> (KeyNode option \<times> world) option" where
  "LeafNode_split E a w = do {
     l \<leftarrow> get_leafnode w a;
     (if nEntries l < 2 * degree l then Some (None, w)
      else do {
        (b, w1) \<leftarrow> newLeafNode E w;
        m \<leftarrow> leaf_mem l w1;
        midKey \<leftarrow> findSplitKey m;
        newNode \<leftarrow> get_leafnode w1 b;
        newMem \<leftarrow> leaf_mem newNode w1;
        (newBitmap, newMem1) \<leftarrow> split_loop (degree l) m midKey newMem;
        w2 \<leftarrow> set_leaf_mem newNode (newMem1\<lparr>bitmap := newBitmap, pNext := pNext m\<rparr>) w1;
        w3 \<leftarrow> persist E newNode w2;
        w4 \<leftarrow> set_leaf_mem l (m\<lparr>bitmap := map (NOT) newBitmap, pNext := pPointer newNode\<rparr>) w3;
        w5 \<leftarrow> persist E l w4;
        w8 \<leftarrow> LeafNode_relink a b l newNode w5;
        Some (Some \<lparr>key = midKey, node = b\<rparr>, w8) }) }"

definition LeafNode_insert :: "env \<Rightarrow> addr \<Rightarrow> u64 \<Rightarrow> u64 \<Rightarrow> world \<Rightarrow> (KeyNode option \<times> world) option" where
  "LeafNode_insert E a k v w = do {
     w1 \<leftarrow> LeafNode_insertNonFull E a k v w;
     l \<leftarrow> get_leafnode w1 a;
     (if nEntries l \<ge> degree l * 2 then LeafNode_split E a w1 else Some (None, w1)) }"

definition LeafNode_find :: "addr \<Rightarrow> u64 \<Rightarrow> world \<Rightarrow> u64 option" where
  "LeafNode_find a k w = do {
     l \<leftarrow> get_leafnode w a;
     m \<leftarrow> leaf_mem l w;
     pos \<leftarrow> find_slot (degree l) m k;
     (if pos < degree l * 2 then do { e \<leftarrow> rd (kv m) pos; Some (snd e) } else Some MAX_VALUE) }"

definition LeafNode_update :: "env \<Rightarrow> addr \<Rightarrow> u64 \<Rightarrow> u64 \<Rightarrow> world \<Rightarrow> (bool \<times> world) option" where
  "LeafNode_update E a k v w = do {
     l \<leftarrow> get_leafnode w a;
     m \<leftarrow> leaf_mem l w;
     pos \<leftarrow> find_slot (degree l) m k;
     (if pos < degree l * 2 then do {
        e \<leftarrow> rd (kv m) pos;
        es \<leftarrow> wr (kv m) pos (fst e, v);
        w1 \<leftarrow> set_leaf_mem l (m\<lparr>kv := es\<rparr>) w;
        w2 \<leftarrow> persist E l w1;
        Some (True, w2)
      } else Some (False, w)) }"

text \<open>\<open>remove\<close> returns \<open>ifRemove\<close> and the new value of its reference parameter \<open>ifDelete\<close>.\<close>

definition LeafNode_unlink :: "env \<Rightarrow> LeafNode \<Rightarrow> world \<Rightarrow> world option" where
  "LeafNode_unlink E l w = do {
     (A, n1) \<leftarrow> getAllocator E (nv w);
     (ok, A1, n2) \<leftarrow> freeLeaf E (pPointer l) A n1;
     let w1 = w\<lparr>nv := n2\<lparr>allocator := Some A1\<rparr>\<rparr>;
     w2 \<leftarrow> (if prev l \<noteq> NULL then do {
              p \<leftarrow> get_leafnode w1 (prev l);
              let w2 = put_node (prev l) (Leaf (p\<lparr>next := next l\<rparr>)) w1;
              m \<leftarrow> leaf_mem l w2;
              pm \<leftarrow> leaf_mem p w2;
              w3 \<leftarrow> set_leaf_mem p (pm\<lparr>pNext := pNext m\<rparr>) w2;
              persist E p w3
            } else Some w1);
     (if next l \<noteq> NULL then do {
        x \<leftarrow> get_leafnode w2 (next l);
        Some (put_node (next l) (Leaf (x\<lparr>prev := prev l\<rparr>)) w2)
      } else Some w2) }"

definition LeafNode_remove :: "env \<Rightarrow> addr \<Rightarrow> u64 \<Rightarrow> bool \<Rightarrow> world \<Rightarrow> (bool \<times> bool \<times> world) option" where
  "LeafNode_remove E a k ifDelete w = do {
     l \<leftarrow> get_leafnode w a;
     m \<leftarrow> leaf_mem l w;
     pos \<leftarrow> find_slot (degree l) m k;
     (if pos \<ge> 0 \<and> pos < 2 * degree l then do {
        let l1 = l\<lparr>nEntries := nEntries l - 1\<rparr>;
        bm \<leftarrow> clear_bit8 (bitmap m) pos;
        w1 \<leftarrow> set_leaf_mem l1 (m\<lparr>bitmap := bm\<rparr>) (put_node a (Leaf l1) w);
        w2 \<leftarrow> persist E l1 w1;
        (if nEntries l1 = 0 then do {
           w3 \<leftarrow> LeafNode_unlink E l1 w2;
           Some (True, True, w3)
         } else Some (True, False, w2))
      } else Some (False, ifDelete, w)) }"

text \<open>Accessors; \<open>getKey\<close> and \<open>getValue\<close> have no bounds check of their own.\<close>

definition LeafNode_getKey :: "addr \<Rightarrow> int \<Rightarrow> world \<Rightarrow> u64 option" where
  "LeafNode_getKey a idx w = do { l \<leftarrow> get_leafnode w a; m \<leftarrow> leaf_mem l w; e \<leftarrow> rd (kv m) idx; Some (fst e) }"

definition LeafNode_getValue :: "addr \<Rightarrow> int \<Rightarrow> world \<Rightarrow> u64 option" where
  "LeafNode_getValue a idx w = do { l \<leftarrow> get_leafnode w a; m \<leftarrow> leaf_mem l w; e \<leftarrow> rd (kv m) idx; Some (snd e) }"

definition LeafNode_getPPointer :: "addr \<Rightarrow> world \<Rightarrow> PPointer option" where
  "LeafNode_getPPointer a w = do { l \<leftarrow> get_leafnode w a; Some (pPointer l) }"

text \<open>\<open>printNode\<close>, as the string it prints.\<close>

definition LeafNode_printNode :: "addr \<Rightarrow> world \<Rightarrow> string option" where
  "LeafNode_printNode a w = do {
     l \<leftarrow> get_leafnode w a;
     m \<leftarrow> leaf_mem l w;
     s \<leftarrow> for_up 0 (2 * degree l) (\<lambda>i s. do {
         b \<leftarrow> getBit (degree l) m i;
         (if b \<noteq> 0 then do {
            e \<leftarrow> rd (kv m) i;
            Some (s @ '' '' @ to_string (fst e) @ '' : '' @ to_string (snd e) @ '' |'')
          } else Some s) }) ''||'';
     Some (s @ ''| ====>> '') }"

section \<open>Entries of a leaf\<close>

text \<open>Slot \<open>i\<close> is in use; the entries are the pairs in the slots in use.\<close>

definition slot_used :: "u8 list \<Rightarrow> nat \<Rightarrow> bool" where
  "slot_used bm i = bit (bm ! (i div 8)) (7 - i mod 8)"

definition used_slots :: "leaf_image \<Rightarrow> nat list" where
  "used_slots m = filter (slot_used (bitmap m)) [0..<112]"

definition entries :: "leaf_image \<Rightarrow> (u64 \<times> u64) list" where
  "entries m = map (\<lambda>i. kv m ! i) (used_slots m)"

definition leaf_ok :: "leaf_image \<Rightarrow> bool" where
  "leaf_ok m \<longleftrightarrow> wf_leaf m \<and> (\<forall>i\<in>set (used_slots m). fingerprints m ! i = fingerprint (fst (kv m ! i)))"

section \<open>Bits\<close>

lemma int_div8 [arr_simps]: "int i div 8 = int (i div 8)"
  by (simp add: zdiv_int)

lemma int_mod8 [arr_simps]: "int i mod 8 = int (i mod 8)"
  by (simp add: zmod_int)

lemma bit_mask_nat: "bit_mask (int i) = 2 ^ (7 - i mod 8)"
  by (simp add: bit_mask_def int_mod8 nat_diff_distrib)

lemma bit_bit_mask: "bit (bit_mask (int i)) j \<longleftrightarrow> j = 7 - i mod 8"
proof -
  have "7 - i mod 8 < 8" by linarith
  then show ?thesis
    by (auto simp: bit_mask_nat bit_exp_iff)
qed

lemma and_bit_mask: "b AND bit_mask (int i) = 0 \<longleftrightarrow> \<not> bit b (7 - i mod 8)"
  proof
  show "\<not> bit b (7 - i mod 8)" if "b AND bit_mask (int i) = 0"
    using arg_cong [OF that, of "\<lambda>w. bit w (7 - i mod 8)"] by (simp add: bit_and_iff bit_bit_mask)
  show "b AND bit_mask (int i) = 0" if "\<not> bit b (7 - i mod 8)"
    by (rule bit_word_eqI) (use that in \<open>auto simp: bit_and_iff bit_bit_mask\<close>)
qed

lemma slot_used_update:
  assumes "i < 112" and "j < 112" and "length bm = 14"
    and "\<And>k. k < 8 \<Longrightarrow> bit b k \<longleftrightarrow> (if k = 7 - i mod 8 then x else bit (bm ! (i div 8)) k)"
  shows "slot_used (bm[i div 8 := b]) j = (if j = i then x else slot_used bm j)"
proof (cases "j div 8 = i div 8")
  case True
  have "7 - j mod 8 = 7 - i mod 8 \<longleftrightarrow> j = i"
  proof
    assume "7 - j mod 8 = 7 - i mod 8"
    moreover have "j mod 8 < 8" "i mod 8 < 8" by simp_all
    ultimately have "j mod 8 = i mod 8" by linarith
    with True show "j = i" by (metis div_mult_mod_eq)
  qed simp
  with True assms show ?thesis by (simp add: slot_used_def)
next
  case False
  with assms show ?thesis by (auto simp: slot_used_def nth_list_update)
qed

lemma set_bit8_eq:
  assumes "length bm = 14" and "i < 112"
  obtains bm' where "set_bit8 bm (int i) = Some bm'" "length bm' = 14"
    "\<And>j. j < 112 \<Longrightarrow> slot_used bm' j = (j = i \<or> slot_used bm j)"
proof
  show "set_bit8 bm (int i) = Some (bm[i div 8 := bm ! (i div 8) OR bit_mask (int i)])"
    using assms by (simp add: set_bit8_def rd_def wr_def int_div8 del: of_nat_div)
  show "slot_used (bm[i div 8 := bm ! (i div 8) OR bit_mask (int i)]) j = (j = i \<or> slot_used bm j)"
    if "j < 112" for j
    by (subst slot_used_update [where x = True]) (use assms that in \<open>auto simp: bit_or_iff bit_bit_mask\<close>)
qed (use assms in simp)

lemma clear_bit8_eq:
  assumes "length bm = 14" and "i < 112"
  obtains bm' where "clear_bit8 bm (int i) = Some bm'" "length bm' = 14"
    "\<And>j. j < 112 \<Longrightarrow> slot_used bm' j = (j \<noteq> i \<and> slot_used bm j)"
proof
  show "clear_bit8 bm (int i) = Some (bm[i div 8 := bm ! (i div 8) AND NOT (bit_mask (int i))])"
    using assms by (simp add: clear_bit8_def rd_def wr_def int_div8 del: of_nat_div)
  show "slot_used (bm[i div 8 := bm ! (i div 8) AND NOT (bit_mask (int i))]) j = (j \<noteq> i \<and> slot_used bm j)"
    if "j < 112" for j
    by (subst slot_used_update [where x = False])
      (use assms that in \<open>auto simp: bit_and_iff bit_not_iff_eq bit_bit_mask\<close>)
qed (use assms in simp)

lemma slot_used_not:
  "length bm = 14 \<Longrightarrow> j < 112 \<Longrightarrow> slot_used (map (NOT) bm) j \<longleftrightarrow> \<not> slot_used bm j"
  proof -
  have "7 - j mod 8 < 8" by linarith
  moreover assume "length bm = 14" "j < 112"
  ultimately show ?thesis by (simp add: slot_used_def bit_not_iff)
qed

lemma getBit_eq:
  "wf_leaf m \<Longrightarrow> i < 112 \<Longrightarrow> getBit 56 m (int i) = Some (if slot_used (bitmap m) i then 1 else 0)"
  by (simp add: getBit_def wf_leaf_def rd_def slot_used_def and_bit_mask int_div8 del: of_nat_div)

section \<open>Searching a leaf\<close>

definition leaf_map :: "leaf_image \<Rightarrow> u64 \<rightharpoonup> u64" where
  "leaf_map m = map_of (entries m)"

definition keys_distinct :: "leaf_image \<Rightarrow> bool" where
  "keys_distinct m \<longleftrightarrow> distinct (map fst (entries m))"

lemma set_used_slots: "i \<in> set (used_slots m) \<longleftrightarrow> i < 112 \<and> slot_used (bitmap m) i"
  by (auto simp: used_slots_def)

lemma distinct_used_slots [simp]: "distinct (used_slots m)"
  by (simp add: used_slots_def)

lemma keys_distinct_iff: "keys_distinct m \<longleftrightarrow> inj_on (\<lambda>i. fst (kv m ! i)) (set (used_slots m))"
  by (simp add: keys_distinct_def entries_def distinct_map comp_def)

lemma length_entries: "length (entries m) = card (set (used_slots m))"
  by (simp add: entries_def distinct_card)

lemma set_entries: "set (entries m) = (\<lambda>i. kv m ! i) ` set (used_slots m)"
  by (simp add: entries_def)

lemma leaf_map_Some: "keys_distinct m \<Longrightarrow> leaf_map m k = Some v \<longleftrightarrow> (k, v) \<in> set (entries m)"
  by (simp add: leaf_map_def keys_distinct_def map_of_eq_Some_iff)

lemma leaf_map_None: "leaf_map m k = None \<longleftrightarrow> k \<notin> fst ` set (entries m)"
  by (simp add: leaf_map_def map_of_eq_None_iff)

lemma match_slot_eq:
  assumes "leaf_ok m" and "i < 112"
  shows "match_slot 56 m (fingerprint k) k (int i) = Some (i \<in> set (used_slots m) \<and> fst (kv m ! i) = k)"
proof -
  have "wf_leaf m" using assms(1) by (simp add: leaf_ok_def)
  then have "match_slot 56 m (fingerprint k) k (int i)
      = Some (slot_used (bitmap m) i \<and> fingerprint k = fingerprints m ! i \<and> k = fst (kv m ! i))"
    using assms(2) by (auto simp: match_slot_def getBit_eq rd_Some wf_leaf_def)
  then show ?thesis using assms by (auto simp: leaf_ok_def set_used_slots)
qed

lemma find_slot_spec:
  assumes "leaf_ok m"
  obtains r where "find_slot 56 m k = Some (int r)" "r < 112" "r \<in> set (used_slots m)" "fst (kv m ! r) = k"
  | "find_slot 56 m k = Some 112" "k \<notin> fst ` set (entries m)"
proof -
  have step: "match_slot 56 m (fingerprint k) k j = Some (nat j \<in> set (used_slots m) \<and> fst (kv m ! nat j) = k)"
    if "0 \<le> j" "j < 112" for j
    using match_slot_eq [OF assms, of "nat j" k] that by simp
  obtain r where r: "find_up 0 112 (match_slot 56 m (fingerprint k) k) = Some r" "0 \<le> r" "r \<le> 112"
    "\<And>j. 0 \<le> j \<Longrightarrow> j < r \<Longrightarrow> \<not> (nat j \<in> set (used_slots m) \<and> fst (kv m ! nat j) = k)"
    "r < 112 \<Longrightarrow> nat r \<in> set (used_slots m) \<and> fst (kv m ! nat r) = k"
    by (rule find_up_spec [OF _ step]) (simp_all, blast)
  have fs: "find_slot 56 m k = Some r" by (simp add: find_slot_def keyHash_eq r(1))
  show thesis
  proof (cases "r < 112")
    case True
    then show thesis using that(1) [of "nat r"] fs r by simp
  next
    case False
    have "k \<notin> fst ` set (entries m)"
    proof
      assume "k \<in> fst ` set (entries m)"
      then obtain i where "i \<in> set (used_slots m)" "fst (kv m ! i) = k" by (auto simp: set_entries)
      with False r(3) r(4) [of "int i"] show False by (simp add: set_used_slots)
    qed
    then show thesis using that(2) fs False r(3) by simp
  qed
qed

lemma findFirstZero_spec:
  assumes "wf_leaf m"
  obtains r where "findFirstZero 56 m = Some (int r)" "r < 112" "r \<notin> set (used_slots m)"
  | "findFirstZero 56 m = Some 112" "set (used_slots m) = {..<112}"
proof -
  have step: "do { b \<leftarrow> getBit 56 m j; Some (b = 0) } = Some (\<not> slot_used (bitmap m) (nat j))"
    if "0 \<le> j" "j < 112" for j
    using getBit_eq [OF assms, of "nat j"] that by simp
  obtain r where r: "find_up 0 112 (\<lambda>i. do { b \<leftarrow> getBit 56 m i; Some (b = 0) }) = Some r" "0 \<le> r" "r \<le> 112"
    "\<And>j. 0 \<le> j \<Longrightarrow> j < r \<Longrightarrow> slot_used (bitmap m) (nat j)" "r < 112 \<Longrightarrow> \<not> slot_used (bitmap m) (nat r)"
    by (rule find_up_spec [OF _ step]) (simp_all, blast)
  have fs: "findFirstZero 56 m = Some r" by (simp add: findFirstZero_def r(1))
  show thesis
  proof (cases "r < 112")
    case True
    then show thesis using that(1) [of "nat r"] fs r by (simp add: set_used_slots)
  next
    case False
    have "slot_used (bitmap m) i" if "i < 112" for i using r(4) [of "int i"] that False r(3) by simp
    then have "set (used_slots m) = {..<112}" by (auto simp: set_used_slots)
    then show thesis using that(2) fs False r(3) by simp
  qed
qed

section \<open>Changing one slot\<close>

lemma card_used_le: "card (set (used_slots m)) \<le> 112"
proof -
  have "set (used_slots m) \<subseteq> {..<112}" by (auto simp: set_used_slots)
  then show ?thesis using card_mono [of "{..<112}" "set (used_slots m)"] by simp
qed

lemma fill_slot_spec:
  assumes ok: "leaf_ok m" and r: "r < 112" "r \<notin> set (used_slots m)"
  obtains m' where "fill_slot m (int r) k v = Some m'" "leaf_ok m'" "pNext m' = pNext m"
    "set (entries m') = insert (k, v) (set (entries m))" "length (entries m') = Suc (length (entries m))"
    "keys_distinct m \<Longrightarrow> k \<notin> fst ` set (entries m) \<Longrightarrow> keys_distinct m'"
proof -
  have wf: "length (bitmap m) = 14" "length (fingerprints m) = 112" "length (kv m) = 112"
    using ok by (simp_all add: leaf_ok_def wf_leaf_def)
  obtain bm' where bm: "set_bit8 (bitmap m) (int r) = Some bm'" "length bm' = 14"
    "\<And>j. j < 112 \<Longrightarrow> slot_used bm' j = (j = r \<or> slot_used (bitmap m) j)"
    by (rule set_bit8_eq [OF wf(1) r(1)]) blast
  define m' where "m' = m\<lparr>bitmap := bm', fingerprints := (fingerprints m)[r := fingerprint k], kv := (kv m)[r := (k, v)]\<rparr>"
  have run: "fill_slot m (int r) k v = Some m'"
    using bm wf r by (simp add: fill_slot_def keyHash_eq wr_Some m'_def)
  have us: "set (used_slots m') = insert r (set (used_slots m))"
    using bm(3) r by (auto simp: set_used_slots m'_def)
  have ok': "leaf_ok m'"
    using ok bm(2) wf us r by (auto simp: leaf_ok_def wf_leaf_def m'_def nth_list_update set_used_slots)
  have kv': "kv m' ! i = (if i = r then (k, v) else kv m ! i)" if "i < 112" for i
    using that wf by (auto simp: m'_def nth_list_update)
  have same: "kv m' ! i = kv m ! i" if "i \<in> set (used_slots m)" for i
    using kv' [of i] that r(2) by (auto simp: set_used_slots)
  have en: "set (entries m') = insert (k, v) (set (entries m))"
    using kv' [OF r(1)] same by (auto simp: set_entries us image_iff)
  have len: "length (entries m') = Suc (length (entries m))"
    using r by (simp add: length_entries us)
  have kd: "keys_distinct m'" if "keys_distinct m" "k \<notin> fst ` set (entries m)"
    unfolding keys_distinct_iff us
    using that same kv' [OF r(1)] r(2)
    by (auto simp: keys_distinct_iff set_entries inj_on_def image_iff)
  show thesis by (rule that [OF run ok' _ en len kd]) (simp_all add: m'_def)
qed

lemma clear_slot_spec:
  assumes ok: "leaf_ok m" and r: "r \<in> set (used_slots m)" and kd: "keys_distinct m"
  obtains bm' where "clear_bit8 (bitmap m) (int r) = Some bm'" "leaf_ok (m\<lparr>bitmap := bm'\<rparr>)"
    "keys_distinct (m\<lparr>bitmap := bm'\<rparr>)"
    "set (entries (m\<lparr>bitmap := bm'\<rparr>)) = set (entries m) - {kv m ! r}"
    "Suc (length (entries (m\<lparr>bitmap := bm'\<rparr>))) = length (entries m)"
proof -
  have wf: "length (bitmap m) = 14" "r < 112"
    using ok r by (simp_all add: leaf_ok_def wf_leaf_def set_used_slots)
  obtain bm' where bm: "clear_bit8 (bitmap m) (int r) = Some bm'" "length bm' = 14"
    "\<And>j. j < 112 \<Longrightarrow> slot_used bm' j = (j \<noteq> r \<and> slot_used (bitmap m) j)"
    by (rule clear_bit8_eq [OF wf]) blast
  let ?m = "m\<lparr>bitmap := bm'\<rparr>"
  have us: "set (used_slots ?m) = set (used_slots m) - {r}"
    using bm(3) by (auto simp: set_used_slots)
  have inj: "inj_on (\<lambda>i. fst (kv m ! i)) (set (used_slots m))" using kd by (simp add: keys_distinct_iff)
  have "leaf_ok ?m" using ok bm(2) us by (auto simp: leaf_ok_def wf_leaf_def)
  moreover have "keys_distinct ?m" using inj by (simp add: keys_distinct_iff us inj_on_diff)
  moreover have "inj_on (\<lambda>i. kv m ! i) (set (used_slots m))"
    using inj by (metis (mono_tags, lifting) inj_on_def)
  then have "set (entries ?m) = set (entries m) - {kv m ! r}"
    using r by (auto simp: set_entries us inj_on_def)
  moreover have "Suc (length (entries ?m)) = length (entries m)"
    using r by (simp only: length_entries us card_Suc_Diff1 finite_set)
  ultimately show thesis using that bm(1) by blast
qed

lemma update_slot_spec:
  fixes v :: u64
  assumes ok: "leaf_ok m" and r: "r \<in> set (used_slots m)" "fst (kv m ! r) = k" and kd: "keys_distinct m"
  defines "m' \<equiv> m\<lparr>kv := (kv m)[r := (k, v)]\<rparr>"
  shows "leaf_ok m'" and "keys_distinct m'" and "length (entries m') = length (entries m)"
    and "leaf_map m' = (leaf_map m)(k \<mapsto> v)" and "fst ` set (entries m') = fst ` set (entries m)"
proof -
  have len: "length (kv m) = 112" "r < 112" using ok r by (simp_all add: leaf_ok_def wf_leaf_def set_used_slots)
  have us: "used_slots m' = used_slots m" by (simp add: used_slots_def m'_def)
  have key: "fst (kv m' ! i) = fst (kv m ! i)" for i
    using r len by (cases "i = r") (simp_all add: m'_def)
  show "leaf_ok m'" using ok by (auto simp: leaf_ok_def us key) (simp_all add: m'_def wf_leaf_def)
  show kd': "keys_distinct m'" using kd by (simp add: keys_distinct_iff us key)
  show "length (entries m') = length (entries m)" by (simp add: length_entries us)
  show "fst ` set (entries m') = fst ` set (entries m)" by (simp add: set_entries us image_image key)
  have inj: "i = r" if "i \<in> set (used_slots m)" "fst (kv m ! i) = k" for i
    using kd that r by (auto simp: keys_distinct_iff inj_on_def)
  have "(k', v') \<in> set (entries m') \<longleftrightarrow> (if k' = k then v' = v else (k', v') \<in> set (entries m))" for k' v'
  proof -
    have kv': "kv m' ! i = (if i = r then (k, v) else kv m ! i)" for i
      using len by (simp add: m'_def nth_list_update)
    have "(k', v') \<in> set (entries m') \<longleftrightarrow> (\<exists>i\<in>set (used_slots m). (k', v') = (if i = r then (k, v) else kv m ! i))"
      by (simp only: set_entries us image_iff kv')
    also have "\<dots> \<longleftrightarrow> (k', v') = (k, v) \<or> (\<exists>i\<in>set (used_slots m) - {r}. (k', v') = kv m ! i)"
      using r(1) by auto
    also have "(\<exists>i\<in>set (used_slots m) - {r}. (k', v') = kv m ! i)
        \<longleftrightarrow> k' \<noteq> k \<and> (\<exists>i\<in>set (used_slots m). (k', v') = kv m ! i)"
      using r(2) inj by (metis Diff_iff fst_conv singletonD singletonI)
    finally show ?thesis by (auto simp: set_entries image_iff)
  qed
  then have "leaf_map m' k' = Some v' \<longleftrightarrow> ((leaf_map m)(k \<mapsto> v)) k' = Some v'" for k' v'
    using leaf_map_Some [OF kd', of k' v'] leaf_map_Some [OF kd, of k' v'] by auto
  then show "leaf_map m' = (leaf_map m)(k \<mapsto> v)"
    by (intro ext option.expand) (metis not_None_eq, metis option.sel not_None_eq)
qed

section \<open>Splitting a full leaf\<close>

lemma filter_ge_sorted:
  assumes "sorted_wrt (<) (ys :: 'a :: linorder list)" and "j < length ys"
  shows "filter (\<lambda>x. ys ! j \<le> x) ys = drop j ys"
proof -
  have lt: "ys ! a < ys ! b" if "a < b" "b < length ys" for a b
    using assms(1) that by (simp add: sorted_wrt_iff_nth_less)
  have "filter (\<lambda>x. ys ! j \<le> x) (take j ys) = []"
    using lt assms(2) by (auto simp: filter_empty_conv in_set_conv_nth not_le)
  moreover have "filter (\<lambda>x. ys ! j \<le> x) (drop j ys) = drop j ys"
  proof (rule filter_True, rule ballI)
    fix x assume "x \<in> set (drop j ys)"
    then obtain i where "x = ys ! (j + i)" "j + i < length ys" by (auto simp: in_set_conv_nth)
    then show "ys ! j \<le> x" using lt [of j "j + i"] by (cases i) auto
  qed
  ultimately show ?thesis
    by (metis append_take_drop_id filter_append append_Nil)
qed

lemma length_filter_median:
  assumes "distinct (xs :: 'a :: linorder list)" and "j < length xs"
  shows "length (filter (\<lambda>x. sort xs ! j \<le> x) xs) = length xs - j"
proof -
  have "mset (filter (\<lambda>x. sort xs ! j \<le> x) xs) = mset (filter (\<lambda>x. sort xs ! j \<le> x) (sort xs))"
    by simp
  then have "length (filter (\<lambda>x. sort xs ! j \<le> x) xs) = length (filter (\<lambda>x. sort xs ! j \<le> x) (sort xs))"
    by (metis size_mset)
  also have "filter (\<lambda>x. sort xs ! j \<le> x) (sort xs) = drop j (sort xs)"
    by (rule filter_ge_sorted) (use assms in \<open>simp_all add: strict_sorted_iff\<close>)
  finally show ?thesis by simp
qed

definition slot_moves :: "leaf_image \<Rightarrow> u64 \<Rightarrow> nat \<Rightarrow> bool" where
  "slot_moves m mid i \<longleftrightarrow> mid \<le> fst (kv m ! i)"

definition split_inv :: "leaf_image \<Rightarrow> u64 \<Rightarrow> leaf_image \<Rightarrow> int \<Rightarrow> u8 list \<times> leaf_image \<Rightarrow> bool" where
  "split_inv m mid new0 j s \<longleftrightarrow> (case s of (bm, new) \<Rightarrow> length bm = 14 \<and> wf_leaf new
     \<and> pNext new = pNext new0 \<and> (\<forall>i<112. slot_used bm i \<longleftrightarrow> int i < j \<and> slot_moves m mid i)
     \<and> (\<forall>i<112. int i < j \<longrightarrow> slot_moves m mid i \<longrightarrow>
          fingerprints new ! i = fingerprints m ! i \<and> kv new ! i = kv m ! i))"

lemma split_step_inv:
  assumes m: "wf_leaf m" and j: "0 \<le> j" "j < 112" and inv: "split_inv m mid new0 j (bm, new)"
  shows "\<exists>s'. split_step m mid j (bm, new) = Some s' \<and> split_inv m mid new0 (j + 1) s'"
proof -
  obtain i where i: "j = int i" "i < 112" using j by (metis nonneg_int_cases of_nat_less_numeral_iff)
  have lens: "length (kv m) = 112" "length (fingerprints m) = 112" "length bm = 14"
    "length (kv new) = 112" "length (fingerprints new) = 112" "length (bitmap new) = 14"
    using m inv by (simp_all add: wf_leaf_def split_inv_def)
  show ?thesis
  proof (cases "slot_moves m mid i")
    case True
    obtain bm' where bm: "set_bit8 bm (int i) = Some bm'" "length bm' = 14"
      "\<And>q. q < 112 \<Longrightarrow> slot_used bm' q = (q = i \<or> slot_used bm q)"
      by (rule set_bit8_eq [OF lens(3) i(2)]) blast
    let ?new = "new\<lparr>fingerprints := (fingerprints new)[i := fingerprints m ! i], kv := (kv new)[i := kv m ! i]\<rparr>"
    have "split_step m mid j (bm, new) = Some (bm', ?new)"
      using True bm(1) lens i by (simp add: split_step_def rd_Some wr_Some slot_moves_def)
    moreover have "split_inv m mid new0 (j + 1) (bm', ?new)"
      using inv bm lens i True
      by (auto simp: split_inv_def wf_leaf_def nth_list_update less_Suc_eq)
    ultimately show ?thesis by blast
  next
    case False
    then have "split_step m mid j (bm, new) = Some (bm, new)"
      using lens i by (simp add: split_step_def rd_Some slot_moves_def)
    moreover have "int q < j + 1 \<and> slot_moves m mid q \<longleftrightarrow> int q < j \<and> slot_moves m mid q" for q
      using False i by (cases "q = i") auto
    then have "split_inv m mid new0 (j + 1) (bm, new)"
      using inv by (simp add: split_inv_def) blast
    ultimately show ?thesis by blast
  qed
qed

lemma split_loop_spec:
  assumes m: "wf_leaf m" and new: "wf_leaf new0"
  obtains bm new where "split_loop 56 m mid new0 = Some (bm, new)" "length bm = 14" "wf_leaf new"
    "pNext new = pNext new0" "\<And>i. i < 112 \<Longrightarrow> slot_used bm i \<longleftrightarrow> slot_moves m mid i"
    "\<And>i. i < 112 \<Longrightarrow> slot_moves m mid i \<Longrightarrow> fingerprints new ! i = fingerprints m ! i \<and> kv new ! i = kv m ! i"
proof -
  have init: "split_inv m mid new0 0 (replicate 14 0, new0)"
    using new by (auto simp: split_inv_def slot_used_def)
  have "\<exists>s'. for_up 0 112 (split_step m mid) (replicate 14 0, new0) = Some s' \<and> split_inv m mid new0 112 s'"
  proof (rule for_up_rule [where P = "split_inv m mid new0", OF _ init])
    fix j s assume "0 \<le> j" "j < 112" "split_inv m mid new0 j s"
    then show "\<exists>s'. split_step m mid j s = Some s' \<and> split_inv m mid new0 (j + 1) s'"
      using split_step_inv [OF m] by (cases s) blast
  qed simp
  then obtain bm new where "split_loop 56 m mid new0 = Some (bm, new)" "split_inv m mid new0 112 (bm, new)"
    by (auto simp: split_loop_def)
  then show thesis using that by (simp add: split_inv_def)
qed

text \<open>
  A full leaf with distinct keys: the median key exists, half of the entries are not below it,
  and after the two bitmap copies the new leaf holds exactly those and the old leaf the others.
\<close>

lemma full_entries: "set (used_slots m) = {..<112} \<Longrightarrow> wf_leaf m \<Longrightarrow> entries m = kv m"
proof -
  assume full: "set (used_slots m) = {..<112}" and wf: "wf_leaf m"
  have "slot_used (bitmap m) i" if "i < 112" for i using full that set_used_slots by blast
  then have "used_slots m = [0..<112]" by (simp add: used_slots_def filter_id_conv)
  then show ?thesis using wf map_nth [of "kv m"] by (simp add: entries_def wf_leaf_def)
qed

lemma findSplitKey_eq:
  assumes "wf_leaf m"
  shows "findSplitKey m = Some (sort (map fst (kv m)) ! 56)"
  using assms by (simp add: findSplitKey_def wf_leaf_def LEAF_DEGREE_def)

lemma split_entries:
  assumes ok: "leaf_ok m" and full: "set (used_slots m) = {..<112}" and kd: "keys_distinct m"
    and mid: "mid = sort (map fst (kv m)) ! 56"
    and new: "length bm = 14" "wf_leaf new" "\<And>i. i < 112 \<Longrightarrow> slot_used bm i \<longleftrightarrow> slot_moves m mid i"
      "\<And>i. i < 112 \<Longrightarrow> slot_moves m mid i \<Longrightarrow> fingerprints new ! i = fingerprints m ! i \<and> kv new ! i = kv m ! i"
  defines "hi \<equiv> new\<lparr>bitmap := bm\<rparr>" and "lo \<equiv> m\<lparr>bitmap := map (NOT) bm\<rparr>"
  shows "leaf_ok hi" "leaf_ok lo" "keys_distinct hi" "keys_distinct lo"
    "set (entries hi) = {e \<in> set (entries m). mid \<le> fst e}"
    "set (entries lo) = {e \<in> set (entries m). fst e < mid}"
    "length (entries hi) = 56" "length (entries lo) = 56" "mid \<in> fst ` set (entries hi)"
proof -
  have wf: "wf_leaf m" using ok by (simp add: leaf_ok_def)
  have len: "length (kv m) = 112" using wf by (simp add: wf_leaf_def)
  have ushi: "set (used_slots hi) = {i. i < 112 \<and> slot_moves m mid i}"
    using new(3) by (auto simp: set_used_slots hi_def)
  have uslo: "set (used_slots lo) = {i. i < 112 \<and> \<not> slot_moves m mid i}"
    using new(1,3) by (auto simp: set_used_slots lo_def slot_used_not)
  have fp: "fingerprints m ! i = fingerprint (fst (kv m ! i))" if "i < 112" for i
    using ok full that by (simp add: leaf_ok_def)
  have kvhi: "kv hi ! i = kv m ! i" if "i \<in> set (used_slots hi)" for i
    using that new(4) unfolding ushi by (simp add: hi_def)
  have kvlo: "kv lo = kv m" by (simp add: lo_def)
  show "leaf_ok hi" unfolding leaf_ok_def ushi using new fp by (simp add: hi_def wf_leaf_def)
  show "leaf_ok lo" unfolding leaf_ok_def uslo using wf fp new(1) by (simp add: lo_def wf_leaf_def)
  have inj: "inj_on (\<lambda>i. fst (kv m ! i)) {..<112}" using kd full by (simp add: keys_distinct_iff)
  have "inj_on (\<lambda>i. fst (kv hi ! i)) (set (used_slots hi)) = inj_on (\<lambda>i. fst (kv m ! i)) (set (used_slots hi))"
    by (rule inj_on_cong) (simp add: kvhi)
  then show "keys_distinct hi" unfolding keys_distinct_iff using inj by (auto simp: ushi elim: inj_on_subset)
  show "keys_distinct lo" unfolding keys_distinct_iff uslo using inj by (auto simp: lo_def elim: inj_on_subset)
  show hi: "set (entries hi) = {e \<in> set (entries m). mid \<le> fst e}"
    using kvhi by (auto simp: set_entries full ushi slot_moves_def image_iff)
  show lo: "set (entries lo) = {e \<in> set (entries m). fst e < mid}"
    by (auto simp: set_entries full uslo kvlo slot_moves_def not_le)
  have en: "entries m = kv m" by (rule full_entries [OF full wf])
  have dist: "distinct (map fst (kv m))" using kd en by (simp add: keys_distinct_def)
  have "card {i. i < 112 \<and> slot_moves m mid i} = length (filter (\<lambda>x. mid \<le> x) (map fst (kv m)))"
    using length_filter_conv_card [of "\<lambda>x. mid \<le> x" "map fst (kv m)"] len
    by (simp add: slot_moves_def cong: conj_cong)
  also have "\<dots> = 56" using length_filter_median [OF dist, of 56] len by (simp add: mid)
  finally have c: "card {i. i < 112 \<and> slot_moves m mid i} = 56" .
  then show "length (entries hi) = 56" by (simp add: length_entries ushi)
  have "{i. i < 112 \<and> \<not> slot_moves m mid i} = {..<112} - {i. i < 112 \<and> slot_moves m mid i}" by auto
  then show "length (entries lo) = 56"
    using c card_Diff_subset [of "{i. i < 112 \<and> slot_moves m mid i}" "{..<112}"]
    by (simp add: length_entries uslo subset_eq)
  have "mid \<in> set (map fst (kv m))"
    using nth_mem [of 56 "sort (map fst (kv m))"] len by (simp add: mid)
  then show "mid \<in> fst ` set (entries hi)" unfolding hi en by (auto simp: image_iff)
qed

end
