(* ===== verification/Leaf_World.thy ===== *)
theory Leaf_World
  imports LeafNode
begin

text \<open>
  The member functions of \<open>LeafNode\<close> in the world. \<open>leaf_view\<close> is a leaf as its clients see
  it: the object and the memory behind it. Each function is shown to change its own leaf's view
  as its comment says and to leave all other objects as they were; \<open>world_ok\<close> is the invariant
  of the heap and the allocator that makes this true.
\<close>

section \<open>Views and the invariant of the world\<close>

definition leaf_view :: "world \<Rightarrow> addr \<Rightarrow> (LeafNode \<times> leaf_image) option" where
  "leaf_view w a = do {
     l \<leftarrow> get_leafnode w a;
     A \<leftarrow> allocator (nv w);
     (if pPointer l \<in> used_set A (dev (nv w)) \<and> leaf_valid l w
      then do { m \<leftarrow> leaf_at (dev (nv w)) (pPointer l); Some (l, m) } else None) }"

definition alloc_ok :: "world \<Rightarrow> bool" where
  "alloc_ok w \<longleftrightarrow> (\<exists>A. allocator (nv w) = Some A \<and> palloc_inv A (dev (nv w)))"

definition heap_ok :: "world \<Rightarrow> bool" where
  "heap_ok w \<longleftrightarrow> 0 < brk w \<and> (\<forall>a. brk w \<le> a \<longrightarrow> heap w a = None) \<and> heap w NULL = None"

definition views_inj :: "world \<Rightarrow> bool" where
  "views_inj w \<longleftrightarrow> (\<forall>a b l m l' m'. leaf_view w a = Some (l, m) \<longrightarrow> leaf_view w b = Some (l', m') \<longrightarrow>
     pPointer l = pPointer l' \<longrightarrow> a = b)"

text \<open>Every leaf object is one of a leaf in use.\<close>

definition all_views :: "world \<Rightarrow> bool" where
  "all_views w \<longleftrightarrow> (\<forall>a l. heap w a = Some (Leaf l) \<longrightarrow> leaf_view w a \<noteq> None)"

definition world_ok :: "world \<Rightarrow> bool" where
  "world_ok w \<longleftrightarrow> alloc_ok w \<and> heap_ok w \<and> views_inj w \<and> all_views w"

lemma views_injD:
  "views_inj w \<Longrightarrow> leaf_view w a = Some (l, m) \<Longrightarrow> leaf_view w b = Some (l', m') \<Longrightarrow>
    pPointer l = pPointer l' \<Longrightarrow> a = b"
  unfolding views_inj_def by blast

lemma views_inj_update:
  assumes "views_inj w" and "leaf_view w a = Some (l, m)" and "pPointer l' = pPointer l"
    and "\<And>b. leaf_view w' b = (if b = a then Some (l', m') else leaf_view w b)"
  shows "views_inj w'"
  unfolding views_inj_def assms(4) using assms(3) views_injD [OF assms(1) assms(2)]
    views_injD [OF assms(1)] by (auto split: if_splits)

text \<open>Same place in persistent memory.\<close>

definition same_place :: "LeafNode \<Rightarrow> LeafNode \<Rightarrow> bool" where
  "same_place l l' \<longleftrightarrow> pPointer l = pPointer l' \<and> pmem_addr l = pmem_addr l'"

lemma same_place_upd [simp]:
  "same_place (l\<lparr>nEntries := x\<rparr>) l' = same_place l l'" "same_place (l\<lparr>prev := p\<rparr>) l' = same_place l l'"
  "same_place (l\<lparr>next := p\<rparr>) l' = same_place l l'" "same_place l l"
  by (simp_all add: same_place_def)

lemma leaf_viewD:
  assumes "leaf_view w a = Some (l, m)"
  shows "heap w a = Some (Leaf l)" "get_leafnode w a = Some l" "leaf_valid l w" "leaf_mem l w = Some m"
    and "\<exists>A. allocator (nv w) = Some A \<and> pPointer l \<in> used_set A (dev (nv w))
      \<and> getLeafPmemAddr A (pPointer l) = Some (pmem_addr l) \<and> leaf_at (dev (nv w)) (pPointer l) = Some m"
  using assms
  by (auto simp: leaf_view_def bind_eq_Some_conv get_leafnode_def leaf_mem_def leaf_at_def leaf_valid_def
      split: option.splits node.splits if_splits)

lemma leaf_valid_cong: "same_place l l' \<Longrightarrow> leaf_valid l w = leaf_valid l' w"
  by (auto simp: leaf_valid_def same_place_def split: option.splits)

lemma leaf_view_cong:
  "heap w' b = heap w b \<Longrightarrow> allocator (nv w') = allocator (nv w) \<Longrightarrow>
    cur (dev (nv w')) = cur (dev (nv w)) \<Longrightarrow> leaf_view w' b = leaf_view w b"
  by (simp add: leaf_view_def get_leafnode_def leaf_valid_def
      device_views_cong [of "dev (nv w')" "dev (nv w)"] cong: if_cong)

lemma leaf_mem_cong: "same_place l l' \<Longrightarrow> leaf_mem l w = leaf_mem l' w"
  using leaf_valid_cong [of l l' w] by (simp add: leaf_mem_def same_place_def)

lemma persist_cong:
  assumes "same_place l l'"
  shows "persist E l w = persist E l' w"
proof -
  have "pPointer l = pPointer l'" using assms by (simp add: same_place_def)
  then show ?thesis by (simp only: persist_def leaf_valid_cong [OF assms])
qed

lemma leaf_view_wf:
  assumes "world_ok w" and "leaf_view w a = Some (l, m)"
  shows "wf_leaf m"
proof -
  obtain A where A: "palloc_inv A (dev (nv w))" "pPointer l \<in> used_set A (dev (nv w))"
    "leaf_at (dev (nv w)) (pPointer l) = Some m"
    using leaf_viewD(5) [OF assms(2)] assms(1) by (auto simp: world_ok_def alloc_ok_def)
  then have "ifLeafExist A (pPointer l)" by (simp add: used_set_def)
  then show ?thesis using leaf_atE [OF A(1), of "pPointer l"] A(3) by (metis option.inject)
qed

section \<open>Single steps\<close>

lemma put_node_simps [simp]:
  "nv (put_node a x w) = nv w" "brk (put_node a x w) = brk w" "root (put_node a x w) = root w"
  "tree_degree (put_node a x w) = tree_degree w"
  "heap (put_node a x w) b = (if b = a then Some x else heap w b)"
  by (simp_all add: put_node_def)

lemma leaf_view_put_other: "b \<noteq> a \<Longrightarrow> leaf_view (put_node a x w) b = leaf_view w b"
  by (rule leaf_view_cong) simp_all

lemma leaf_view_put_same:
  "leaf_view w a = Some (l, m) \<Longrightarrow> same_place l' l \<Longrightarrow> leaf_view (put_node a (Leaf l') w) a = Some (l', m)"
  by (auto simp: leaf_view_def get_leafnode_def leaf_valid_def put_node_def bind_eq_Some_conv same_place_def
      split: option.splits node.splits if_splits)

lemma heap_ok_put: "heap_ok w \<Longrightarrow> heap w a \<noteq> None \<Longrightarrow> heap_ok (put_node a x w)"
  by (cases a) (auto simp: heap_ok_def)

lemma world_ok_put_leaf:
  assumes "world_ok w" and "leaf_view w a = Some (l, m)" and "same_place l' l"
  shows "world_ok (put_node a (Leaf l') w)"
proof -
  let ?w = "put_node a (Leaf l') w"
  have view: "leaf_view ?w b = (if b = a then Some (l', m) else leaf_view w b)" for b
    using leaf_view_put_same [OF assms(2,3)] leaf_view_put_other by simp
  have "views_inj ?w"
    by (rule views_inj_update [OF _ assms(2) _ view])
      (use assms in \<open>simp_all add: world_ok_def same_place_def\<close>)
  moreover have "heap w a \<noteq> None" using leaf_viewD(1) [OF assms(2)] by simp
  then have "heap_ok ?w" using assms(1) by (simp add: world_ok_def heap_ok_put)
  moreover have "alloc_ok ?w" using assms(1) by (simp add: world_ok_def alloc_ok_def)
  moreover have "all_views ?w" using assms(1) by (simp add: world_ok_def all_views_def view)
  ultimately show ?thesis by (simp add: world_ok_def)
qed

lemma set_leaf_mem_spec:
  assumes ok: "world_ok w" and v: "leaf_view w a = Some (l0, m0)" and sp: "same_place l l0" and wf: "wf_leaf m'"
  obtains d where "set_leaf_mem l m' w = Some (w\<lparr>nv := (nv w)\<lparr>dev := d\<rparr>\<rparr>)"
    "world_ok (w\<lparr>nv := (nv w)\<lparr>dev := d\<rparr>\<rparr>)"
    "\<And>b. leaf_view (w\<lparr>nv := (nv w)\<lparr>dev := d\<rparr>\<rparr>) b = (if b = a then Some (l0, m') else leaf_view w b)"
    "\<And>A. allocator (nv w) = Some A \<Longrightarrow> used_set A d = used_set A (dev (nv w))"
    "\<And>q. q \<noteq> LeafRegion (fileId (pPointer l)) (leaf_index (pPointer l)) \<Longrightarrow> (\<forall>f. q \<noteq> FileRegion f) \<Longrightarrow>
      synced q (dev (nv w)) \<Longrightarrow> synced q d"
proof -
  obtain A where A: "allocator (nv w) = Some A" "palloc_inv A (dev (nv w))" "pPointer l0 \<in> used_set A (dev (nv w))"
    using leaf_viewD(5) [OF v] ok by (auto simp: world_ok_def alloc_ok_def)
  have pp: "pPointer l = pPointer l0" using sp by (simp add: same_place_def)
  have ex: "ifLeafExist A (pPointer l)" using A(3) pp by (simp add: used_set_def)
  obtain g d where d: "put_leaf (fileId (pPointer l)) (leaf_index (pPointer l)) m' (dev (nv w)) = Some d"
    "palloc_inv A d" "\<And>q. leaf_byte d q = leaf_byte (dev (nv w)) q"
    "\<And>q. ifLeafExist A q \<Longrightarrow> leaf_at d q = (if q = pPointer l then Some m' else leaf_at (dev (nv w)) q)"
    "\<And>q. q \<noteq> LeafRegion (fileId (pPointer l)) (leaf_index (pPointer l)) \<Longrightarrow> (\<forall>f. q \<noteq> FileRegion f) \<Longrightarrow>
      synced q (dev (nv w)) \<Longrightarrow> synced q d"
    by (rule put_leafE [OF A(2) ex wf]) blast
  let ?w = "w\<lparr>nv := (nv w)\<lparr>dev := d\<rparr>\<rparr>"
  have val: "leaf_valid l w" using leaf_viewD(3) [OF v] leaf_valid_cong [OF sp] by simp
  have run: "set_leaf_mem l m' w = Some ?w" by (simp add: set_leaf_mem_def val d(1))
  have us: "used_set A d = used_set A (dev (nv w))" by (simp add: used_set_def d(3))
  have inj: "b = a" if "leaf_view w b = Some (lb, mb)" "pPointer lb = pPointer l0" for b lb mb
    using views_injD [OF _ that(1) v] that ok by (simp add: world_ok_def)
  have view: "leaf_view ?w b = (if b = a then Some (l0, m') else leaf_view w b)" for b
  proof (cases "get_leafnode w b")
    case None
    then show ?thesis using leaf_viewD(2) [OF v] by (auto simp: leaf_view_def get_leafnode_def)
  next
    case (Some lb)
    show ?thesis
    proof (cases "pPointer lb \<in> used_set A (dev (nv w)) \<and> leaf_valid lb w")
      case True
      have exb: "ifLeafExist A (pPointer lb)" using True by (simp add: used_set_def)
      obtain mb where mb: "leaf_at (dev (nv w)) (pPointer lb) = Some mb"
        using leaf_atE [OF A(2) exb] by metis
      then have vb: "leaf_view w b = Some (lb, mb)" using True Some A(1) by (simp add: leaf_view_def)
      have "leaf_view ?w b = map_option (Pair lb) (leaf_at d (pPointer lb))"
        using True Some A(1) us by (simp add: leaf_view_def get_leafnode_def leaf_valid_def map_conv_bind_option comp_def)
      also have "\<dots> = (if b = a then Some (l0, m') else leaf_view w b)"
      proof (cases "b = a")
        case True
        with vb v d(4) [OF exb] pp show ?thesis by simp
      next
        case False
        with inj [OF vb] pp have "pPointer lb \<noteq> pPointer l" by auto
        with False vb d(4) [OF exb] mb show ?thesis by simp
      qed
      finally show ?thesis .
    next
      case False
      then have "leaf_view w b = None" "leaf_view ?w b = None"
        using Some A(1) us by (auto simp: leaf_view_def get_leafnode_def leaf_valid_def)
      then show ?thesis using v by auto
    qed
  qed
  have "views_inj ?w" by (rule views_inj_update [OF _ v _ view]) (use ok in \<open>simp_all add: world_ok_def\<close>)
  then have "world_ok ?w" using ok A(1) d(2) by (simp add: world_ok_def alloc_ok_def heap_ok_def all_views_def view)
  then show thesis using that [OF run _ view] us A(1) d(5) by simp
qed

lemma persist_spec:
  assumes E: "libpmem_ok E" and ok: "world_ok w" and v: "leaf_view w a = Some (l0, m)" and sp: "same_place l l0"
  obtains d where "persist E l w = Some (w\<lparr>nv := (nv w)\<lparr>dev := d\<rparr>\<rparr>)"
    "world_ok (w\<lparr>nv := (nv w)\<lparr>dev := d\<rparr>\<rparr>)" "\<And>b. leaf_view (w\<lparr>nv := (nv w)\<lparr>dev := d\<rparr>\<rparr>) b = leaf_view w b"
    "\<And>A. used_set A d = used_set A (dev (nv w))"
    "\<And>d0. durable d0 \<Longrightarrow> (\<And>q. q \<noteq> LeafRegion (fileId (pPointer l)) (leaf_index (pPointer l)) \<Longrightarrow>
        (\<forall>f. q \<noteq> FileRegion f) \<Longrightarrow> synced q d0 \<Longrightarrow> synced q (dev (nv w))) \<Longrightarrow> durable d"
proof -
  obtain A where A: "allocator (nv w) = Some A" "palloc_inv A (dev (nv w))"
    using ok by (auto simp: world_ok_def alloc_ok_def)
  define d where "d = flush E (ifPmemAddr A (fileId (pPointer l)))
    (LeafRegion (fileId (pPointer l)) (leaf_index (pPointer l))) (dev (nv w))"
  have cur: "cur d = cur (dev (nv w))" using E by (simp add: d_def flush_okD)
  have val: "leaf_valid l w" using leaf_viewD(3) [OF v] leaf_valid_cong [OF sp] by simp
  let ?w = "w\<lparr>nv := (nv w)\<lparr>dev := d\<rparr>\<rparr>"
  have run: "persist E l w = Some ?w"
    using A(1) val by (simp add: persist_def getAllocator_def d_def)
  have view: "leaf_view ?w b = leaf_view w b" for b
    by (rule leaf_view_cong) (simp_all add: cur)
  have "palloc_inv A d" using A(2) by (simp add: palloc_inv_def device_views_cong [OF cur])
  then have "world_ok ?w"
    using ok A(1) by (simp add: world_ok_def alloc_ok_def heap_ok_def views_inj_def all_views_def view)
  moreover have "durable d" if "durable d0" and "\<And>q. q \<noteq> LeafRegion (fileId (pPointer l)) (leaf_index (pPointer l)) \<Longrightarrow>
        (\<forall>f. q \<noteq> FileRegion f) \<Longrightarrow> synced q d0 \<Longrightarrow> synced q (dev (nv w))" for d0
    unfolding d_def by (rule durable_after_write [OF E that])
  ultimately show thesis using that [OF run _ view] device_views_cong(1) [OF cur] by blast
qed

section \<open>Writing and persisting a leaf\<close>

definition set_dev :: "device \<Rightarrow> world \<Rightarrow> world" where
  "set_dev d w = w\<lparr>nv := (nv w)\<lparr>dev := d\<rparr>\<rparr>"

lemma set_dev_simps [simp]:
  "heap (set_dev d w) = heap w" "brk (set_dev d w) = brk w" "root (set_dev d w) = root w"
  "tree_degree (set_dev d w) = tree_degree w" "nv (set_dev d w) = (nv w)\<lparr>dev := d\<rparr>"
  "set_dev d (set_dev d' w) = set_dev d w" "set_dev (dev (nv w)) w = w"
  "put_node a x (set_dev d w) = set_dev d (put_node a x w)" "get_leafnode (set_dev d w) b = get_leafnode w b"
  "get_inner (set_dev d w) b = get_inner w b"
  by (simp_all add: set_dev_def put_node_def get_leafnode_def get_inner_def)

lemma put_node_triv: "heap w a = Some x \<Longrightarrow> put_node a x w = w"
  by (simp add: put_node_def fun_upd_idem)

lemma store_spec:
  assumes E: "libpmem_ok E" and ok: "world_ok w" and v: "leaf_view w a = Some (l0, m0)"
    and sp: "same_place l l0" "same_place l1 l0" and wf: "wf_leaf m'"
  obtains d1 d where "set_leaf_mem l m' w = Some (set_dev d1 w)"
    "persist E l (set_dev d1 (put_node a (Leaf l1) w)) = Some (set_dev d (put_node a (Leaf l1) w))"
    "world_ok (set_dev d (put_node a (Leaf l1) w))"
    "\<And>b. leaf_view (set_dev d (put_node a (Leaf l1) w)) b = (if b = a then Some (l1, m') else leaf_view w b)"
    "\<And>A. allocator (nv w) = Some A \<Longrightarrow> used_set A d = used_set A (dev (nv w))"
    "durable (dev (nv w)) \<Longrightarrow> durable d"
proof -
  let ?r = "LeafRegion (fileId (pPointer l)) (leaf_index (pPointer l))"
  obtain d1 where s1: "set_leaf_mem l m' w = Some (set_dev d1 w)" "world_ok (set_dev d1 w)"
    "\<And>b. leaf_view (set_dev d1 w) b = (if b = a then Some (l0, m') else leaf_view w b)"
    "\<And>A. allocator (nv w) = Some A \<Longrightarrow> used_set A d1 = used_set A (dev (nv w))"
    "\<And>q. q \<noteq> ?r \<Longrightarrow> (\<forall>f. q \<noteq> FileRegion f) \<Longrightarrow> synced q (dev (nv w)) \<Longrightarrow> synced q d1"
    unfolding set_dev_def by (rule set_leaf_mem_spec [OF ok v sp(1) wf]) blast
  let ?w = "put_node a (Leaf l1) (set_dev d1 w)"
  have v0: "leaf_view (set_dev d1 w) a = Some (l0, m')" by (simp add: s1(3))
  have ok1: "world_ok ?w" by (rule world_ok_put_leaf [OF s1(2) v0 sp(2)])
  have v1: "leaf_view ?w a = Some (l1, m')" by (rule leaf_view_put_same [OF v0 sp(2)])
  have sp1: "same_place l l1" using sp by (simp add: same_place_def)
  obtain d where s2: "persist E l ?w = Some (set_dev d ?w)" "world_ok (set_dev d ?w)"
    "\<And>b. leaf_view (set_dev d ?w) b = leaf_view ?w b" "\<And>A. used_set A d = used_set A (dev (nv ?w))"
    "\<And>d0. durable d0 \<Longrightarrow> (\<And>q. q \<noteq> ?r \<Longrightarrow> (\<forall>f. q \<noteq> FileRegion f) \<Longrightarrow> synced q d0 \<Longrightarrow> synced q (dev (nv ?w))) \<Longrightarrow> durable d"
    unfolding set_dev_def by (rule persist_spec [OF E ok1 [unfolded set_dev_def] v1 [unfolded set_dev_def] sp1]) blast
  have view: "leaf_view (set_dev d ?w) b = (if b = a then Some (l1, m') else leaf_view w b)" for b
    using s2(3) [of b] v1 leaf_view_put_other [of b a "Leaf l1" "set_dev d1 w"] s1(3) [of b] by simp
  have dur: "durable d" if "durable (dev (nv w))" by (rule s2(5) [OF that]) (use s1(5) in simp)
  show thesis
    by (rule that [where d = d, OF s1(1)]) (use s2 view s1(4) dur in simp_all)
qed

section \<open>Searching and updating a leaf\<close>

text \<open>A leaf of the tree between operations: never full, since a full leaf is split at once.\<close>

definition good_leaf :: "LeafNode \<Rightarrow> leaf_image \<Rightarrow> bool" where
  "good_leaf l m \<longleftrightarrow> degree l = LEAF_DEGREE \<and> leaf_ok m \<and> keys_distinct m
     \<and> nEntries l = int (length (entries m)) \<and> length (entries m) < 112"

lemma LeafNode_find_spec:
  assumes v: "leaf_view w a = Some (l, m)" and g: "good_leaf l m"
  shows "LeafNode_find a k w = Some (case leaf_map m k of None \<Rightarrow> MAX_VALUE | Some v \<Rightarrow> v)"
proof -
  note d = leaf_viewD [OF v]
  have ok: "leaf_ok m" "keys_distinct m" "degree l = 56" using g by (simp_all add: good_leaf_def LEAF_DEGREE_def)
  have len: "length (kv m) = 112" using ok(1) by (simp add: leaf_ok_def wf_leaf_def)
  show ?thesis
  proof (cases rule: find_slot_spec [OF ok(1), of k])
    case (1 r)
    have "(k, snd (kv m ! r)) \<in> set (entries m)"
      unfolding set_entries using 1(3,4) by (metis image_eqI prod.collapse)
    then have "leaf_map m k = Some (snd (kv m ! r))" by (simp add: leaf_map_Some [OF ok(2)])
    then show ?thesis using 1 d ok len by (simp add: LeafNode_find_def rd_Some)
  next
    case 2
    then have "leaf_map m k = None" by (simp add: leaf_map_None)
    then show ?thesis using 2 d ok by (simp add: LeafNode_find_def)
  qed
qed

lemma LeafNode_update_spec:
  assumes E: "libpmem_ok E" and ok: "world_ok w" and v: "leaf_view w a = Some (l, m)" and g: "good_leaf l m"
  obtains d m' where "LeafNode_update E a k v w = Some (leaf_map m k \<noteq> None, set_dev d w)" "world_ok (set_dev d w)"
    "\<And>b. leaf_view (set_dev d w) b = (if b = a then Some (l, m') else leaf_view w b)"
    "good_leaf l m'" "pNext m' = pNext m"
    "leaf_map m' = (if leaf_map m k = None then leaf_map m else (leaf_map m)(k \<mapsto> v))"
    "fst ` set (entries m') = fst ` set (entries m)" "durable (dev (nv w)) \<Longrightarrow> durable d"
    "\<And>A. allocator (nv w) = Some A \<Longrightarrow> used_set A d = used_set A (dev (nv w))"
proof -
  note vd = leaf_viewD [OF v]
  have lk: "leaf_ok m" "keys_distinct m" "degree l = 56" using g by (simp_all add: good_leaf_def LEAF_DEGREE_def)
  have len: "length (kv m) = 112" using lk(1) by (simp add: leaf_ok_def wf_leaf_def)
  have triv: "put_node a (Leaf l) w = w" by (rule put_node_triv [OF vd(1)])
  show thesis
  proof (cases rule: find_slot_spec [OF lk(1), of k])
    case (1 r)
    let ?m = "m\<lparr>kv := (kv m)[r := (k, v)]\<rparr>"
    note u = update_slot_spec [OF lk(1) 1(3,4) lk(2), of v]
    have wf: "wf_leaf ?m" using u(1) by (simp add: leaf_ok_def)
    obtain d1 d where s: "set_leaf_mem l ?m w = Some (set_dev d1 w)" "persist E l (set_dev d1 w) = Some (set_dev d w)"
      "world_ok (set_dev d w)" "\<And>b. leaf_view (set_dev d w) b = (if b = a then Some (l, ?m) else leaf_view w b)"
      "\<And>A. allocator (nv w) = Some A \<Longrightarrow> used_set A d = used_set A (dev (nv w))" "durable (dev (nv w)) \<Longrightarrow> durable d"
      by (rule store_spec [OF E ok v _ _ wf, of l l]) (simp_all add: triv)
    have "leaf_map m k \<noteq> None"
      unfolding leaf_map_None set_entries using 1(3,4) by (metis image_eqI)
    then obtain y where mk: "leaf_map m k = Some y" by blast
    have run: "LeafNode_update E a k v w = Some (leaf_map m k \<noteq> None, set_dev d w)"
      using 1 vd lk len s(1,2) mk by (simp add: LeafNode_update_def rd_Some wr_Some)
    show thesis
      by (rule that [where m' = ?m, OF run]) (use s u g mk in \<open>simp_all add: good_leaf_def\<close>)
  next
    case 2
    then have mk: "leaf_map m k = None" by (simp add: leaf_map_None)
    have run: "LeafNode_update E a k v w = Some (leaf_map m k \<noteq> None, set_dev (dev (nv w)) w)"
      using 2 vd lk mk by (simp add: LeafNode_update_def)
    show thesis
      by (rule that [where m' = m, OF run]) (use g mk ok v in simp_all)
  qed
qed

section \<open>Inserting into a leaf\<close>

lemma LeafNode_insertNonFull_spec:
  assumes E: "libpmem_ok E" and ok: "world_ok w" and v: "leaf_view w a = Some (l, m)" and g: "good_leaf l m"
    and fresh: "leaf_map m k = None"
  obtains d m' where
    "LeafNode_insertNonFull E a k v w = Some (set_dev d (put_node a (Leaf (l\<lparr>nEntries := nEntries l + 1\<rparr>)) w))"
    "world_ok (set_dev d (put_node a (Leaf (l\<lparr>nEntries := nEntries l + 1\<rparr>)) w))"
    "\<And>b. leaf_view (set_dev d (put_node a (Leaf (l\<lparr>nEntries := nEntries l + 1\<rparr>)) w)) b
      = (if b = a then Some (l\<lparr>nEntries := nEntries l + 1\<rparr>, m') else leaf_view w b)"
    "leaf_ok m'" "keys_distinct m'" "pNext m' = pNext m" "length (entries m') = Suc (length (entries m))"
    "set (entries m') = insert (k, v) (set (entries m))" "durable (dev (nv w)) \<Longrightarrow> durable d"
    "\<And>A. allocator (nv w) = Some A \<Longrightarrow> used_set A d = used_set A (dev (nv w))"
proof -
  note vd = leaf_viewD [OF v]
  have lk: "leaf_ok m" "keys_distinct m" "degree l = 56" "length (entries m) < 112" "wf_leaf m"
    using g by (simp_all add: good_leaf_def LEAF_DEGREE_def leaf_ok_def)
  let ?l = "l\<lparr>nEntries := nEntries l + 1\<rparr>"
  have ne: "set (used_slots m) \<noteq> {..<112}"
  proof
    assume "set (used_slots m) = {..<112}"
    then have "length (entries m) = 112" by (simp only: length_entries card_lessThan)
    with lk(4) show False by simp
  qed
  obtain r where r: "findFirstZero 56 m = Some (int r)" "r < 112" "r \<notin> set (used_slots m)"
    by (rule findFirstZero_spec [OF lk(5)]) (use ne in blast)+
  have kf: "k \<notin> fst ` set (entries m)" using fresh by (simp add: leaf_map_None)
  obtain m' where f: "fill_slot m (int r) k v = Some m'" "leaf_ok m'" "pNext m' = pNext m"
    "set (entries m') = insert (k, v) (set (entries m))" "length (entries m') = Suc (length (entries m))"
    "keys_distinct m'"
    by (rule fill_slot_spec [OF lk(1) r(2,3), of k v]) (use lk(2) kf in auto)
  have wf: "wf_leaf m'" using f(2) by (simp add: leaf_ok_def)
  obtain d1 d where s: "set_leaf_mem l m' w = Some (set_dev d1 w)"
    "persist E l (set_dev d1 (put_node a (Leaf ?l) w)) = Some (set_dev d (put_node a (Leaf ?l) w))"
    "world_ok (set_dev d (put_node a (Leaf ?l) w))"
    "\<And>b. leaf_view (set_dev d (put_node a (Leaf ?l) w)) b = (if b = a then Some (?l, m') else leaf_view w b)"
    "\<And>A. allocator (nv w) = Some A \<Longrightarrow> used_set A d = used_set A (dev (nv w))" "durable (dev (nv w)) \<Longrightarrow> durable d"
    by (rule store_spec [OF E ok v _ _ wf, of l ?l]) simp_all
  have "persist E ?l w' = persist E l w'" for w' by (rule persist_cong) simp
  then have run: "LeafNode_insertNonFull E a k v w = Some (set_dev d (put_node a (Leaf ?l) w))"
    using vd lk r f(1) s(1,2) by (simp add: LeafNode_insertNonFull_def Let_def)
  show thesis
    by (rule that [where m' = m', OF run s(3) s(4) f(2,6,3,5,4)]) (use s(5,6) in auto)
qed

lemma newLeafNode_spec:
  assumes E: "libpmem_ok E" and ok: "world_ok w" and A: "allocator (nv w) = Some A" and av: "leaf_available E A (nv w)"
  obtains w' l A' where "newLeafNode E w = Some (brk w, w')" "world_ok w'"
    "heap w' = (heap w)(brk w \<mapsto> Leaf l)" "brk w' = brk w + 1" "root w' = root w" "tree_degree w' = tree_degree w"
    "\<And>b. leaf_view w' b = (if b = brk w then Some (l, zero_leaf) else leaf_view w b)"
    "degree l = LEAF_DEGREE" "nEntries l = 0" "prev l = NULL" "next l = NULL"
    "allocator (nv w') = Some A'" "pPointer l \<notin> used_set A (dev (nv w))"
    "used_set A' (dev (nv w')) = insert (pPointer l) (used_set A (dev (nv w)))"
    "startLeaf A' = (if startLeaf A \<in> used_set A (dev (nv w)) then startLeaf A else pPointer l)"
    "durable (dev (nv w)) \<Longrightarrow> durable (dev (nv w'))" "maxFileId A' = maxFileId A \<or> maxFileId A' = maxFileId A + 1"
    "free_file_ok A (nv w) \<Longrightarrow> free_file_ok A' (nv w')"
proof -
  have inv: "palloc_inv A (dev (nv w))" using ok A by (simp add: world_ok_def alloc_ok_def)
  obtain p a A' n' where r: "getLeaf E A (nv w) = Some (Some (p, a), A', n')"
    "palloc_inv A' (dev n')" "p \<notin> used_set A (dev (nv w))" "used_set A' (dev n') = insert p (used_set A (dev (nv w)))"
    "getLeafPmemAddr A' p = Some a" "take_bit 12 a \<noteq> 0" "leaf_at (dev n') p = Some zero_leaf"
    "leaves_kept (used_set A (dev (nv w))) A (dev (nv w)) A' (dev n')"
    "startLeaf A' = (if startLeaf A \<in> used_set A (dev (nv w)) then startLeaf A else p)"
    "durable (dev (nv w)) \<Longrightarrow> durable (dev n')" "maxFileId A' = maxFileId A \<or> maxFileId A' = maxFileId A + 1"
    by (rule getLeaf_spec [OF E inv av]) blast
  define l where "l = \<lparr>degree = LEAF_DEGREE, pmem_addr = a, nEntries = 0, prev = NULL, next = NULL, pPointer = p,
      filePath = DATA_DIR @ to_string (fileId p), bitmapSize = bitmap_bytes\<rparr>"
  define w' where "w' = w\<lparr>nv := n'\<lparr>allocator := Some A'\<rparr>, heap := (heap w)(brk w \<mapsto> Leaf l), brk := brk w + 1\<rparr>"
  have run: "newLeafNode E w = Some (brk w, w')"
    using A r(1) by (simp add: newLeafNode_def getAllocator_def alloc_def l_def w'_def)
  have a0: "a \<noteq> 0" using r(6) by auto
  have hb: "heap w (brk w) = None" using ok by (simp add: world_ok_def heap_ok_def)
  have view: "leaf_view w' b = (if b = brk w then Some (l, zero_leaf) else leaf_view w b)" for b
  proof (cases "b = brk w")
    case True
    then show ?thesis using r a0
      by (simp add: leaf_view_def get_leafnode_def leaf_valid_def w'_def l_def)
  next
    case False
    have old: "leaf_view w' b = Some (lb, mb)" if vb: "leaf_view w b = Some (lb, mb)" for lb mb
    proof -
      note vd = leaf_viewD(1) [OF vb] leaf_viewD(3) [OF vb] leaf_viewD(5) [OF vb]
      have "pPointer lb \<in> used_set A (dev (nv w))" using vd(3) A by auto
      then have "leaf_at (dev n') (pPointer lb) = leaf_at (dev (nv w)) (pPointer lb)"
          "getLeafPmemAddr A' (pPointer lb) = getLeafPmemAddr A (pPointer lb)" "pPointer lb \<in> used_set A' (dev n')"
        using r(4,8) by (simp_all add: leaves_kept_def)
      with vd A False show ?thesis
        by (auto simp: leaf_view_def get_leafnode_def leaf_valid_def w'_def)
    qed
    show ?thesis
    proof (cases "leaf_view w b")
      case None
      then have "get_leafnode w' b = None"
        using ok False by (auto simp: world_ok_def all_views_def w'_def get_leafnode_def split: option.splits node.splits)
      with None False show ?thesis by (simp add: leaf_view_def)
    next
      case (Some vb)
      with old False show ?thesis by (cases vb) simp
    qed
  qed
  have used: "pPointer lb \<in> used_set A (dev (nv w))" if "leaf_view w b = Some (lb, mb)" for b lb mb
    using leaf_viewD(5) [OF that] A by auto
  have "views_inj w'"
    unfolding views_inj_def view using r(3) used ok
    by (auto simp: l_def world_ok_def dest: views_injD split: if_splits)
  moreover have "all_views w'"
    using ok by (simp add: all_views_def world_ok_def view) (simp add: w'_def)
  moreover have "heap_ok w'" using ok by (auto simp: world_ok_def heap_ok_def w'_def)
  ultimately have "world_ok w'" using r(2) by (simp add: world_ok_def alloc_ok_def w'_def)
  then show thesis
    by (rule that [where A' = A', OF run _ _ _ _ _ view])
      (use r getLeaf_free_file [OF E inv av _ r(1)] in \<open>auto simp: w'_def l_def free_file_ok_def\<close>)
qed

section \<open>Splitting a leaf\<close>

lemma put_leaf_views:
  assumes "world_ok w" and "leaf_view w a = Some (l, m)" and "same_place l' l"
  shows "world_ok (put_node a (Leaf l') w)"
    and "leaf_view (put_node a (Leaf l') w) b = (if b = a then Some (l', m) else leaf_view w b)"
    and "get_inner (put_node a (Leaf l') w) b = get_inner w b"
proof -
  show "world_ok (put_node a (Leaf l') w)" by (rule world_ok_put_leaf [OF assms])
  show "leaf_view (put_node a (Leaf l') w) b = (if b = a then Some (l', m) else leaf_view w b)"
    using leaf_view_put_same [OF assms(2,3)] leaf_view_put_other [of b a] by simp
  show "get_inner (put_node a (Leaf l') w) b = get_inner w b"
    using leaf_viewD(1) [OF assms(2)] by (simp add: get_inner_def)
qed

text \<open>The link to the right neighbour is good if it is null or leads to another leaf.\<close>

definition next_ok :: "world \<Rightarrow> addr \<Rightarrow> LeafNode \<Rightarrow> bool" where
  "next_ok w a l \<longleftrightarrow> next l = NULL \<or> (next l \<noteq> a \<and> leaf_view w (next l) \<noteq> None)"

text \<open>The relinking at the end of \<open>split\<close>: \<open>b\<close> goes between \<open>a\<close> and its old successor.\<close>

lemma relink_spec:
  assumes ok: "world_ok w" and va: "leaf_view w a = Some (l, m)" and vb: "leaf_view w b = Some (l', m')"
    and ab: "a \<noteq> b" and nx: "next_ok w a l" "next l \<noteq> b"
  obtains w8 where "LeafNode_relink a b l l' w = Some w8"
    "world_ok w8" "nv w8 = nv w" "brk w8 = brk w" "root w8 = root w" "tree_degree w8 = tree_degree w"
    "\<And>c. get_inner w8 c = get_inner w c"
    "leaf_view w8 a = Some (l\<lparr>nEntries := degree l, next := b\<rparr>, m)"
    "leaf_view w8 b = Some (l'\<lparr>nEntries := degree l, prev := a, next := next l\<rparr>, m')"
    "\<And>c. c \<noteq> a \<Longrightarrow> c \<noteq> b \<Longrightarrow> leaf_view w8 c = (if c = next l then map_option (\<lambda>(x, mx). (x\<lparr>prev := b\<rparr>, mx)) (leaf_view w c)
      else leaf_view w c)"
proof -
  define l6 where "l6 = l\<lparr>nEntries := degree l\<rparr>"
  define n6 where "n6 = l'\<lparr>nEntries := degree l, prev := a\<rparr>"
  let ?wb = "put_node b (Leaf n6) w"
  have sn: "same_place n6 l'" by (simp add: n6_def)
  note pb = put_leaf_views [OF ok vb sn]
  have va1: "leaf_view ?wb a = Some (l, m)" using pb(2) [of a] va ab by simp
  have sl: "same_place l6 l" by (simp add: l6_def)
  let ?w6 = "put_node a (Leaf l6) ?wb"
  note pa = put_leaf_views [OF pb(1) va1 sl]
  have v6: "leaf_view ?w6 c = (if c = a then Some (l6, m) else if c = b then Some (n6, m') else leaf_view w c)" for c
    using pa(2) [of c] pb(2) [of c] by simp
  have h0: "leaf_view w NULL = None"
    using ok by (simp add: world_ok_def heap_ok_def leaf_view_def get_leafnode_def)
  obtain w7 where w7: "(if next l \<noteq> NULL then do { nx \<leftarrow> get_leafnode ?w6 (next l);
        Some (put_node (next l) (Leaf (nx\<lparr>prev := b\<rparr>)) ?w6) } else Some ?w6) = Some w7"
    "world_ok w7" "nv w7 = nv w" "brk w7 = brk w" "root w7 = root w" "tree_degree w7 = tree_degree w"
    "\<And>c. get_inner w7 c = get_inner w c"
    "leaf_view w7 a = Some (l6, m)" "leaf_view w7 b = Some (n6, m')"
    "\<And>c. c \<noteq> a \<Longrightarrow> c \<noteq> b \<Longrightarrow> leaf_view w7 c = (if c = next l then map_option (\<lambda>(x, mx). (x\<lparr>prev := b\<rparr>, mx)) (leaf_view w c)
      else leaf_view w c)"
  proof (cases "next l = NULL")
    case True
    show thesis
      by (rule that [of ?w6]) (use True v6 pa(1,3) pb(3) h0 ab in auto)
  next
    case False
    then obtain x mx where x: "leaf_view w (next l) = Some (x, mx)" "next l \<noteq> a"
      using nx(1) by (auto simp: next_ok_def)
    have x6: "leaf_view ?w6 (next l) = Some (x, mx)" using v6 x nx(2) by simp
    have sx: "same_place (x\<lparr>prev := b\<rparr>) x" by simp
    note px = put_leaf_views [OF pa(1) x6 sx]
    show thesis
      by (rule that [of "put_node (next l) (Leaf (x\<lparr>prev := b\<rparr>)) ?w6"])
        (use False x nx(2) leaf_viewD(2) [OF x6] px v6 pa(3) pb(3) ab in auto)
  qed
  let ?wc = "put_node b (Leaf (n6\<lparr>next := next l6\<rparr>)) w7"
  have sb: "same_place (n6\<lparr>next := next l6\<rparr>) n6" by simp
  note pb7 = put_leaf_views [OF w7(2) w7(9) sb]
  have va7: "leaf_view ?wc a = Some (l6, m)" using pb7(2) [of a] w7(8) ab by simp
  have sa: "same_place (l6\<lparr>next := b\<rparr>) l6" by simp
  note pa7 = put_leaf_views [OF pb7(1) va7 sa]
  let ?w8 = "put_node a (Leaf (l6\<lparr>next := b\<rparr>)) ?wc"
  have run: "LeafNode_relink a b l l' w = Some ?w8"
    unfolding LeafNode_relink_def Let_def l6_def [symmetric] n6_def [symmetric] w7(1)
    using leaf_viewD(2) [OF w7(8)] leaf_viewD(2) [OF w7(9)] by simp
  show thesis
  proof (rule that [OF run])
    show "world_ok ?w8" by (rule pa7(1))
    show "get_inner ?w8 c = get_inner w c" for c using pa7(3) pb7(3) w7(7) by simp
    show "leaf_view ?w8 a = Some (l\<lparr>nEntries := degree l, next := b\<rparr>, m)" using pa7(2) by (simp add: l6_def)
    show "leaf_view ?w8 b = Some (l'\<lparr>nEntries := degree l, prev := a, next := next l\<rparr>, m')"
      using pa7(2) pb7(2) ab by (simp add: n6_def l6_def)
    show "leaf_view ?w8 c = (if c = next l then map_option (\<lambda>(x, mx). (x\<lparr>prev := b\<rparr>, mx)) (leaf_view w c)
      else leaf_view w c)" if "c \<noteq> a" "c \<noteq> b" for c
      using pa7(2) [of c] pb7(2) [of c] w7(10) [OF that] that by simp
  qed (use w7 in simp_all)
qed

lemma LeafNode_split_spec:
  assumes E: "libpmem_ok E" and ok: "world_ok w" and va: "leaf_view w a = Some (l, m)"
    and l: "degree l = LEAF_DEGREE" "nEntries l = 112" and m: "leaf_ok m" "keys_distinct m" "length (entries m) = 112"
    and nx: "next_ok w a l" and A: "allocator (nv w) = Some A" and av: "leaf_available E A (nv w)"
  obtains mid w' b nl hi lo A' where "LeafNode_split E a w = Some (Some \<lparr>key = mid, node = b\<rparr>, w')"
    "world_ok w'" "b = brk w" "brk w' = brk w + 1" "root w' = root w" "tree_degree w' = tree_degree w"
    "\<And>c. get_inner w' c = get_inner w c"
    "leaf_view w' a = Some (l\<lparr>nEntries := 56, next := b\<rparr>, lo)"
    "leaf_view w' b = Some (nl, hi)" "prev nl = a" "next nl = next l"
    "\<And>c. c \<noteq> a \<Longrightarrow> c \<noteq> b \<Longrightarrow> leaf_view w' c = (if c = next l then map_option (\<lambda>(x, mx). (x\<lparr>prev := b\<rparr>, mx)) (leaf_view w c)
      else leaf_view w c)"
    "good_leaf (l\<lparr>nEntries := 56, next := b\<rparr>) lo" "good_leaf nl hi"
    "set (entries hi) = {e \<in> set (entries m). mid \<le> fst e}"
    "set (entries lo) = {e \<in> set (entries m). fst e < mid}"
    "mid \<in> fst ` set (entries hi)" "length (entries hi) = 56" "length (entries lo) = 56"
    "pNext hi = pNext m" "pNext lo = pPointer nl"
    "allocator (nv w') = Some A'" "used_set A' (dev (nv w')) = insert (pPointer nl) (used_set A (dev (nv w)))"
    "startLeaf A' = (if startLeaf A \<in> used_set A (dev (nv w)) then startLeaf A else pPointer nl)"
    "durable (dev (nv w)) \<Longrightarrow> durable (dev (nv w'))" "free_file_ok A (nv w) \<Longrightarrow> free_file_ok A' (nv w')"
proof -
  have d56: "degree l = 56" using l(1) by (simp add: LEAF_DEGREE_def)
  obtain w1 nl A1 where n: "newLeafNode E w = Some (brk w, w1)" "world_ok w1"
    "heap w1 = (heap w)(brk w \<mapsto> Leaf nl)" "brk w1 = brk w + 1" "root w1 = root w" "tree_degree w1 = tree_degree w"
    "\<And>b. leaf_view w1 b = (if b = brk w then Some (nl, zero_leaf) else leaf_view w b)"
    "degree nl = LEAF_DEGREE" "nEntries nl = 0" "prev nl = NULL" "next nl = NULL"
    "allocator (nv w1) = Some A1" "pPointer nl \<notin> used_set A (dev (nv w))"
    "used_set A1 (dev (nv w1)) = insert (pPointer nl) (used_set A (dev (nv w)))"
    "startLeaf A1 = (if startLeaf A \<in> used_set A (dev (nv w)) then startLeaf A else pPointer nl)"
    "durable (dev (nv w)) \<Longrightarrow> durable (dev (nv w1))" "free_file_ok A (nv w) \<Longrightarrow> free_file_ok A1 (nv w1)"
    by (rule newLeafNode_spec [OF E ok A av]) blast
  let ?b = "brk w"
  have hb: "heap w ?b = None" using ok by (simp add: world_ok_def heap_ok_def)
  have ab: "a \<noteq> ?b" using leaf_viewD(1) [OF va] hb by auto
  have wfm: "wf_leaf m" using m(1) by (simp add: leaf_ok_def)
  have full: "set (used_slots m) = {..<112}"
  proof (rule card_subset_eq)
    show "set (used_slots m) \<subseteq> {..<112}" by (auto simp: set_used_slots)
    show "card (set (used_slots m)) = card {..<112::nat}" using m(3) by (simp only: length_entries card_lessThan)
  qed simp
  define mid where "mid = sort (map fst (kv m)) ! 56"
  obtain bm new where sl: "split_loop 56 m mid zero_leaf = Some (bm, new)" "length bm = 14" "wf_leaf new"
    "pNext new = pNext zero_leaf" "\<And>i. i < 112 \<Longrightarrow> slot_used bm i \<longleftrightarrow> slot_moves m mid i"
    "\<And>i. i < 112 \<Longrightarrow> slot_moves m mid i \<Longrightarrow> fingerprints new ! i = fingerprints m ! i \<and> kv new ! i = kv m ! i"
    by (rule split_loop_spec [OF wfm wf_zero_leaf]) blast
  note se = split_entries [OF m(1) full m(2) mid_def sl(2,3,5,6)]
  define hi where "hi = new\<lparr>bitmap := bm, pNext := pNext m\<rparr>"
  define lo where "lo = m\<lparr>bitmap := map (NOT) bm, pNext := pPointer nl\<rparr>"
  have inert: "leaf_ok (x\<lparr>pNext := q\<rparr>) = leaf_ok x" "keys_distinct (x\<lparr>pNext := q\<rparr>) = keys_distinct x"
    "entries (x\<lparr>pNext := q\<rparr>) = entries x" for x q
    by (simp_all add: leaf_ok_def keys_distinct_def entries_def used_slots_def wf_leaf_def)
  have hi': "hi = (new\<lparr>bitmap := bm\<rparr>)\<lparr>pNext := pNext m\<rparr>" by (simp add: hi_def)
  have lo': "lo = (m\<lparr>bitmap := map (NOT) bm\<rparr>)\<lparr>pNext := pPointer nl\<rparr>" by (simp add: lo_def)
  have wf2: "wf_leaf hi" "wf_leaf lo" using sl(2,3) wfm by (simp_all add: hi_def lo_def wf_leaf_def)
  have vb: "leaf_view w1 ?b = Some (nl, zero_leaf)" by (simp add: n(7))
  have va1: "leaf_view w1 a = Some (l, m)" using n(7) ab va by simp
  obtain d1 d2 where s1: "set_leaf_mem nl hi w1 = Some (set_dev d1 w1)" "persist E nl (set_dev d1 w1) = Some (set_dev d2 w1)"
    "world_ok (set_dev d2 w1)" "\<And>c. leaf_view (set_dev d2 w1) c = (if c = ?b then Some (nl, hi) else leaf_view w1 c)"
    "\<And>A. allocator (nv w1) = Some A \<Longrightarrow> used_set A d2 = used_set A (dev (nv w1))" "durable (dev (nv w1)) \<Longrightarrow> durable d2"
    by (rule store_spec [OF E n(2) vb _ _ wf2(1), of nl nl]) (simp_all add: put_node_triv leaf_viewD(1) [OF vb])
  let ?w3 = "set_dev d2 w1"
  have va3: "leaf_view ?w3 a = Some (l, m)" using s1(4) [of a] va1 ab by simp
  obtain d3 d4 where s2: "set_leaf_mem l lo ?w3 = Some (set_dev d3 ?w3)" "persist E l (set_dev d3 ?w3) = Some (set_dev d4 ?w3)"
    "world_ok (set_dev d4 ?w3)" "\<And>c. leaf_view (set_dev d4 ?w3) c = (if c = a then Some (l, lo) else leaf_view ?w3 c)"
    "\<And>A. allocator (nv ?w3) = Some A \<Longrightarrow> used_set A d4 = used_set A (dev (nv ?w3))" "durable (dev (nv ?w3)) \<Longrightarrow> durable d4"
    by (rule store_spec [OF E s1(3) va3 _ _ wf2(2), of l l]) (simp_all add: put_node_triv leaf_viewD(1) [OF va1])
  let ?w5 = "set_dev d4 w1"
  have v5: "leaf_view ?w5 c = (if c = a then Some (l, lo) else if c = ?b then Some (nl, hi) else leaf_view w c)" for c
    using s2(4) [of c] s1(4) [of c] n(7) [of c] by simp
  have nb: "next l \<noteq> ?b"
    using nx hb ok by (auto simp: next_ok_def leaf_view_def get_leafnode_def world_ok_def heap_ok_def)
  have nx5: "next_ok ?w5 a l" using nx nb by (auto simp: next_ok_def v5)
  have ok5: "world_ok ?w5" using s2(3) by simp
  obtain w8 where w8: "LeafNode_relink a ?b l nl ?w5 = Some w8"
    "world_ok w8" "nv w8 = nv ?w5" "brk w8 = brk ?w5" "root w8 = root ?w5" "tree_degree w8 = tree_degree ?w5"
    "\<And>c. get_inner w8 c = get_inner ?w5 c"
    "leaf_view w8 a = Some (l\<lparr>nEntries := degree l, next := ?b\<rparr>, lo)"
    "leaf_view w8 ?b = Some (nl\<lparr>nEntries := degree l, prev := a, next := next l\<rparr>, hi)"
    "\<And>c. c \<noteq> a \<Longrightarrow> c \<noteq> ?b \<Longrightarrow> leaf_view w8 c = (if c = next l then map_option (\<lambda>(x, mx). (x\<lparr>prev := ?b\<rparr>, mx)) (leaf_view ?w5 c)
      else leaf_view ?w5 c)"
    by (rule relink_spec [OF ok5, of a l lo ?b nl hi]) (use v5 ab nx5 nb in auto)
  have run: "LeafNode_split E a w = Some (Some \<lparr>key = mid, node = ?b\<rparr>, w8)"
    unfolding LeafNode_split_def
    using leaf_viewD(2) [OF va] l d56 n(1) leaf_viewD(4) [OF va1] findSplitKey_eq [OF wfm] leaf_viewD(2,4) [OF vb]
      sl(1) s1(1,2) s2(1,2) w8(1)
    by (simp add: mid_def [symmetric] hi_def [symmetric] lo_def [symmetric])
  show thesis
  proof (rule that [of mid "brk w" w8 lo "nl\<lparr>nEntries := degree l, prev := a, next := next l\<rparr>" hi A1])
    show "get_inner w8 c = get_inner w c" for c
      using w8(7) n(3) hb by (simp add: get_inner_def)
    show "good_leaf (l\<lparr>nEntries := 56, next := brk w\<rparr>) lo"
      using se(2,4,8) l(1) by (simp add: good_leaf_def lo' inert)
    show "good_leaf (nl\<lparr>nEntries := degree l, prev := a, next := next l\<rparr>) hi"
      using se(1,3,7) n(8) d56 by (simp add: good_leaf_def hi' inert)
    show "free_file_ok A1 (nv w8)" if "free_file_ok A (nv w)" using n(17) [OF that] w8(3) by (simp add: free_file_ok_def)
  qed (use run w8 n v5 se s1 s2 d56 in \<open>simp_all add: hi' lo' inert\<close>)
qed

section \<open>LeafNode::insert\<close>

text \<open>The storage never refuses a new leaf group, and the file numbers have not run out.\<close>

definition disk_ok :: "env \<Rightarrow> PAllocator \<Rightarrow> bool" where
  "disk_ok E A \<longleftrightarrow> (\<forall>f d. fst (pmem_map_file E f d) \<noteq> None) \<and> open_out E freeListPath \<and> maxFileId A + 1 \<noteq> 0"

lemma disk_ok_available: "disk_ok E A \<Longrightarrow> leaf_available E A n"
  by (simp add: disk_ok_def leaf_available_def can_grow_def)

lemma LeafNode_insert_spec:
  assumes E: "libpmem_ok E" and ok: "world_ok w" and va: "leaf_view w a = Some (l, m)" and g: "good_leaf l m"
    and fresh: "leaf_map m k = None" and nx: "next_ok w a l"
    and A: "allocator (nv w) = Some A" and dk: "disk_ok E A"
  obtains (keep) w' l' m' where "LeafNode_insert E a k v w = Some (None, w')"
    "world_ok w'" "brk w' = brk w" "root w' = root w" "tree_degree w' = tree_degree w"
    "\<And>c. get_inner w' c = get_inner w c"
    "\<And>c. leaf_view w' c = (if c = a then Some (l', m') else leaf_view w c)" "good_leaf l' m'"
    "l' = l\<lparr>nEntries := nEntries l + 1\<rparr>" "pNext m' = pNext m" "set (entries m') = insert (k, v) (set (entries m))"
    "allocator (nv w') = Some A" "used_set A (dev (nv w')) = used_set A (dev (nv w))"
    "durable (dev (nv w)) \<Longrightarrow> durable (dev (nv w'))" "free_file_ok A (nv w) \<Longrightarrow> free_file_ok A (nv w')"
  | (split) mid w' b nl l' hi lo A' where "LeafNode_insert E a k v w = Some (Some \<lparr>key = mid, node = b\<rparr>, w')"
    "world_ok w'" "b = brk w" "brk w' = brk w + 1" "root w' = root w" "tree_degree w' = tree_degree w"
    "\<And>c. get_inner w' c = get_inner w c"
    "leaf_view w' a = Some (l', lo)" "l' = l\<lparr>nEntries := 56, next := b\<rparr>"
    "leaf_view w' b = Some (nl, hi)" "prev nl = a" "next nl = next l"
    "\<And>c. c \<noteq> a \<Longrightarrow> c \<noteq> b \<Longrightarrow> leaf_view w' c = (if c = next l then map_option (\<lambda>(x, mx). (x\<lparr>prev := b\<rparr>, mx)) (leaf_view w c)
      else leaf_view w c)"
    "good_leaf l' lo" "good_leaf nl hi"
    "set (entries hi) = {e \<in> insert (k, v) (set (entries m)). mid \<le> fst e}"
    "set (entries lo) = {e \<in> insert (k, v) (set (entries m)). fst e < mid}"
    "mid \<in> fst ` set (entries hi)" "length (entries hi) = 56" "length (entries lo) = 56"
    "pNext hi = pNext m" "pNext lo = pPointer nl"
    "allocator (nv w') = Some A'" "used_set A' (dev (nv w')) = insert (pPointer nl) (used_set A (dev (nv w)))"
    "startLeaf A' = (if startLeaf A \<in> used_set A (dev (nv w)) then startLeaf A else pPointer nl)"
    "durable (dev (nv w)) \<Longrightarrow> durable (dev (nv w'))" "free_file_ok A (nv w) \<Longrightarrow> free_file_ok A' (nv w')"
proof -
  let ?l = "l\<lparr>nEntries := nEntries l + 1\<rparr>"
  obtain d m' where i: "LeafNode_insertNonFull E a k v w = Some (set_dev d (put_node a (Leaf ?l) w))"
    "world_ok (set_dev d (put_node a (Leaf ?l) w))"
    "\<And>b. leaf_view (set_dev d (put_node a (Leaf ?l) w)) b = (if b = a then Some (?l, m') else leaf_view w b)"
    "leaf_ok m'" "keys_distinct m'" "pNext m' = pNext m" "length (entries m') = Suc (length (entries m))"
    "set (entries m') = insert (k, v) (set (entries m))" "durable (dev (nv w)) \<Longrightarrow> durable d"
    "\<And>A. allocator (nv w) = Some A \<Longrightarrow> used_set A d = used_set A (dev (nv w))"
    by (rule LeafNode_insertNonFull_spec [OF E ok va g fresh]) blast
  let ?w1 = "set_dev d (put_node a (Leaf ?l) w)"
  have v1: "leaf_view ?w1 a = Some (?l, m')" by (simp add: i(3))
  have gl: "degree ?l = LEAF_DEGREE" "nEntries ?l = int (length (entries m'))" "length (entries m) < 112"
    using g i(7) by (simp_all add: good_leaf_def)
  have inner: "get_inner ?w1 c = get_inner w c" for c
    using leaf_viewD(1) [OF va] by (simp add: get_inner_def)
  have A1: "allocator (nv ?w1) = Some A" using A by simp
  have us: "used_set A (dev (nv ?w1)) = used_set A (dev (nv w))" using i(10) [OF A] by simp
  show thesis
  proof (cases "length (entries m') = 112")
    case False
    then have "LeafNode_insert E a k v w = Some (None, ?w1)"
      using i(1) leaf_viewD(2) [OF v1] gl(1,2) i(7) gl(3) by (simp add: LeafNode_insert_def LEAF_DEGREE_def)
    moreover have "good_leaf ?l m'" using False i gl by (simp add: good_leaf_def)
    ultimately show thesis
      by (intro keep [of ?w1 ?l m']) (use i inner A1 us in \<open>simp_all add: free_file_ok_def\<close>)
  next
    case True
    have nx1: "next_ok ?w1 a ?l" using nx i(3) by (auto simp: next_ok_def)
    have gl2: "nEntries ?l = 112" using gl(2) True by simp
    have run: "LeafNode_insert E a k v w = LeafNode_split E a ?w1"
      using i(1) leaf_viewD(2) [OF v1] gl(1) gl2 by (simp add: LeafNode_insert_def LEAF_DEGREE_def)
    have eq: "?l\<lparr>nEntries := x, next := y\<rparr> = l\<lparr>nEntries := x, next := y\<rparr>" for x y by simp
    show thesis
      apply (rule LeafNode_split_spec [OF E i(2) v1 gl(1) gl2 i(4,5) True nx1 A1 disk_ok_available [OF dk]])
      subgoal premises p for mid w' b nl hi lo A'
        by (rule split [where mid = mid and w' = w' and b = b and nl = nl and hi = hi and lo = lo and A' = A'
              and l' = "l\<lparr>nEntries := 56, next := b\<rparr>", OF trans [OF run p(1)]])
          (use p inner us i(3,6,8,9) in \<open>simp_all add: eq free_file_ok_def cong: if_cong\<close>)
      done
  qed
qed

section \<open>Entries as maps\<close>

lemma map_eqI: "(\<And>k v. f k = Some v \<longleftrightarrow> g k = Some v) \<Longrightarrow> f = g"
  by (rule ext) (metis not_None_eq)

lemma leaf_map_insert:
  assumes "keys_distinct m" and "keys_distinct m'" and "leaf_map m k = None"
    and "set (entries m') = insert (k, v) (set (entries m))"
  shows "leaf_map m' = (leaf_map m)(k \<mapsto> v)"
proof (rule map_eqI)
  fix k' v'
  have "(k, x) \<notin> set (entries m)" for x
    using assms(3) leaf_map_Some [OF assms(1)] by (metis option.distinct(1))
  then show "leaf_map m' k' = Some v' \<longleftrightarrow> ((leaf_map m)(k \<mapsto> v)) k' = Some v'"
    using leaf_map_Some [OF assms(1)] leaf_map_Some [OF assms(2)] assms(4) by auto
qed

lemma leaf_map_split:
  assumes "keys_distinct hi" and "keys_distinct lo"
    and "set (entries hi) = {e \<in> S. mid \<le> fst e}" and "set (entries lo) = {e \<in> S. fst e < mid}"
  shows "(leaf_map lo ++ leaf_map hi) k = Some v \<longleftrightarrow> (k, v) \<in> S"
proof (cases "mid \<le> k")
  case True
  then have "leaf_map lo k = None" using assms(4) by (auto simp: leaf_map_None)
  with True show ?thesis
    using leaf_map_Some [OF assms(1), of k v] assms(3) by (auto simp: map_add_Some_iff)
next
  case False
  then have "leaf_map hi k = None" using assms(3) by (auto simp: leaf_map_None)
  with False show ?thesis
    using leaf_map_Some [OF assms(2), of k v] assms(4) by (auto simp: map_add_Some_iff)
qed

section \<open>A first leaf\<close>

text \<open>The world after the first start, with one new leaf, for the witnesses.\<close>

definition fresh_world :: world where
  "fresh_world = \<lparr>nv = fresh_nvm\<lparr>allocator := Some fresh_alloc\<rparr>, heap = Map.empty, brk = 1, root = NULL, tree_degree = 2\<rparr>"

lemma fresh_world_ok: "world_ok fresh_world"
  using fresh_inv
  by (auto simp: world_ok_def alloc_ok_def heap_ok_def views_inj_def all_views_def fresh_world_def
      leaf_view_def get_leafnode_def)

lemma disk_ok_fresh: "disk_ok ideal_env fresh_alloc"
  by (simp add: disk_ok_def ideal_env_def)

lemma entries_zero_leaf [simp]: "entries zero_leaf = []"
proof -
  have "\<not> slot_used (replicate 14 0) i" if "i < 112" for i
    using that by (simp add: slot_used_def)
  then show ?thesis by (simp add: entries_def used_slots_def zero_leaf_def)
qed

lemma leaf_map_zero [simp]: "leaf_map zero_leaf = Map.empty"
  by (simp add: leaf_map_def)

lemma good_zero_leaf: "degree l = LEAF_DEGREE \<Longrightarrow> nEntries l = 0 \<Longrightarrow> good_leaf l zero_leaf"
proof -
  have "used_slots zero_leaf = []" using entries_zero_leaf by (simp only: entries_def map_is_Nil_conv)
  moreover assume "degree l = LEAF_DEGREE" "nEntries l = 0"
  ultimately show ?thesis by (simp add: good_leaf_def leaf_ok_def keys_distinct_def)
qed

lemma first_leaf:
  obtains w a l A where "world_ok w" "leaf_view w a = Some (l, zero_leaf)" "good_leaf l zero_leaf"
    "next_ok w a l" "allocator (nv w) = Some A" "disk_ok ideal_env A"
    "durable (dev (nv w))"
proof -
  have A: "allocator (nv fresh_world) = Some fresh_alloc" by (simp add: fresh_world_def)
  obtain w' l A' where n: "newLeafNode ideal_env fresh_world = Some (brk fresh_world, w')" "world_ok w'"
    "\<And>b. leaf_view w' b = (if b = brk fresh_world then Some (l, zero_leaf) else leaf_view fresh_world b)"
    "degree l = LEAF_DEGREE" "nEntries l = 0" "next l = NULL" "allocator (nv w') = Some A'"
    "maxFileId A' = maxFileId fresh_alloc \<or> maxFileId A' = maxFileId fresh_alloc + 1"
    "durable (dev (nv fresh_world)) \<Longrightarrow> durable (dev (nv w'))"
    by (rule newLeafNode_spec [OF libpmem_ok_ideal fresh_world_ok A disk_ok_available [OF disk_ok_fresh]]) blast
  have "durable (dev (nv w'))" using n(9) fresh_durable by (simp add: fresh_world_def)
  moreover
  have "disk_ok ideal_env A'" using n(8) by (auto simp: disk_ok_def ideal_env_def)
  ultimately show thesis
    using that [of w' "brk fresh_world" l A'] n good_zero_leaf by (simp add: next_ok_def)
qed

section \<open>Properties\<close>

text \<open>
  C12: \<open>LeafNode::insert\<close> of a key the leaf does not hold. Without a split the leaf holds the
  old entries and the new one. With a split the new leaf, at a fresh address, and the old leaf
  together hold exactly these entries, 56 each, all keys of the old leaf are below the returned
  key and all keys of the new leaf are not; the new leaf is linked behind the old one, in memory
  and in persistent memory. Other leaves change in nothing but the backward link of the
  successor, no inner node changes, and everything written is durable.
\<close>

theorem LeafNode_insert_correct:
  assumes "libpmem_ok E" and "world_ok w" and "leaf_view w a = Some (l, m)" and "good_leaf l m"
    and "leaf_map m k = None" and "next_ok w a l" and "allocator (nv w) = Some A" and "disk_ok E A"
    and "durable (dev (nv w))"
  shows "\<exists>r w' l' m'. LeafNode_insert E a k v w = Some (r, w') \<and> world_ok w' \<and> leaf_view w' a = Some (l', m')
    \<and> good_leaf l' m' \<and> (\<forall>c. get_inner w' c = get_inner w c) \<and> durable (dev (nv w'))
    \<and> (case r of
         None \<Rightarrow> leaf_map m' = (leaf_map m)(k \<mapsto> v) \<and> (\<forall>c. c \<noteq> a \<longrightarrow> leaf_view w' c = leaf_view w c)
       | Some kn \<Rightarrow> (\<exists>nl hi. leaf_view w (node kn) = None \<and> leaf_view w' (node kn) = Some (nl, hi)
           \<and> good_leaf nl hi \<and> leaf_map m' ++ leaf_map hi = (leaf_map m)(k \<mapsto> v)
           \<and> length (entries m') = 56 \<and> length (entries hi) = 56
           \<and> (\<forall>x\<in>dom (leaf_map m'). x < key kn) \<and> (\<forall>x\<in>dom (leaf_map hi). key kn \<le> x)
           \<and> next l' = node kn \<and> prev nl = a \<and> next nl = next l
           \<and> pNext m' = pPointer nl \<and> pNext hi = pNext m))"
proof (cases rule: LeafNode_insert_spec [OF assms(1-8), of v])
  case keep: (1 w' l' m')
  have "leaf_map m' = (leaf_map m)(k \<mapsto> v)"
    using leaf_map_insert [OF _ _ assms(5) keep(11)] keep(8) assms(4) by (simp add: good_leaf_def)
  with keep assms(9) show ?thesis by (intro exI [of _ None] exI [of _ w'] exI [of _ l'] exI [of _ m']) simp
next
  case split: (2 mid w' b nl l' hi lo A')
  let ?S = "insert (k, v) (set (entries m))"
  have kd: "keys_distinct m" "keys_distinct hi" "keys_distinct lo"
    using assms(4) split(14,15) by (simp_all add: good_leaf_def)
  have kS: "(k, x) \<notin> set (entries m)" for x
    using leaf_map_Some [OF kd(1)] assms(5) by (metis option.distinct(1))
  have "leaf_map lo ++ leaf_map hi = (leaf_map m)(k \<mapsto> v)"
    by (rule map_eqI)
      (use leaf_map_split [OF kd(2,3) split(16,17)] leaf_map_Some [OF kd(1)] kS in auto)
  moreover have "\<forall>x\<in>dom (leaf_map lo). x < mid" "\<forall>x\<in>dom (leaf_map hi). mid \<le> x"
    using leaf_map_Some [OF kd(3)] leaf_map_Some [OF kd(2)] split(16,17) by auto
  moreover have "leaf_view w b = None"
    using assms(2) split(3) by (simp add: world_ok_def heap_ok_def leaf_view_def get_leafnode_def)
  ultimately show ?thesis
    using split assms(9)
    by (intro exI [of _ "Some \<lparr>key = mid, node = b\<rparr>"] exI [of _ w'] exI [of _ l'] exI [of _ lo]) auto
qed

theorem LeafNode_insert_correct_witness:
  "\<exists>w a r w' l' m'. LeafNode_insert ideal_env a 7 1 w = Some (r, w') \<and> leaf_view w' a = Some (l', m') \<and> world_ok w'"
proof -
  obtain w a l A where h: "world_ok w" "leaf_view w a = Some (l, zero_leaf)" "good_leaf l zero_leaf"
    "next_ok w a l" "allocator (nv w) = Some A" "disk_ok ideal_env A" "durable (dev (nv w))" by (rule first_leaf)
  from LeafNode_insert_correct [OF libpmem_ok_ideal h(1-3) _ h(4-7), of 7 1] show ?thesis by (simp only: leaf_map_zero) blast
qed

end
