(* ===== verification/InnerNode.thy ===== *)
theory InnerNode
  imports Leaf_World
begin

text \<open>
  The class \<open>InnerNode\<close> of \<open>src/fptree.cpp\<close>, apart from the operations that recurse into
  children, which are in theory \<open>FPTree\<close>. Operations that touch one node, or a node with a
  brother and the parent, are functions on the records (the nodes involved are different
  objects); those that allocate work on the world.
\<close>

section \<open>Operations\<close>

text \<open>
  The sizes of the arrays are computed as \<open>int\<close>: an overflow has no defined result, and neither has the
  constructor with a negative size.
\<close>

abbreviation INT_MAX :: int where
  "INT_MAX \<equiv> 2147483647"

definition newInnerNode :: "int \<Rightarrow> bool \<Rightarrow> InnerNode option" where
  "newInnerNode d asRoot =
     (if d < 0 \<or> 2 * d + 2 > INT_MAX then None
      else Some \<lparr>degree = d, isRoot = asRoot, nKeys = 0, nChild = 0,
        keys = replicate (nat (2 * d + 1)) None, childrens = replicate (nat (2 * d + 2)) None\<rparr>)"

text \<open>Binary search of the first key larger than \<open>k\<close>; the sum \<open>left + right\<close> is an \<open>int\<close>.\<close>

function findIndex_loop :: "u64 option list \<Rightarrow> u64 \<Rightarrow> int \<Rightarrow> int \<Rightarrow> int option" where
  "findIndex_loop ks k left right =
     (if left \<le> right then
        (let mid = (left + right) div 2 in
         case (if left + right > INT_MAX then None else aget ks mid) of None \<Rightarrow> None
         | Some x \<Rightarrow> if x > k then findIndex_loop ks k left (mid - 1)
                     else findIndex_loop ks k (mid + 1) right)
      else Some left)"
  by pat_completeness auto
termination
  by (relation "measure (\<lambda>(ks, k, l, r). nat (r - l + 1))") auto

declare findIndex_loop.simps [simp del]

definition findIndex :: "InnerNode \<Rightarrow> u64 \<Rightarrow> int option" where
  "findIndex x k = findIndex_loop (keys x) k 0 (nKeys x - 1)"

text \<open>
  \<open>insertNonFull\<close> reads \<open>((InnerNode*)node)->nKeys\<close> although \<open>node\<close> may be a leaf. In both
  classes the bytes at that offset (24) exist: they are \<open>nKeys\<close> in an inner node and the low
  half of \<open>pmem_addr\<close> in a leaf.
\<close>

definition nKeys_at :: "world \<Rightarrow> addr \<Rightarrow> int option" where
  "nKeys_at w a = (case heap w a of
       Some (Inner x) \<Rightarrow> Some (nKeys x)
     | Some (Leaf l) \<Rightarrow> Some (sint (ucast (pmem_addr l) :: u32))
     | _ \<Rightarrow> None)"

definition insert_entry :: "InnerNode \<Rightarrow> u64 \<Rightarrow> addr \<Rightarrow> InnerNode option" where
  "insert_entry x k c = do {
     pos \<leftarrow> findIndex x k;
     ks \<leftarrow> for_down (nKeys x) pos (\<lambda>i ks. do { y \<leftarrow> aget ks (i - 1); aset ks i y }) (keys x);
     ks \<leftarrow> aset ks pos k;
     cs \<leftarrow> for_down (nChild x) (pos + 1) (\<lambda>i cs. do { y \<leftarrow> aget cs (i - 1); aset cs i y }) (childrens x);
     cs \<leftarrow> aset cs (pos + 1) c;
     Some (x\<lparr>nKeys := nKeys x + 1, keys := ks, nChild := nChild x + 1, childrens := cs\<rparr>) }"

definition InnerNode_insertNonFull :: "addr \<Rightarrow> u64 \<Rightarrow> addr \<Rightarrow> world \<Rightarrow> world option" where
  "InnerNode_insertNonFull a k c w =
     (if c = NULL then Some w
      else do {
        nk \<leftarrow> nKeys_at w c;
        (if nk = 0 then Some w
         else do {
           x \<leftarrow> get_inner w a;
           x1 \<leftarrow> insert_entry x k c;
           Some (put_node a (Inner x1) w) }) })"

text \<open>
  \<open>keys[nKeys++] = k; childrens[nChild++] = c\<close>, at three places of \<open>insert\<close> and \<open>insertLeaf\<close>.
\<close>

definition append_key :: "u64 \<Rightarrow> InnerNode \<Rightarrow> InnerNode option" where
  "append_key k x = do { ks \<leftarrow> aset (keys x) (nKeys x) k; Some (x\<lparr>keys := ks, nKeys := nKeys x + 1\<rparr>) }"

definition append_child :: "addr \<Rightarrow> InnerNode \<Rightarrow> InnerNode option" where
  "append_child c x = do { cs \<leftarrow> aset (childrens x) (nChild x) c; Some (x\<lparr>childrens := cs, nChild := nChild x + 1\<rparr>) }"

text \<open>
  \<open>split\<close>: the halves of \<open>this\<close> and of \<open>newNode\<close>. The loop of the source moves a key and a
  child in each round; they are separate loops here, over separate arrays.
\<close>

definition split_halves :: "InnerNode \<Rightarrow> InnerNode \<Rightarrow> (u64 \<times> InnerNode \<times> InnerNode) option" where
  "split_halves x new = do {
     let d = degree x;
     ks \<leftarrow> for_up (d + 1) (2 * d + 1) (\<lambda>i ks. do { y \<leftarrow> aget (keys x) i; aset ks (i - d - 1) y }) (keys new);
     cs \<leftarrow> for_up (d + 1) (2 * d + 1) (\<lambda>i cs. do { y \<leftarrow> aget (childrens x) i; aset cs (i - d - 1) y }) (childrens new);
     c \<leftarrow> aget (childrens x) (nChild x - 1);
     cs \<leftarrow> aset cs d c;
     k \<leftarrow> aget (keys x) d;
     Some (k, x\<lparr>nKeys := d, nChild := d + 1\<rparr>, new\<lparr>nKeys := d, nChild := d + 1, keys := ks, childrens := cs\<rparr>) }"

definition InnerNode_split :: "addr \<Rightarrow> world \<Rightarrow> (KeyNode option \<times> world) option" where
  "InnerNode_split a w = do {
     x \<leftarrow> get_inner w a;
     (if nKeys x \<le> 2 * degree x then Some (None, w)
      else do {
        new \<leftarrow> newInnerNode (degree x) False;
        (k, x1, new1) \<leftarrow> split_halves x new;
        let (b, w1) = alloc (Inner new1) w;
        Some (Some \<lparr>key = k, node = b\<rparr>, put_node a (Inner x1) w1) }) }"

text \<open>
  The end of \<open>insert\<close> and \<open>insertLeaf\<close>: a root that was split gets a new root above it.
\<close>

definition grow_root :: "addr \<Rightarrow> KeyNode option \<Rightarrow> world \<Rightarrow> (KeyNode option \<times> world) option" where
  "grow_root a newChild w = do {
     x \<leftarrow> get_inner w a;
     (case newChild of
        Some kn \<Rightarrow>
          if isRoot x then do {
            nr \<leftarrow> newInnerNode (degree x) True;
            nr \<leftarrow> append_key (key kn) nr;
            nr \<leftarrow> append_child a nr;
            nr \<leftarrow> append_child (node kn) nr;
            let (r, w1) = alloc (Inner nr) (put_node a (Inner (x\<lparr>isRoot := False\<rparr>)) w);
            Some (None, changeRoot r w1)
          } else Some (newChild, w)
      | None \<Rightarrow> Some (None, w)) }"

section \<open>Removal of children\<close>

definition removeChild :: "int \<Rightarrow> int \<Rightarrow> InnerNode \<Rightarrow> InnerNode option" where
  "removeChild keyIdx childIdx x =
     (if keyIdx < 0 \<or> keyIdx \<ge> nKeys x \<or> childIdx < 0 \<or> childIdx \<ge> nChild x then Some x
      else do {
        ks \<leftarrow> for_up keyIdx (nKeys x - 1) (\<lambda>i ks. do { y \<leftarrow> aget ks (i + 1); aset ks i y }) (keys x);
        cs \<leftarrow> for_up childIdx (nChild x - 1) (\<lambda>i cs. do { y \<leftarrow> aget cs (i + 1); aset cs i y }) (childrens x);
        Some (x\<lparr>keys := ks, nKeys := nKeys x - 1, childrens := cs, nChild := nChild x - 1\<rparr>) })"

text \<open>The brothers' addresses; \<open>NULL\<close> where there is none.\<close>

definition getBrother :: "int \<Rightarrow> InnerNode option \<Rightarrow> (addr \<times> addr) option" where
  "getBrother index parent =
     (case parent of None \<Rightarrow> Some (NULL, NULL)
      | Some p \<Rightarrow>
          if index < 0 \<or> index \<ge> nChild p then Some (NULL, NULL)
          else do {
            leftBro \<leftarrow> (if index = 0 then Some NULL else aget (childrens p) (index - 1));
            rightBro \<leftarrow> (if index = nChild p - 1 then Some NULL else aget (childrens p) (index + 1));
            Some (leftBro, rightBro) })"

text \<open>C++ division of integers rounds toward zero.\<close>

definition cdiv :: "int \<Rightarrow> int \<Rightarrow> int" where
  "cdiv a b = (if (a < 0) = (b < 0) then \<bar>a\<bar> div \<bar>b\<bar> else - (\<bar>a\<bar> div \<bar>b\<bar>))"

text \<open>\<open>redistributeRight\<close>: \<open>this\<close>, the right brother and the parent after the call.\<close>

definition redistributeRight :: "int \<Rightarrow> InnerNode \<Rightarrow> InnerNode \<Rightarrow> InnerNode
    \<Rightarrow> (InnerNode \<times> InnerNode \<times> InnerNode) option" where
  "redistributeRight index x rightBro parent = do {
     let moveKeys = cdiv (nKeys x + nKeys rightBro) 2 - nKeys x;
     pk \<leftarrow> aget (keys parent) index;
     ks \<leftarrow> aset (keys x) (nKeys x) pk;
     ks \<leftarrow> for_up 1 moveKeys (\<lambda>i ks. do { y \<leftarrow> aget (keys rightBro) (i - 1); aset ks (nKeys x + i) y }) ks;
     cs \<leftarrow> for_up 0 moveKeys (\<lambda>i cs. do { y \<leftarrow> aget (childrens rightBro) i; aset cs (nChild x + i) y }) (childrens x);
     sep \<leftarrow> aget (keys rightBro) (moveKeys - 1);
     pks \<leftarrow> aset (keys parent) index sep;
     rks \<leftarrow> for_up 0 (nKeys rightBro - moveKeys)
        (\<lambda>i ks. do { y \<leftarrow> aget ks (i + moveKeys); aset ks i y }) (keys rightBro);
     rcs \<leftarrow> for_up 0 (nChild rightBro - moveKeys)
        (\<lambda>i cs. do { y \<leftarrow> aget cs (i + moveKeys); aset cs i y }) (childrens rightBro);
     Some (x\<lparr>keys := ks, childrens := cs, nKeys := nKeys x + moveKeys, nChild := nChild x + moveKeys\<rparr>,
           rightBro\<lparr>keys := rks, childrens := rcs, nKeys := nKeys rightBro - moveKeys, nChild := nChild rightBro - moveKeys\<rparr>,
           parent\<lparr>keys := pks\<rparr>) }"

text \<open>\<open>redistributeLeft\<close>: \<open>this\<close>, the left brother and the parent after the call.\<close>

definition redistributeLeft :: "int \<Rightarrow> InnerNode \<Rightarrow> InnerNode \<Rightarrow> InnerNode
    \<Rightarrow> (InnerNode \<times> InnerNode \<times> InnerNode) option" where
  "redistributeLeft index x leftBro parent = do {
     let moveKeys = cdiv (nKeys leftBro + nKeys x) 2 - nKeys leftBro;
     ks \<leftarrow> for_down (nKeys x - 1) (- 1) (\<lambda>i ks. do { y \<leftarrow> aget ks i; aset ks (i + moveKeys) y }) (keys x);
     cs \<leftarrow> for_down (nChild x - 1) (- 1) (\<lambda>i cs. do { y \<leftarrow> aget cs i; aset cs (i + moveKeys) y }) (childrens x);
     pk \<leftarrow> aget (keys parent) index;
     ks \<leftarrow> aset ks (moveKeys - 1) pk;
     ks \<leftarrow> for_up 1 moveKeys
        (\<lambda>i ks. do { y \<leftarrow> aget (keys leftBro) (nKeys leftBro - i); aset ks (moveKeys - 1 - i) y }) ks;
     cs \<leftarrow> for_up 0 moveKeys
        (\<lambda>i cs. do { y \<leftarrow> aget (childrens leftBro) (nChild leftBro - 1 - i); aset cs (moveKeys - i - 1) y }) cs;
     sep \<leftarrow> aget (keys leftBro) (nKeys leftBro - moveKeys);
     pks \<leftarrow> aset (keys parent) index sep;
     Some (x\<lparr>keys := ks, childrens := cs, nKeys := nKeys x + moveKeys, nChild := nChild x + moveKeys\<rparr>,
           leftBro\<lparr>nKeys := nKeys leftBro - moveKeys, nChild := nChild leftBro - moveKeys\<rparr>,
           parent\<lparr>keys := pks\<rparr>) }"

text \<open>\<open>mergeLeft\<close> and \<open>mergeRight\<close>: the brother after it has taken the entries of \<open>this\<close>.\<close>

definition mergeLeft :: "InnerNode \<Rightarrow> InnerNode \<Rightarrow> u64 \<Rightarrow> InnerNode option" where
  "mergeLeft x leftBro k = do {
     ks \<leftarrow> aset (keys leftBro) (nKeys leftBro) k;
     ks \<leftarrow> for_up 0 (nKeys x) (\<lambda>i ks. do { y \<leftarrow> aget (keys x) i; aset ks (nKeys leftBro + i + 1) y }) ks;
     cs \<leftarrow> for_up 0 (nChild x) (\<lambda>i cs. do { y \<leftarrow> aget (childrens x) i; aset cs (nChild leftBro + i) y }) (childrens leftBro);
     Some (leftBro\<lparr>keys := ks, childrens := cs, nKeys := nKeys leftBro + (nKeys x + 1), nChild := nChild leftBro + nChild x\<rparr>) }"

definition mergeRight :: "InnerNode \<Rightarrow> InnerNode \<Rightarrow> u64 \<Rightarrow> InnerNode option" where
  "mergeRight x rightBro k = do {
     ks \<leftarrow> for_down (nKeys rightBro - 1) (- 1)
        (\<lambda>i ks. do { y \<leftarrow> aget ks i; aset ks (i + nKeys x + 1) y }) (keys rightBro);
     ks \<leftarrow> aset ks (nKeys x) k;
     ks \<leftarrow> for_up 0 (nKeys x) (\<lambda>i ks. do { y \<leftarrow> aget (keys x) i; aset ks i y }) ks;
     cs \<leftarrow> for_down (nChild rightBro - 1) (- 1)
        (\<lambda>i cs. do { y \<leftarrow> aget cs i; aset cs (i + nChild x) y }) (childrens rightBro);
     cs \<leftarrow> for_up 0 (nChild x) (\<lambda>i cs. do { y \<leftarrow> aget (childrens x) i; aset cs i y }) cs;
     Some (rightBro\<lparr>keys := ks, childrens := cs, nKeys := nKeys rightBro + (nKeys x + 1), nChild := nChild rightBro + nChild x\<rparr>) }"

text \<open>
  \<open>mergeParentLeft\<close> and \<open>mergeParentRight\<close>: the root after it has taken the entries of its two
  children; \<open>self\<close> is the address of \<open>this\<close>, kept behind the children, and \<open>nChild = 0\<close> tells
  the caller.
\<close>

definition mergeParentLeft :: "addr \<Rightarrow> InnerNode \<Rightarrow> InnerNode \<Rightarrow> InnerNode \<Rightarrow> InnerNode option" where
  "mergeParentLeft self x parent leftBro = do {
     pk \<leftarrow> aget (keys parent) 0;
     ks \<leftarrow> aset (keys parent) (nKeys leftBro) pk;
     ks \<leftarrow> for_up 0 (nKeys leftBro) (\<lambda>i ks. do { y \<leftarrow> aget (keys leftBro) i; aset ks i y }) ks;
     ks \<leftarrow> for_up 0 (nKeys x) (\<lambda>i ks. do { y \<leftarrow> aget (keys x) i; aset ks (i + nKeys leftBro + 1) y }) ks;
     cs \<leftarrow> for_up 0 (nChild leftBro) (\<lambda>i cs. do { y \<leftarrow> aget (childrens leftBro) i; aset cs i y }) (childrens parent);
     cs \<leftarrow> for_up 0 (nChild x) (\<lambda>i cs. do { y \<leftarrow> aget (childrens x) i; aset cs (i + nChild leftBro) y }) cs;
     cs \<leftarrow> aset cs (nChild leftBro + nChild x) self;
     Some (parent\<lparr>keys := ks, childrens := cs, nKeys := nKeys leftBro + nKeys x + 1, nChild := 0\<rparr>) }"

definition mergeParentRight :: "addr \<Rightarrow> InnerNode \<Rightarrow> InnerNode \<Rightarrow> InnerNode \<Rightarrow> InnerNode option" where
  "mergeParentRight self x parent rightBro = do {
     pk \<leftarrow> aget (keys parent) 0;
     ks \<leftarrow> aset (keys parent) (nKeys x) pk;
     ks \<leftarrow> for_up 0 (nKeys x) (\<lambda>i ks. do { y \<leftarrow> aget (keys x) i; aset ks i y }) ks;
     ks \<leftarrow> for_up 0 (nKeys rightBro) (\<lambda>i ks. do { y \<leftarrow> aget (keys rightBro) i; aset ks (i + nKeys x + 1) y }) ks;
     cs \<leftarrow> for_up 0 (nChild x) (\<lambda>i cs. do { y \<leftarrow> aget (childrens x) i; aset cs i y }) (childrens parent);
     cs \<leftarrow> for_up 0 (nChild rightBro) (\<lambda>i cs. do { y \<leftarrow> aget (childrens rightBro) i; aset cs (i + nChild x) y }) cs;
     cs \<leftarrow> aset cs (nChild x + nChild rightBro) self;
     Some (parent\<lparr>keys := ks, childrens := cs, nKeys := nKeys x + nKeys rightBro + 1, nChild := 0\<rparr>) }"

section \<open>Accessors\<close>

definition InnerNode_getChild :: "InnerNode \<Rightarrow> int \<Rightarrow> addr option" where
  "InnerNode_getChild x idx = (if idx \<ge> 0 \<and> idx < nChild x then aget (childrens x) idx else Some NULL)"

definition InnerNode_getKey :: "InnerNode \<Rightarrow> int \<Rightarrow> u64 option" where
  "InnerNode_getKey x idx = (if idx \<ge> 0 \<and> idx < nKeys x then aget (keys x) idx else Some MAX_KEY)"

definition InnerNode_printNode :: "InnerNode \<Rightarrow> string option" where
  "InnerNode_printNode x = do {
     s \<leftarrow> for_up 0 (nKeys x) (\<lambda>i s. do { y \<leftarrow> aget (keys x) i; Some (s @ '' '' @ to_string y @ '' |#|'') }) ''||#|'';
     Some (s @ ''|    '') }"

section \<open>Nodes as lists\<close>

text \<open>
  \<open>inner_rep x d ks cs\<close>: the node of degree \<open>d\<close> holds the keys \<open>ks\<close> and the children \<open>cs\<close>; its
  arrays have the sizes of the constructor, and the sum of two indices of a key is an \<open>int\<close>.
\<close>

definition inner_rep :: "InnerNode \<Rightarrow> nat \<Rightarrow> u64 list \<Rightarrow> addr list \<Rightarrow> bool" where
  "inner_rep x d ks cs \<longleftrightarrow> degree x = int d \<and> nKeys x = int (length ks) \<and> nChild x = int (length cs)
     \<and> length (keys x) = 2 * d + 1 \<and> length (childrens x) = 2 * d + 2
     \<and> (\<exists>zs. keys x = map Some ks @ zs) \<and> (\<exists>zs. childrens x = map Some cs @ zs) \<and> d < 2 ^ 29 - 1"

lemma inner_rep_degree: "inner_rep x d ks cs \<Longrightarrow> d < 2 ^ 29 - 1"
  by (simp add: inner_rep_def)

lemma inner_repE:
  assumes "inner_rep x d ks cs"
  obtains kz cz where "keys x = map Some ks @ kz" "childrens x = map Some cs @ cz"
    "length ks + length kz = 2 * d + 1" "length cs + length cz = 2 * d + 2"
    "degree x = int d" "nKeys x = int (length ks)" "nChild x = int (length cs)"
  using assms unfolding inner_rep_def by (metis length_append length_map)

lemma inner_repI:
  assumes "keys x = map Some ks @ kz" "childrens x = map Some cs @ cz"
    "length ks + length kz = 2 * d + 1" "length cs + length cz = 2 * d + 2"
    "degree x = int d" "nKeys x = int (length ks)" "nChild x = int (length cs)" "d < 2 ^ 29 - 1"
  shows "inner_rep x d ks cs"
  using assms by (simp add: inner_rep_def)

lemma newInnerNode_rep: "newInnerNode (int d) b = Some x \<Longrightarrow> d < 2 ^ 29 - 1 \<Longrightarrow> inner_rep x d [] [] \<and> isRoot x = b"
  by (auto simp: newInnerNode_def inner_rep_def nat_add_distrib nat_mult_distrib split: if_splits)

lemma newInnerNode_Some: "d < 2 ^ 29 - 1 \<Longrightarrow> \<exists>x. newInnerNode (int d) b = Some x"
  by (simp add: newInnerNode_def)

text \<open>The position \<open>findIndex\<close> returns: the number of keys that are not larger.\<close>

definition pos_of :: "u64 list \<Rightarrow> u64 \<Rightarrow> nat" where
  "pos_of ks k = length (takeWhile (\<lambda>y. y \<le> k) ks)"

lemma pos_of_le: "pos_of ks k \<le> length ks"
  by (simp add: pos_of_def length_takeWhile_le)

lemma pos_of_less: "i < pos_of ks k \<Longrightarrow> ks ! i \<le> k"
  unfolding pos_of_def by (metis nth_mem set_takeWhileD takeWhile_nth)

lemma pos_of_at: "pos_of ks k < length ks \<Longrightarrow> k < ks ! pos_of ks k"
  unfolding pos_of_def using nth_length_takeWhile by fastforce

lemma pos_ofI:
  assumes "n \<le> length ks" and "\<And>i. i < n \<Longrightarrow> ks ! i \<le> k" and "n < length ks \<Longrightarrow> k < ks ! n"
  shows "pos_of ks k = n"
proof -
  have "\<forall>y\<in>set (take n ks). y \<le> k" using assms(1,2) by (auto simp: in_set_conv_nth)
  then have "takeWhile (\<lambda>y. y \<le> k) (take n ks @ drop n ks) = take n ks @ takeWhile (\<lambda>y. y \<le> k) (drop n ks)"
    by (intro takeWhile_append2) simp
  moreover have "takeWhile (\<lambda>y. y \<le> k) (drop n ks) = []"
    using assms(3) by (cases "n < length ks") (simp_all add: takeWhile_eq_Nil_iff hd_drop_conv_nth not_le)
  ultimately show ?thesis using assms(1) by (simp add: pos_of_def)
qed

lemma findIndex_loop_spec:
  assumes "sorted ks" and "0 \<le> l" and "l \<le> r + 1" and "r < int (length ks)" and "length ks < 2 ^ 30"
    and "\<And>i. i < nat l \<Longrightarrow> ks ! i \<le> k" and "\<And>i. r < int i \<Longrightarrow> i < length ks \<Longrightarrow> k < ks ! i"
  shows "findIndex_loop (map Some ks @ zs) k l r = Some (int (pos_of ks k))"
  using assms
proof (induction "nat (r - l + 1)" arbitrary: l r rule: less_induct)
  case less
  show ?case
  proof (cases "l \<le> r")
    case False
    then have "r + 1 = l" using less.prems by simp
    then have "pos_of ks k = nat l"
      using less.prems by (intro pos_ofI) (auto simp: nat_le_iff)
    with False less.prems show ?thesis by (simp add: findIndex_loop.simps)
  next
    case True
    define mid where "mid = (l + r) div 2"
    have m: "l \<le> mid" "mid \<le> r" using True by (simp_all add: mid_def)
    have sum: "\<not> l + r > INT_MAX" using True less.prems(4,5) by simp
    have get: "aget (map Some ks @ zs) mid = Some (ks ! nat mid)"
      using m less.prems by (intro aget_map_Some) auto
    show ?thesis
    proof (cases "ks ! nat mid > k")
      case gt: True
      have "k < ks ! i" if "mid - 1 < int i" "i < length ks" for i
      proof -
        have "nat mid \<le> i" using that(1) by linarith
        then have "ks ! nat mid \<le> ks ! i" using less.prems(1) that(2) by (simp add: sorted_nth_mono)
        with gt show ?thesis by simp
      qed
      then have "findIndex_loop (map Some ks @ zs) k l (mid - 1) = Some (int (pos_of ks k))"
        using m less.prems by (intro less.hyps) auto
      then show ?thesis using True gt get sum by (simp add: findIndex_loop.simps [of _ k l r] mid_def [symmetric])
    next
      case le: False
      have "ks ! i \<le> k" if "i < nat (mid + 1)" for i
      proof -
        have "i \<le> nat mid" "nat mid < length ks" using that m less.prems by auto
        then have "ks ! i \<le> ks ! nat mid" using less.prems(1) by (simp add: sorted_nth_mono)
        with le show ?thesis by simp
      qed
      then have "findIndex_loop (map Some ks @ zs) k (mid + 1) r = Some (int (pos_of ks k))"
        using m less.prems by (intro less.hyps) auto
      then show ?thesis using True le get sum by (simp add: findIndex_loop.simps [of _ k l r] mid_def [symmetric])
    qed
  qed
qed

lemma findIndex_spec:
  assumes "inner_rep x d ks cs" and "sorted ks"
  shows "findIndex x k = Some (int (pos_of ks k))"
proof -
  obtain zs where "keys x = map Some ks @ zs" "nKeys x = int (length ks)" "length (keys x) = 2 * d + 1" "d < 2 ^ 29 - 1"
    using assms(1) by (auto simp: inner_rep_def)
  then show ?thesis
    unfolding findIndex_def using assms(2) by (simp add: findIndex_loop_spec)
qed

section \<open>Inserting a key and a child\<close>

lemma shift_right_one:
  assumes "n = int (length pre) + int (length ks)" and "p = int (length pre)" and "zs \<noteq> []"
  shows "for_down n p (\<lambda>i a. do { y \<leftarrow> aget a (i - 1); aset a i y }) (pre @ map Some ks @ zs)
    = Some (pre @ take 1 (map Some ks @ zs) @ map Some ks @ drop 1 zs)"
  using shift_right_loop [of p "- 1" pre n ks 0 1 zs] assms by (cases zs) (simp_all add: Suc_le_eq)

lemma insert_at:
  assumes "n = int (length xs + length ys)" and "p = int (length xs)" and "zs \<noteq> []"
  shows "do { a \<leftarrow> for_down n p (\<lambda>i a. do { y \<leftarrow> aget a (i - 1); aset a i y }) (map Some (xs @ ys) @ zs); aset a p v }
    = Some (map Some (xs @ v # ys) @ tl zs)"
proof -
  have "take 1 (map Some ys @ zs) @ map Some ys @ drop 1 zs = hd (map Some ys @ zs) # map Some ys @ tl zs"
    using assms(3) by (cases ys; cases zs) (simp_all add: drop_Suc)
  moreover have "for_down n p (\<lambda>i a. do { y \<leftarrow> aget a (i - 1); aset a i y }) (map Some xs @ map Some ys @ zs)
    = Some (map Some xs @ take 1 (map Some ys @ zs) @ map Some ys @ drop 1 zs)"
    by (rule shift_right_one) (use assms in simp_all)
  ultimately show ?thesis
    using assms(2) by (simp add: aset_append_mid)
qed

lemma insert_entry_spec:
  assumes rep: "inner_rep x d (ks1 @ ks2) (cs1 @ cs2)" and pos: "findIndex x k = Some (int (length ks1))"
    and len: "length cs1 = Suc (length ks1)" "length ks1 + length ks2 \<le> 2 * d" "length cs1 + length cs2 \<le> 2 * d + 1"
  obtains x' where "insert_entry x k c = Some x'" "inner_rep x' d (ks1 @ k # ks2) (cs1 @ c # cs2)" "isRoot x' = isRoot x"
proof -
  obtain kz cz where r: "keys x = map Some (ks1 @ ks2) @ kz" "childrens x = map Some (cs1 @ cs2) @ cz"
    "length (ks1 @ ks2) + length kz = 2 * d + 1" "length (cs1 @ cs2) + length cz = 2 * d + 2"
    "degree x = int d" "nKeys x = int (length (ks1 @ ks2))" "nChild x = int (length (cs1 @ cs2))"
    by (rule inner_repE [OF rep])
  have ne: "kz \<noteq> []" "cz \<noteq> []" using r(3,4) len by auto
  let ?x = "x\<lparr>nKeys := nKeys x + 1, keys := map Some (ks1 @ k # ks2) @ tl kz,
    nChild := nChild x + 1, childrens := map Some (cs1 @ c # cs2) @ tl cz\<rparr>"
  have "insert_entry x k c = Some ?x"
    using pos insert_at [of "nKeys x" ks1 ks2 "int (length ks1)" kz k]
      insert_at [of "nChild x" cs1 cs2 "int (length ks1) + 1" cz c] r ne len
    by (auto simp: insert_entry_def bind_eq_Some_conv)
  moreover have "inner_rep ?x d (ks1 @ k # ks2) (cs1 @ c # cs2)"
    by (rule inner_repI) (use r ne len inner_rep_degree [OF rep] in auto)
  ultimately show thesis using that by simp
qed

section \<open>Splitting and growing\<close>

lemma append_key_spec:
  assumes "inner_rep x d ks cs" and "length ks \<le> 2 * d"
  obtains x' where "append_key k x = Some x'" "inner_rep x' d (ks @ [k]) cs" "isRoot x' = isRoot x"
proof -
  obtain kz cz where r: "keys x = map Some ks @ kz" "childrens x = map Some cs @ cz"
    "length ks + length kz = 2 * d + 1" "length cs + length cz = 2 * d + 2"
    "degree x = int d" "nKeys x = int (length ks)" "nChild x = int (length cs)"
    by (rule inner_repE [OF assms(1)])
  obtain z zs where kz: "kz = z # zs" using r(3) assms(2) by (cases kz) auto
  let ?x = "x\<lparr>keys := map Some (ks @ [k]) @ zs, nKeys := nKeys x + 1\<rparr>"
  have "append_key k x = Some ?x" using r kz by (simp add: append_key_def aset_append_mid)
  moreover have "inner_rep ?x d (ks @ [k]) cs" by (rule inner_repI) (use r kz inner_rep_degree [OF assms(1)] in auto)
  ultimately show thesis using that by simp
qed

lemma append_child_spec:
  assumes "inner_rep x d ks cs" and "length cs \<le> 2 * d + 1"
  obtains x' where "append_child c x = Some x'" "inner_rep x' d ks (cs @ [c])" "isRoot x' = isRoot x"
proof -
  obtain kz cz where r: "keys x = map Some ks @ kz" "childrens x = map Some cs @ cz"
    "length ks + length kz = 2 * d + 1" "length cs + length cz = 2 * d + 2"
    "degree x = int d" "nKeys x = int (length ks)" "nChild x = int (length cs)"
    by (rule inner_repE [OF assms(1)])
  obtain z zs where cz: "cz = z # zs" using r(4) assms(2) by (cases cz) auto
  let ?x = "x\<lparr>childrens := map Some (cs @ [c]) @ zs, nChild := nChild x + 1\<rparr>"
  have "append_child c x = Some ?x" using r cz by (simp add: append_child_def aset_append_mid)
  moreover have "inner_rep ?x d ks (cs @ [c])" by (rule inner_repI) (use r cz inner_rep_degree [OF assms(1)] in auto)
  ultimately show thesis using that by simp
qed

text \<open>A loop that copies \<open>ys\<close> from one array to the front of another.\<close>

lemma copy_to_front:
  assumes "src = spre @ map Some ys @ spost" and "lo = int (length spre)" and "hi = lo + int (length ys)"
    and "length ys \<le> length dst" and "c = lo"
  shows "for_up lo hi (\<lambda>i a. do { y \<leftarrow> aget src i; aset a (i - c) y }) dst
    = Some (map Some ys @ drop (length ys) dst)"
  using copy_loop [of src spre ys spost lo 0 "- c" "[]" hi "take (length ys) dst" "drop (length ys) dst"] assms
  by simp

lemma split_halves_spec:
  assumes rep: "inner_rep x d ks cs" and len: "length ks = 2 * d + 1" "length cs = 2 * d + 2"
    and new: "newInnerNode (int d) False = Some new"
  obtains x' new' where "split_halves x new = Some (ks ! d, x', new')" "inner_rep x' d (take d ks) (take (d + 1) cs)"
    "inner_rep new' d (drop (d + 1) ks) (drop (d + 1) cs)" "isRoot x' = isRoot x" "\<not> isRoot new'"
proof -
  have r: "keys x = map Some ks" "childrens x = map Some cs" "degree x = int d" "nChild x = 2 * int d + 2"
    using rep len by (auto simp: inner_rep_def)
  have n: "keys new = replicate (2 * d + 1) None" "childrens new = replicate (2 * d + 2) None"
    "degree new = int d" "\<not> isRoot new"
    using new by (auto simp: newInnerNode_def nat_add_distrib nat_mult_distrib split: if_splits)
  have k: "for_up (int d + 1) (2 * int d + 1) (\<lambda>i a. do { y \<leftarrow> aget (keys x) i; aset a (i - int d - 1) y }) (keys new)
      = Some (map Some (drop (d + 1) ks) @ drop d (keys new))"
    using copy_to_front [of "keys x" "map Some (take (d + 1) ks)" "drop (d + 1) ks" "[]" "int d + 1" "2 * int d + 1" "keys new" "int d + 1"]
      len n r by (simp flip: map_append add: diff_diff_eq)
  have app: "childrens x = map Some (take (d + 1) cs) @ map Some (take d (drop (d + 1) cs)) @ map Some (drop d (drop (d + 1) cs))"
    by (simp only: r map_append [symmetric] append_take_drop_id)
  have c: "for_up (int d + 1) (2 * int d + 1) (\<lambda>i a. do { y \<leftarrow> aget (childrens x) i; aset a (i - int d - 1) y }) (childrens new)
      = Some (map Some (take d (drop (d + 1) cs)) @ drop d (childrens new))"
    using copy_to_front [OF app, of "int d + 1" "2 * int d + 1" "childrens new" "int d + 1"] len n(2)
    by (simp add: diff_diff_eq)
  have last: "aget (childrens x) (nChild x - 1) = Some (cs ! (2 * d + 1))"
    using len r aget_map_Some [of "nChild x - 1" cs "[]"] by (simp add: nat_add_distrib nat_mult_distrib)
  have csd: "drop (d + 1) cs = take d (drop (d + 1) cs) @ [cs ! (2 * d + 1)]"
    using len by (intro nth_equalityI) (auto simp: nth_append min_def less_Suc_eq mult_2)
  have mid: "aget (keys x) (int d) = Some (ks ! d)" using len r aget_map_Some [of "int d" ks "[]"] by simp
  have "length (drop d (childrens new)) = Suc (d + 1)" using n(2) by simp
  then obtain z zs where cz: "drop d (childrens new) = z # zs" "length zs = d + 1"
    unfolding length_Suc_conv by blast
  have set: "aset (map Some (take d (drop (d + 1) cs)) @ drop d (childrens new)) (int d) (cs ! (2 * d + 1))
      = Some (map Some (drop (d + 1) cs) @ zs)"
    unfolding cz using len by (subst (2) csd) (simp add: aset_append_mid)
  let ?x = "x\<lparr>nKeys := int d, nChild := int d + 1\<rparr>"
  let ?new = "new\<lparr>nKeys := int d, nChild := int d + 1, keys := map Some (drop (d + 1) ks) @ drop d (keys new),
      childrens := map Some (drop (d + 1) cs) @ zs\<rparr>"
  have "split_halves x new = Some (ks ! d, ?x, ?new)"
    using k c last mid set r(3) by (simp add: split_halves_def Let_def)
  moreover have "inner_rep ?x d (take d ks) (take (d + 1) cs)"
    by (rule inner_repI [where kz = "map Some (drop d ks)" and cz = "map Some (drop (d + 1) cs)"])
      (use r len inner_rep_degree [OF rep] in \<open>simp_all flip: map_append\<close>)
  moreover have "inner_rep ?new d (drop (d + 1) ks) (drop (d + 1) cs)"
    by (rule inner_repI [where kz = "drop d (keys new)" and cz = zs]) (use n len cz inner_rep_degree [OF rep] in auto)
  ultimately show thesis using that n by simp
qed

end
