(* ===== verification/FPTree.thy ===== *)
theory FPTree
  imports InnerNode
begin

text \<open>
  The virtual functions of \<open>Node\<close> that recurse into children, and the class \<open>FPTree\<close>. A call
  through a node pointer looks at the object: a leaf runs the function of \<open>LeafNode\<close>, an inner
  node the one of \<open>InnerNode\<close>, and a pointer to no object has no defined result. Nothing in the
  program bounds the depth of the recursion, so these are partial functions; theories
  \<open>Tree_Shape\<close>, \<open>Tree_Insert\<close> and \<open>Tree_Root\<close> show that they return on the trees the program builds.
\<close>

section \<open>find, update, insert\<close>

partial_function (option) Node_find :: "addr \<Rightarrow> u64 \<Rightarrow> world \<Rightarrow> u64 option" where
  "Node_find a k w = (case heap w a of
      Some (Leaf l) \<Rightarrow> LeafNode_find a k w
    | Some (Inner x) \<Rightarrow> do {
        pos \<leftarrow> findIndex x k;
        c \<leftarrow> aget (childrens x) pos;
        (if c \<noteq> NULL then Node_find c k w else Some MAX_VALUE) }
    | _ \<Rightarrow> None)"

partial_function (option) Node_update :: "env \<Rightarrow> addr \<Rightarrow> u64 \<Rightarrow> u64 \<Rightarrow> world \<Rightarrow> (bool \<times> world) option" where
  "Node_update E a k v w = (case heap w a of
      Some (Leaf l) \<Rightarrow> LeafNode_update E a k v w
    | Some (Inner x) \<Rightarrow> do {
        pos \<leftarrow> findIndex x k;
        c \<leftarrow> aget (childrens x) pos;
        (if c \<noteq> NULL then Node_update E c k v w else Some (False, w)) }
    | _ \<Rightarrow> None)"

text \<open>\<open>newChild\<close> put into \<open>this\<close>, and \<open>this\<close> split when it has more than \<open>2d\<close> keys.\<close>

definition take_newChild :: "addr \<Rightarrow> KeyNode option \<Rightarrow> world \<Rightarrow> (KeyNode option \<times> world) option" where
  "take_newChild a newChild w = (case newChild of
       None \<Rightarrow> Some (None, w)
     | Some kn \<Rightarrow> do {
         w1 \<leftarrow> InnerNode_insertNonFull a (key kn) (node kn) w;
         x \<leftarrow> get_inner w1 a;
         (if nKeys x > 2 * degree x then InnerNode_split a w1 else Some (None, w1)) })"

partial_function (option) Node_insert ::
  "env \<Rightarrow> addr \<Rightarrow> u64 \<Rightarrow> u64 \<Rightarrow> world \<Rightarrow> (KeyNode option \<times> world) option" where
  "Node_insert E a k v w = (case heap w a of
      Some (Leaf l) \<Rightarrow> LeafNode_insert E a k v w
    | Some (Inner x) \<Rightarrow>
        if isRoot x \<and> nKeys x = 0 then
          (if nChild x = 0 then do {
             (b, w1) \<leftarrow> newLeafNode E w;
             (r, w2) \<leftarrow> LeafNode_insert E b k v w1;
             x2 \<leftarrow> get_inner w2 a;
             x3 \<leftarrow> append_child b x2;
             Some (None, put_node a (Inner x3) w2)
           } else do {
             c \<leftarrow> aget (childrens x) 0;
             (newChild, w1) \<leftarrow> Node_insert E c k v w;
             (case newChild of
                None \<Rightarrow> Some (None, w1)
              | Some kn \<Rightarrow> do {
                  x1 \<leftarrow> get_inner w1 a;
                  x2 \<leftarrow> append_key (key kn) x1;
                  x3 \<leftarrow> append_child (node kn) x2;
                  Some (None, put_node a (Inner x3) w1) }) })
        else do {
          pos \<leftarrow> findIndex x k;
          c \<leftarrow> aget (childrens x) pos;
          (newChild, w1) \<leftarrow> Node_insert E c k v w;
          (newChild, w2) \<leftarrow> take_newChild a newChild w1;
          grow_root a newChild w2 }
    | _ \<Rightarrow> None)"

text \<open>\<open>insertLeaf\<close>, used by \<open>bulkLoading\<close>.\<close>

partial_function (option) insertLeaf :: "addr \<Rightarrow> KeyNode \<Rightarrow> world \<Rightarrow> (KeyNode option \<times> world) option" where
  "insertLeaf a leaf w = do {
     x \<leftarrow> get_inner w a;
     (if isRoot x \<and> nKeys x = 0 then
        (if nChild x = 0 then do {
           x1 \<leftarrow> append_child (node leaf) x;
           Some (None, put_node a (Inner x1) w)
         } else do {
           x1 \<leftarrow> append_key (key leaf) x;
           x2 \<leftarrow> append_child (node leaf) x1;
           Some (None, put_node a (Inner x2) w) })
      else do {
        pos \<leftarrow> findIndex x (key leaf);
        c \<leftarrow> aget (childrens x) pos;
        isl \<leftarrow> ifLeaf w c;
        (newChild, w2) \<leftarrow> (if \<not> isl then do {
            (newChild, w1) \<leftarrow> insertLeaf c leaf w;
            take_newChild a newChild w1
          } else do {
            x1 \<leftarrow> append_key (key leaf) x;
            x2 \<leftarrow> append_child (node leaf) x1;
            let w1 = put_node a (Inner x2) w;
            (if nKeys x2 > 2 * degree x2 then InnerNode_split a w1 else Some (None, w1)) });
        grow_root a newChild w2 }) }"

section \<open>remove\<close>

text \<open>\<open>delete node\<close>, through the virtual destructor.\<close>

definition deleteNode :: "env \<Rightarrow> addr \<Rightarrow> world \<Rightarrow> world option" where
  "deleteNode E a w = (if a = NULL then Some w else
     (case heap w a of
        Some (Leaf l) \<Rightarrow> deleteLeafNode E a w
      | Some (Inner x) \<Rightarrow> Some (dispose a w)
      | _ \<Rightarrow> None))"

text \<open>
  The second half of \<open>InnerNode::remove\<close>, after the child and its key are out: an underfull node
  takes entries from a brother or is merged with one.
\<close>

definition InnerNode_rebalance :: "addr \<Rightarrow> int \<Rightarrow> addr \<Rightarrow> bool \<Rightarrow> world \<Rightarrow> (bool \<times> world) option" where
  "InnerNode_rebalance a index parent ifDelete w = do {
     x \<leftarrow> get_inner w a;
     (if nKeys x \<ge> degree x then Some (False, w)
      else if isRoot x then Some (ifDelete, w)
      else do {
        (leftBro, rightBro) \<leftarrow> (if parent = NULL then getBrother index None
           else do { p \<leftarrow> get_inner w parent; getBrother index (Some p) });
        rn \<leftarrow> (if rightBro = NULL then Some 0 else do { r \<leftarrow> get_inner w rightBro; Some (nKeys r) });
        (if rightBro \<noteq> NULL \<and> rn + nKeys x \<ge> 2 * degree x then do {
           r \<leftarrow> get_inner w rightBro;
           p \<leftarrow> get_inner w parent;
           (x1, r1, p1) \<leftarrow> redistributeRight index x r p;
           Some (False, put_node a (Inner x1) (put_node rightBro (Inner r1) (put_node parent (Inner p1) w)))
         } else do {
           ln \<leftarrow> (if leftBro = NULL then Some 0 else do { l \<leftarrow> get_inner w leftBro; Some (nKeys l) });
           (if leftBro \<noteq> NULL \<and> ln + nKeys x \<ge> 2 * degree x then do {
              l \<leftarrow> get_inner w leftBro;
              p \<leftarrow> get_inner w parent;
              (x1, l1, p1) \<leftarrow> redistributeLeft index x l p;
              Some (False, put_node a (Inner x1) (put_node leftBro (Inner l1) (put_node parent (Inner p1) w)))
            } else do {
              p \<leftarrow> get_inner w parent;
              (if isRoot p \<and> nChild p = 2 then
                 (if leftBro \<noteq> NULL then do {
                    l \<leftarrow> get_inner w leftBro;
                    p1 \<leftarrow> mergeParentLeft a x p l;
                    Some (True, dispose leftBro (put_node parent (Inner p1) w))
                  } else do {
                    r \<leftarrow> get_inner w rightBro;
                    p1 \<leftarrow> mergeParentRight a x p r;
                    Some (True, dispose rightBro (put_node parent (Inner p1) w)) })
               else
                 (if rightBro \<noteq> NULL then do {
                    k \<leftarrow> aget (keys p) index;
                    r \<leftarrow> get_inner w rightBro;
                    r1 \<leftarrow> mergeRight x r k;
                    Some (True, put_node rightBro (Inner r1) w)
                  } else do {
                    k \<leftarrow> aget (keys p) (index - 1);
                    l \<leftarrow> get_inner w leftBro;
                    l1 \<leftarrow> mergeLeft x l k;
                    Some (True, put_node leftBro (Inner l1) w) })) }) }) }) }"

partial_function (option) Node_remove ::
  "env \<Rightarrow> addr \<Rightarrow> u64 \<Rightarrow> int \<Rightarrow> addr \<Rightarrow> bool \<Rightarrow> world \<Rightarrow> (bool \<times> bool \<times> world) option" where
  "Node_remove E a k index parent ifDelete w = (case heap w a of
      Some (Leaf l) \<Rightarrow> LeafNode_remove E a k ifDelete w
    | Some (Inner x) \<Rightarrow>
        if isRoot x \<and> nKeys x = 0 then
          (if nChild x > 0 then do {
             c \<leftarrow> aget (childrens x) 0;
             (ifRemove, ifDelete, w1) \<leftarrow> Node_remove E c k 0 a ifDelete w;
             (if ifDelete then do {
                w2 \<leftarrow> deleteNode E c w1;
                x2 \<leftarrow> get_inner w2 a;
                Some (ifRemove, ifDelete, put_node a (Inner (x2\<lparr>nChild := nChild x2 - 1\<rparr>)) w2)
              } else Some (ifRemove, ifDelete, w1))
           } else Some (False, ifDelete, w))
        else do {
          pos \<leftarrow> findIndex x k;
          c \<leftarrow> aget (childrens x) pos;
          (ifRemove, ifDelete, w1) \<leftarrow> Node_remove E c k pos a ifDelete w;
          (if \<not> ifDelete then Some (ifRemove, ifDelete, w1)
           else do {
             x1 \<leftarrow> get_inner w1 a;
             (if isRoot x1 \<and> nChild x1 = 0 then do {
                let x2 = x1\<lparr>nChild := nKeys x1 + 1\<rparr>;
                c \<leftarrow> aget (childrens x2) (nChild x2);
                w2 \<leftarrow> deleteNode E c (put_node a (Inner x2) w1);
                Some (ifRemove, ifDelete, w2)
              } else do {
                c1 \<leftarrow> aget (childrens x1) pos;
                w2 \<leftarrow> deleteNode E c1 w1;
                x2 \<leftarrow> get_inner w2 a;
                x3 \<leftarrow> removeChild (if pos < nKeys x2 then pos else pos - 1) pos x2;
                (ifDelete, w3) \<leftarrow> InnerNode_rebalance a index parent ifDelete (put_node a (Inner x3) w2);
                Some (ifRemove, ifDelete, w3) }) }) }
    | _ \<Rightarrow> None)"

section \<open>The class FPTree\<close>

definition FPTree_find :: "u64 \<Rightarrow> world \<Rightarrow> u64 option" where
  "FPTree_find k w = (if root w \<noteq> NULL then Node_find (root w) k w else None)"

definition FPTree_update :: "env \<Rightarrow> u64 \<Rightarrow> u64 \<Rightarrow> world \<Rightarrow> (bool \<times> world) option" where
  "FPTree_update E k v w = (if root w \<noteq> NULL then Node_update E (root w) k v w else Some (False, w))"

definition FPTree_insert :: "env \<Rightarrow> u64 \<Rightarrow> u64 \<Rightarrow> world \<Rightarrow> world option" where
  "FPTree_insert E k v w =
     (if root w \<noteq> NULL then do { (r, w1) \<leftarrow> Node_insert E (root w) k v w; Some w1 } else Some w)"

definition FPTree_remove :: "env \<Rightarrow> u64 \<Rightarrow> world \<Rightarrow> (bool \<times> world) option" where
  "FPTree_remove E k w =
     (if root w \<noteq> NULL then do {
        (ifRemove, ifDelete, w1) \<leftarrow> Node_remove E (root w) k (- 1) NULL False w;
        Some (ifRemove, w1)
      } else Some (False, w))"

text \<open>
  \<open>recursiveDelete\<close>, as the state of its loop over the children: \<open>recursiveDelete_from E a i\<close>
  deletes the children from the \<open>i\<close>-th on and then the node.
\<close>

partial_function (option) recursiveDelete_from :: "env \<Rightarrow> addr \<Rightarrow> int \<Rightarrow> world \<Rightarrow> world option" where
  "recursiveDelete_from E a i w = (case heap w a of
      Some (Leaf l) \<Rightarrow> deleteNode E a w
    | Some (Inner x) \<Rightarrow>
        if i < nChild x then do {
          c \<leftarrow> aget (childrens x) i;
          w1 \<leftarrow> recursiveDelete_from E c 0 w;
          recursiveDelete_from E a (i + 1) w1
        } else deleteNode E a w
    | _ \<Rightarrow> None)"

definition recursiveDelete :: "env \<Rightarrow> addr \<Rightarrow> world \<Rightarrow> world option" where
  "recursiveDelete E a w = recursiveDelete_from E a 0 w"

text \<open>\<open>~FPTree\<close>\<close>

definition deleteFPTree :: "env \<Rightarrow> world \<Rightarrow> world option" where
  "deleteFPTree E w = recursiveDelete E (root w) w"

section \<open>bulkLoading\<close>

text \<open>The smallest key of a leaf; \<open>MAX_KEY\<close> if it has no entry.\<close>

definition leaf_minKey :: "int \<Rightarrow> leaf_image \<Rightarrow> u64 option" where
  "leaf_minKey d m = for_up 0 (LEAF_DEGREE * 2) (\<lambda>i minKey. do {
     b \<leftarrow> getBit d m i;
     (if b \<noteq> 0 then do {
        e \<leftarrow> rd (kv m) i;
        Some (if minKey \<le> fst e then minKey else fst e)
      } else Some minKey) }) MAX_KEY"

text \<open>The loop of \<open>bulkLoading\<close>: one leaf after the other along the persistent \<open>pNext\<close>.\<close>

partial_function (option) bulkLoading_loop :: "env \<Rightarrow> PPointer \<Rightarrow> addr \<Rightarrow> world \<Rightarrow> world option" where
  "bulkLoading_loop E ppt old_leaf w = do {
     A \<leftarrow> allocator (nv w);
     used \<leftarrow> ifLeafUsed A (dev (nv w)) ppt;
     (if \<not> used then Some w
      else do {
        (leaf, w1) \<leftarrow> loadLeafNode E ppt w;
        l \<leftarrow> get_leafnode w1 leaf;
        m \<leftarrow> leaf_mem l w1;
        minKey \<leftarrow> leaf_minKey (degree l) m;
        let w2 = put_node leaf (Leaf (l\<lparr>prev := old_leaf\<rparr>)) w1;
        w3 \<leftarrow> (if old_leaf \<noteq> NULL then do {
                 ol \<leftarrow> get_leafnode w2 old_leaf;
                 Some (put_node old_leaf (Leaf (ol\<lparr>next := leaf\<rparr>)) w2)
               } else Some w2);
        (r, w4) \<leftarrow> insertLeaf (root w3) \<lparr>key = minKey, node = leaf\<rparr> w3;
        l4 \<leftarrow> get_leafnode w4 leaf;
        m4 \<leftarrow> leaf_mem l4 w4;
        bulkLoading_loop E (pNext m4) leaf w4 }) }"

definition bulkLoading :: "env \<Rightarrow> world \<Rightarrow> (bool \<times> world) option" where
  "bulkLoading E w = do {
     (A, n1) \<leftarrow> getAllocator E (nv w);
     let w1 = w\<lparr>nv := n1\<rparr>;
     let ppt = startLeaf A;
     used \<leftarrow> ifLeafUsed A (dev n1) ppt;
     (if \<not> used then Some (False, w1)
      else do { w2 \<leftarrow> bulkLoading_loop E ppt NULL w1; Some (False, w2) }) }"

text \<open>\<open>FPTree(uint64_t)\<close>; the degree is passed on as an \<open>int\<close>.\<close>

definition newFPTree :: "env \<Rightarrow> u64 \<Rightarrow> world \<Rightarrow> world option" where
  "newFPTree E t_degree w = do {
     x \<leftarrow> newInnerNode (sint (ucast t_degree :: u32)) True;
     let (r, w1) = alloc (Inner x) w;
     (b, w2) \<leftarrow> bulkLoading E (w1\<lparr>root := r, tree_degree := t_degree\<rparr>);
     Some w2 }"

section \<open>printTree\<close>

text \<open>Level-order traversal with a queue; the result is the text printed.\<close>

partial_function (option) printTree_loop :: "(addr \<times> int) list \<Rightarrow> int \<Rightarrow> string \<Rightarrow> world \<Rightarrow> string option" where
  "printTree_loop q maxLevel out w = (case q of
      [] \<Rightarrow> Some (out @ ''\<newline>'')
    | (a, level) # q1 \<Rightarrow>
        let (maxLevel1, out1) = (if level > maxLevel then (maxLevel + 1, out @ ''\<newline>'') else (maxLevel, out)) in
        (case heap w a of
           Some (Inner x) \<Rightarrow> do {
             s \<leftarrow> InnerNode_printNode x;
             cs \<leftarrow> for_up 0 (nChild x) (\<lambda>i cs. do { c \<leftarrow> InnerNode_getChild x i; Some (cs @ [(c, level + 1)]) }) [];
             printTree_loop (q1 @ cs) maxLevel1 (out1 @ s) w }
         | Some (Leaf l) \<Rightarrow> do {
             s \<leftarrow> LeafNode_printNode a w;
             printTree_loop q1 maxLevel1 (out1 @ s) w }
         | _ \<Rightarrow> None))"

definition printTree :: "world \<Rightarrow> string option" where
  "printTree w = printTree_loop [(root w, 0)] 0 [] w"

declare Node_find.simps [code] Node_update.simps [code] Node_insert.simps [code] insertLeaf.simps [code]
  Node_remove.simps [code] recursiveDelete_from.simps [code] bulkLoading_loop.simps [code]
  printTree_loop.simps [code]

end
