(* ===== verification/Leaf_Links.thy ===== *)
theory Leaf_Links
  imports Main
begin

text \<open>
  Doubly linked lists as maps from addresses to the pair of their links, \<open>prev\<close> and \<open>next\<close>, where the
  address 0 is the null pointer. Every link leads to a node that links back, and \<open>next\<close> never leads
  around in a circle: the nodes have ranks that grow along it.
\<close>

definition linked_to :: "(nat \<rightharpoonup> nat \<times> nat) \<Rightarrow> nat \<Rightarrow> nat \<Rightarrow> bool" where
  "linked_to f a b \<longleftrightarrow> b \<noteq> 0 \<and> (\<exists>p. f a = Some (p, b))"

definition linked_from :: "(nat \<rightharpoonup> nat \<times> nat) \<Rightarrow> nat \<Rightarrow> nat \<Rightarrow> bool" where
  "linked_from f a b \<longleftrightarrow> a \<noteq> 0 \<and> (\<exists>n. f b = Some (a, n))"

definition dll :: "(nat \<rightharpoonup> nat \<times> nat) \<Rightarrow> bool" where
  "dll f \<longleftrightarrow> f 0 = None \<and> (\<forall>a b. linked_to f a b = linked_from f a b)
     \<and> (\<exists>r :: nat \<Rightarrow> nat. \<forall>a b. linked_to f a b \<longrightarrow> r a < r b)"

lemma linked_some: "f a = Some (p, n) \<Longrightarrow> linked_to f a b \<longleftrightarrow> b = n \<and> n \<noteq> 0"
  "f a = Some (p, n) \<Longrightarrow> linked_from f b a \<longleftrightarrow> b = p \<and> p \<noteq> 0"
  by (auto simp: linked_to_def linked_from_def)

lemma linked_none: "f a = None \<Longrightarrow> \<not> linked_to f a b" "f a = None \<Longrightarrow> \<not> linked_from f b a"
  by (auto simp: linked_to_def linked_from_def)

lemma dllE:
  assumes "dll f"
  obtains r :: "nat \<Rightarrow> nat" where "f 0 = None" "\<forall>a b. linked_to f a b = linked_from f a b" "\<forall>a b. linked_to f a b \<longrightarrow> r a < r b"
  using assms unfolding dll_def by blast

lemma dll_next: 
  assumes "dll f" and "f a = Some (p, n)" and "n \<noteq> 0"
  shows "n \<noteq> a" "\<exists>n'. f n = Some (a, n')"
proof -
  have t: "linked_to f a n" using assms(2,3) by (auto simp: linked_to_def)
  then show "n \<noteq> a" using assms(1) by (elim dllE) auto
  have "linked_from f a n" using t assms(1) by (simp add: dll_def)
  then show "\<exists>n'. f n = Some (a, n')" by (auto simp: linked_from_def)
qed

lemma dll_prev:
  assumes "dll f" and "f a = Some (p, n)" and "p \<noteq> 0"
  shows "p \<noteq> a" "p \<noteq> n" "\<exists>p'. f p = Some (p', a)"
proof -
  have "linked_from f p a" using assms(2,3) by (auto simp: linked_from_def)
  then have t: "linked_to f p a" using assms(1) by (simp add: dll_def)
  then show "p \<noteq> a" using assms(1) by (elim dllE) auto
  show "\<exists>p'. f p = Some (p', a)" using t by (auto simp: linked_to_def)
  show "p \<noteq> n"
  proof
    assume "p = n"
    then have "linked_to f a p" using assms(2,3) by (auto simp: linked_to_def)
    then show False using t assms(1) by (elim dllE) (meson less_asym)
  qed
qed

lemma dll_empty [simp]: "dll (\<lambda>_. None)"
  by (simp add: dll_def linked_to_def linked_from_def)

text \<open>A node on its own.\<close>

lemma dll_new:
  assumes f: "dll f" and b: "f b = None" "b \<noteq> 0"
  shows "dll (f(b \<mapsto> (0, 0)))"
proof -
  have "linked_to (f(b \<mapsto> (0, 0))) x y = linked_to f x y" "linked_from (f(b \<mapsto> (0, 0))) x y = linked_from f x y" for x y
    using b(1) by (auto simp: linked_to_def linked_from_def)
  then show ?thesis using f b unfolding dll_def by simp blast
qed

text \<open>A new node \<open>b\<close> after \<open>a\<close>.\<close>

definition link_after :: "nat \<Rightarrow> nat \<Rightarrow> (nat \<rightharpoonup> nat \<times> nat) \<Rightarrow> nat \<rightharpoonup> nat \<times> nat" where
  "link_after a b f c = (case f a of None \<Rightarrow> f c | Some (p, n) \<Rightarrow>
     if c = a then Some (p, b) else if c = b then Some (a, n)
     else if c = n then map_option (\<lambda>(x, y). (b, y)) (f c) else f c)"

lemma dll_after:
  assumes f: "dll f" and a: "f a = Some (p, n)" and b: "f b = None" "b \<noteq> 0"
  shows "dll (link_after a b f)"
proof -
  obtain r :: "nat \<Rightarrow> nat" where r: "f 0 = None" "\<forall>a b. linked_to f a b = linked_from f a b" "\<forall>a b. linked_to f a b \<longrightarrow> r a < r b"
    using f by (rule dllE)
  have ab: "a \<noteq> b" "a \<noteq> 0" using a b r(1) by (auto intro!: gr0I)
  have n: "n \<noteq> b" "n \<noteq> 0 \<Longrightarrow> n \<noteq> a" "n \<noteq> 0 \<Longrightarrow> \<exists>n'. f n = Some (a, n')"
    using dll_next [OF f a] b by auto
  let ?f = "link_after a b f"
  have f': "?f c = (if c = a then Some (p, b) else if c = b then Some (a, n)
     else if c = n then map_option (\<lambda>(x, y). (b, y)) (f c) else f c)" for c using a by (simp add: link_after_def)
  have to: "linked_to ?f x y \<longleftrightarrow> (if x = a then y = b else if x = b then y = n \<and> n \<noteq> 0 else linked_to f x y)" for x y
    using b by (auto simp: linked_to_def f')
  have fb: "\<not> linked_to f x b" for x using b(1) r(2) linked_none by metis
  have from': "linked_from ?f x y \<longleftrightarrow> (if y = b then x = a else if y = n \<and> n \<noteq> 0 then x = b else linked_from f x y)" for x y
    using b ab a n r(1) by (cases "n = 0") (auto simp: linked_from_def f')
  have ta: "linked_to f a y \<longleftrightarrow> y = n \<and> n \<noteq> 0" for y by (rule linked_some(1) [of f, OF a])
  have tn: "linked_to f x n \<longleftrightarrow> x = a" if "n \<noteq> 0" for x using n(3) [OF that] r(2) linked_some(2) ab(2) by metis
  have eq: "linked_to ?f x y = linked_from ?f x y" for x y
    unfolding to from' r(2) [rule_format, symmetric] using ta tn fb n(1) ab(1) linked_none(1) [of f, OF b(1)] by auto
  define q where "q x = (if x = b then 2 * r a + 1 else 2 * r x)" for x
  have "q x < q y" if "linked_to ?f x y" for x y
    using that r(3) [rule_format, of x y] r(3) [rule_format, of a n] ta fb n(1) ab unfolding to q_def by (auto split: if_splits)
  then show ?thesis unfolding dll_def using eq f' [of 0] r(1) ab b n by auto
qed

text \<open>A node taken out.\<close>

definition unlink :: "nat \<Rightarrow> (nat \<rightharpoonup> nat \<times> nat) \<Rightarrow> nat \<rightharpoonup> nat \<times> nat" where
  "unlink a f c = (case f a of None \<Rightarrow> f c | Some (p, n) \<Rightarrow>
     if c = a then None else if c = p then map_option (\<lambda>(x, y). (x, n)) (f c)
     else if c = n then map_option (\<lambda>(x, y). (p, y)) (f c) else f c)"

lemma dll_unlink:
  assumes f: "dll f" and a: "f a = Some (p, n)"
  shows "dll (unlink a f)"
proof -
  obtain r :: "nat \<Rightarrow> nat" where r: "f 0 = None" "\<forall>a b. linked_to f a b = linked_from f a b" "\<forall>a b. linked_to f a b \<longrightarrow> r a < r b"
    using f by (rule dllE)
  have n: "n \<noteq> 0 \<Longrightarrow> n \<noteq> a" "n \<noteq> 0 \<Longrightarrow> \<exists>n'. f n = Some (a, n')" using dll_next [OF f a] by auto
  have p: "p \<noteq> 0 \<Longrightarrow> p \<noteq> a" "p \<noteq> 0 \<Longrightarrow> p \<noteq> n" "p \<noteq> 0 \<Longrightarrow> \<exists>p'. f p = Some (p', a)" using dll_prev [OF f a] by auto
  let ?f = "unlink a f"
  have f': "?f c = (if c = a then None else if c = p then map_option (\<lambda>(x, y). (x, n)) (f c)
     else if c = n then map_option (\<lambda>(x, y). (p, y)) (f c) else f c)" for c using a by (simp add: unlink_def)
  have to: "linked_to ?f x y \<longleftrightarrow> (if x = a then False else if x = p \<and> p \<noteq> 0 then y = n \<and> n \<noteq> 0 else linked_to f x y)" for x y
    using p r(1) by (cases "p = 0") (auto simp: linked_to_def f')
  have from': "linked_from ?f x y \<longleftrightarrow> (if y = a then False else if y = n \<and> n \<noteq> 0 then x = p \<and> p \<noteq> 0 else linked_from f x y)" for x y
    using p n r(1) by (cases "n = 0"; cases "p = 0") (auto simp: linked_from_def f')
  have ta: "linked_to f a y \<longleftrightarrow> y = n \<and> n \<noteq> 0" for y by (rule linked_some(1) [of f, OF a])
  have fa: "linked_to f x a \<longleftrightarrow> x = p \<and> p \<noteq> 0" for x using linked_some(2) [of f, OF a] r(2) by simp
  have tp: "linked_to f p y \<longleftrightarrow> y = a" if "p \<noteq> 0" for y using p(3) [OF that] a r(1) linked_some(1) by fastforce
  have tn: "linked_to f x n \<longleftrightarrow> x = a" if "n \<noteq> 0" for x using n(2) [OF that] a r(1,2) linked_some(2) by fastforce
  have eq: "linked_to ?f x y = linked_from ?f x y" for x y
    unfolding to from' r(2) [rule_format, symmetric] using ta fa tp tn p n by auto
  have "r x < r y" if "linked_to ?f x y" for x y
  proof (cases "x = p \<and> p \<noteq> 0")
    case True
    then have "y = n" "linked_to f p a" "linked_to f a n" using that p(1) tp ta by (simp_all add: to)
    then show ?thesis using True r(3) by (metis order.strict_trans)
  next
    case False
    then show ?thesis using that r(3) by (auto simp: to split: if_splits)
  qed
  then show ?thesis unfolding dll_def using eq f' [of 0] r(1) by auto
qed

end
