(* ===== verification/Tree_Shape.thy ===== *)
theory Tree_Shape
  imports FPTree Leaf_Links
begin

text \<open>
  The tree that the nodes of the heap form: \<open>gtree\<close> is its shape, \<open>tree_ok\<close> says that the nodes at
  its addresses are inner nodes with increasing separator keys over leaves with distinct keys, and
  \<open>tset\<close> is the set of entries it holds. It also has what \<open>find\<close> returns on such a tree and the
  steps of an insertion on one inner node.
\<close>

section \<open>The tree in the heap\<close>

text \<open>
  The shape of a tree of nodes, with the addresses of its nodes and the keys of the inner ones.
  \<open>leaf_data\<close> is a leaf without its links, \<open>tset\<close> the set of all entries.
\<close>

datatype gtree = GLeaf (gaddr: addr) | GNode (gaddr: addr) "u64 list" "gtree list"

fun gaddrs :: "gtree \<Rightarrow> addr list" where
  "gaddrs (GLeaf a) = [a]"
| "gaddrs (GNode a ks ts) = a # concat (map gaddrs ts)"

definition leaf_data :: "world \<Rightarrow> addr \<Rightarrow> leaf_image option" where
  "leaf_data w a = (case leaf_view w a of
      Some (l, m) \<Rightarrow> if good_leaf l m then Some (m\<lparr>pNext := nullPPointer\<rparr>) else None
    | None \<Rightarrow> None)"

definition leaf_set :: "world \<Rightarrow> addr \<Rightarrow> (u64 \<times> u64) set" where
  "leaf_set w a = (case leaf_data w a of None \<Rightarrow> {} | Some m \<Rightarrow> set (entries m))"

fun tset :: "world \<Rightarrow> gtree \<Rightarrow> (u64 \<times> u64) set" where
  "tset w (GLeaf a) = leaf_set w a"
| "tset w (GNode a ks ts) = (\<Union>t\<in>set ts. tset w t)"

text \<open>
  \<open>kids P lo hi ks ts\<close>: the children \<open>ts\<close> satisfy \<open>P\<close> with the intervals that the keys \<open>ks\<close>
  cut \<open>[lo, hi)\<close> into.
\<close>

fun kids :: "(int \<Rightarrow> int \<Rightarrow> 't \<Rightarrow> bool) \<Rightarrow> int \<Rightarrow> int \<Rightarrow> u64 list \<Rightarrow> 't list \<Rightarrow> bool" where
  "kids P lo hi [] [t] = P lo hi t"
| "kids P lo hi (k # ks) (t # ts) = (P lo (uint k) t \<and> kids P (uint k) hi ks ts)"
| "kids P lo hi _ _ = False"

definition lb :: "int \<Rightarrow> u64 list \<Rightarrow> int" where
  "lb lo ks = (if ks = [] then lo else uint (last ks))"

definition ub :: "int \<Rightarrow> u64 list \<Rightarrow> int" where
  "ub hi ks = (if ks = [] then hi else uint (hd ks))"

fun lefts :: "(int \<Rightarrow> int \<Rightarrow> 't \<Rightarrow> bool) \<Rightarrow> int \<Rightarrow> u64 list \<Rightarrow> 't list \<Rightarrow> bool" where
  "lefts P lo [] [] = True"
| "lefts P lo (k # ks) (t # ts) = (P lo (uint k) t \<and> lefts P (uint k) ks ts)"
| "lefts P lo _ _ = False"

fun rights :: "(int \<Rightarrow> int \<Rightarrow> 't \<Rightarrow> bool) \<Rightarrow> int \<Rightarrow> u64 list \<Rightarrow> 't list \<Rightarrow> bool" where
  "rights P hi [] [] = True"
| "rights P hi (k # ks) (t # ts) = (P (uint k) (ub hi ks) t \<and> rights P hi ks ts)"
| "rights P hi _ _ = False"

lemma lb_simps [simp]: "lb lo [] = lo" "lb lo (k # ks) = lb (uint k) ks" "lb lo (ks @ [k]) = uint k"
  by (simp_all add: lb_def)

lemma ub_simps [simp]: "ub hi [] = hi" "ub hi (k # ks) = uint k"
  by (simp_all add: ub_def)

lemma kids_rights: "kids P lo hi ks (t # ts) \<longleftrightarrow> P lo (ub hi ks) t \<and> rights P hi ks ts"
proof (induction ks arbitrary: lo t ts)
  case Nil
  then show ?case by (cases ts) auto
next
  case (Cons k ks)
  then show ?case by (cases ts) auto
qed

lemma kids_mid:
  "length ts1 = length ks1 \<Longrightarrow>
    kids P lo hi (ks1 @ ks2) (ts1 @ t # ts2)
      \<longleftrightarrow> lefts P lo ks1 ts1 \<and> P (lb lo ks1) (ub hi ks2) t \<and> rights P hi ks2 ts2"
proof (induction ts1 ks1 arbitrary: lo rule: list_induct2)
  case Nil
  show ?case using kids_rights [of P lo hi ks2 t ts2] by simp
next
  case (Cons t' ts k ks)
  then show ?case by simp
qed

lemma kids_length: "kids P lo hi ks ts \<Longrightarrow> length ts = Suc (length ks)"
  by (induction P lo hi ks ts rule: kids.induct) auto

lemma kids_mono: "kids P lo hi ks ts \<Longrightarrow> (\<And>lo hi t. t \<in> set ts \<Longrightarrow> P lo hi t \<Longrightarrow> Q lo hi t) \<Longrightarrow> kids Q lo hi ks ts"
  by (induction P lo hi ks ts rule: kids.induct) auto

lemma lefts_mono: "lefts P lo ks ts \<Longrightarrow> (\<And>lo hi t. t \<in> set ts \<Longrightarrow> P lo hi t \<Longrightarrow> Q lo hi t) \<Longrightarrow> lefts Q lo ks ts"
  by (induction P lo ks ts rule: lefts.induct) auto

lemma rights_mono: "rights P hi ks ts \<Longrightarrow> (\<And>lo hi t. t \<in> set ts \<Longrightarrow> P lo hi t \<Longrightarrow> Q lo hi t) \<Longrightarrow> rights Q hi ks ts"
  by (induction P hi ks ts rule: rights.induct) auto

text \<open>Cutting the children in two at a key, and putting them together.\<close>

lemma kids_append:
  "length ts1 = Suc (length ks1) \<Longrightarrow>
    kids P lo hi (ks1 @ k # ks2) (ts1 @ ts2) \<longleftrightarrow> kids P lo (uint k) ks1 ts1 \<and> kids P (uint k) hi ks2 ts2"
proof (induction ks1 arbitrary: lo ts1)
  case Nil
  then obtain t where "ts1 = [t]" by (cases ts1) auto
  then show ?case by simp
next
  case (Cons k' ks1)
  then obtain t ts where "ts1 = t # ts" "length ts = Suc (length ks1)" by (cases ts1) auto
  with Cons.IH show ?case by auto
qed

lemma kids_less:
  assumes "kids P lo hi ks ts" and "\<And>lo hi t. P lo hi t \<Longrightarrow> lo < hi"
  shows "lo < hi \<and> sorted ks \<and> (\<forall>k\<in>set ks. lo < uint k \<and> uint k < hi)"
  using assms
proof (induction P lo hi ks ts rule: kids.induct)
  case (2 P lo hi k ks t ts)
  then have "lo < uint k" "uint k < hi \<and> sorted ks \<and> (\<forall>k'\<in>set ks. uint k < uint k' \<and> uint k' < hi)" by auto
  moreover from this have "\<forall>k'\<in>set ks. k \<le> k'" by (auto simp: word_le_def less_imp_le)
  ultimately show ?case by auto
qed auto

section \<open>The invariant of the tree\<close>

primrec tree_ok :: "world \<Rightarrow> nat \<Rightarrow> nat \<Rightarrow> int \<Rightarrow> int \<Rightarrow> gtree \<Rightarrow> bool" where
  "tree_ok w d 0 lo hi t \<longleftrightarrow> lo < hi \<and> (\<exists>a m. t = GLeaf a \<and> leaf_data w a = Some m
     \<and> (\<forall>e\<in>set (entries m). lo \<le> uint (fst e) \<and> uint (fst e) < hi))"
| "tree_ok w d (Suc h) lo hi t \<longleftrightarrow> lo < hi \<and> (\<exists>a ks ts x. t = GNode a ks ts \<and> get_inner w a = Some x
     \<and> \<not> isRoot x \<and> inner_rep x d ks (map gaddr ts) \<and> d \<le> length ks \<and> length ks \<le> 2 * d
     \<and> kids (tree_ok w d h) lo hi ks ts)"

lemma tree_ok_less: "tree_ok w d h lo hi t \<Longrightarrow> lo < hi"
  by (cases h) auto

lemma tree_ok_tset:
  "tree_ok w d h lo hi t \<Longrightarrow> e \<in> tset w t \<Longrightarrow> lo \<le> uint (fst e) \<and> uint (fst e) < hi"
proof (induction h arbitrary: lo hi t)
  case 0
  then show ?case by (auto simp: leaf_set_def)
next
  case (Suc h)
  then obtain a ks ts where t: "t = GNode a ks ts" and kids: "kids (tree_ok w d h) lo hi ks ts" by auto
  have kl: "lo < hi \<and> sorted ks \<and> (\<forall>k\<in>set ks. lo < uint k \<and> uint k < hi)"
    by (rule kids_less [OF kids]) (rule tree_ok_less)
  obtain s where s: "s \<in> set ts" "e \<in> tset w s" using Suc.prems(2) t by auto
  then obtain ts1 ts2 where ts: "ts = ts1 @ s # ts2" by (meson split_list)
  have "length ts1 \<le> length ks" using kids_length [OF kids] ts by simp
  then obtain ks1 ks2 where ks: "ks = ks1 @ ks2" "length ts1 = length ks1"
    by (metis append_take_drop_id length_take min.absorb2)
  have "tree_ok w d h (lb lo ks1) (ub hi ks2) s"
    using kids kids_mid [OF ks(2)] by (simp add: ks(1) ts)
  then have "lb lo ks1 \<le> uint (fst e) \<and> uint (fst e) < ub hi ks2" using Suc.IH s(2) by blast
  moreover have "lo \<le> lb lo ks1" "ub hi ks2 \<le> hi"
    using kl ks(1) by (auto simp: lb_def ub_def less_imp_le)
  ultimately show ?case by linarith
qed

text \<open>The invariant depends on the nodes of the tree only, and not on the links of its leaves.\<close>

definition same_nodes :: "addr set \<Rightarrow> world \<Rightarrow> world \<Rightarrow> bool" where
  "same_nodes S w w' \<longleftrightarrow> (\<forall>a\<in>S. get_inner w' a = get_inner w a \<and> leaf_data w' a = leaf_data w a)"

lemma same_nodes_subset: "same_nodes S w w' \<Longrightarrow> T \<subseteq> S \<Longrightarrow> same_nodes T w w'"
  by (auto simp: same_nodes_def)

lemma same_nodes_trans: "same_nodes S w w' \<Longrightarrow> same_nodes S w' w'' \<Longrightarrow> same_nodes S w w''"
  by (auto simp: same_nodes_def)

lemma tree_ok_frame:
  "tree_ok w d h lo hi t \<Longrightarrow> same_nodes (set (gaddrs t)) w w' \<Longrightarrow> tree_ok w' d h lo hi t \<and> tset w' t = tset w t"
proof (induction h arbitrary: lo hi t)
  case 0
  then show ?case by (auto simp: same_nodes_def leaf_set_def)
next
  case (Suc h)
  then obtain a ks ts x where t: "t = GNode a ks ts" and kids: "kids (tree_ok w d h) lo hi ks ts"
    and x: "get_inner w a = Some x" "\<not> isRoot x" "inner_rep x d ks (map gaddr ts)" "d \<le> length ks" "length ks \<le> 2 * d"
    by auto
  have sub: "same_nodes (set (gaddrs s)) w w'" if "s \<in> set ts" for s
    using same_nodes_subset [OF Suc.prems(2)] that t by auto
  have "kids (\<lambda>lo hi s. tree_ok w' d h lo hi s \<and> tset w' s = tset w s) lo hi ks ts"
    by (rule kids_mono [OF kids]) (use Suc.IH sub in blast)
  then have "kids (tree_ok w' d h) lo hi ks ts" by (rule kids_mono) blast
  moreover have "tset w' s = tset w s" if "s \<in> set ts" for s
  proof -
    from that obtain ts1 ts2 where ts: "ts = ts1 @ s # ts2" by (meson split_list)
    have "length ts1 \<le> length ks" using kids_length [OF kids] ts by simp
    then obtain ks1 ks2 where ks: "ks = ks1 @ ks2" "length ts1 = length ks1"
      by (metis append_take_drop_id length_take min.absorb2)
    then have "tree_ok w d h (lb lo ks1) (ub hi ks2) s" using kids kids_mid [OF ks(2)] by (simp add: ts)
    then show ?thesis using Suc.IH sub that by blast
  qed
  moreover have "get_inner w' a = Some x" using Suc.prems(2) t x by (simp add: same_nodes_def)
  ultimately show ?case using x t Suc.prems(1) by auto
qed

section \<open>Routing a key\<close>

lemma lefts_less:
  assumes "lefts P lo ks ts" and "\<And>lo hi t. P lo hi t \<Longrightarrow> lo < hi"
  shows "lo \<le> lb lo ks"
  using assms
proof (induction P lo ks ts rule: lefts.induct)
  case (2 P lo k ks t ts)
  then have "lo < uint k" "uint k \<le> lb (uint k) ks" by auto
  then show ?case by simp
qed auto

lemma lefts_tset:
  "lefts (tree_ok w d h) lo ks ts \<Longrightarrow> s \<in> set ts \<Longrightarrow> e \<in> tset w s \<Longrightarrow> uint (fst e) < lb lo ks"
proof (induction "tree_ok w d h" lo ks ts rule: lefts.induct)
  case (2 lo k ks t ts)
  have "uint k \<le> lb (uint k) ks" by (rule lefts_less [of "tree_ok w d h" _ _ ts]) (use 2 tree_ok_less in auto)
  with 2 tree_ok_tset [of w d h lo "uint k" t e] show ?case by fastforce
qed auto

lemma rights_tset:
  "rights (tree_ok w d h) hi ks ts \<Longrightarrow> s \<in> set ts \<Longrightarrow> e \<in> tset w s \<Longrightarrow> ub hi ks \<le> uint (fst e)"
proof (induction "tree_ok w d h" hi ks ts rule: rights.induct)
  case (2 hi k ks t ts)
  have tk: "tree_ok w d h (uint k) (ub hi ks) t" using 2 by simp
  from 2 tree_ok_tset [OF tk, of e] tree_ok_less [OF tk] show ?case by fastforce
qed auto

lemma route:
  assumes kids: "kids (tree_ok w d h) lo hi ks ts" and k: "lo \<le> uint k" "uint k < hi"
  obtains ks1 ks2 ts1 s ts2 where "ks = ks1 @ ks2" "ts = ts1 @ s # ts2" "length ts1 = length ks1"
    "pos_of ks k = length ks1" "sorted ks" "tree_ok w d h (lb lo ks1) (ub hi ks2) s"
    "lb lo ks1 \<le> uint k" "uint k < ub hi ks2"
    "lefts (tree_ok w d h) lo ks1 ts1" "rights (tree_ok w d h) hi ks2 ts2"
    "\<And>s' v. s' \<in> set ts1 \<union> set ts2 \<Longrightarrow> (k, v) \<notin> tset w s'"
proof -
  have sorted: "sorted ks" using kids_less [OF kids] tree_ok_less by blast
  define n where "n = pos_of ks k"
  have n: "n \<le> length ks" by (simp add: n_def pos_of_le)
  have len: "length ts = Suc (length ks)" by (rule kids_length [OF kids])
  define ks1 where "ks1 = take n ks"
  define ks2 where "ks2 = drop n ks"
  define ts1 where "ts1 = take n ts"
  define ts2 where "ts2 = drop (Suc n) ts"
  have ks: "ks = ks1 @ ks2" by (simp add: ks1_def ks2_def)
  have ts: "ts = ts1 @ ts ! n # ts2" using n len by (simp add: ts1_def ts2_def id_take_nth_drop [symmetric])
  have l1: "length ts1 = length ks1" "length ks1 = n" using n len by (simp_all add: ts1_def ks1_def)
  have mid: "lefts (tree_ok w d h) lo ks1 ts1 \<and> tree_ok w d h (lb lo ks1) (ub hi ks2) (ts ! n)
      \<and> rights (tree_ok w d h) hi ks2 ts2"
    using kids unfolding kids_mid [OF l1(1), symmetric] ks [symmetric] ts [symmetric] .
  have lbk: "lb lo ks1 \<le> uint k"
  proof (cases "ks1 = []")
    case False
    then have "last ks1 = ks ! (n - 1)" "n - 1 < n" using l1(2) n by (auto simp: ks1_def last_conv_nth)
    then have "last ks1 \<le> k" using pos_of_less [of "n - 1" ks k] by (simp add: n_def)
    then show ?thesis using False by (simp add: lb_def word_le_def)
  qed (use k in simp)
  have ubk: "uint k < ub hi ks2"
  proof (cases "ks2 = []")
    case False
    then have "hd ks2 = ks ! n" "n < length ks" using n by (auto simp: ks2_def hd_drop_conv_nth)
    then have "k < hd ks2" using pos_of_at [of ks k] by (simp add: n_def)
    then show ?thesis using False by (simp add: ub_def word_less_def)
  qed (use k in simp)
  have "(k, v) \<notin> tset w s'" if "s' \<in> set ts1 \<union> set ts2" for s' v
    using that lefts_tset [of w d h lo ks1 ts1 s' "(k, v)"] rights_tset [of w d h hi ks2 ts2 s' "(k, v)"] mid lbk ubk
    by auto
  then show thesis
    using that [OF ks ts l1(1) _ sorted _ lbk ubk] mid l1(2) by (simp add: n_def)
qed

section \<open>find\<close>

lemma leaf_dataD:
  assumes "leaf_data w a = Some m"
  obtains l m' where "leaf_view w a = Some (l, m')" "good_leaf l m'" "m = m'\<lparr>pNext := nullPPointer\<rparr>"
    "entries m = entries m'" "heap w a = Some (Leaf l)" "leaf_map m = leaf_map m'"
  using assms that leaf_viewD(1)
  by (fastforce simp: leaf_data_def entries_def used_slots_def leaf_map_def split: option.splits if_splits)

lemma heap_get_inner: "get_inner w a = Some x \<longleftrightarrow> heap w a = Some (Inner x)"
  by (auto simp: get_inner_def split: option.splits node.splits)

lemma tree_ok_addr:
  assumes "world_ok w" and "tree_ok w d h lo hi t"
  shows "gaddr t \<noteq> NULL"
proof -
  have "heap w (gaddr t) \<noteq> None"
    using assms(2) by (cases h) (auto elim: leaf_dataD simp: heap_get_inner)
  then show ?thesis using assms(1) by (cases "gaddr t") (auto simp: world_ok_def heap_ok_def)
qed

lemma aget_child:
  assumes "inner_rep x d ks (map gaddr (ts1 @ s # ts2))" and "p = int (length ts1)"
  shows "aget (childrens x) p = Some (gaddr s)"
  using assms by (auto simp: inner_rep_def aget_append_mid)

text \<open>The result of a search for \<open>k\<close> among the entries \<open>S\<close>.\<close>

definition finds :: "world \<Rightarrow> addr \<Rightarrow> u64 \<Rightarrow> (u64 \<times> u64) set \<Rightarrow> bool" where
  "finds w a k S \<longleftrightarrow> (\<exists>r. Node_find a k w = Some r \<and> (\<forall>v. (k, v) \<in> S \<longrightarrow> r = v) \<and> (k \<notin> fst ` S \<longrightarrow> r = MAX_VALUE))"

lemma find_kids:
  assumes ok: "world_ok w" and x: "get_inner w a = Some x" "inner_rep x d ks (map gaddr ts)"
    and kids: "kids (tree_ok w d h) lo hi ks ts" and k: "lo \<le> uint k" "uint k < hi"
    and IH: "\<forall>s\<in>set ts. \<forall>lo hi. tree_ok w d h lo hi s \<longrightarrow> lo \<le> uint k \<longrightarrow> uint k < hi \<longrightarrow> finds w (gaddr s) k (tset w s)"
  shows "finds w a k (\<Union>s\<in>set ts. tset w s)"
proof -
  obtain ks1 ks2 ts1 s ts2 where r: "ks = ks1 @ ks2" "ts = ts1 @ s # ts2" "length ts1 = length ks1"
    "pos_of ks k = length ks1" "sorted ks" "tree_ok w d h (lb lo ks1) (ub hi ks2) s"
    "lb lo ks1 \<le> uint k" "uint k < ub hi ks2"
    "\<And>s' v. s' \<in> set ts1 \<union> set ts2 \<Longrightarrow> (k, v) \<notin> tset w s'"
    by (rule route [OF kids k]) blast
  have "aget (childrens x) (int (length ks1)) = Some (gaddr s)"
    by (rule aget_child [of x d ks ts1 s ts2]) (use x r in auto)
  then have run: "Node_find a k w = Node_find (gaddr s) k w"
    using findIndex_spec [OF x(2) r(5)] r(4) x(1) tree_ok_addr [OF ok r(6)]
    by (subst Node_find.simps) (simp add: heap_get_inner)
  have in_s: "(k, v) \<in> (\<Union>s\<in>set ts. tset w s) \<longleftrightarrow> (k, v) \<in> tset w s" for v using r(9) by (auto simp: r(2))
  then have "k \<in> fst ` (\<Union>s\<in>set ts. tset w s) \<longleftrightarrow> k \<in> fst ` tset w s" by force
  moreover have "finds w (gaddr s) k (tset w s)" using IH r by auto
  ultimately show ?thesis unfolding finds_def run in_s by simp
qed

lemma Node_find_spec:
  assumes ok: "world_ok w"
  shows "tree_ok w d h lo hi t \<Longrightarrow> lo \<le> uint k \<Longrightarrow> uint k < hi \<Longrightarrow> finds w (gaddr t) k (tset w t)"
proof (induction h arbitrary: lo hi t)
  case 0
  then obtain a m where t: "t = GLeaf a" and m: "leaf_data w a = Some m" by auto
  obtain l m' where v: "leaf_view w a = Some (l, m')" "good_leaf l m'" "entries m = entries m'" "heap w a = Some (Leaf l)"
    by (rule leaf_dataD [OF m])
  have kd: "keys_distinct m'" using v(2) by (simp add: good_leaf_def)
  have "Node_find a k w = Some (case leaf_map m' k of None \<Rightarrow> MAX_VALUE | Some v \<Rightarrow> v)"
    using LeafNode_find_spec [OF v(1,2)] v(4) by (simp add: Node_find.simps)
  moreover have "leaf_map m' k = None" if "k \<notin> fst ` set (entries m)"
    using that v(3) by (simp add: leaf_map_None)
  ultimately show ?case
    using leaf_map_Some [OF kd, of k] v(3) m t by (simp add: leaf_set_def finds_def) (metis option.simps(5))
next
  case (Suc h)
  then obtain a ks ts x where t: "t = GNode a ks ts" and kids: "kids (tree_ok w d h) lo hi ks ts"
    and x: "get_inner w a = Some x" "inner_rep x d ks (map gaddr ts)" by auto
  from find_kids [OF ok x kids Suc.prems(2,3)] Suc.IH t show ?case by simp
qed

lemma tset_single_valued:
  assumes "world_ok w" and "tree_ok w d h lo hi t"
  shows "single_valued (tset w t)"
proof (rule single_valuedI)
  fix k v v' assume kv: "(k, v) \<in> tset w t" "(k, v') \<in> tset w t"
  then have "lo \<le> uint k" "uint k < hi" using tree_ok_tset [OF assms(2) kv(1)] by auto
  from Node_find_spec [OF assms this] kv show "v = v'" by (auto simp: finds_def)
qed

section \<open>Steps on inner nodes\<close>

text \<open>The leaves form doubly linked lists.\<close>

definition leaf_links :: "world \<Rightarrow> addr \<rightharpoonup> addr \<times> addr" where
  "leaf_links w a = map_option (\<lambda>(l, m). (prev l, next l)) (leaf_view w a)"

definition links_ok :: "world \<Rightarrow> bool" where
  "links_ok w \<longleftrightarrow> dll (leaf_links w)"

lemma leaf_links_view: "leaf_view w a = Some (l, m) \<Longrightarrow> leaf_links w a = Some (prev l, next l)"
  by (simp add: leaf_links_def)

lemma leaf_links_None: "leaf_links w a = None \<longleftrightarrow> leaf_view w a = None"
  by (simp add: leaf_links_def)

lemma links_ok_next: "links_ok w \<Longrightarrow> leaf_view w a = Some (l, m) \<Longrightarrow> next_ok w a l"
  using dll_next [of "leaf_links w" a "prev l" "next l"] by (auto simp: links_ok_def next_ok_def leaf_links_def)

lemma leaf_view_put_inner:
  assumes "\<And>l. heap w a \<noteq> Some (Leaf l)"
  shows "leaf_view (put_node a (Inner x) w) b = leaf_view w b"
proof (cases "b = a")
  case True
  then show ?thesis using assms
    by (auto simp: leaf_view_def get_leafnode_def split: option.splits node.splits)
qed (rule leaf_view_put_other)

lemma links_ok_cong: "(\<And>b. leaf_links w' b = leaf_links w b) \<Longrightarrow> links_ok w' = links_ok w"
  unfolding links_ok_def by presburger

lemma views_cong:
  assumes "\<And>b. leaf_view w' b = leaf_view w b"
  shows "leaf_data w' b = leaf_data w b" "views_inj w' = views_inj w" "links_ok w' = links_ok w"
  using assms links_ok_cong [of w' w] by (simp_all add: leaf_data_def views_inj_def leaf_links_def)

lemma put_inner_spec:
  assumes ok: "world_ok w" and a: "get_inner w a = Some x"
  shows "world_ok (put_node a (Inner y) w)" and "leaf_data (put_node a (Inner y) w) b = leaf_data w b"
    and "links_ok (put_node a (Inner y) w) = links_ok w"
    and "get_inner (put_node a (Inner y) w) b = (if b = a then Some y else get_inner w b)"
proof -
  have ha: "heap w a = Some (Inner x)" using a by (simp add: heap_get_inner)
  have v: "leaf_view (put_node a (Inner y) w) b = leaf_view w b" for b
    by (rule leaf_view_put_inner) (simp add: ha)
  note vc = views_cong [of "put_node a (Inner y) w" w, OF v]
  show "leaf_data (put_node a (Inner y) w) b = leaf_data w b" "links_ok (put_node a (Inner y) w) = links_ok w"
    using vc by simp_all
  show "get_inner (put_node a (Inner y) w) b = (if b = a then Some y else get_inner w b)"
    by (simp add: get_inner_def)
  have "heap_ok (put_node a (Inner y) w)" using ok ha by (simp add: world_ok_def heap_ok_put)
  moreover have "all_views (put_node a (Inner y) w)"
    using ok by (auto simp: world_ok_def all_views_def v)
  moreover have "alloc_ok (put_node a (Inner y) w)" using ok by (simp add: world_ok_def alloc_ok_def)
  ultimately show "world_ok (put_node a (Inner y) w)" using vc(2) ok by (simp add: world_ok_def)
qed

lemma alloc_inner_spec:
  assumes ok: "world_ok w" and al: "alloc (Inner y) w = (b, w')"
  shows "b = brk w" and "world_ok w'" and "leaf_data w' c = leaf_data w c" and "links_ok w' = links_ok w"
    and "get_inner w' c = (if c = b then Some y else get_inner w c)" and "brk w' = brk w + 1"
    and "root w' = root w" and "nv w' = nv w" and "tree_degree w' = tree_degree w" and "leaf_view w' c = leaf_view w c"
proof -
  have w': "w' = w\<lparr>heap := (heap w)(brk w \<mapsto> Inner y), brk := brk w + 1\<rparr>" and b: "b = brk w"
    using al by (auto simp: alloc_def)
  have hb: "heap w (brk w) = None" "0 < brk w" using ok by (simp_all add: world_ok_def heap_ok_def)
  have v: "leaf_view w' c = leaf_view w c" for c
  proof (cases "c = brk w")
    case True
    then show ?thesis using hb by (simp add: leaf_view_def get_leafnode_def w')
  next
    case False
    then show ?thesis by (intro leaf_view_cong) (simp_all add: w')
  qed
  note vc = views_cong [of w' w, OF v]
  show "leaf_view w' c = leaf_view w c" by (rule v)
  show "b = brk w" "brk w' = brk w + 1" "root w' = root w" "nv w' = nv w" "tree_degree w' = tree_degree w"
    using b by (simp_all add: w')
  show "leaf_data w' c = leaf_data w c" "links_ok w' = links_ok w" using vc by simp_all
  show "get_inner w' c = (if c = b then Some y else get_inner w c)" using b by (simp add: get_inner_def w')
  have "heap_ok w'" using ok hb by (auto simp: world_ok_def heap_ok_def w')
  moreover have "all_views w'" using ok by (simp add: world_ok_def all_views_def v) (simp add: w')
  moreover have "alloc_ok w'" using ok by (simp add: world_ok_def alloc_ok_def w')
  ultimately show "world_ok w'" using vc(2) ok by (simp add: world_ok_def)
qed

text \<open>The test of \<open>insertNonFull\<close> passes for every node of a tree, leaves included.\<close>

lemma nKeys_at_tree:
  assumes ok: "world_ok w" and t: "tree_ok w d h lo hi t" and d: "1 \<le> d"
  shows "\<exists>n. nKeys_at w (gaddr t) = Some n \<and> n \<noteq> 0"
proof (cases h)
  case 0
  then obtain a m where a: "t = GLeaf a" "leaf_data w a = Some m" using t by auto
  obtain l m' where v: "leaf_view w a = Some (l, m')" "heap w a = Some (Leaf l)" by (rule leaf_dataD [OF a(2)])
  obtain A where A: "palloc_inv A (dev (nv w))" "pPointer l \<in> used_set A (dev (nv w))"
    "getLeafPmemAddr A (pPointer l) = Some (pmem_addr l)"
    using leaf_viewD(5) [OF v(1)] ok by (auto simp: world_ok_def alloc_ok_def)
  have "ifLeafExist A (pPointer l)" using A(2) by (simp add: used_set_def)
  from getLeafPmemAddr_eq [OF A(1) this] A(3) have "take_bit 12 (pmem_addr l) \<noteq> 0" by simp
  moreover have "take_bit 12 (ucast (pmem_addr l) :: u32) = ucast (take_bit 12 (pmem_addr l))"
    by (rule bit_word_eqI) (auto simp: bit_take_bit_iff bit_unsigned_iff)
  moreover have "ucast (take_bit 12 (pmem_addr l)) = (0 :: u32) \<Longrightarrow> take_bit 12 (pmem_addr l) = 0"
  proof (rule bit_word_eqI)
    fix i assume z: "ucast (take_bit 12 (pmem_addr l)) = (0 :: u32)"
    have "bit (ucast (take_bit 12 (pmem_addr l)) :: u32) i \<longleftrightarrow> i < 32 \<and> bit (take_bit 12 (pmem_addr l)) i"
      by (auto simp: bit_unsigned_iff)
    with z show "bit (take_bit 12 (pmem_addr l)) i = bit 0 i" by (auto simp: bit_take_bit_iff)
  qed
  ultimately have "(ucast (pmem_addr l) :: u32) \<noteq> 0" by (metis take_bit_of_0)
  then have "sint (ucast (pmem_addr l) :: u32) \<noteq> 0" by (simp add: signed_eq_0_iff)
  then show ?thesis using a v(2) by (simp add: nKeys_at_def)
next
  case (Suc h')
  then obtain a ks ts x where "t = GNode a ks ts" "get_inner w a = Some x" "inner_rep x d ks (map gaddr ts)" "d \<le> length ks"
    using t by auto
  then show ?thesis using d by (auto simp: nKeys_at_def heap_get_inner inner_rep_def)
qed

lemma InnerNode_insertNonFull_spec:
  assumes ok: "world_ok w" and a: "get_inner w a = Some x" and rep: "inner_rep x d (ks1 @ ks2) (cs1 @ cs2)"
    and pos: "findIndex x k = Some (int (length ks1))"
    and len: "length cs1 = Suc (length ks1)" "length ks1 + length ks2 \<le> 2 * d" "length cs1 + length cs2 \<le> 2 * d + 1"
    and c: "c \<noteq> NULL" "nKeys_at w c = Some n" "n \<noteq> 0"
  obtains x' where "InnerNode_insertNonFull a k c w = Some (put_node a (Inner x') w)"
    "inner_rep x' d (ks1 @ k # ks2) (cs1 @ c # cs2)" "isRoot x' = isRoot x"
proof -
  obtain x' where "insert_entry x k c = Some x'" "inner_rep x' d (ks1 @ k # ks2) (cs1 @ c # cs2)" "isRoot x' = isRoot x"
    by (rule insert_entry_spec [OF rep pos len])
  then show thesis using that a c by (simp add: InnerNode_insertNonFull_def)
qed

lemma InnerNode_split_spec:
  assumes ok: "world_ok w" and a: "get_inner w a = Some x" and rep: "inner_rep x d ks cs"
    and len: "length ks = 2 * d + 1" "length cs = 2 * d + 2"
  obtains w' x' y where "InnerNode_split a w = Some (Some \<lparr>key = ks ! d, node = brk w\<rparr>, w')" "world_ok w'"
    "brk w' = brk w + 1" "root w' = root w" "nv w' = nv w" "tree_degree w' = tree_degree w" "links_ok w' = links_ok w"
    "\<And>b. leaf_data w' b = leaf_data w b"
    "\<And>b. get_inner w' b = (if b = a then Some x' else if b = brk w then Some y else get_inner w b)"
    "inner_rep x' d (take d ks) (take (d + 1) cs)" "inner_rep y d (drop (d + 1) ks) (drop (d + 1) cs)"
    "isRoot x' = isRoot x" "\<not> isRoot y"
proof -
  have dx: "degree x = int d" "nKeys x = 2 * int d + 1" using rep len by (auto simp: inner_rep_def)
  obtain new where new: "newInnerNode (int d) False = Some new" using newInnerNode_Some [OF inner_rep_degree [OF rep]] by blast
  obtain x' y where s: "split_halves x new = Some (ks ! d, x', y)" "inner_rep x' d (take d ks) (take (d + 1) cs)"
    "inner_rep y d (drop (d + 1) ks) (drop (d + 1) cs)" "isRoot x' = isRoot x" "\<not> isRoot y"
    by (rule split_halves_spec [OF rep len new])
  obtain b w1 where al: "alloc (Inner y) w = (b, w1)" by fastforce
  note al' = alloc_inner_spec [OF ok al]
  have ab: "a \<noteq> b" using a al'(1) ok by (auto simp: heap_get_inner world_ok_def heap_ok_def)
  have a1: "get_inner w1 a = Some x" using al'(5) [of a] a ab by simp
  note p = put_inner_spec [OF al'(2) a1, of x']
  have run: "InnerNode_split a w = Some (Some \<lparr>key = ks ! d, node = brk w\<rparr>, put_node a (Inner x') w1)"
    using a dx new s(1) al al'(1) by (simp add: InnerNode_split_def)
  show thesis
    by (rule that [where x' = x' and y = y, OF run p(1)]) (use al' p s ab in auto)
qed

end
