(* ===== verification/Tree_Insert.thy ===== *)
theory Tree_Insert
  imports Tree_Shape
begin

text \<open>
  Insertion into the subtrees: the entry goes into the leaf that the separator keys route it to, a
  full leaf or node is split, and the pair of the separator and the new node is handed to the
  parent, up to a new root.
\<close>


section \<open>What an insertion into a subtree leaves\<close>

text \<open>
  \<open>evolves S w w'\<close>: the step from \<open>w\<close> to \<open>w'\<close> keeps the world well-formed and touches no old node
  outside \<open>S\<close>. \<open>grown P w w' lo hi t e r\<close>: the subtree \<open>t\<close> with the entry \<open>e\<close> added is now the list
  of trees \<open>ts\<close>, one at the address of \<open>t\<close> and one for the \<open>KeyNode\<close> returned, if any.
\<close>

definition evolves :: "addr set \<Rightarrow> world \<Rightarrow> world \<Rightarrow> bool" where
  "evolves S w w' \<longleftrightarrow> world_ok w' \<and> links_ok w' \<and> tree_degree w' = tree_degree w
     \<and> brk w \<le> brk w' \<and> same_nodes ({..<brk w} - S) w w' \<and> (durable (dev (nv w)) \<longrightarrow> durable (dev (nv w')))"

definition news :: "KeyNode option \<Rightarrow> u64 list \<times> addr list" where
  "news r = (case r of None \<Rightarrow> ([], []) | Some kn \<Rightarrow> ([key kn], [node kn]))"

lemma news_simps [simp]: "news None = ([], [])" "news (Some kn) = ([key kn], [node kn])"
  by (simp_all add: news_def)

definition forest_of :: "world \<Rightarrow> gtree list \<Rightarrow> (u64 \<times> u64) set" where
  "forest_of w ts = (\<Union>t\<in>set ts. tset w t)"

lemma forest_of_simps [simp]:
  "forest_of w [] = {}" "forest_of w (t # ts) = tset w t \<union> forest_of w ts" "forest_of w (ts @ us) = forest_of w ts \<union> forest_of w us"
  by (auto simp: forest_of_def)

lemma tset_GNode: "tset w (GNode a ks ts) = forest_of w ts"
  by (simp add: forest_of_def)

definition addrs_of :: "gtree list \<Rightarrow> addr list" where
  "addrs_of ts = concat (map gaddrs ts)"

lemma addrs_of_simps [simp]:
  "addrs_of [] = []" "addrs_of (t # ts) = gaddrs t @ addrs_of ts" "addrs_of (ts @ us) = addrs_of ts @ addrs_of us"
  by (simp_all add: addrs_of_def)

lemma gaddrs_GNode: "gaddrs (GNode a ks ts) = a # addrs_of ts"
  by (simp add: addrs_of_def)

declare tset.simps(2) [simp del] gaddrs.simps(2) [simp del]

definition grown :: "nat \<Rightarrow> nat \<Rightarrow> world \<Rightarrow> world \<Rightarrow> int \<Rightarrow> int \<Rightarrow> gtree \<Rightarrow> u64 \<times> u64 \<Rightarrow> KeyNode option \<Rightarrow> bool" where
  "grown d h w w' lo hi t e r \<longleftrightarrow> (\<exists>ks ts. kids (tree_ok w' d h) lo hi ks ts \<and> news r = (ks, map gaddr (tl ts))
     \<and> gaddr (hd ts) = gaddr t \<and> forest_of w' ts = insert e (tset w t)
     \<and> distinct (addrs_of ts) \<and> set (addrs_of ts) \<subseteq> set (gaddrs t) \<union> {brk w..<brk w'})"

lemma evolves_trans:
  assumes "evolves S w w1" and "evolves T w1 w2" and "T \<subseteq> S \<union> {brk w..}"
  shows "evolves S w w2"
proof -
  have "brk w \<le> brk w1" "same_nodes ({..<brk w1} - T) w1 w2" using assms(1,2) by (simp_all add: evolves_def)
  moreover from this(1) have "{..<brk w} - S \<subseteq> {..<brk w1} - T" using assms(3) by auto
  ultimately have "same_nodes ({..<brk w} - S) w1 w2" by (blast intro: same_nodes_subset)
  moreover have "same_nodes ({..<brk w} - S) w w1" using assms(1) by (simp add: evolves_def)
  ultimately have "same_nodes ({..<brk w} - S) w w2" by (rule same_nodes_trans [rotated])
  with assms(1,2) show ?thesis by (simp add: evolves_def)
qed

lemma evolves_mono: "evolves S w w' \<Longrightarrow> S \<subseteq> T \<Longrightarrow> evolves T w w'"
  by (auto simp: evolves_def intro: same_nodes_subset)

lemma gaddr_in: "gaddr t \<in> set (gaddrs t)"
  by (cases t) (simp_all add: gaddrs_GNode)

lemma kids_all: "kids P lo hi ks ts \<Longrightarrow> s \<in> set ts \<Longrightarrow> \<exists>lo hi. P lo hi s"
  by (induction P lo hi ks ts rule: kids.induct) auto

lemma heap_brk: "world_ok w \<Longrightarrow> heap w a \<noteq> None \<Longrightarrow> a < brk w"
  by (meson heap_ok_def not_le world_ok_def)

text \<open>Every node of a tree is in the allocated part of the heap.\<close>

lemma tree_ok_brk:
  assumes "world_ok w"
  shows "tree_ok w d h lo hi t \<Longrightarrow> set (gaddrs t) \<subseteq> {..<brk w}"
proof (induction h arbitrary: lo hi t)
  note used = heap_brk [OF assms]
  {
    case 0
    then show ?case using used by (auto elim!: leaf_dataD)
  next
    case (Suc h)
    then obtain a ks ts x where t: "t = GNode a ks ts" and kids: "kids (tree_ok w d h) lo hi ks ts"
      and x: "get_inner w a = Some x" by auto
    have "\<forall>s\<in>set ts. set (gaddrs s) \<subseteq> {..<brk w}" using kids_all [OF kids] Suc.IH by meson
    then show ?case using t x used [of a] by (auto simp: heap_get_inner gaddrs_GNode addrs_of_def)
  }
qed

section \<open>Insertion into a leaf of the tree\<close>

lemma leaf_dataI:
  "leaf_view w a = Some (l, m) \<Longrightarrow> good_leaf l m \<Longrightarrow>
    \<exists>m'. leaf_data w a = Some m' \<and> set (entries m') = set (entries m)"
  by (auto simp: leaf_data_def entries_def used_slots_def)

lemma leaf_data_view: "leaf_view w' c = leaf_view w c \<Longrightarrow> leaf_data w' c = leaf_data w c"
  by (simp add: leaf_data_def)

lemma good_leaf_prev [simp]: "good_leaf (l\<lparr>prev := p\<rparr>) m = good_leaf l m"
  by (simp add: good_leaf_def)

lemma leaf_data_relink:
  "leaf_view w' c = (if b then map_option (\<lambda>(x, mx). (x\<lparr>prev := p\<rparr>, mx)) (leaf_view w c) else leaf_view w c) \<Longrightarrow>
    leaf_data w' c = leaf_data w c"
  by (auto simp: leaf_data_def split: option.splits if_splits)

lemma insert_leaf_case:
  assumes E: "libpmem_ok E" and ok: "world_ok w" "links_ok w" and t: "tree_ok w d 0 lo hi t"
    and k: "lo \<le> uint k" "uint k < hi" "k \<notin> fst ` tset w t"
    and A: "allocator (nv w) = Some A" "disk_ok E A"
  obtains r w' where "Node_insert E (gaddr t) k v w = Some (r, w')" "evolves (set (gaddrs t)) w w'"
    "root w' = root w" "grown d 0 w w' lo hi t (k, v) r"
proof -
  obtain a m where a: "t = GLeaf a" "leaf_data w a = Some m"
    "\<forall>e\<in>set (entries m). lo \<le> uint (fst e) \<and> uint (fst e) < hi" using t by auto
  obtain l m0 where v: "leaf_view w a = Some (l, m0)" "good_leaf l m0" "entries m = entries m0"
    "heap w a = Some (Leaf l)" by (rule leaf_dataD [OF a(2)])
  have kd: "keys_distinct m0" using v(2) by (simp add: good_leaf_def)
  have ts: "tset w t = set (entries m0)" using a v by (simp add: leaf_set_def)
  have fresh: "leaf_map m0 k = None" using k(3) by (simp add: leaf_map_None ts)
  have nx: "next_ok w a l" by (rule links_ok_next [OF ok(2) v(1)])
  have run: "Node_insert E (gaddr t) k v w = LeafNode_insert E a k v w"
    using a v(4) by (subst Node_insert.simps) simp
  have bnd: "\<forall>e\<in>insert (k, v) (set (entries m0)). lo \<le> uint (fst e) \<and> uint (fst e) < hi"
    using a(3) v(3) k(1,2) by simp
  show thesis
  proof (cases rule: LeafNode_insert_spec [OF E ok(1) v(1,2) fresh nx A, of v, case_names keep split])
    case (keep w' l' m')
    have "leaf_links w' c = leaf_links w c" for c using keep(7,9) v(1) by (simp add: leaf_links_def)
    then have "links_ok w'" using links_ok_cong ok(2) by blast
    moreover have "same_nodes ({..<brk w} - {a}) w w'"
      using keep(6,7) by (auto simp: same_nodes_def intro!: leaf_data_view split: if_splits)
    ultimately have "evolves (set (gaddrs t)) w w'"
      using keep a by (auto simp: evolves_def)
    moreover obtain m1 where m1: "leaf_data w' a = Some m1" "set (entries m1) = set (entries m')"
      using leaf_dataI keep(7,8) by (metis (full_types))
    have "grown d 0 w w' lo hi t (k, v) None"
      unfolding grown_def
      by (rule exI [of _ "[]"], rule exI [of _ "[t]"])
        (use a m1 keep(11) bnd t in \<open>simp add: leaf_set_def v(3)\<close>)
    ultimately show thesis using that keep(1,4) run by simp
  next
    case (split mid w' b nl l' hi' lo' A')
    have ab: "a \<noteq> b" using v(4) split(3) ok(1) by (auto simp: world_ok_def heap_ok_def)
    have hb: "leaf_view w b = None" "b \<noteq> NULL"
      using split(3) ok(1) by (auto simp: leaf_view_def get_leafnode_def world_ok_def heap_ok_def)
    have "leaf_links w' = link_after a b (leaf_links w)"
    proof
      fix c
      show "leaf_links w' c = link_after a b (leaf_links w) c"
        using split(8-12) split(13) [of c] v(1) ab
        by (cases "leaf_view w c") (auto simp: leaf_links_def link_after_def)
    qed
    moreover have "dll (link_after a b (leaf_links w))"
      by (rule dll_after) (use ok(2) v(1) hb in \<open>auto simp: links_ok_def leaf_links_def\<close>)
    ultimately have "links_ok w'" by (simp add: links_ok_def)
    moreover have "same_nodes ({..<brk w} - {a}) w w'"
      using split(3,7) by (auto simp: same_nodes_def intro!: leaf_data_relink split(13))
    ultimately have ev: "evolves (set (gaddrs t)) w w'"
      using split a by (auto simp: evolves_def)
    obtain m1 where m1: "leaf_data w' a = Some m1" "set (entries m1) = set (entries lo')"
      using leaf_dataI [OF split(8,14)] by blast
    obtain m2 where m2: "leaf_data w' b = Some m2" "set (entries m2) = set (entries hi')"
      using leaf_dataI [OF split(10,15)] by blast
    have "set (entries lo') \<noteq> {}" using split(20) by auto
    then obtain e where "e \<in> set (entries lo')" by (meson ex_in_conv)
    then have "e \<in> insert (k, v) (set (entries m0))" "fst e < mid" unfolding split(17) by blast+
    then have lt: "lo < uint mid" using bnd by (fastforce simp: word_less_def)
    have gt: "uint mid < hi" using split(16,18) bnd by fastforce
    have "grown d 0 w w' lo hi t (k, v) (Some \<lparr>key = mid, node = b\<rparr>)"
      unfolding grown_def
    proof (rule exI [of _ "[mid]"], rule exI [of _ "[t, GLeaf b]"], intro conjI)
      show "kids (tree_ok w' d 0) lo hi [mid] [t, GLeaf b]"
        using a m1 m2 split(16,17) bnd lt gt by (auto simp: word_less_def word_le_def)
      show "forest_of w' [t, GLeaf b] = insert (k, v) (tset w t)"
        using a m1 m2 split(16,17) ts by (auto simp: leaf_set_def)
    qed (use a ab split(3,4) in auto)
    then show thesis using that ev split(1,5) run by simp
  qed
qed

section \<open>The step on an inner node\<close>

lemma kids_strict: "kids P lo hi ks ts \<Longrightarrow> (\<And>lo hi t. P lo hi t \<Longrightarrow> lo < hi) \<Longrightarrow> sorted_wrt (<) ks"
proof (induction P lo hi ks ts rule: kids.induct)
  case (2 P lo hi k ks t ts)
  then have "\<forall>k'\<in>set ks. uint k < uint k'" using kids_less [of P "uint k" hi ks ts] by auto
  with 2 show ?case by (auto simp: word_less_def)
qed auto

lemma kids_subst:
  assumes "lefts P lo ks1 ts1" and "kids P (lb lo ks1) (ub hi ks2) ks' ts'" and "rights P hi ks2 ts2"
  shows "kids P lo hi (ks1 @ ks' @ ks2) (ts1 @ ts' @ ts2)"
proof -
  have "kids P lo (ub hi ks2) ks' ts' \<Longrightarrow> kids P lo hi (ks' @ ks2) (ts' @ ts2)" for lo
    using assms(3)
  proof (induction P lo "ub hi ks2" ks' ts' rule: kids.induct)
    case (1 P lo t)
    then show ?case using kids_rights [of P lo hi ks2 t ts2] by simp
  qed auto
  with assms(1,2) show ?thesis
    by (induction P lo ks1 ts1 rule: lefts.induct) auto
qed

lemma lefts_all: "lefts P lo ks ts \<Longrightarrow> s \<in> set ts \<Longrightarrow> \<exists>lo hi. P lo hi s"
  by (induction P lo ks ts rule: lefts.induct) auto

lemma rights_all: "rights P hi ks ts \<Longrightarrow> s \<in> set ts \<Longrightarrow> \<exists>lo hi. P lo hi s"
  by (induction P hi ks ts rule: rights.induct) auto

lemma addrs_of_subset: "s \<in> set ts \<Longrightarrow> set (gaddrs s) \<subseteq> set (addrs_of ts)"
  by (auto simp: addrs_of_def)

lemma forest_frame:
  assumes "\<And>s. s \<in> set ts \<Longrightarrow> \<exists>lo hi. tree_ok w d h lo hi s" and "same_nodes (set (addrs_of ts)) w w'"
  shows "forest_of w' ts = forest_of w ts"
proof -
  have "tset w' s = tset w s" if s: "s \<in> set ts" for s
    using assms(1) [OF s] tree_ok_frame same_nodes_subset [OF assms(2) addrs_of_subset [OF s]] by blast
  then show ?thesis by (simp add: forest_of_def)
qed

lemma kids_frame:
  assumes "kids (tree_ok w d h) lo hi ks ts" and "same_nodes (set (addrs_of ts)) w w'"
  shows "kids (tree_ok w' d h) lo hi ks ts" and "forest_of w' ts = forest_of w ts"
proof -
  show "kids (tree_ok w' d h) lo hi ks ts"
    using tree_ok_frame same_nodes_subset [OF assms(2) addrs_of_subset] by (blast intro: kids_mono [OF assms(1)])
  show "forest_of w' ts = forest_of w ts" using kids_all [OF assms(1)] assms(2) by (rule forest_frame)
qed

lemma new_disjoint: "(X :: nat set) \<subseteq> S \<union> {b..<c} \<Longrightarrow> Y \<subseteq> {..<b} \<Longrightarrow> S \<inter> Y = {} \<Longrightarrow> X \<inter> Y = {} \<and> Y \<inter> X = {}"
  by fastforce

lemma addrs_of_brk:
  "world_ok w \<Longrightarrow> (\<And>s. s \<in> set ts \<Longrightarrow> \<exists>lo hi. tree_ok w d h lo hi s) \<Longrightarrow> set (addrs_of ts) \<subseteq> {..<brk w}"
  using tree_ok_brk by (fastforce simp: addrs_of_def)

text \<open>A step below one child leaves the other children as they are.\<close>

lemma others_frame:
  assumes ok: "world_ok w" and kids: "lefts (tree_ok w d h) lo ks1 ts1" "rights (tree_ok w d h) hi ks2 ts2"
    and ev: "evolves (set (gaddrs s)) w w1" and dis: "distinct (addrs_of (ts1 @ s # ts2))"
  shows "lefts (tree_ok w1 d h) lo ks1 ts1" and "rights (tree_ok w1 d h) hi ks2 ts2"
    and "forest_of w1 ts1 = forest_of w ts1" and "forest_of w1 ts2 = forest_of w ts2"
    and "set (addrs_of ts1) \<subseteq> {..<brk w}" and "set (addrs_of ts2) \<subseteq> {..<brk w}"
proof -
  note all = lefts_all [OF kids(1)] rights_all [OF kids(2)]
  show old: "set (addrs_of ts1) \<subseteq> {..<brk w}" "set (addrs_of ts2) \<subseteq> {..<brk w}"
    using all by (auto intro!: addrs_of_brk [OF ok] simp del: lessThan_iff)
  have same: "same_nodes ({..<brk w} - set (gaddrs s)) w w1" using ev by (simp add: evolves_def)
  have fr: "same_nodes (set (addrs_of ts1)) w w1" "same_nodes (set (addrs_of ts2)) w w1"
    using old dis by (auto intro!: same_nodes_subset [OF same])
  show "lefts (tree_ok w1 d h) lo ks1 ts1"
    using tree_ok_frame same_nodes_subset [OF fr(1) addrs_of_subset] by (blast intro: lefts_mono [OF kids(1)])
  show "rights (tree_ok w1 d h) hi ks2 ts2"
    using tree_ok_frame same_nodes_subset [OF fr(2) addrs_of_subset] by (blast intro: rights_mono [OF kids(2)])
  show "forest_of w1 ts1 = forest_of w ts1" "forest_of w1 ts2 = forest_of w ts2"
    using forest_frame [OF all(1) fr(1)] forest_frame [OF all(2) fr(2)] by blast+
qed

text \<open>
  The children of a node after a step below one of them: the trees \<open>ts'\<close> stand for \<open>s\<close>, with the entries
  \<open>F\<close> and the nodes \<open>N\<close> added.
\<close>

lemma child_replaced:
  assumes ok: "world_ok w" and l: "length ts1 = length ks1"
    and kids: "lefts (tree_ok w d h) lo ks1 ts1" "rights (tree_ok w d h) hi ks2 ts2"
    and dis: "distinct (a # addrs_of (ts1 @ s # ts2))" and a: "a < brk w"
    and ev: "evolves (set (gaddrs s)) w w1" and g: "kids (tree_ok w1 d h) (lb lo ks1) (ub hi ks2) ks' ts'"
    and s: "forest_of w1 ts' = F \<union> tset w s" "distinct (addrs_of ts')" "set (addrs_of ts') \<subseteq> set (gaddrs s) \<union> N \<union> {brk w..<brk w1}"
    and N: "N \<subseteq> {..<brk w}" "N \<inter> set (a # addrs_of (ts1 @ s # ts2)) = {}"
  shows "kids (tree_ok w1 d h) lo hi (ks1 @ ks' @ ks2) (ts1 @ ts' @ ts2)"
    and "forest_of w1 (ts1 @ ts' @ ts2) = F \<union> forest_of w (ts1 @ s # ts2)"
    and "distinct (a # addrs_of (ts1 @ ts' @ ts2))"
    and "set (addrs_of (ts1 @ ts' @ ts2)) \<subseteq> set (addrs_of (ts1 @ s # ts2)) \<union> N \<union> {brk w..<brk w1}"
    and "get_inner w1 a = get_inner w a"
proof -
  have dis': "distinct (addrs_of (ts1 @ s # ts2))" using dis by simp
  note f = others_frame [OF ok kids ev dis'] and old = others_frame(5,6) [OF ok kids ev dis']
  show "kids (tree_ok w1 d h) lo hi (ks1 @ ks' @ ks2) (ts1 @ ts' @ ts2)"
    by (intro kids_subst g f(1,2))
  have di: "set (addrs_of ts') \<inter> set (addrs_of ts1) = {} \<and> set (addrs_of ts1) \<inter> set (addrs_of ts') = {}"
    "set (addrs_of ts') \<inter> set (addrs_of ts2) = {} \<and> set (addrs_of ts2) \<inter> set (addrs_of ts') = {}"
    using dis N by (auto intro!: new_disjoint [OF s(3) old(1)] new_disjoint [OF s(3) old(2)])
  show "get_inner w1 a = get_inner w a"
    using ev a dis by (auto simp: evolves_def same_nodes_def)
  show "forest_of w1 (ts1 @ ts' @ ts2) = F \<union> forest_of w (ts1 @ s # ts2)" using f(3,4) s(1) by auto
  have "a \<notin> set (addrs_of ts')" using s(3) dis a N(2) by auto
  then show "distinct (a # addrs_of (ts1 @ ts' @ ts2))" using s(2) dis di by auto
  show "set (addrs_of (ts1 @ ts' @ ts2)) \<subseteq> set (addrs_of (ts1 @ s # ts2)) \<union> N \<union> {brk w..<brk w1}" using s(3) by auto
qed

text \<open>The children of a node after the insertion into one of them.\<close>

lemma child_grown:
  assumes ok: "world_ok w" and l: "length ts1 = length ks1"
    and kids: "lefts (tree_ok w d h) lo ks1 ts1" "tree_ok w d h (lb lo ks1) (ub hi ks2) s" "rights (tree_ok w d h) hi ks2 ts2"
    and dis: "distinct (a # addrs_of (ts1 @ s # ts2))" and a: "a < brk w"
    and ev: "evolves (set (gaddrs s)) w w1" and g: "grown d h w w1 (lb lo ks1) (ub hi ks2) s e r"
  obtains ks' ts' where "kids (tree_ok w1 d h) lo hi (ks1 @ ks' @ ks2) (ts1 @ ts' @ ts2)"
    "news r = (ks', map gaddr (tl ts'))" "gaddr (hd ts') = gaddr s" "length ts' = Suc (length ks')"
    "forest_of w1 (ts1 @ ts' @ ts2) = insert e (forest_of w (ts1 @ s # ts2))"
    "distinct (a # addrs_of (ts1 @ ts' @ ts2))"
    "set (addrs_of (ts1 @ ts' @ ts2)) \<subseteq> set (addrs_of (ts1 @ s # ts2)) \<union> {brk w..<brk w1}"
    "get_inner w1 a = get_inner w a"
proof -
  obtain ks' ts' where g': "kids (tree_ok w1 d h) (lb lo ks1) (ub hi ks2) ks' ts'" "news r = (ks', map gaddr (tl ts'))"
    "gaddr (hd ts') = gaddr s" "forest_of w1 ts' = {e} \<union> tset w s" "distinct (addrs_of ts')"
    "set (addrs_of ts') \<subseteq> set (gaddrs s) \<union> {} \<union> {brk w..<brk w1}"
    using g by (auto simp: grown_def)
  note c = child_replaced [OF ok l kids(1,3) dis a ev g'(1,4-6)]
  show thesis by (rule that [OF _ g'(2,3) kids_length [OF g'(1)]]) (use c in simp_all)
qed

text \<open>Putting the new child into the node, and splitting the node if it is overfull.\<close>

lemma evolves_inner:
  assumes "world_ok w" and "links_ok w" and "get_inner w a = Some x"
  shows "evolves {a} w (put_node a (Inner y) w)"
  using assms put_inner_spec [OF assms(1,3), of y] by (auto simp: evolves_def same_nodes_def)

lemma pos_of_sep:
  "sorted_wrt (<) (ks1 @ k # ks2) \<Longrightarrow> pos_of (ks1 @ ks2) k = length ks1 \<and> sorted (ks1 @ ks2)"
  by (cases ks2) (auto simp: pos_of_def sorted_wrt_append takeWhile_append2 less_imp_le takeWhile_eq_all_conv [THEN iffD2]
      intro: strict_sorted_imp_sorted order.strict_trans)

lemma take_newChild_spec:
  assumes ok: "world_ok w" "links_ok w" and x: "get_inner w a = Some x" "inner_rep x d (ks1 @ ks2) (map gaddr (ts1 @ s # ts2))"
    and l: "length ts1 = length ks1" "length (ks1 @ ks2) \<le> 2 * d" "length ts' = Suc (length ks')" and d: "1 \<le> d"
    and kids: "kids (tree_ok w d h) lo hi (ks1 @ ks' @ ks2) (ts1 @ ts' @ ts2)"
    and r: "news r = (ks', map gaddr (tl ts'))" "gaddr (hd ts') = gaddr s"
  obtains (fits) w' x' where "take_newChild a r w = Some (None, w')" "evolves {a} w w'" "root w' = root w" "brk w' = brk w"
      "get_inner w' a = Some x'" "isRoot x' = isRoot x" "length (ks1 @ ks' @ ks2) \<le> 2 * d"
      "inner_rep x' d (ks1 @ ks' @ ks2) (map gaddr (ts1 @ ts' @ ts2))"
  | (splits) w' x' y where
      "take_newChild a r w = Some (Some \<lparr>key = (ks1 @ ks' @ ks2) ! d, node = brk w\<rparr>, w')"
      "evolves {a} w w'" "root w' = root w" "brk w' = brk w + 1" "length (ks1 @ ks' @ ks2) = 2 * d + 1"
      "get_inner w' a = Some x'" "isRoot x' = isRoot x" "get_inner w' (brk w) = Some y" "\<not> isRoot y"
      "inner_rep x' d (take d (ks1 @ ks' @ ks2)) (take (d + 1) (map gaddr (ts1 @ ts' @ ts2)))"
      "inner_rep y d (drop (d + 1) (ks1 @ ks' @ ks2)) (drop (d + 1) (map gaddr (ts1 @ ts' @ ts2)))"
proof (cases r)
  case None
  then have "ks' = []" "length ts' = 1" using r l by auto
  moreover from this obtain t' where "ts' = [t']" by (cases ts') auto
  moreover from ok have "evolves {a} w w" by (simp add: evolves_def same_nodes_def)
  ultimately show thesis using None r x l by (intro fits [of w x]) (simp_all add: take_newChild_def)
next
  case (Some kn)
  then have ks': "ks' = [key kn]" "length ts' = 2" using r l by auto
  then obtain t1 t2 where ts': "ts' = [t1, t2]" by (cases ts'; cases "tl ts'") auto
  have t2: "gaddr t2 = node kn" "gaddr t1 = gaddr s" using r Some ts' by auto
  have "sorted_wrt (<) (ks1 @ key kn # ks2)" using kids_strict [OF kids] tree_ok_less ks' by auto
  note srt = pos_of_sep [OF this]
  have lk: "length ts1 + length ts2 = length ks1 + length ks2" using kids_length [OF kids] ks' ts' by simp
  obtain lo' hi' where t2ok: "tree_ok w d h lo' hi' t2" using kids_all [OF kids, of t2] ts' by auto
  obtain n where n: "nKeys_at w (node kn) = Some n" "n \<noteq> 0" using nKeys_at_tree [OF ok(1) t2ok d] t2 by auto
  have pos: "findIndex x (key kn) = Some (int (length ks1))"
    using findIndex_spec [OF x(2)] srt by simp
  have rep: "inner_rep x d (ks1 @ ks2) (map gaddr (ts1 @ [s]) @ map gaddr ts2)" using x(2) by simp
  obtain x1 where x1: "InnerNode_insertNonFull a (key kn) (node kn) w = Some (put_node a (Inner x1) w)"
    "inner_rep x1 d (ks1 @ key kn # ks2) (map gaddr (ts1 @ [s]) @ node kn # map gaddr ts2)" "isRoot x1 = isRoot x"
    by (rule InnerNode_insertNonFull_spec [OF ok(1) x(1) rep pos])
      (use l lk n tree_ok_addr [OF ok(1) t2ok] t2 in auto)
  let ?w1 = "put_node a (Inner x1) w"
  note p = put_inner_spec [OF ok(1) x(1), of x1]
  have g1: "get_inner ?w1 a = Some x1" by (simp add: p(4))
  have ev: "evolves {a} w ?w1" by (rule evolves_inner [OF ok x(1)])
  have rep1: "inner_rep x1 d (ks1 @ ks' @ ks2) (map gaddr (ts1 @ ts' @ ts2))" using x1(2) ks' ts' t2 by simp
  have deg: "degree x1 = int d" "nKeys x1 = int (length (ks1 @ ks' @ ks2))" using rep1 by (simp_all add: inner_rep_def)
  have len: "length (ks1 @ ks' @ ks2) = Suc (length (ks1 @ ks2))" using ks' by simp
  show thesis
  proof (cases "length (ks1 @ ks' @ ks2) \<le> 2 * d")
    case True
    then have "take_newChild a r w = Some (None, ?w1)"
      using Some x1(1) g1 deg by (simp add: take_newChild_def)
    then show thesis using True by (intro fits [OF _ ev _ _ g1 x1(3) _ rep1]) simp_all
  next
    case False
    with l(2) len have full: "length (ks1 @ ks' @ ks2) = 2 * d + 1" by simp
    then have fullc: "length (map gaddr (ts1 @ ts' @ ts2)) = 2 * d + 2" using kids_length [OF kids] by simp
    obtain w' x' y where sp: "InnerNode_split a ?w1 = Some (Some \<lparr>key = (ks1 @ ks' @ ks2) ! d, node = brk ?w1\<rparr>, w')" "world_ok w'"
      "brk w' = brk ?w1 + 1" "root w' = root ?w1" "nv w' = nv ?w1" "tree_degree w' = tree_degree ?w1" "links_ok w' = links_ok ?w1"
      "\<And>b. leaf_data w' b = leaf_data ?w1 b"
      "\<And>b. get_inner w' b = (if b = a then Some x' else if b = brk ?w1 then Some y else get_inner ?w1 b)"
      "inner_rep x' d (take d (ks1 @ ks' @ ks2)) (take (d + 1) (map gaddr (ts1 @ ts' @ ts2)))"
      "inner_rep y d (drop (d + 1) (ks1 @ ks' @ ks2)) (drop (d + 1) (map gaddr (ts1 @ ts' @ ts2)))"
      "isRoot x' = isRoot x1" "\<not> isRoot y"
      by (rule InnerNode_split_spec [OF p(1) g1 rep1 full fullc]) blast
    have ab: "a \<noteq> brk w" using x(1) ok(1) by (auto simp: heap_get_inner world_ok_def heap_ok_def)
    have "take_newChild a r w = Some (Some \<lparr>key = (ks1 @ ks' @ ks2) ! d, node = brk w\<rparr>, w')"
      using Some x1(1) g1 deg False sp(1) by (simp add: take_newChild_def)
    moreover have "evolves {a} w w'"
      using sp(2-9) p(3,4) ok by (auto simp: evolves_def same_nodes_def p(2))
    ultimately show thesis
      using sp full x1(3) ab by (intro splits [of w' x' y]) simp_all
  qed
qed

text \<open>The same with the subtrees: they are all below the node, or distributed over the two halves.\<close>

lemma newChild_kids:
  assumes ok: "world_ok w" "links_ok w" and x: "get_inner w a = Some x" "inner_rep x d (ks1 @ ks2) (map gaddr (ts1 @ s # ts2))"
    and l: "length ts1 = length ks1" "length (ks1 @ ks2) \<le> 2 * d" "length ts' = Suc (length ks')" and d: "1 \<le> d"
    and kids: "kids (tree_ok w d h) lo hi (ks1 @ ks' @ ks2) (ts1 @ ts' @ ts2)"
    and r: "news r = (ks', map gaddr (tl ts'))" "gaddr (hd ts') = gaddr s"
    and dis: "distinct (a # addrs_of (ts1 @ ts' @ ts2))"
  obtains (fits) w' x' where "take_newChild a r w = Some (None, w')" "evolves {a} w w'" "root w' = root w" "brk w' = brk w"
      "get_inner w' a = Some x'" "isRoot x' = isRoot x" "inner_rep x' d (ks1 @ ks' @ ks2) (map gaddr (ts1 @ ts' @ ts2))"
      "length (ks1 @ ks' @ ks2) \<le> 2 * d" "kids (tree_ok w' d h) lo hi (ks1 @ ks' @ ks2) (ts1 @ ts' @ ts2)"
      "forest_of w' (ts1 @ ts' @ ts2) = forest_of w (ts1 @ ts' @ ts2)"
  | (splits) w' x' y kn k1 t1 k2 t2 where "take_newChild a r w = Some (Some kn, w')" "evolves {a} w w'" "root w' = root w"
      "brk w' = brk w + 1" "get_inner w' a = Some x'" "isRoot x' = isRoot x" "inner_rep x' d k1 (map gaddr t1)"
      "get_inner w' (node kn) = Some y" "\<not> isRoot y" "inner_rep y d k2 (map gaddr t2)"
      "length k1 = d" "length k2 = d" "kids (tree_ok w' d h) lo (uint (key kn)) k1 t1"
      "kids (tree_ok w' d h) (uint (key kn)) hi k2 t2"
      "forest_of w' t1 \<union> forest_of w' t2 = forest_of w (ts1 @ ts' @ ts2)"
      "distinct (a # addrs_of t1 @ node kn # addrs_of t2)"
      "set (addrs_of t1 @ node kn # addrs_of t2) \<subseteq> insert (brk w) (set (addrs_of (ts1 @ ts' @ ts2)))"
proof -
  define KS where "KS = ks1 @ ks' @ ks2"
  define TS where "TS = ts1 @ ts' @ ts2"
  note kids' = kids [folded KS_def TS_def] and dis' = dis [folded TS_def]
  have a: "a < brk w" using x(1) by (intro heap_brk [OF ok(1)]) (simp add: heap_get_inner)
  have old: "set (addrs_of TS) \<subseteq> {..<brk w}"
    by (rule addrs_of_brk [OF ok(1)]) (rule kids_all [OF kids'])
  have fr: "kids (tree_ok w' d h) lo hi KS TS" "forest_of w' TS = forest_of w TS" if ev: "evolves {a} w w'" for w'
  proof -
    have "same_nodes (set (addrs_of TS)) w w'"
      using ev old dis' by (auto simp: evolves_def intro!: same_nodes_subset [of "{..<brk w} - {a}"])
    then show "kids (tree_ok w' d h) lo hi KS TS" "forest_of w' TS = forest_of w TS"
      using kids_frame [OF kids'] by simp_all
  qed
  show thesis
  proof (cases rule: take_newChild_spec [OF ok x l d kids r, folded KS_def TS_def, case_names fits splits])
    case f: (fits w' x')
    show thesis
      by (rule fits [folded KS_def TS_def, OF f(1-6,8,7) fr [OF f(2)]])
  next
    case f: (splits w' x' y)
    have lt: "length TS = 2 * d + 2" using kids_length [OF kids'] f(5) by simp
    let ?k1 = "take d KS" and ?k2 = "drop (d + 1) KS" and ?t1 = "take (d + 1) TS" and ?t2 = "drop (d + 1) TS"
    have ks: "KS = ?k1 @ KS ! d # ?k2" using f(5) by (simp add: id_take_nth_drop [symmetric])
    have "kids (tree_ok w' d h) lo hi (?k1 @ KS ! d # ?k2) (?t1 @ ?t2)"
      using fr(1) [OF f(2)] by (simp only: ks [symmetric] append_take_drop_id)
    moreover have "length ?t1 = Suc (length ?k1)" using f(5) lt by simp
    ultimately have kk: "kids (tree_ok w' d h) lo (uint (KS ! d)) ?k1 ?t1 \<and> kids (tree_ok w' d h) (uint (KS ! d)) hi ?k2 ?t2"
      by (simp only: kids_append)
    have ad: "addrs_of ?t1 @ addrs_of ?t2 = addrs_of TS"
      by (metis addrs_of_simps(3) append_take_drop_id)
    have "forest_of w' ?t1 \<union> forest_of w' ?t2 = forest_of w' TS"
      by (metis forest_of_simps(3) append_take_drop_id)
    moreover have "distinct (addrs_of ?t1 @ addrs_of ?t2)" "a \<notin> set (addrs_of ?t1 @ addrs_of ?t2)"
      "brk w \<notin> set (addrs_of ?t1 @ addrs_of ?t2)" "set (addrs_of ?t1 @ addrs_of ?t2) = set (addrs_of TS)"
      using dis' old unfolding ad by auto
    ultimately have fin: "forest_of w' ?t1 \<union> forest_of w' ?t2 = forest_of w TS"
      "distinct (a # addrs_of ?t1 @ brk w # addrs_of ?t2)"
      "set (addrs_of ?t1 @ brk w # addrs_of ?t2) \<subseteq> insert (brk w) (set (addrs_of TS))"
      using fr(2) [OF f(2)] a by auto
    show thesis
    proof (rule splits [folded KS_def TS_def, where ?k1.0 = ?k1 and ?t1.0 = ?t1 and ?k2.0 = ?k2 and ?t2.0 = ?t2, OF f(1-4,6,7)])
      show "inner_rep x' d ?k1 (map gaddr ?t1)" "inner_rep y d ?k2 (map gaddr ?t2)" using f(10,11) by (simp_all add: take_map drop_map)
      show "get_inner w' (node \<lparr>key = KS ! d, node = brk w\<rparr>) = Some y" using f(8) by simp
      show "length ?k1 = d" "length ?k2 = d" using f(5) by simp_all
    qed (use f(9) kk fin in simp_all)
  qed
qed

text \<open>
  An insertion into an inner node, up to the test whether the node is the root: either the node
  has taken the new child, or it has been split in two nodes of \<open>d\<close> keys.
\<close>

definition node_step :: "env \<Rightarrow> addr \<Rightarrow> InnerNode \<Rightarrow> u64 \<Rightarrow> u64 \<Rightarrow> world \<Rightarrow> (KeyNode option \<times> world) option" where
  "node_step E a x k v w = do {
     pos \<leftarrow> findIndex x k;
     c \<leftarrow> aget (childrens x) pos;
     (newChild, w1) \<leftarrow> Node_insert E c k v w;
     take_newChild a newChild w1 }"

definition inserts :: "env \<Rightarrow> nat \<Rightarrow> nat \<Rightarrow> u64 \<Rightarrow> u64 \<Rightarrow> world \<Rightarrow> int \<Rightarrow> int \<Rightarrow> gtree \<Rightarrow> bool" where
  "inserts E d h k v w lo hi t \<longleftrightarrow> (\<exists>r w'. Node_insert E (gaddr t) k v w = Some (r, w')
     \<and> evolves (set (gaddrs t)) w w' \<and> root w' = root w \<and> grown d h w w' lo hi t (k, v) r)"

lemma node_step_spec:
  assumes ok: "world_ok w" and x: "get_inner w a = Some x" "inner_rep x d ks (map gaddr ts)"
    and kids: "kids (tree_ok w d h) lo hi ks ts" and len: "length ks \<le> 2 * d" and d: "1 \<le> d"
    and dis: "distinct (a # addrs_of ts)" and k: "lo \<le> uint k" "uint k < hi"
    and IH: "\<forall>s\<in>set ts. \<forall>lo hi. tree_ok w d h lo hi s \<longrightarrow> lo \<le> uint k \<longrightarrow> uint k < hi \<longrightarrow> inserts E d h k v w lo hi s"
  obtains (fits) w' x' ks' ts' where "node_step E a x k v w = Some (None, w')"
      "evolves (insert a (set (addrs_of ts))) w w'" "root w' = root w"
      "get_inner w' a = Some x'" "isRoot x' = isRoot x" "inner_rep x' d ks' (map gaddr ts')"
      "length ks \<le> length ks'" "length ks' \<le> 2 * d" "kids (tree_ok w' d h) lo hi ks' ts'"
      "forest_of w' ts' = insert (k, v) (forest_of w ts)" "distinct (a # addrs_of ts')"
      "set (addrs_of ts') \<subseteq> set (addrs_of ts) \<union> {brk w..<brk w'}"
  | (splits) w' x' y kn ks1 ts1 ks2 ts2 where "node_step E a x k v w = Some (Some kn, w')"
      "evolves (insert a (set (addrs_of ts))) w w'" "root w' = root w"
      "get_inner w' a = Some x'" "isRoot x' = isRoot x" "inner_rep x' d ks1 (map gaddr ts1)"
      "get_inner w' (node kn) = Some y" "\<not> isRoot y" "inner_rep y d ks2 (map gaddr ts2)"
      "length ks1 = d" "length ks2 = d" "kids (tree_ok w' d h) lo (uint (key kn)) ks1 ts1"
      "kids (tree_ok w' d h) (uint (key kn)) hi ks2 ts2"
      "forest_of w' ts1 \<union> forest_of w' ts2 = insert (k, v) (forest_of w ts)"
      "distinct (a # addrs_of ts1 @ node kn # addrs_of ts2)"
      "set (addrs_of ts1 @ node kn # addrs_of ts2) \<subseteq> set (addrs_of ts) \<union> {brk w..<brk w'}"
proof -
  obtain ks1 ks2 ts1 s ts2 where r: "ks = ks1 @ ks2" "ts = ts1 @ s # ts2" "length ts1 = length ks1"
    "pos_of ks k = length ks1" "sorted ks" "tree_ok w d h (lb lo ks1) (ub hi ks2) s"
    "lb lo ks1 \<le> uint k" "uint k < ub hi ks2"
    "lefts (tree_ok w d h) lo ks1 ts1" "rights (tree_ok w d h) hi ks2 ts2"
    by (rule route [OF kids k]) blast
  have a: "a < brk w" using x(1) by (intro heap_brk [OF ok]) (simp add: heap_get_inner)
  have "inserts E d h k v w (lb lo ks1) (ub hi ks2) s" using IH r by auto
  then obtain nc w1 where i: "Node_insert E (gaddr s) k v w = Some (nc, w1)" "evolves (set (gaddrs s)) w w1"
    "root w1 = root w" "grown d h w w1 (lb lo ks1) (ub hi ks2) s (k, v) nc" by (auto simp: inserts_def)
  obtain ks' ts' where c: "kids (tree_ok w1 d h) lo hi (ks1 @ ks' @ ks2) (ts1 @ ts' @ ts2)"
    "news nc = (ks', map gaddr (tl ts'))" "gaddr (hd ts') = gaddr s" "length ts' = Suc (length ks')"
    "forest_of w1 (ts1 @ ts' @ ts2) = insert (k, v) (forest_of w (ts1 @ s # ts2))"
    "distinct (a # addrs_of (ts1 @ ts' @ ts2))"
    "set (addrs_of (ts1 @ ts' @ ts2)) \<subseteq> set (addrs_of (ts1 @ s # ts2)) \<union> {brk w..<brk w1}"
    "get_inner w1 a = get_inner w a"
    by (rule child_grown [OF ok r(3,9,6,10) _ a i(2,4)]) (use dis r(2) in blast)+
  have ok1: "world_ok w1" "links_ok w1" and b1: "brk w \<le> brk w1" using i(2) by (simp_all add: evolves_def)
  have "aget (childrens x) (int (length ks1)) = Some (gaddr s)"
    by (rule aget_child [of x d ks ts1 s ts2]) (use x r in auto)
  then have run: "node_step E a x k v w = take_newChild a nc w1"
    using findIndex_spec [OF x(2) r(5)] r(4) i(1) by (simp add: node_step_def)
  have x1: "get_inner w1 a = Some x" "inner_rep x d (ks1 @ ks2) (map gaddr (ts1 @ s # ts2))"
    using c(8) x r(1,2) by simp_all
  have lks: "length (ks1 @ ks2) \<le> 2 * d" using len r(1) by simp
  have ev: "evolves (insert a (set (addrs_of ts))) w w'" if "evolves {a} w1 w'" for w'
    by (rule evolves_trans [OF evolves_mono [OF i(2)] that]) (auto simp: r(2))
  show thesis
  proof (cases rule: newChild_kids [OF ok1 x1 r(3) lks c(4) d c(1-3,6), case_names fits splits])
    case f: (fits w' x')
    show thesis
      by (rule fits [OF trans [OF run f(1)] ev [OF f(2)] _ f(5-7) _ f(8,9) _ c(6)])
        (use f(3,4,10) i(3) r(1,2) c(5,7) in auto)
  next
    case f: (splits w' x' y kn k1 t1 k2 t2)
    have "set (addrs_of t1 @ node kn # addrs_of t2) \<subseteq> set (addrs_of ts) \<union> {brk w..<brk w'}"
      using f(17) c(7) [folded r(2)] f(4) b1 by fastforce
    then show thesis
      by (intro splits [OF trans [OF run f(1)] ev [OF f(2)] _ f(5-14) _ f(16)])
        (use f(3,15) i(3) c(5) r(2) in simp_all)
  qed
qed

section \<open>insert on subtrees\<close>

lemma Node_insert_inner:
  assumes "get_inner w a = Some x" and "\<not> (isRoot x \<and> nKeys x = 0)"
  shows "Node_insert E a k v w = do { (newChild, w1) \<leftarrow> node_step E a x k v w; grow_root a newChild w1 }"
  using assms unfolding heap_get_inner
  by (subst Node_insert.simps) (auto simp: node_step_def split_def Option.bind_assoc)

lemma tree_okI:
  assumes "get_inner w a = Some x" and "\<not> isRoot x" and "inner_rep x d ks (map gaddr ts)" and "d \<le> length ks"
    and "length ks \<le> 2 * d" and "kids (tree_ok w d h) lo hi ks ts"
  shows "tree_ok w d (Suc h) lo hi (GNode a ks ts)"
  using assms kids_less [OF assms(6) tree_ok_less] by auto

text \<open>The upper bound of a subtree may grow.\<close>

lemma kids_hi:
  "kids P lo hi ks ts \<Longrightarrow> (\<And>lo t. P lo hi t \<Longrightarrow> P lo hi' t) \<Longrightarrow> kids P lo hi' ks ts"
  by (induction P lo hi ks ts rule: kids.induct) auto

lemma tree_ok_hi: "tree_ok w d h lo hi t \<Longrightarrow> hi \<le> hi' \<Longrightarrow> tree_ok w d h lo hi' t"
proof (induction h arbitrary: lo t)
  case 0
  then show ?case by fastforce
next
  case (Suc h)
  then obtain a ks ts x where t: "t = GNode a ks ts" and kids: "kids (tree_ok w d h) lo hi ks ts"
    and x: "get_inner w a = Some x" "\<not> isRoot x" "inner_rep x d ks (map gaddr ts)" "d \<le> length ks" "length ks \<le> 2 * d"
    by auto
  have "kids (tree_ok w d h) lo hi' ks ts" by (rule kids_hi [OF kids]) (use Suc in blast)
  then show ?case unfolding t by (rule tree_okI [OF x])
qed

lemma kids_tree_hi: "kids (tree_ok w d h) lo hi ks ts \<Longrightarrow> hi \<le> hi' \<Longrightarrow> kids (tree_ok w d h) lo hi' ks ts"
  by (erule kids_hi) (erule (1) tree_ok_hi)

lemma distinct_gaddrs: "distinct (a # addrs_of ts) \<Longrightarrow> s \<in> set ts \<Longrightarrow> distinct (gaddrs s)"
  by (auto simp: addrs_of_def distinct_concat_iff)

lemma Node_insert_spec:
  assumes E: "libpmem_ok E" and ok: "world_ok w" "links_ok w" and d: "1 \<le> d" and A: "allocator (nv w) = Some A" "disk_ok E A"
  shows "tree_ok w d h lo hi t \<Longrightarrow> distinct (gaddrs t) \<Longrightarrow> lo \<le> uint k \<Longrightarrow> uint k < hi \<Longrightarrow> k \<notin> fst ` tset w t \<Longrightarrow>
    inserts E d h k v w lo hi t"
proof (induction h arbitrary: lo hi t)
  case 0
  show ?case
    by (rule insert_leaf_case [OF E ok 0(1,3,4,5) A, of v]) (auto simp: inserts_def)
next
  case (Suc h)
  then obtain a ks ts x where t: "t = GNode a ks ts" and kids: "kids (tree_ok w d h) lo hi ks ts"
    and x: "get_inner w a = Some x" "\<not> isRoot x" "inner_rep x d ks (map gaddr ts)" "d \<le> length ks" "length ks \<le> 2 * d"
    by auto
  have dis: "distinct (a # addrs_of ts)" using Suc.prems(2) t by (simp add: gaddrs_GNode)
  have IH: "\<forall>s\<in>set ts. \<forall>lo hi. tree_ok w d h lo hi s \<longrightarrow> lo \<le> uint k \<longrightarrow> uint k < hi \<longrightarrow> inserts E d h k v w lo hi s"
  proof (intro ballI allI impI, rule Suc.IH)
    fix s assume s: "s \<in> set ts"
    show "distinct (gaddrs s)" using dis s by (rule distinct_gaddrs)
    show "k \<notin> fst ` tset w s" using Suc.prems(5) s t by (auto simp: tset_GNode forest_of_def)
  qed
  note run = Node_insert_inner [OF x(1), of E k v]
  show ?case
  proof (cases rule: node_step_spec [OF ok(1) x(1,3) kids x(5) d dis Suc.prems(3,4) IH, case_names fits splits])
    case (fits w' x' ks' ts')
    have ev: "evolves (set (gaddrs t)) w w'" using fits(2) t by (simp add: gaddrs_GNode)
    have tr: "tree_ok w' d (Suc h) lo hi (GNode a ks' ts')"
      by (rule tree_okI [OF fits(4) _ fits(6) _ fits(8,9)]) (use fits(5,7) x in simp_all)
    have "grown d (Suc h) w w' lo hi t (k, v) None"
      unfolding grown_def
      by (rule exI [of _ "[]"], rule exI [of _ "[GNode a ks' ts']"])
        (use tr fits(10-12) t in \<open>auto simp: tset_GNode gaddrs_GNode simp del: tree_ok.simps\<close>)
    then show ?thesis using run x(2) fits(1,3,4) ev t by (simp add: inserts_def grow_root_def)
  next
    case (splits w' x' y kn ks1 ts1 ks2 ts2)
    have ev: "evolves (set (gaddrs t)) w w'" using splits(2) t by (simp add: gaddrs_GNode)
    have tr1: "tree_ok w' d (Suc h) lo (uint (key kn)) (GNode a ks1 ts1)"
      by (rule tree_okI [OF splits(4) _ splits(6) _ _ splits(12)]) (use splits(5,10) x in simp_all)
    have tr2: "tree_ok w' d (Suc h) (uint (key kn)) hi (GNode (node kn) ks2 ts2)"
      by (rule tree_okI [OF splits(7,8,9) _ _ splits(13)]) (use splits(11) in simp_all)
    have "grown d (Suc h) w w' lo hi t (k, v) (Some kn)"
      unfolding grown_def
      by (rule exI [of _ "[key kn]"], rule exI [of _ "[GNode a ks1 ts1, GNode (node kn) ks2 ts2]"])
        (use tr1 tr2 splits(14-16) t in \<open>auto simp: tset_GNode gaddrs_GNode simp del: tree_ok.simps\<close>)
    then show ?thesis using run x(2) splits(1,3,4,5) ev t by (simp add: inserts_def grow_root_def)
  qed
qed

section \<open>The tree under the root\<close>

text \<open>
  \<open>root_ok w d h ks ts\<close>: the root of degree \<open>d\<close> is empty, or has the keys \<open>ks\<close> over the subtrees
  \<open>ts\<close> of height \<open>h\<close>; with no key there is one leaf below it.
\<close>

abbreviation KEYS :: int where "KEYS \<equiv> 2 ^ 64"

definition root_ok :: "world \<Rightarrow> nat \<Rightarrow> nat \<Rightarrow> u64 list \<Rightarrow> gtree list \<Rightarrow> bool" where
  "root_ok w d h ks ts \<longleftrightarrow> world_ok w \<and> links_ok w \<and> 1 \<le> d
     \<and> (\<exists>x. get_inner w (root w) = Some x \<and> isRoot x \<and> inner_rep x d ks (map gaddr ts)) \<and> length ks \<le> 2 * d
     \<and> distinct (root w # addrs_of ts)
     \<and> (if ts = [] then ks = [] else kids (tree_ok w d h) 0 KEYS ks ts \<and> (ks = [] \<longrightarrow> h = 0))"

lemma uint_KEYS [simp]: "uint (k :: u64) < KEYS" "uint (k :: u64) < 18446744073709551616"
  using uint_lt2p [of k] by simp_all

lemma root_nonnull:
  assumes "root_ok w d h ks ts"
  shows "root w \<noteq> NULL"
proof
  assume "root w = NULL"
  with assms have "heap w NULL \<noteq> None" by (auto simp: root_ok_def heap_get_inner)
  with assms show False by (simp add: root_ok_def world_ok_def heap_ok_def)
qed

lemma changeRoot_simps [simp]:
  "brk (changeRoot r w) = brk w" "nv (changeRoot r w) = nv w" "root (changeRoot r w) = r"
  "tree_degree (changeRoot r w) = tree_degree w" "heap (changeRoot r w) = heap w" "get_inner (changeRoot r w) c = get_inner w c"
  by (simp_all add: changeRoot_def get_inner_def)

lemma changeRoot_ok [simp]:
  "world_ok (changeRoot r w) = world_ok w" "links_ok (changeRoot r w) = links_ok w" "leaf_data (changeRoot r w) c = leaf_data w c"
proof -
  have v: "leaf_view (changeRoot r w) c = leaf_view w c" for c by (rule leaf_view_cong) simp_all
  show "links_ok (changeRoot r w) = links_ok w" "leaf_data (changeRoot r w) c = leaf_data w c"
    using views_cong [OF v] by simp_all
  show "world_ok (changeRoot r w) = world_ok w"
    by (simp add: world_ok_def heap_ok_def all_views_def alloc_ok_def v views_cong(2) [of "changeRoot r w" w, OF v])
qed

lemma grow_root_spec:
  assumes ok: "world_ok w" "links_ok w" and x: "get_inner w a = Some x" "isRoot x" "inner_rep x d ks1 (map gaddr ts1)"
    and c: "node kn \<noteq> NULL" and d: "1 \<le> d"
  obtains w' x' y where "grow_root a (Some kn) w = Some (None, w')" "evolves {a} w w'" "root w' = brk w" "brk w' = brk w + 1"
    "get_inner w' a = Some x'" "\<not> isRoot x'" "inner_rep x' d ks1 (map gaddr ts1)"
    "get_inner w' (brk w) = Some y" "isRoot y" "inner_rep y d [key kn] [a, node kn]"
proof -
  obtain y0 where y0: "newInnerNode (int d) True = Some y0" "inner_rep y0 d [] []" "isRoot y0"
    using newInnerNode_Some [OF inner_rep_degree [OF x(3)], of True] newInnerNode_rep [OF _ inner_rep_degree [OF x(3)]] by blast
  obtain y1 where y1: "append_key (key kn) y0 = Some y1" "inner_rep y1 d [key kn] []" "isRoot y1"
    by (rule append_key_spec [OF y0(2), of "key kn"]) (use y0(3) in auto)
  obtain y2 where y2: "append_child a y1 = Some y2" "inner_rep y2 d [key kn] [a]" "isRoot y2"
    by (rule append_child_spec [OF y1(2), of a]) (use y1(3) in auto)
  obtain y3 where y3: "append_child (node kn) y2 = Some y3" "inner_rep y3 d [key kn] [a, node kn]" "isRoot y3"
    by (rule append_child_spec [OF y2(2), of "node kn"]) (use y2(3) d in auto)
  let ?x = "x\<lparr>isRoot := False\<rparr>"
  let ?w1 = "put_node a (Inner ?x) w"
  note p = put_inner_spec [OF ok(1) x(1), of ?x]
  obtain b w2 where al: "alloc (Inner y3) ?w1 = (b, w2)" by fastforce
  note al' = alloc_inner_spec [OF p(1) al]
  have ab: "a < brk w" using heap_brk [OF ok(1)] x(1) by (simp add: heap_get_inner)
  have dx: "degree x = int d" using x(3) by (simp add: inner_rep_def)
  have run: "grow_root a (Some kn) w = Some (None, changeRoot (brk w) w2)"
    using x dx y0(1) y1(1) y2(1) y3(1) al al'(1) by (simp add: grow_root_def)
  note vc = changeRoot_ok [of "brk w" w2]
  have "evolves {a} w (changeRoot (brk w) w2)"
    using al' vc p ok(2) by (auto simp: evolves_def same_nodes_def)
  moreover have "inner_rep ?x d ks1 (map gaddr ts1)" using x(3) by (simp add: inner_rep_def)
  ultimately show thesis
    using run al' p ab y3 by (intro that [of "changeRoot (brk w) w2" ?x y3]) simp_all
qed

end
