(* ===== verification/Tree_Root.thy ===== *)
theory Tree_Root
  imports Tree_Insert
begin

text \<open>
  Insertion at the root, with its three cases (empty root, root over one leaf, root with keys), and
  updates in the whole tree.
\<close>


section \<open>insert at the root\<close>

lemma heap_nonnull: "world_ok w \<Longrightarrow> heap w a \<noteq> None \<Longrightarrow> a \<noteq> NULL"
  by (metis heap_ok_def world_ok_def)

lemma root_okD:
  assumes "root_ok w d h ks ts"
  obtains x where "world_ok w" "links_ok w" "1 \<le> d" "get_inner w (root w) = Some x" "isRoot x"
    "inner_rep x d ks (map gaddr ts)" "length ks \<le> 2 * d" "distinct (root w # addrs_of ts)" "heap w (root w) = Some (Inner x)"
  using assms by (auto simp: root_ok_def heap_get_inner)

lemma evolves_world: "evolves S w w' \<Longrightarrow> world_ok w'" "evolves S w w' \<Longrightarrow> links_ok w'"
  by (simp_all add: evolves_def)

lemma root_okI:
  assumes "evolves S w w'" and "1 \<le> d" and "get_inner w' (root w') = Some x" and "isRoot x" and "inner_rep x d ks (map gaddr ts)"
    and "length ks \<le> 2 * d" and "distinct (root w' # addrs_of ts)" and "kids (tree_ok w' d h) 0 KEYS ks ts" and "ks = [] \<longrightarrow> h = 0"
  shows "root_ok w' d h ks ts"
  using assms evolves_world [OF assms(1)] kids_length [OF assms(8)] by (auto simp: root_ok_def)

text \<open>The first entry: the root gets its first leaf.\<close>

lemma first_insert:
  assumes E: "libpmem_ok E" and r: "root_ok w d h [] []" and A: "allocator (nv w) = Some A" "disk_ok E A"
  obtains w' A' where "Node_insert E (root w) k v w = Some (None, w')" "evolves {root w} w w'"
    "root_ok w' d 0 [] [GLeaf (brk w)]" "tset w' (GLeaf (brk w)) = {(k, v)}"
    "allocator (nv w') = Some A'" "maxFileId A' = maxFileId A \<or> maxFileId A' = maxFileId A + 1"
proof -
  obtain x where x: "world_ok w" "links_ok w" "1 \<le> d" "get_inner w (root w) = Some x" "isRoot x"
    "inner_rep x d [] []" "heap w (root w) = Some (Inner x)"
    by (rule root_okD [OF r]) simp
  obtain w1 l A1 where n: "newLeafNode E w = Some (brk w, w1)" "world_ok w1"
    "heap w1 = (heap w)(brk w \<mapsto> Leaf l)" "brk w1 = brk w + 1" "root w1 = root w" "tree_degree w1 = tree_degree w"
    "\<And>b. leaf_view w1 b = (if b = brk w then Some (l, zero_leaf) else leaf_view w b)"
    "degree l = LEAF_DEGREE" "nEntries l = 0" "next l = NULL" "prev l = NULL"
    "durable (dev (nv w)) \<Longrightarrow> durable (dev (nv w1))"
    "allocator (nv w1) = Some A1" "maxFileId A1 = maxFileId A \<or> maxFileId A1 = maxFileId A + 1"
    by (rule newLeafNode_spec [OF E x(1) A(1) disk_ok_available [OF A(2)]]) blast
  let ?b = "brk w" and ?l = "l\<lparr>nEntries := nEntries l + 1\<rparr>"
  have vb: "leaf_view w1 ?b = Some (l, zero_leaf)" by (simp add: n(7))
  obtain dv m' where i: "LeafNode_insertNonFull E ?b k v w1 = Some (set_dev dv (put_node ?b (Leaf ?l) w1))"
    "world_ok (set_dev dv (put_node ?b (Leaf ?l) w1))"
    "\<And>c. leaf_view (set_dev dv (put_node ?b (Leaf ?l) w1)) c = (if c = ?b then Some (?l, m') else leaf_view w1 c)"
    "leaf_ok m'" "keys_distinct m'" "length (entries m') = Suc (length (entries zero_leaf))"
    "set (entries m') = insert (k, v) (set (entries zero_leaf))" "durable (dev (nv w1)) \<Longrightarrow> durable dv"
    by (rule LeafNode_insertNonFull_spec [OF E n(2) vb good_zero_leaf [OF n(8,9)], of k v]) (simp, blast)
  let ?w2 = "set_dev dv (put_node ?b (Leaf ?l) w1)"
  have v2: "leaf_view ?w2 c = (if c = ?b then Some (?l, m') else leaf_view w c)" for c using i(3) n(7) by simp
  have ins: "LeafNode_insert E ?b k v w1 = Some (None, ?w2)"
    using i(1) leaf_viewD(2) [of ?w2 ?b ?l m'] v2 n(8,9) by (simp add: LeafNode_insert_def LEAF_DEGREE_def)
  have lk: "leaf_links ?w2 = (leaf_links w)(?b \<mapsto> (NULL, NULL))" using n(10,11) by (auto simp: leaf_links_def v2)
  have lo2: "links_ok ?w2"
    unfolding links_ok_def lk by (rule dll_new) (use x(1,2) in \<open>simp_all add: links_ok_def leaf_links_None world_ok_def heap_ok_def leaf_view_def get_leafnode_def\<close>)
  have rb: "root w \<noteq> ?b" using heap_brk [OF x(1)] x(7) by fastforce
  have gi: "get_inner ?w2 c = get_inner w c" for c
    using x(1) n(3) by (auto simp: get_inner_def world_ok_def heap_ok_def)
  have ev2: "evolves {} w ?w2"
  proof -
    have "same_nodes ({..<brk w} - {}) w ?w2" using gi v2 by (simp only: same_nodes_def leaf_data_def) auto
    then show ?thesis using i(2,8) lo2 n(4,6,12) by (simp add: evolves_def)
  qed
  have x2: "get_inner ?w2 (root w) = Some x" using gi x(4) by simp
  obtain x3 where x3: "append_child ?b x = Some x3" "inner_rep x3 d [] [?b]" "isRoot x3"
    by (rule append_child_spec [OF x(6), of ?b]) (use x(5) in auto)
  let ?w3 = "put_node (root w) (Inner x3) ?w2"
  have ev3: "evolves {root w} ?w2 ?w3" by (rule evolves_inner [OF i(2) lo2 x2])
  have ev: "evolves {root w} w ?w3" by (rule evolves_trans [OF evolves_mono [OF ev2] ev3]) auto
  note p = put_inner_spec [OF i(2) x2, of x3]
  have nk: "nKeys x = 0" "nChild x = 0" using x(6) by (simp_all add: inner_rep_def)
  have run: "Node_insert E (root w) k v w = Some (None, ?w3)"
    by (subst Node_insert.simps) (simp add: x(5,7) nk n(1) ins x2 [simplified] x3(1))
  have gl: "good_leaf ?l m'" using i n(8,9) by (simp add: good_leaf_def)
  obtain m1 where m1: "leaf_data ?w3 ?b = Some m1" "set (entries m1) = {(k, v)}"
    using leaf_dataI [OF _ gl, of ?w2 ?b] v2 p(2) i(7) by auto
  show thesis
  proof (rule that [OF run ev _ _ _ n(14)])
    show "allocator (nv ?w3) = Some A1" using n(13) by simp
    show "tset ?w3 (GLeaf ?b) = {(k, v)}" using m1 by (simp add: leaf_set_def)
    show "root_ok ?w3 d 0 [] [GLeaf ?b]"
      by (rule root_okI [OF ev x(3) _ x3(3)]) (use p x3(2) n(5) m1 rb in \<open>auto\<close>)
  qed
qed

text \<open>The root over one leaf: a split of the leaf gives the root its first key.\<close>

lemma second_insert:
  assumes E: "libpmem_ok E" and r: "root_ok w d h [] [s]" and A: "allocator (nv w) = Some A" "disk_ok E A"
    and k: "k \<notin> fst ` tset w s"
  obtains w' ks' ts' where "Node_insert E (root w) k v w = Some (None, w')" "evolves (insert (root w) (set (gaddrs s))) w w'"
    "root_ok w' d 0 ks' ts'" "forest_of w' ts' = insert (k, v) (tset w s)" "ts' \<noteq> []"
proof -
  obtain x where x: "world_ok w" "links_ok w" "1 \<le> d" "get_inner w (root w) = Some x" "isRoot x"
    "inner_rep x d [] [gaddr s]" "distinct (root w # gaddrs s)" "heap w (root w) = Some (Inner x)"
    by (rule root_okD [OF r]) simp
  have s: "tree_ok w d 0 0 KEYS s" using r by (auto simp: root_ok_def)
  have "inserts E d 0 k v w 0 KEYS s"
    by (rule Node_insert_spec [OF E x(1-3) A s]) (use x(7) k in auto)
  then obtain nc w1 where i: "Node_insert E (gaddr s) k v w = Some (nc, w1)" "evolves (set (gaddrs s)) w w1"
    "root w1 = root w" "grown d 0 w w1 0 KEYS s (k, v) nc" by (auto simp: inserts_def)
  have a: "root w < brk w" using heap_brk [OF x(1)] x(8) by simp
  obtain ks' ts' where c: "kids (tree_ok w1 d 0) 0 KEYS ([] @ ks' @ []) ([] @ ts' @ [])"
    "news nc = (ks', map gaddr (tl ts'))" "gaddr (hd ts') = gaddr s" "length ts' = Suc (length ks')"
    "forest_of w1 ([] @ ts' @ []) = insert (k, v) (forest_of w ([] @ s # []))"
    "distinct (root w # addrs_of ([] @ ts' @ []))"
    "get_inner w1 (root w) = get_inner w (root w)"
    by (rule child_grown [of w "[]" "[]" d 0 0 KEYS "[]" s "[]" "root w" w1 "(k, v)" nc]) (use x s a i in simp_all)
  have ev: "evolves (insert (root w) (set (gaddrs s))) w w1" using i(2) by (rule evolves_mono) auto
  have x1: "get_inner w1 (root w) = Some x" using c(7) x(4) by simp
  have nk: "nKeys x = 0" "nChild x = 1" "aget (childrens x) 0 = Some (gaddr s)"
    using x(6) aget_child [of x d "[]" "[]" s "[]" 0] by (simp_all add: inner_rep_def)
  show thesis
  proof (cases nc)
    case None
    then have "ks' = []" "length ts' = 1" using c(2,4) by auto
    then obtain t' where ts': "ks' = []" "ts' = [t']" by (cases ts') auto
    have run: "Node_insert E (root w) k v w = Some (None, w1)"
      by (subst Node_insert.simps) (simp add: x(5,8) nk i(1) None)
    have "root_ok w1 d 0 [] [t']"
      by (rule root_okI [OF ev x(3) _ x(5)]) (use x1 x(6) i(3) c(1,3,6) ts' in \<open>simp_all del: tree_ok.simps\<close>)
    then show thesis using that [OF run ev] c(5) ts' by auto
  next
    case (Some kn)
    then have ks': "ks' = [key kn]" "length ts' = 2" using c(2,4) by auto
    then obtain t1 t2 where ts': "ts' = [t1, t2]" by (cases ts'; cases "tl ts'") auto
    have t2: "gaddr t2 = node kn" "gaddr t1 = gaddr s" using c(2,3) Some ts' by auto
    obtain x2 where x2: "append_key (key kn) x = Some x2" "inner_rep x2 d [key kn] [gaddr s]" "isRoot x2"
      by (rule append_key_spec [OF x(6), of "key kn"]) (use x(5) in auto)
    obtain x3 where x3: "append_child (node kn) x2 = Some x3" "inner_rep x3 d [key kn] [gaddr s, node kn]" "isRoot x3"
      by (rule append_child_spec [OF x2(2), of "node kn"]) (use x2(3) x(3) in auto)
    let ?w2 = "put_node (root w) (Inner x3) w1"
    note ok1 = evolves_world [OF i(2)]
    have ev1: "evolves {root w} w1 ?w2" by (rule evolves_inner [OF ok1 x1])
    have ev2: "evolves (insert (root w) (set (gaddrs s))) w ?w2" by (rule evolves_trans [OF ev ev1]) auto
    note p = put_inner_spec [OF ok1(1) x1, of x3]
    have run: "Node_insert E (root w) k v w = Some (None, ?w2)"
      by (subst Node_insert.simps) (simp add: x(5,8) nk i(1) Some x1 x2(1) x3(1))
    have "same_nodes (set (addrs_of ts')) w1 ?w2"
      using c(6) by (auto simp: same_nodes_def p(2,4))
    note f = kids_frame [OF _ this, of d 0 0 KEYS ks']
    have kd: "kids (tree_ok w1 d 0) 0 KEYS ks' ts'" using c(1) by simp
    have "root_ok ?w2 d 0 ks' ts'"
      by (rule root_okI [OF ev2 x(3) _ x3(3) _ _ _ f(1) [OF kd]])
        (use p(4) i(3) x3(2) ks' ts' t2 c(6) x(3) in auto)
    then show thesis using that [OF run ev2] f(2) [OF kd] c(5) ts' by auto
  qed
qed

text \<open>A root that was split: the new root has the two halves below it.\<close>

lemma root_splits:
  assumes ok: "world_ok w" "links_ok w" and d: "1 \<le> d" and hi: "hi \<le> KEYS"
    and x: "get_inner w a = Some x" "isRoot x" "inner_rep x d ks1 (map gaddr ts1)" "length ks1 = d"
    and y: "get_inner w (node kn) = Some y" "\<not> isRoot y" "inner_rep y d ks2 (map gaddr ts2)" "length ks2 = d"
    and kids: "kids (tree_ok w d h) 0 (uint (key kn)) ks1 ts1" "kids (tree_ok w d h) (uint (key kn)) hi ks2 ts2"
    and dis: "distinct (a # addrs_of ts1 @ node kn # addrs_of ts2)"
  obtains w' t1 t2 where "grow_root a (Some kn) w = Some (None, w')" "evolves {a} w w'" "root_ok w' d (Suc h) [key kn] [t1, t2]"
    "kids (tree_ok w' d (Suc h)) 0 hi [key kn] [t1, t2]" "forest_of w' [t1, t2] = forest_of w ts1 \<union> forest_of w ts2"
proof -
  have "heap w (node kn) \<noteq> None" using y(1) by (simp add: heap_get_inner)
  then have nn: "node kn \<noteq> NULL" "node kn < brk w" "a < brk w"
    using heap_nonnull [OF ok(1)] heap_brk [OF ok(1)] x(1) by (auto simp: heap_get_inner)
  obtain w' x' y' where g: "grow_root a (Some kn) w = Some (None, w')" "evolves {a} w w'" "root w' = brk w"
    "brk w' = brk w + 1" "get_inner w' a = Some x'" "\<not> isRoot x'" "inner_rep x' d ks1 (map gaddr ts1)"
    "get_inner w' (brk w) = Some y'" "isRoot y'" "inner_rep y' d [key kn] [a, node kn]"
    by (rule grow_root_spec [OF ok x(1-3) nn(1) d])
  have old: "set (addrs_of ts1) \<subseteq> {..<brk w}" "set (addrs_of ts2) \<subseteq> {..<brk w}"
    using kids_all [OF kids(1)] kids_all [OF kids(2)] by (auto intro!: addrs_of_brk [OF ok(1)] simp del: lessThan_iff)
  have sn: "same_nodes ({..<brk w} - {a}) w w'" using g(2) by (simp add: evolves_def)
  have fr: "same_nodes (set (addrs_of ts1)) w w'" "same_nodes (set (addrs_of ts2)) w w'"
    using dis old by (auto intro!: same_nodes_subset [OF sn])
  note f1 = kids_frame [OF kids(1) fr(1)] and f2 = kids_frame [OF kids(2) fr(2)]
  have y': "get_inner w' (node kn) = Some y" using sn y(1) dis nn by (auto simp: same_nodes_def)
  let ?t1 = "GNode a ks1 ts1" and ?t2 = "GNode (node kn) ks2 ts2"
  have t1: "tree_ok w' d (Suc h) 0 (uint (key kn)) ?t1"
    by (rule tree_okI [OF g(5-7) _ _ f1(1)]) (use x(4) in simp_all)
  have t2: "tree_ok w' d (Suc h) (uint (key kn)) hi ?t2"
    by (rule tree_okI [OF y' y(2,3) _ _ f2(1)]) (use y(4) in simp_all)
  have k: "kids (tree_ok w' d (Suc h)) 0 hi [key kn] [?t1, ?t2]" using t1 t2 by (simp del: tree_ok.simps)
  have "root_ok w' d (Suc h) [key kn] [?t1, ?t2]"
    by (rule root_okI [OF g(2) d _ g(9) _ _ _ kids_tree_hi [OF k hi]])
      (use g(3,8,10) d dis nn old in \<open>auto simp: gaddrs_GNode simp del: tree_ok.simps\<close>)
  then show thesis using that [OF g(1,2) _ k] f1(2) f2(2) by (simp add: tset_GNode)
qed

text \<open>The root with keys: it takes the new child, or it is split and a new root is put above.\<close>

lemma third_insert:
  assumes E: "libpmem_ok E" and r: "root_ok w d h ks ts" and A: "allocator (nv w) = Some A" "disk_ok E A"
    and k: "k \<notin> fst ` forest_of w ts" and ks: "ks \<noteq> []"
  obtains w' h' ks' ts' where "Node_insert E (root w) k v w = Some (None, w')"
    "evolves (insert (root w) (set (addrs_of ts))) w w'"
    "root_ok w' d h' ks' ts'" "forest_of w' ts' = insert (k, v) (forest_of w ts)" "ts' \<noteq> []"
proof -
  obtain x where x: "world_ok w" "links_ok w" "1 \<le> d" "get_inner w (root w) = Some x" "isRoot x"
    "inner_rep x d ks (map gaddr ts)" "length ks \<le> 2 * d" "distinct (root w # addrs_of ts)" "heap w (root w) = Some (Inner x)"
    by (rule root_okD [OF r])
  have kids: "kids (tree_ok w d h) 0 KEYS ks ts" using r ks by (auto simp: root_ok_def split: if_splits)
  have IH: "\<forall>s\<in>set ts. \<forall>lo hi. tree_ok w d h lo hi s \<longrightarrow> lo \<le> uint k \<longrightarrow> uint k < hi \<longrightarrow> inserts E d h k v w lo hi s"
  proof (intro ballI allI impI, rule Node_insert_spec [OF E x(1-3) A])
    fix s assume s: "s \<in> set ts"
    show "distinct (gaddrs s)" using x(8) s by (rule distinct_gaddrs)
    show "k \<notin> fst ` tset w s" using k s by (auto simp: forest_of_def)
  qed
  have nk: "nKeys x \<noteq> 0" using x(6) ks by (simp add: inner_rep_def)
  note run = Node_insert_inner [OF x(4), of E k v]
  show thesis
  proof (cases rule: node_step_spec [OF x(1,4,6) kids x(7,3,8) _ _ IH, case_names lo hi fits splits])
    case (fits w' x' ks' ts')
    have "root_ok w' d h ks' ts'"
      by (rule root_okI [OF fits(2) x(3) _ _ fits(6,8) _ fits(9)]) (use fits(3-5,7,11) x(5) ks in auto)
    moreover have "ts' \<noteq> []" using kids_length [OF fits(9)] by auto
    ultimately show thesis using that [of w' h ks' ts'] fits(1,2,4,10) run nk by (simp add: grow_root_def)
  next
    case (splits w1 x1 y kn ks1 ts1 ks2 ts2)
    obtain w' t1 t2 where g: "grow_root (root w) (Some kn) w1 = Some (None, w')" "evolves {root w} w1 w'"
      "root_ok w' d (Suc h) [key kn] [t1, t2]" "forest_of w' [t1, t2] = forest_of w1 ts1 \<union> forest_of w1 ts2"
      by (rule root_splits [OF evolves_world [OF splits(2)] x(3) order.refl splits(4) _ splits(6,10,7-9,11-13,15)])
        (use splits(5) x(5) in simp)
    have ev: "evolves (insert (root w) (set (addrs_of ts))) w w'" by (rule evolves_trans [OF splits(2) g(2)]) auto
    have "Node_insert E (root w) k v w = Some (None, w')" using run nk splits(1) g(1) by simp
    then show thesis using that [OF _ ev g(3)] g(4) splits(14) by simp
  qed (use x in simp_all)
qed

lemma root_insert:
  assumes E: "libpmem_ok E" and r: "root_ok w d h ks ts" and A: "allocator (nv w) = Some A" "disk_ok E A"
    and k: "k \<notin> fst ` forest_of w ts"
  obtains w' h' ks' ts' where "Node_insert E (root w) k v w = Some (None, w')"
    "evolves (insert (root w) (set (addrs_of ts))) w w'"
    "root_ok w' d h' ks' ts'" "forest_of w' ts' = insert (k, v) (forest_of w ts)" "ts' \<noteq> []"
proof (cases "ks = []")
  case False
  show thesis by (rule third_insert [OF E r A k False]) (rule that)
next
  case ks: True
  show thesis
  proof (cases "ts = []")
    case True
    with ks r have r: "root_ok w d h [] []" by simp
    show thesis
      by (rule first_insert [OF E r A, of k v], rule that [of _ 0 "[]" "[GLeaf (brk w)]"]) (use True in simp_all)
  next
    case False
    then have "kids (tree_ok w d h) 0 KEYS [] ts" using ks r by (auto simp: root_ok_def)
    then have "length ts = 1" using kids_length by fastforce
    then obtain s where s: "ts = [s]" by (cases ts) auto
    with ks r have r: "root_ok w d h [] [s]" by simp
    have k: "k \<notin> fst ` tset w s" using k s by simp
    show thesis
      by (rule second_insert [OF E r A k, of v], rule that) (use s in simp_all)
  qed
qed

section \<open>update\<close>

definition upd_set :: "u64 \<Rightarrow> u64 \<Rightarrow> (u64 \<times> u64) set \<Rightarrow> (u64 \<times> u64) set" where
  "upd_set k v S = (\<lambda>e. if fst e = k then (k, v) else e) ` S"

lemma upd_set_idle: "k \<notin> fst ` S \<Longrightarrow> upd_set k v S = S"
  by (force simp: upd_set_def)

lemma upd_set_Un: "upd_set k v (S \<union> T) = upd_set k v S \<union> upd_set k v T"
  by (auto simp: upd_set_def)

lemma fst_upd_set: "fst ` upd_set k v S = fst ` S"
  unfolding upd_set_def image_image by (rule image_cong) auto

lemma in_upd_set: "(x, y) \<in> upd_set k v S \<longleftrightarrow> (if x = k then y = v \<and> k \<in> fst ` S else (x, y) \<in> S)"
  by (force simp: upd_set_def)

definition updates :: "env \<Rightarrow> nat \<Rightarrow> nat \<Rightarrow> u64 \<Rightarrow> u64 \<Rightarrow> world \<Rightarrow> int \<Rightarrow> int \<Rightarrow> gtree \<Rightarrow> bool" where
  "updates E d h k v w lo hi t \<longleftrightarrow> (\<exists>w'. Node_update E (gaddr t) k v w = Some (k \<in> fst ` tset w t, w')
     \<and> evolves (set (gaddrs t)) w w' \<and> root w' = root w \<and> (\<forall>c. get_inner w' c = get_inner w c)
     \<and> tree_ok w' d h lo hi t \<and> tset w' t = upd_set k v (tset w t))"

lemma update_leaf_case:
  assumes E: "libpmem_ok E" and ok: "world_ok w" "links_ok w" and t: "tree_ok w d 0 lo hi t"
  shows "updates E d 0 k v w lo hi t"
proof -
  obtain a m where a: "t = GLeaf a" "leaf_data w a = Some m"
    "\<forall>e\<in>set (entries m). lo \<le> uint (fst e) \<and> uint (fst e) < hi" using t by auto
  obtain l m0 where v: "leaf_view w a = Some (l, m0)" "good_leaf l m0" "entries m = entries m0"
    "heap w a = Some (Leaf l)" by (rule leaf_dataD [OF a(2)])
  have ts: "tset w t = set (entries m0)" using a v by (simp add: leaf_set_def)
  obtain dv m' where u: "LeafNode_update E a k v w = Some (leaf_map m0 k \<noteq> None, set_dev dv w)" "world_ok (set_dev dv w)"
    "\<And>b. leaf_view (set_dev dv w) b = (if b = a then Some (l, m') else leaf_view w b)"
    "good_leaf l m'" "leaf_map m' = (if leaf_map m0 k = None then leaf_map m0 else (leaf_map m0)(k \<mapsto> v))"
    "durable (dev (nv w)) \<Longrightarrow> durable dv"
    by (rule LeafNode_update_spec [OF E ok(1) v(1,2), of k v]) blast
  let ?w = "set_dev dv w"
  have kd: "keys_distinct m0" "keys_distinct m'" using v(2) u(4) by (simp_all add: good_leaf_def)
  have em: "(x, y) \<in> set (entries m') \<longleftrightarrow> (x, y) \<in> upd_set k v (set (entries m0))" for x y
    using leaf_map_None [of m0 k]
    by (simp add: in_upd_set leaf_map_Some [OF kd(1), symmetric] leaf_map_Some [OF kd(2), symmetric] u(5)) auto
  then have em: "set (entries m') = upd_set k v (set (entries m0))" by auto
  have "leaf_links ?w c = leaf_links w c" for c using u(3) v(1) by (simp add: leaf_links_def)
  then have lk: "links_ok ?w" using links_ok_cong ok(2) by blast
  have gi: "get_inner ?w c = get_inner w c" for c by (simp add: get_inner_def)
  have "same_nodes ({..<brk w} - {a}) w ?w" by (simp add: same_nodes_def leaf_data_def u(3) gi)
  then have ev: "evolves (set (gaddrs t)) w ?w" using u(2,6) lk a by (simp add: evolves_def)
  obtain m1 where m1: "leaf_data ?w a = Some m1" "set (entries m1) = set (entries m')"
    using leaf_dataI [OF _ u(4), of ?w a] u(3) by auto
  have "fst ` set (entries m1) = fst ` set (entries m)" using m1 em v(3) fst_upd_set by metis
  moreover have "\<forall>x\<in>fst ` set (entries m). lo \<le> uint x \<and> uint x < hi" using a(3) by simp
  ultimately have "\<forall>x\<in>fst ` set (entries m1). lo \<le> uint x \<and> uint x < hi" by simp
  then have "\<forall>e\<in>set (entries m1). lo \<le> uint (fst e) \<and> uint (fst e) < hi" by simp
  then have "tree_ok ?w d 0 lo hi t" using a m1 t by auto
  moreover have "tset ?w t = upd_set k v (tset w t)" using a m1 em ts by (simp add: leaf_set_def)
  moreover have "Node_update E (gaddr t) k v w = Some (k \<in> fst ` tset w t, ?w)"
    unfolding ts using a(1) v(4) u(1) by (subst Node_update.simps) (simp add: leaf_map_None)
  ultimately show ?thesis
    unfolding updates_def using ev gi by (intro exI [of _ ?w]) (simp del: tree_ok.simps)
qed

lemma update_kids:
  assumes ok: "world_ok w" "links_ok w" and x: "get_inner w a = Some x" "inner_rep x d ks (map gaddr ts)"
    and kids: "kids (tree_ok w d h) lo hi ks ts" and dis: "distinct (a # addrs_of ts)" and k: "lo \<le> uint k" "uint k < hi"
    and IH: "\<forall>s\<in>set ts. \<forall>lo hi. tree_ok w d h lo hi s \<longrightarrow> lo \<le> uint k \<longrightarrow> uint k < hi \<longrightarrow> updates E d h k v w lo hi s"
  obtains w' where "Node_update E a k v w = Some (k \<in> fst ` forest_of w ts, w')"
    "evolves (set (addrs_of ts)) w w'" "root w' = root w" "\<And>c. get_inner w' c = get_inner w c"
    "kids (tree_ok w' d h) lo hi ks ts" "forest_of w' ts = upd_set k v (forest_of w ts)"
proof -
  obtain ks1 ks2 ts1 s ts2 where r: "ks = ks1 @ ks2" "ts = ts1 @ s # ts2" "length ts1 = length ks1"
    "pos_of ks k = length ks1" "sorted ks" "tree_ok w d h (lb lo ks1) (ub hi ks2) s"
    "lb lo ks1 \<le> uint k" "uint k < ub hi ks2"
    "lefts (tree_ok w d h) lo ks1 ts1" "rights (tree_ok w d h) hi ks2 ts2"
    "\<And>s' v. s' \<in> set ts1 \<union> set ts2 \<Longrightarrow> (k, v) \<notin> tset w s'"
    by (rule route [OF kids k]) blast
  have "updates E d h k v w (lb lo ks1) (ub hi ks2) s" using IH r by auto
  then obtain w1 where u: "Node_update E (gaddr s) k v w = Some (k \<in> fst ` tset w s, w1)"
    "evolves (set (gaddrs s)) w w1" "root w1 = root w" "\<And>c. get_inner w1 c = get_inner w c"
    "tree_ok w1 d h (lb lo ks1) (ub hi ks2) s" "tset w1 s = upd_set k v (tset w s)"
    by (auto simp: updates_def)
  have c: "aget (childrens x) (int (length ks1)) = Some (gaddr s)"
    by (rule aget_child [of x d ks ts1 s ts2]) (use x r in auto)
  have nk: "k \<notin> fst ` forest_of w ts1" "k \<notin> fst ` forest_of w ts2"
    using r(11) by (auto simp: forest_of_def)
  have run: "Node_update E a k v w = Some (k \<in> fst ` forest_of w ts, w1)"
    using findIndex_spec [OF x(2) r(5)] r(4) x(1) tree_ok_addr [OF ok(1) r(6)] c u(1) nk
    by (subst Node_update.simps) (auto simp: heap_get_inner r(2) image_Un)
  note f = others_frame [OF ok(1) r(9,10) u(2)]
  have "kids (tree_ok w1 d h) lo hi ks ts"
    unfolding r(1,2) kids_mid [OF r(3)] using f u(5) dis r(2) by auto
  moreover have "forest_of w1 ts = upd_set k v (forest_of w ts)"
    using f(3,4) dis nk u(6) by (auto simp: r(2) upd_set_Un upd_set_idle)
  moreover have "evolves (set (addrs_of ts)) w w1" using u(2) by (rule evolves_mono) (auto simp: r(2))
  ultimately show thesis using that [OF run] u(3,4) by blast
qed

lemma Node_update_spec:
  assumes E: "libpmem_ok E" and ok: "world_ok w" "links_ok w"
  shows "tree_ok w d h lo hi t \<Longrightarrow> distinct (gaddrs t) \<Longrightarrow> lo \<le> uint k \<Longrightarrow> uint k < hi \<Longrightarrow> updates E d h k v w lo hi t"
proof (induction h arbitrary: lo hi t)
  case 0
  then show ?case by (intro update_leaf_case [OF E ok])
next
  case (Suc h)
  then obtain a ks ts x where t: "t = GNode a ks ts" and kids: "kids (tree_ok w d h) lo hi ks ts"
    and x: "get_inner w a = Some x" "\<not> isRoot x" "inner_rep x d ks (map gaddr ts)" "d \<le> length ks" "length ks \<le> 2 * d"
    by auto
  have dis: "distinct (a # addrs_of ts)" using Suc.prems(2) t by (simp add: gaddrs_GNode)
  have IH: "\<forall>s\<in>set ts. \<forall>lo hi. tree_ok w d h lo hi s \<longrightarrow> lo \<le> uint k \<longrightarrow> uint k < hi \<longrightarrow> updates E d h k v w lo hi s"
    using Suc.IH distinct_gaddrs [OF dis] by blast
  obtain w' where u: "Node_update E a k v w = Some (k \<in> fst ` forest_of w ts, w')"
    "evolves (set (addrs_of ts)) w w'" "root w' = root w" "\<And>c. get_inner w' c = get_inner w c"
    "kids (tree_ok w' d h) lo hi ks ts" "forest_of w' ts = upd_set k v (forest_of w ts)"
    by (rule update_kids [OF ok x(1,3) kids dis Suc.prems(3,4) IH]) blast
  have "tree_ok w' d (Suc h) lo hi t" unfolding t
    by (rule tree_okI [OF _ x(2-5) u(5)]) (use u(4) x(1) in simp)
  moreover have "evolves (set (gaddrs t)) w w'" using u(2) by (rule evolves_mono) (auto simp: t gaddrs_GNode)
  ultimately show ?case using u t by (auto simp: updates_def tset_GNode simp del: tree_ok.simps)
qed

end
