(* ===== verification/Tree_Map.thy ===== *)
theory Tree_Map
  imports Tree_Root
begin

text \<open>
  The class \<open>FPTree\<close> as a map from keys to values. \<open>represents\<close> relates a world to the map its tree
  holds; the locale \<open>kv_store\<close> is the contract of a key-value store, and its interpretation shows
  that \<open>FPTree::find\<close>, \<open>FPTree::update\<close> and \<open>FPTree::insert\<close> keep it.
\<close>


section \<open>The class FPTree\<close>

text \<open>\<open>represents w d M\<close>: the tree of degree \<open>d\<close> in \<open>w\<close> is well-formed and its entries are those of \<open>M\<close>.\<close>

definition represents :: "world \<Rightarrow> nat \<Rightarrow> (u64 \<rightharpoonup> u64) \<Rightarrow> bool" where
  "represents w d M \<longleftrightarrow> (\<exists>h ks ts. root_ok w d h ks ts \<and> (\<forall>k v. M k = Some v \<longleftrightarrow> (k, v) \<in> forest_of w ts))"

lemma not_in_fst: "k \<notin> fst ` S \<longleftrightarrow> (\<forall>v. (k, v) \<notin> S)"
  by force

lemma representsE:
  assumes "represents w d M"
  obtains h ks ts where "root_ok w d h ks ts" "\<And>k v. M k = Some v \<longleftrightarrow> (k, v) \<in> forest_of w ts"
    "\<And>k. M k = None \<longleftrightarrow> k \<notin> fst ` forest_of w ts"
proof -
  obtain h ks ts where r: "root_ok w d h ks ts" "\<And>k v. M k = Some v \<longleftrightarrow> (k, v) \<in> forest_of w ts"
    using assms by (auto simp: represents_def)
  have "M k = None \<longleftrightarrow> k \<notin> fst ` forest_of w ts" for k
    using r(2) [of k] by (simp add: not_in_fst) (metis option.exhaust option.distinct(1))
  with that r show thesis by blast
qed

lemma root_kids:
  assumes "root_ok w d h ks ts" and "ts \<noteq> []"
  obtains x where "world_ok w" "links_ok w" "1 \<le> d" "get_inner w (root w) = Some x" "isRoot x"
    "inner_rep x d ks (map gaddr ts)" "length ks \<le> 2 * d" "distinct (root w # addrs_of ts)"
    "kids (tree_ok w d h) 0 KEYS ks ts" "ks = [] \<longrightarrow> h = 0"
  using assms by (auto simp: root_ok_def)

lemma FPTree_find_spec:
  assumes rep: "represents w d M" and ne: "M \<noteq> Map.empty"
  shows "FPTree_find k w = Some (case M k of None \<Rightarrow> MAX_VALUE | Some v \<Rightarrow> v)"
proof -
  obtain h ks ts where r: "root_ok w d h ks ts" "\<And>k v. M k = Some v \<longleftrightarrow> (k, v) \<in> forest_of w ts"
    "\<And>k. M k = None \<longleftrightarrow> k \<notin> fst ` forest_of w ts"
    by (rule representsE [OF rep]) blast
  have "ts \<noteq> []" using ne r(2) by (auto simp: fun_eq_iff)
  then obtain x where x: "world_ok w" "get_inner w (root w) = Some x" "inner_rep x d ks (map gaddr ts)"
    "kids (tree_ok w d h) 0 KEYS ks ts" by (rule root_kids [OF r(1)])
  have "finds w (root w) k (forest_of w ts)"
    using find_kids [OF x, of k] Node_find_spec [OF x(1)] by (simp add: forest_of_def)
  then obtain v where v: "Node_find (root w) k w = Some v" "\<And>y. M k = Some y \<Longrightarrow> v = y" "M k = None \<Longrightarrow> v = MAX_VALUE"
    using r(2) [of k] r(3) [of k] by (auto simp: finds_def)
  then show ?thesis using root_nonnull [OF r(1)] by (simp add: FPTree_find_def split: option.splits)
qed

lemma FPTree_update_spec:
  assumes E: "libpmem_ok E" and rep: "represents w d M" and ne: "M \<noteq> Map.empty"
  obtains w' where "FPTree_update E k v w = Some (M k \<noteq> None, w')"
    "represents w' d (if M k = None then M else M(k \<mapsto> v))" "durable (dev (nv w)) \<longrightarrow> durable (dev (nv w'))"
proof -
  obtain h ks ts where r: "root_ok w d h ks ts" "\<And>k v. M k = Some v \<longleftrightarrow> (k, v) \<in> forest_of w ts"
    "\<And>k. M k = None \<longleftrightarrow> k \<notin> fst ` forest_of w ts"
    by (rule representsE [OF rep]) blast
  have "ts \<noteq> []" using ne r(2) by (auto simp: fun_eq_iff)
  then obtain x where x: "world_ok w" "links_ok w" "1 \<le> d" "get_inner w (root w) = Some x" "isRoot x"
    "inner_rep x d ks (map gaddr ts)" "length ks \<le> 2 * d" "distinct (root w # addrs_of ts)"
    "kids (tree_ok w d h) 0 KEYS ks ts" "ks = [] \<longrightarrow> h = 0" by (rule root_kids [OF r(1)])
  have IH: "\<forall>s\<in>set ts. \<forall>lo hi. tree_ok w d h lo hi s \<longrightarrow> lo \<le> uint k \<longrightarrow> uint k < hi \<longrightarrow> updates E d h k v w lo hi s"
    using Node_update_spec [OF E x(1,2)] distinct_gaddrs [OF x(8)] by blast
  obtain w' where u: "Node_update E (root w) k v w = Some (k \<in> fst ` forest_of w ts, w')"
    "evolves (set (addrs_of ts)) w w'" "root w' = root w" "\<And>c. get_inner w' c = get_inner w c"
    "kids (tree_ok w' d h) 0 KEYS ks ts" "forest_of w' ts = upd_set k v (forest_of w ts)"
    by (rule update_kids [OF x(1,2,4,6,9,8) _ _ IH]) (simp, simp, blast)
  have "root_ok w' d h ks ts"
    by (rule root_okI [OF u(2) x(3) _ x(5-7) _ u(5)]) (use u x in auto)
  moreover have "(if M k = None then M else M(k \<mapsto> v)) x = Some y \<longleftrightarrow> (x, y) \<in> forest_of w' ts" for x y
    using r(2) [of x y] r(3) [of k] unfolding u(6) in_upd_set by (auto intro: rev_image_eqI)
  ultimately have "represents w' d (if M k = None then M else M(k \<mapsto> v))"
    unfolding represents_def by blast
  moreover have "FPTree_update E k v w = Some (M k \<noteq> None, w')"
    using u(1) root_nonnull [OF r(1)] r(3) by (simp add: FPTree_update_def)
  ultimately show thesis using that u(2) by (simp add: evolves_def)
qed

lemma FPTree_insert_spec:
  assumes E: "libpmem_ok E" and rep: "represents w d M" and k: "M k = None"
    and A: "allocator (nv w) = Some A" "disk_ok E A"
  obtains w' where "FPTree_insert E k v w = Some w'" "represents w' d (M(k \<mapsto> v))"
    "durable (dev (nv w)) \<longrightarrow> durable (dev (nv w'))"
proof -
  obtain h ks ts where r: "root_ok w d h ks ts" "\<And>k v. M k = Some v \<longleftrightarrow> (k, v) \<in> forest_of w ts"
    "\<And>k. M k = None \<longleftrightarrow> k \<notin> fst ` forest_of w ts"
    by (rule representsE [OF rep]) blast
  have k': "k \<notin> fst ` forest_of w ts" using k r(3) by simp
  obtain w' h' ks' ts' where i: "Node_insert E (root w) k v w = Some (None, w')"
    "evolves (insert (root w) (set (addrs_of ts))) w w'"
    "root_ok w' d h' ks' ts'" "forest_of w' ts' = insert (k, v) (forest_of w ts)" "ts' \<noteq> []"
    by (rule root_insert [OF E r(1) A k', of v])
  have "(M(k \<mapsto> v)) x = Some y \<longleftrightarrow> (x, y) \<in> forest_of w' ts'" for x y
    using r(2,3) k' unfolding i(4) by (auto simp: image_iff)
  then have "represents w' d (M(k \<mapsto> v))" using i(3) unfolding represents_def by blast
  moreover have "FPTree_insert E k v w = Some w'"
    using i(1) root_nonnull [OF r(1)] by (simp add: FPTree_insert_def)
  ultimately show thesis using that i(2) by (simp add: evolves_def)
qed

section \<open>The contract of a key-value store\<close>

text \<open>
  What a client relies on: every operation returns and acts as on a map, provided a key is
  inserted only once, there is room for an insertion, and the store is searched and updated only
  when it is not empty. The locale proves once that every script of such operations has the
  outputs of the same script on the map.
\<close>

datatype kv_op = Insert u64 u64 | Update u64 u64 | Find u64

datatype kv_out = Inserted | Updated bool | Found u64

fun run_map :: "kv_op list \<Rightarrow> (u64 \<rightharpoonup> u64) \<Rightarrow> kv_out list \<times> (u64 \<rightharpoonup> u64)" where
  "run_map [] M = ([], M)"
| "run_map (Insert k v # cs) M = apfst ((#) Inserted) (run_map cs (M(k \<mapsto> v)))"
| "run_map (Update k v # cs) M =
     apfst ((#) (Updated (M k \<noteq> None))) (run_map cs (if M k = None then M else M(k \<mapsto> v)))"
| "run_map (Find k # cs) M = apfst ((#) (Found (case M k of None \<Rightarrow> MAX_VALUE | Some v \<Rightarrow> v))) (run_map cs M)"

fun legal :: "kv_op list \<Rightarrow> (u64 \<rightharpoonup> u64) \<Rightarrow> bool" where
  "legal [] M = True"
| "legal (Insert k v # cs) M = (M k = None \<and> legal cs (M(k \<mapsto> v)))"
| "legal (Update k v # cs) M = (M \<noteq> Map.empty \<and> legal cs (if M k = None then M else M(k \<mapsto> v)))"
| "legal (Find k # cs) M = (M \<noteq> Map.empty \<and> legal cs M)"

fun run_kv :: "(u64 \<Rightarrow> 's \<Rightarrow> u64 option) \<Rightarrow> (u64 \<Rightarrow> u64 \<Rightarrow> 's \<Rightarrow> (bool \<times> 's) option) \<Rightarrow> (u64 \<Rightarrow> u64 \<Rightarrow> 's \<Rightarrow> 's option) \<Rightarrow>
    kv_op list \<Rightarrow> 's \<Rightarrow> (kv_out list \<times> 's) option" where
  "run_kv fnd upd ins [] s = Some ([], s)"
| "run_kv fnd upd ins (Insert k v # cs) s = do {
     s1 \<leftarrow> ins k v s; (os, s2) \<leftarrow> run_kv fnd upd ins cs s1; Some (Inserted # os, s2) }"
| "run_kv fnd upd ins (Update k v # cs) s = do {
     (b, s1) \<leftarrow> upd k v s; (os, s2) \<leftarrow> run_kv fnd upd ins cs s1; Some (Updated b # os, s2) }"
| "run_kv fnd upd ins (Find k # cs) s = do {
     v \<leftarrow> fnd k s; (os, s2) \<leftarrow> run_kv fnd upd ins cs s; Some (Found v # os, s2) }"

text \<open>There is room before every insertion of the script.\<close>

fun roomy :: "('s \<Rightarrow> bool) \<Rightarrow> (u64 \<Rightarrow> u64 \<Rightarrow> 's \<Rightarrow> (bool \<times> 's) option) \<Rightarrow> (u64 \<Rightarrow> u64 \<Rightarrow> 's \<Rightarrow> 's option) \<Rightarrow> kv_op list \<Rightarrow> 's \<Rightarrow> bool" where
  "roomy room upd ins [] s = True"
| "roomy room upd ins (Insert k v # cs) s = (room s \<and> (\<forall>s1. ins k v s = Some s1 \<longrightarrow> roomy room upd ins cs s1))"
| "roomy room upd ins (Update k v # cs) s = (\<forall>b s1. upd k v s = Some (b, s1) \<longrightarrow> roomy room upd ins cs s1)"
| "roomy room upd ins (Find k # cs) s = roomy room upd ins cs s"

locale kv_store =
  fixes fnd :: "u64 \<Rightarrow> 's \<Rightarrow> u64 option"
    and upd :: "u64 \<Rightarrow> u64 \<Rightarrow> 's \<Rightarrow> (bool \<times> 's) option"
    and ins :: "u64 \<Rightarrow> u64 \<Rightarrow> 's \<Rightarrow> 's option"
    and rep :: "'s \<Rightarrow> (u64 \<rightharpoonup> u64) \<Rightarrow> bool"
    and room :: "'s \<Rightarrow> bool"
  assumes find_law: "rep s M \<Longrightarrow> M \<noteq> Map.empty \<Longrightarrow> fnd k s = Some (case M k of None \<Rightarrow> MAX_VALUE | Some v \<Rightarrow> v)"
    and upd_law: "rep s M \<Longrightarrow> M \<noteq> Map.empty \<Longrightarrow>
      \<exists>s'. upd k v s = Some (M k \<noteq> None, s') \<and> rep s' (if M k = None then M else M(k \<mapsto> v))"
    and ins_law: "rep s M \<Longrightarrow> M k = None \<Longrightarrow> room s \<Longrightarrow> \<exists>s'. ins k v s = Some s' \<and> rep s' (M(k \<mapsto> v))"
begin

lemma run_refines:
  "rep s M \<Longrightarrow> legal cs M \<Longrightarrow> roomy room upd ins cs s \<Longrightarrow>
    \<exists>s'. run_kv fnd upd ins cs s = Some (fst (run_map cs M), s') \<and> rep s' (snd (run_map cs M))"
proof (induction cs arbitrary: s M)
  case Nil
  then show ?case by simp
next
  case (Cons c cs)
  show ?case
  proof (cases c)
    case (Insert k v)
    with ins_law [of s M k v] Cons.prems obtain s1 where s1: "ins k v s = Some s1" "rep s1 (M(k \<mapsto> v))" by auto
    from Cons.IH [OF s1(2)] Cons.prems Insert s1(1) show ?thesis by (auto simp del: fun_upd_apply)
  next
    case (Update k v)
    with upd_law [of s M k v] Cons.prems obtain s1 where
      s1: "upd k v s = Some (M k \<noteq> None, s1)" "rep s1 (if M k = None then M else M(k \<mapsto> v))" by auto
    from Cons.IH [OF s1(2)] Cons.prems Update s1(1) show ?thesis by (auto simp del: fun_upd_apply)
  next
    case (Find k)
    from Cons.IH [OF Cons.prems(1)] Cons.prems Find find_law [of s M k] show ?thesis by auto
  qed
qed

text \<open>An inserted value is found until the key is updated.\<close>

lemma insert_find:
  assumes "rep s M" and "M k = None" and "room s"
  shows "\<exists>s'. ins k v s = Some s' \<and> fnd k s' = Some v \<and> (\<forall>k'. k' \<noteq> k \<longrightarrow> M \<noteq> Map.empty \<longrightarrow> fnd k' s' = fnd k' s)"
proof -
  obtain s' where s': "ins k v s = Some s'" "rep s' (M(k \<mapsto> v))" using ins_law [OF assms] by blast
  have "fnd k' s' = Some (case (M(k \<mapsto> v)) k' of None \<Rightarrow> MAX_VALUE | Some v \<Rightarrow> v)" for k'
    by (rule find_law [OF s'(2)]) auto
  then show ?thesis using s'(1) find_law [OF assms(1)] by auto
qed

end

definition tree_rep :: "env \<Rightarrow> nat \<Rightarrow> world \<Rightarrow> (u64 \<rightharpoonup> u64) \<Rightarrow> bool" where
  "tree_rep E d w M \<longleftrightarrow> libpmem_ok E \<and> represents w d M"

definition tree_room :: "env \<Rightarrow> world \<Rightarrow> bool" where
  "tree_room E w \<longleftrightarrow> (case allocator (nv w) of None \<Rightarrow> False | Some A \<Rightarrow> disk_ok E A)"

interpretation kv: kv_store FPTree_find "FPTree_update E" "FPTree_insert E" "tree_rep E d" "tree_room E" for E d
proof
  fix w M k v
  assume r: "tree_rep E d w M"
  then have E: "libpmem_ok E" and rep: "represents w d M" by (simp_all add: tree_rep_def)
  show "M \<noteq> Map.empty \<Longrightarrow> FPTree_find k w = Some (case M k of None \<Rightarrow> MAX_VALUE | Some v \<Rightarrow> v)"
    by (rule FPTree_find_spec [OF rep])
  show "\<exists>w'. FPTree_update E k v w = Some (M k \<noteq> None, w') \<and> tree_rep E d w' (if M k = None then M else M(k \<mapsto> v))"
    if "M \<noteq> Map.empty"
    by (rule FPTree_update_spec [OF E rep that, of k v]) (use E in \<open>auto simp: tree_rep_def simp del: fun_upd_apply\<close>)
  show "\<exists>w'. FPTree_insert E k v w = Some w' \<and> tree_rep E d w' (M(k \<mapsto> v))" if k: "M k = None" and room: "tree_room E w"
  proof -
    obtain A where A: "allocator (nv w) = Some A" "disk_ok E A" using room by (auto simp: tree_room_def split: option.splits)
    show ?thesis by (rule FPTree_insert_spec [OF E rep k A, of v]) (use E in \<open>auto simp: tree_rep_def\<close>)
  qed
qed

section \<open>A new tree\<close>

text \<open>The constructor puts an empty root in place before \<open>bulkLoading\<close>.\<close>

lemma newFPTree_root:
  assumes ok: "world_ok w" "links_ok w" and d: "1 \<le> d" "d < 2 ^ 29 - 1"
  obtains w' x where "newFPTree E (of_nat d) w = do { (b, w2) \<leftarrow> bulkLoading E w'; Some w2 }" "root_ok w' d 0 [] []"
    "nv w' = nv w" "\<forall>c. leaf_view w' c = leaf_view w c" "get_inner w' (root w') = Some x" "newInnerNode (int d) True = Some x"
proof -
  have "uint (ucast (of_nat d :: u64) :: u32) = int d"
    using d(2) by (simp add: unsigned_ucast_eq unsigned_of_nat take_bit_int_eq_self take_bit_nat_eq_self)
  then have sd: "sint (ucast (of_nat d :: u64) :: u32) = int d" using d(2) by (simp add: sint_uint signed_take_bit_int_eq_self)
  obtain x where x: "newInnerNode (int d) True = Some x" using newInnerNode_Some [OF d(2)] by blast
  obtain r w1 where al: "alloc (Inner x) w = (r, w1)" by fastforce
  note al' = alloc_inner_spec [OF ok(1) al]
  let ?w = "w1\<lparr>root := r, tree_degree := of_nat d\<rparr>"
  have v: "leaf_view ?w c = leaf_view w1 c" for c by (rule leaf_view_cong) simp_all
  note vc = views_cong [of ?w w1, OF v]
  have ok2: "world_ok ?w" "links_ok ?w"
    using al'(2,4) ok(2) vc(2,3) by (simp_all add: world_ok_def heap_ok_def all_views_def alloc_ok_def v)
  have gi: "get_inner ?w r = Some x" using al'(1,5) by (simp add: get_inner_def)
  have r: "root_ok ?w d 0 [] []" using ok2 d gi newInnerNode_rep [OF x d(2)] by (simp add: root_ok_def)
  show thesis
    by (rule that [of ?w, OF _ r _ _ _ x]) (use x al al'(8,10) v gi in \<open>simp_all add: newFPTree_def sd\<close>)
qed

lemma newFPTree_spec:
  assumes ok: "world_ok w" "links_ok w" and A: "allocator (nv w) = Some A" "startLeaf A \<notin> used_set A (dev (nv w))"
    and d: "1 \<le> d" "d < 2 ^ 29 - 1"
  obtains w' x where "newFPTree E (of_nat d) w = Some w'" "represents w' d Map.empty" "nv w' = nv w"
    "get_inner w' (root w') = Some x" "newInnerNode (int d) True = Some x" "root_ok w' d 0 [] []"
proof -
  obtain w' x where n: "newFPTree E (of_nat d) w = do { (b, w2) \<leftarrow> bulkLoading E w'; Some w2 }" "root_ok w' d 0 [] []"
    "nv w' = nv w" "get_inner w' (root w') = Some x" "newInnerNode (int d) True = Some x"
    by (rule newFPTree_root [where E = E, OF ok d]) blast
  have inv: "palloc_inv A (dev (nv w))" using ok(1) A(1) by (simp add: world_ok_def alloc_ok_def)
  have "newFPTree E (of_nat d) w = Some w'"
    using n(1,3) A by (simp add: bulkLoading_def getAllocator_def ifLeafUsed_eq [OF inv])
  moreover have "represents w' d Map.empty" using n(2) by (force simp: represents_def)
  ultimately show thesis using that n(2-5) by blast
qed

text \<open>An empty tree and one with a single entry, for the witnesses.\<close>

lemma links_ok_fresh: "links_ok fresh_world"
  by (simp add: links_ok_def leaf_links_def [abs_def] leaf_view_def get_leafnode_def fresh_world_def)

lemma empty_tree:
  obtains w where "newFPTree ideal_env 2 fresh_world = Some w" "represents w 2 Map.empty"
    "allocator (nv w) = Some fresh_alloc" "durable (dev (nv w))" "root_ok w 2 0 [] []"
proof -
  have A: "allocator (nv fresh_world) = Some fresh_alloc" by (simp add: fresh_world_def)
  have us: "startLeaf fresh_alloc \<notin> used_set fresh_alloc (dev (nv fresh_world))"
    using fresh_unused by (simp add: fresh_world_def)
  obtain w where "newFPTree ideal_env (of_nat 2) fresh_world = Some w" "represents w 2 Map.empty" "nv w = nv fresh_world" "root_ok w 2 0 [] []"
    by (rule newFPTree_spec [OF fresh_world_ok links_ok_fresh A us, of 2]) auto
  then show thesis using that fresh_durable A by (simp add: fresh_world_def)
qed

lemma one_entry_tree:
  obtains w where "represents w 2 [7 \<mapsto> 1]" "durable (dev (nv w))"
proof -
  obtain w where w: "represents w 2 Map.empty" "allocator (nv w) = Some fresh_alloc" "durable (dev (nv w))"
    by (rule empty_tree)
  show thesis
    by (rule FPTree_insert_spec [OF libpmem_ok_ideal w(1) _ w(2) disk_ok_fresh, of 7 1]) (use that w(3) in auto)
qed

section \<open>Properties\<close>

text \<open>
  C1: Every script of insertions of new keys, updates and searches on the tree returns, with the
  outputs of the script on a map; the tree represents the map the script leads to. The storage
  must have room before every insertion, and the tree must have an entry at every search and every
  update (on an empty tree both are undefined).
\<close>

theorem FPTree_refines_map:
  assumes "libpmem_ok E" and "represents w d M" and "legal cs M" and "roomy (tree_room E) (FPTree_update E) (FPTree_insert E) cs w"
  shows "\<exists>w'. run_kv FPTree_find (FPTree_update E) (FPTree_insert E) cs w = Some (fst (run_map cs M), w')
    \<and> represents w' d (snd (run_map cs M))"
  using kv.run_refines [of E d w M cs] assms by (auto simp: tree_rep_def)

theorem FPTree_refines_map_witness:
  "\<exists>w w'. newFPTree ideal_env 2 fresh_world = Some w \<and>
    run_kv FPTree_find (FPTree_update ideal_env) (FPTree_insert ideal_env) [Insert 7 1, Find 7, Update 7 2, Find 7, Find 8] w
      = Some ([Inserted, Found 1, Updated True, Found 2, Found MAX_VALUE], w')"
proof -
  obtain w where w: "newFPTree ideal_env 2 fresh_world = Some w" "represents w 2 Map.empty" "allocator (nv w) = Some fresh_alloc"
    by (rule empty_tree)
  from FPTree_refines_map [OF libpmem_ok_ideal w(2), of "[Insert 7 1, Find 7, Update 7 2, Find 7, Find 8]"] w(3) disk_ok_fresh
  show ?thesis using w(1) by (auto simp: tree_room_def)
qed

text \<open>
  C2: \<open>FPTree::insert\<close> of a new key returns, keeps the tree well-formed (all leaves at the same
  depth, every inner node but the root with \<open>d\<close> to \<open>2d\<close> keys that separate its subtrees), adds
  exactly the new entry, and leaves everything durable. With room for one more leaf it never fails.
\<close>

theorem FPTree_insert_correct:
  assumes "libpmem_ok E" and "represents w d M" and "M k = None" and "allocator (nv w) = Some A" and "disk_ok E A"
    and "durable (dev (nv w))"
  shows "\<exists>w'. FPTree_insert E k v w = Some w' \<and> represents w' d (M(k \<mapsto> v)) \<and> durable (dev (nv w'))"
  by (rule FPTree_insert_spec [OF assms(1-5), of v]) (use assms(6) in blast)

theorem FPTree_insert_correct_witness:
  "\<exists>w w'. FPTree_insert ideal_env 7 1 w = Some w' \<and> represents w' 2 [7 \<mapsto> 1] \<and> durable (dev (nv w'))"
proof -
  obtain w where w: "represents w 2 Map.empty" "allocator (nv w) = Some fresh_alloc" "durable (dev (nv w))"
    by (rule empty_tree)
  from FPTree_insert_correct [OF libpmem_ok_ideal w(1) _ w(2) disk_ok_fresh w(3), of 7 1] show ?thesis by auto
qed

text \<open>
  C7: \<open>FPTree::find\<close> on a tree with entries returns the value of the key, or \<open>MAX_VALUE\<close> if it has
  none: the descent by the separator keys always ends in the one leaf that can hold the key.
\<close>

theorem FPTree_find_correct:
  assumes "represents w d M" and "M \<noteq> Map.empty"
  shows "FPTree_find k w = Some (case M k of None \<Rightarrow> MAX_VALUE | Some v \<Rightarrow> v)"
  by (rule FPTree_find_spec [OF assms])

theorem FPTree_find_correct_witness: "\<exists>w. FPTree_find 7 w = Some 1 \<and> FPTree_find 8 w = Some MAX_VALUE"
proof -
  obtain w where w: "represents w 2 [7 \<mapsto> 1]" by (rule one_entry_tree)
  from FPTree_find_correct [OF w, of 7] FPTree_find_correct [OF w, of 8] show ?thesis by auto
qed

text \<open>
  C8: \<open>FPTree::update\<close> on a tree with entries returns true exactly if the key has an entry,
  changes its value and nothing else, and leaves everything durable.
\<close>

theorem FPTree_update_correct:
  assumes "libpmem_ok E" and "represents w d M" and "M \<noteq> Map.empty" and "durable (dev (nv w))"
  shows "\<exists>w'. FPTree_update E k v w = Some (M k \<noteq> None, w')
    \<and> represents w' d (if M k = None then M else M(k \<mapsto> v)) \<and> durable (dev (nv w'))"
  by (rule FPTree_update_spec [OF assms(1-3), of k v]) (use assms(4) in blast)

theorem FPTree_update_correct_witness:
  "\<exists>w w'. FPTree_update ideal_env 7 2 w = Some (True, w') \<and> represents w' 2 [7 \<mapsto> 2]"
proof -
  obtain w where w: "represents w 2 [7 \<mapsto> 1]" "durable (dev (nv w))" by (rule one_entry_tree)
  have "[7 \<mapsto> 1 :: u64] \<noteq> Map.empty" by (rule map_upd_nonempty)
  from FPTree_update_correct [OF libpmem_ok_ideal w(1) this w(2), of 7 2] show ?thesis by auto
qed

text \<open>
  C17: A new tree over an allocator with no leaf in use is well-formed and empty, but
  \<open>FPTree::find\<close> and \<open>FPTree::update\<close> on it have no defined result: they follow \<open>childrens[0]\<close> of
  the root, which the constructor leaves uninitialised. The degree is one for which no int computation overflows.
\<close>

theorem FPTree_empty_find_undefined:
  assumes "world_ok w" and "links_ok w" and "allocator (nv w) = Some A" and "startLeaf A \<notin> used_set A (dev (nv w))"
    and "1 \<le> d" and "d < 2 ^ 29 - 1"
  shows "\<exists>w'. newFPTree E (of_nat d) w = Some w' \<and> represents w' d Map.empty
    \<and> (\<forall>k. FPTree_find k w' = None) \<and> (\<forall>k v. FPTree_update E k v w' = None)"
proof -
  obtain w' x where w': "newFPTree E (of_nat d) w = Some w'" "represents w' d Map.empty" "get_inner w' (root w') = Some x"
    "newInnerNode (int d) True = Some x"
    by (rule newFPTree_spec [OF assms])
  have h: "heap w' (root w') = Some (Inner x)" using w'(3) by (simp add: heap_get_inner)
  have x: "nKeys x = 0" "aget (childrens x) 0 = None"
    using w'(4) by (auto simp: newInnerNode_def aget_def nth_Cons' split: if_splits)
  have f: "findIndex x k = Some 0" for k by (simp add: findIndex_def x(1) findIndex_loop.simps)
  have "Node_find (root w') k w' = None" "Node_update E (root w') k v w' = None" for k v
    by (simp_all add: Node_find.simps [of "root w'"] Node_update.simps [of E "root w'"] h f x(2))
  then have "FPTree_find k w' = None" "FPTree_update E k v w' = None" for k v
    using w'(2) root_nonnull by (auto simp: FPTree_find_def FPTree_update_def represents_def)
  with w'(1,2) show ?thesis by blast
qed

theorem FPTree_empty_find_undefined_witness: "\<exists>w. newFPTree ideal_env 2 fresh_world = Some w \<and> FPTree_find 7 w = None"
proof -
  have "allocator (nv fresh_world) = Some fresh_alloc" by (simp add: fresh_world_def)
  moreover have "startLeaf fresh_alloc \<notin> used_set fresh_alloc (dev (nv fresh_world))"
    using fresh_unused by (simp add: fresh_world_def)
  ultimately show ?thesis
    using FPTree_empty_find_undefined [OF fresh_world_ok links_ok_fresh, of fresh_alloc 2 ideal_env] by auto
qed

end
