(* ===== verification/Bulk_Insert.thy ===== *)
theory Bulk_Insert
  imports Tree_Map
begin

text \<open>
  \<open>InnerNode::insertLeaf\<close>, which puts a loaded leaf at the right end of the tree that \<open>bulkLoading\<close>
  builds. Its two stores at the end of the arrays are the case of \<open>insertNonFull\<close> where nothing is
  shifted, so the lemmas on \<open>take_newChild\<close> and on the root apply. All keys of the tree must lie below the
  keys of the new leaf.
\<close>

section \<open>A leaf at the right end of a subtree\<close>

text \<open>
  The step of \<open>insertLeaf\<close> below a node: a leaf is put beside the child, which is a leaf too, or into
  the subtree of the child.
\<close>

definition leaf_below :: "addr \<Rightarrow> KeyNode \<Rightarrow> world \<Rightarrow> (KeyNode option \<times> world) option" where
  "leaf_below c kn w = do { isl \<leftarrow> ifLeaf w c; (if isl then Some (Some kn, w) else insertLeaf c kn w) }"

definition leaf_step :: "addr \<Rightarrow> InnerNode \<Rightarrow> KeyNode \<Rightarrow> world \<Rightarrow> (KeyNode option \<times> world) option" where
  "leaf_step a x kn w = do {
     pos \<leftarrow> findIndex x (key kn);
     c \<leftarrow> aget (childrens x) pos;
     (nc, w1) \<leftarrow> leaf_below c kn w;
     take_newChild a nc w1 }"

text \<open>At the right end the two stores of \<open>insertLeaf\<close> do what \<open>insertNonFull\<close> does.\<close>

lemma append_as_newChild:
  assumes x: "get_inner w a = Some x" "inner_rep x d ks cs" "length cs = Suc (length ks)"
    and pos: "findIndex x (key kn) = Some (int (length ks))"
    and c: "node kn \<noteq> NULL" "nKeys_at w (node kn) = Some n" "n \<noteq> 0"
  shows "do { x1 \<leftarrow> append_key (key kn) x; x2 \<leftarrow> append_child (node kn) x1; let w1 = put_node a (Inner x2) w;
      (if nKeys x2 > 2 * degree x2 then InnerNode_split a w1 else Some (None, w1)) } = take_newChild a (Some kn) w"
proof -
  have n: "nKeys x = int (length ks)" "nChild x = int (length ks) + 1" using x(2,3) by (simp_all add: inner_rep_def)
  have "insert_entry x (key kn) (node kn) = do { x1 \<leftarrow> append_key (key kn) x; append_child (node kn) x1 }"
    using pos n by (cases x) (simp add: insert_entry_def append_key_def append_child_def Option.bind_assoc)
  then show ?thesis
    using x(1) c by (simp add: take_newChild_def InnerNode_insertNonFull_def Option.bind_assoc get_inner_def Let_def)
qed

lemma insertLeaf_inner:
  assumes x: "get_inner w a = Some x" "\<not> (isRoot x \<and> nKeys x = 0)" "inner_rep x d ks cs" "length cs = Suc (length ks)"
    and pos: "findIndex x (key kn) = Some (int (length ks))"
    and c: "node kn \<noteq> NULL" "nKeys_at w (node kn) = Some n" "n \<noteq> 0"
  shows "insertLeaf a kn w = do { (nc, w1) \<leftarrow> leaf_step a x kn w; grow_root a nc w1 }"
proof -
  note ap = append_as_newChild [OF x(1,3,4) pos c]
  have 1: "(if \<not> isl then do { (newChild, w1) \<leftarrow> insertLeaf y kn w; take_newChild a newChild w1 }
      else do { x1 \<leftarrow> append_key (key kn) x; x2 \<leftarrow> append_child (node kn) x1; let w1 = put_node a (Inner x2) w;
          (if nKeys x2 > 2 * degree x2 then InnerNode_split a w1 else Some (None, w1)) })
    = do { (nc, w1) \<leftarrow> (if isl then Some (Some kn, w) else insertLeaf y kn w); take_newChild a nc w1 }" for isl y
    using ap by simp
  show ?thesis
    using x(1,2) by (subst insertLeaf.simps) (auto simp: 1 leaf_step_def leaf_below_def Option.bind_assoc split_def)
qed

text \<open>
  \<open>appends\<close>: the subtree \<open>t\<close> with the leaf of \<open>kn\<close> added at its right end is now the list of trees
  \<open>ts\<close>, one at the address of \<open>t\<close> and one for the \<open>KeyNode\<close> returned, if any.
\<close>

definition appends :: "nat \<Rightarrow> nat \<Rightarrow> KeyNode \<Rightarrow> world \<Rightarrow> int \<Rightarrow> int \<Rightarrow> gtree \<Rightarrow> bool" where
  "appends d h kn w lo hi t \<longleftrightarrow> (\<exists>r w' ks ts. leaf_below (gaddr t) kn w = Some (r, w') \<and> evolves (set (gaddrs t)) w w'
     \<and> root w' = root w \<and> kids (tree_ok w' d h) lo hi ks ts \<and> news r = (ks, map gaddr (tl ts))
     \<and> gaddr (hd ts) = gaddr t \<and> forest_of w' ts = leaf_set w (node kn) \<union> tset w t
     \<and> distinct (addrs_of ts) \<and> set (addrs_of ts) \<subseteq> set (gaddrs t) \<union> {node kn} \<union> {brk w..<brk w'})"

text \<open>The leaf to be added: it is loaded, and its entries lie between the key of \<open>kn\<close> and \<open>hi\<close>.\<close>

definition loaded :: "world \<Rightarrow> KeyNode \<Rightarrow> int \<Rightarrow> bool" where
  "loaded w kn hi \<longleftrightarrow> tree_ok w 0 0 (uint (key kn)) hi (GLeaf (node kn))"

lemma loaded_tree: "loaded w kn hi \<longleftrightarrow> tree_ok w d 0 (uint (key kn)) hi (GLeaf (node kn))"
  by (simp add: loaded_def)

lemma evolves_refl: "world_ok w \<Longrightarrow> links_ok w \<Longrightarrow> evolves S w w"
  by (simp add: evolves_def same_nodes_def)

lemma kids_right_end:
  assumes "kids (tree_ok w d h) lo (uint k) ks ts"
  obtains ts1 s where "ts = ts1 @ [s]" "length ts1 = length ks" "lefts (tree_ok w d h) lo ks ts1"
    "tree_ok w d h (lb lo ks) (uint k) s" "sorted ks" "pos_of ks k = length ks"
proof -
  have ne: "ts \<noteq> []" and len: "length ts = Suc (length ks)" using kids_length [OF assms] by auto
  have ts: "ts = butlast ts @ [last ts]" "length (butlast ts) = length ks" using ne len by simp_all
  have "kids (tree_ok w d h) lo (uint k) (ks @ []) (butlast ts @ last ts # [])" using assms ne by simp
  then have "lefts (tree_ok w d h) lo ks (butlast ts) \<and> tree_ok w d h (lb lo ks) (uint k) (last ts)"
    unfolding kids_mid [OF ts(2)] by simp
  moreover have "sorted ks \<and> (\<forall>x\<in>set ks. uint x < uint k)"
    using kids_less [OF assms] tree_ok_less by blast
  moreover from this have "takeWhile (\<lambda>y. y \<le> k) ks = ks"
    by (auto simp: takeWhile_eq_all_conv word_le_def less_imp_le)
  then have "pos_of ks k = length ks" unfolding pos_of_def by (rule arg_cong)
  ultimately show thesis using that ts by blast
qed


lemma loaded_leaf:
  assumes "world_ok w" and "loaded w kn hi"
  obtains n where "node kn \<noteq> NULL" "nKeys_at w (node kn) = Some n" "n \<noteq> 0" "node kn < brk w" "uint (key kn) < hi"
proof -
  have t: "tree_ok w 1 0 (uint (key kn)) hi (GLeaf (node kn))" using assms(2) loaded_tree by blast
  then have "node kn < brk w" using tree_ok_brk [OF assms(1) t] by simp
  moreover obtain n where "nKeys_at w (node kn) = Some n" "n \<noteq> 0"
    using nKeys_at_tree [OF assms(1) t] by auto
  ultimately show thesis using that tree_ok_addr [OF assms(1) t] tree_ok_less [OF t] by simp
qed

lemma leaf_step_spec:
  assumes ok: "world_ok w" and x: "get_inner w a = Some x" "inner_rep x d ks (map gaddr ts)"
    and kids: "kids (tree_ok w d h) lo (uint (key kn)) ks ts" and len: "length ks \<le> 2 * d" and d: "1 \<le> d"
    and dis: "distinct (a # addrs_of ts)" and new: "node kn \<notin> set (a # addrs_of ts)" "loaded w kn hi"
    and IH: "\<forall>s\<in>set ts. \<forall>lo. tree_ok w d h lo (uint (key kn)) s \<longrightarrow> appends d h kn w lo hi s"
  obtains (fits) w' x' ks' ts' where "leaf_step a x kn w = Some (None, w')"
      "evolves (insert a (set (addrs_of ts))) w w'" "root w' = root w"
      "get_inner w' a = Some x'" "isRoot x' = isRoot x" "inner_rep x' d ks' (map gaddr ts')"
      "length ks \<le> length ks'" "length ks' \<le> 2 * d" "kids (tree_ok w' d h) lo hi ks' ts'"
      "forest_of w' ts' = leaf_set w (node kn) \<union> forest_of w ts" "distinct (a # addrs_of ts')"
      "set (addrs_of ts') \<subseteq> set (addrs_of ts) \<union> {node kn} \<union> {brk w..<brk w'}"
  | (splits) w' x' y kn' ks1 ts1 ks2 ts2 where "leaf_step a x kn w = Some (Some kn', w')"
      "evolves (insert a (set (addrs_of ts))) w w'" "root w' = root w"
      "get_inner w' a = Some x'" "isRoot x' = isRoot x" "inner_rep x' d ks1 (map gaddr ts1)"
      "get_inner w' (node kn') = Some y" "\<not> isRoot y" "inner_rep y d ks2 (map gaddr ts2)"
      "length ks1 = d" "length ks2 = d" "kids (tree_ok w' d h) lo (uint (key kn')) ks1 ts1"
      "kids (tree_ok w' d h) (uint (key kn')) hi ks2 ts2"
      "forest_of w' ts1 \<union> forest_of w' ts2 = leaf_set w (node kn) \<union> forest_of w ts"
      "distinct (a # addrs_of ts1 @ node kn' # addrs_of ts2)"
      "set (addrs_of ts1 @ node kn' # addrs_of ts2) \<subseteq> set (addrs_of ts) \<union> {node kn} \<union> {brk w..<brk w'}"
proof -
  obtain ts1 s where r: "ts = ts1 @ [s]" "length ts1 = length ks" "lefts (tree_ok w d h) lo ks ts1"
    "tree_ok w d h (lb lo ks) (uint (key kn)) s" "sorted ks" "pos_of ks (key kn) = length ks"
    by (rule kids_right_end [OF kids])
  have a: "a < brk w" using x(1) by (intro heap_brk [OF ok]) (simp add: heap_get_inner)
  have nb: "node kn < brk w" using loaded_leaf [OF ok new(2)] by metis
  have "appends d h kn w (lb lo ks) hi s" using IH r by auto
  then obtain nc w1 ks' ts' where i: "leaf_below (gaddr s) kn w = Some (nc, w1)" "evolves (set (gaddrs s)) w w1"
    "root w1 = root w" "kids (tree_ok w1 d h) (lb lo ks) hi ks' ts'" "news nc = (ks', map gaddr (tl ts'))"
    "gaddr (hd ts') = gaddr s" "forest_of w1 ts' = leaf_set w (node kn) \<union> tset w s" "distinct (addrs_of ts')"
    "set (addrs_of ts') \<subseteq> set (gaddrs s) \<union> {node kn} \<union> {brk w..<brk w1}"
    by (auto simp: appends_def)
  have ra: "rights (tree_ok w d h) hi [] []" "kids (tree_ok w1 d h) (lb lo ks) (ub hi []) ks' ts'" using i(4) by simp_all
  have dis': "distinct (a # addrs_of (ts1 @ s # []))" using dis r(1) by simp
  have N: "{node kn} \<subseteq> {..<brk w}" "{node kn} \<inter> set (a # addrs_of (ts1 @ s # [])) = {}" using nb new(1) r(1) by auto
  note c = child_replaced [OF ok r(2,3) ra(1) dis' a i(2) ra(2) i(7-9) N]
  have ok1: "world_ok w1" "links_ok w1" and b1: "brk w \<le> brk w1" using i(2) by (simp_all add: evolves_def)
  have "aget (childrens x) (int (length ks)) = Some (gaddr s)"
    by (rule aget_child [of x d ks ts1 s "[]"]) (use x r in auto)
  then have run: "leaf_step a x kn w = take_newChild a nc w1"
    using findIndex_spec [OF x(2) r(5)] r(6) i(1) by (simp add: leaf_step_def)
  have x1: "get_inner w1 a = Some x" "inner_rep x d (ks @ []) (map gaddr (ts1 @ s # []))"
    using c(5) x r(1) by simp_all
  have lks: "length (ks @ []) \<le> 2 * d" using len by simp
  have ev: "evolves (insert a (set (addrs_of ts))) w w'" if "evolves {a} w1 w'" for w'
    by (rule evolves_trans [OF evolves_mono [OF i(2)] that]) (auto simp: r(1))
  show thesis
  proof (cases rule: newChild_kids [OF ok1 x1 r(2) lks kids_length [OF i(4)] d c(1) i(5,6) c(3), case_names fits splits])
    case f: (fits w' x')
    show thesis
      by (rule fits [OF trans [OF run f(1)] ev [OF f(2)] _ f(5-7) _ f(8,9) _ c(3)])
        (use f(3,4,10) i(3) r(1) c(2,4) in auto)
  next
    case f: (splits w' x' y kn' k1 t1 k2 t2)
    have "set (addrs_of t1 @ node kn' # addrs_of t2) \<subseteq> set (addrs_of ts) \<union> {node kn} \<union> {brk w..<brk w'}"
      using f(17) c(4) [folded r(1)] f(4) b1 by fastforce
    then show thesis
      by (intro splits [OF trans [OF run f(1)] ev [OF f(2)] _ f(5-14) _ f(16)])
        (use f(3,15) i(3) c(2) r(1) in simp_all)
  qed
qed

lemma insertLeaf_step:
  assumes ok: "world_ok w" and x: "get_inner w a = Some x" "\<not> (isRoot x \<and> nKeys x = 0)" "inner_rep x d ks (map gaddr ts)"
    and kids: "kids (tree_ok w d h) lo (uint (key kn)) ks ts" and new: "loaded w kn hi"
  shows "insertLeaf a kn w = do { (nc, w1) \<leftarrow> leaf_step a x kn w; grow_root a nc w1 }"
proof -
  obtain n where n: "node kn \<noteq> NULL" "nKeys_at w (node kn) = Some n" "n \<noteq> 0" by (rule loaded_leaf [OF ok new])
  have "sorted ks" "pos_of ks (key kn) = length ks" by (rule kids_right_end [OF kids]; simp)+
  then have "findIndex x (key kn) = Some (int (length ks))" using findIndex_spec [OF x(3)] by simp
  from insertLeaf_inner [OF x _ this n] show ?thesis using kids_length [OF kids] by simp
qed

lemma appends_spec:
  assumes ok: "world_ok w" "links_ok w" and d: "1 \<le> d" and new: "loaded w kn hi"
  shows "tree_ok w d h lo (uint (key kn)) t \<Longrightarrow> distinct (gaddrs t) \<Longrightarrow> node kn \<notin> set (gaddrs t) \<Longrightarrow> appends d h kn w lo hi t"
proof (induction h arbitrary: lo t)
  case 0
  then obtain c m where c: "t = GLeaf c" "leaf_data w c = Some m" by auto
  obtain l m' where "heap w c = Some (Leaf l)" by (rule leaf_dataD [OF c(2)])
  then have run: "leaf_below (gaddr t) kn w = Some (Some kn, w)" using c by (simp add: leaf_below_def ifLeaf_def)
  have "kids (tree_ok w d 0) lo hi [key kn] [t, GLeaf (node kn)]"
    using 0(1) new loaded_tree [of w kn hi d] by (simp del: tree_ok.simps)
  then show ?case
    unfolding appends_def using run evolves_refl [OF ok] c 0(3)
    by (intro exI [of _ "Some kn"] exI [of _ w] exI [of _ "[key kn]"] exI [of _ "[t, GLeaf (node kn)]"])
      (auto simp del: tree_ok.simps)
next
  case (Suc h)
  then obtain a ks ts x where t: "t = GNode a ks ts" and kids: "kids (tree_ok w d h) lo (uint (key kn)) ks ts"
    and x: "get_inner w a = Some x" "\<not> isRoot x" "inner_rep x d ks (map gaddr ts)" "d \<le> length ks" "length ks \<le> 2 * d"
    by auto
  have dis: "distinct (a # addrs_of ts)" using Suc.prems(2) t by (simp add: gaddrs_GNode)
  have nw: "node kn \<notin> set (a # addrs_of ts)" using Suc.prems(3) t by (simp add: gaddrs_GNode)
  have IH: "\<forall>s\<in>set ts. \<forall>lo. tree_ok w d h lo (uint (key kn)) s \<longrightarrow> appends d h kn w lo hi s"
    using Suc.IH distinct_gaddrs [OF dis] nw addrs_of_subset by fastforce
  have run: "leaf_below (gaddr t) kn w = do { (nc, w1) \<leftarrow> leaf_step a x kn w; grow_root a nc w1 }"
    using insertLeaf_step [OF ok(1) x(1) _ x(3) kids new] x(1,2) t by (simp add: leaf_below_def ifLeaf_def heap_get_inner)
  show ?case
  proof (cases rule: leaf_step_spec [OF ok(1) x(1,3) kids x(5) d dis nw new IH, case_names fits splits])
    case (fits w' x' ks' ts')
    have ev: "evolves (set (gaddrs t)) w w'" using fits(2) t by (simp add: gaddrs_GNode)
    have tr: "tree_ok w' d (Suc h) lo hi (GNode a ks' ts')"
      by (rule tree_okI [OF fits(4) _ fits(6) _ fits(8,9)]) (use fits(5,7) x in simp_all)
    show ?thesis
      unfolding appends_def
      by (rule exI [of _ None], rule exI [of _ w'], rule exI [of _ "[]"], rule exI [of _ "[GNode a ks' ts']"])
        (use run fits(1,3,4,10-12) x(2) tr ev t in \<open>auto simp: grow_root_def tset_GNode gaddrs_GNode simp del: tree_ok.simps\<close>)
  next
    case (splits w' x' y kn' ks1 ts1 ks2 ts2)
    have ev: "evolves (set (gaddrs t)) w w'" using splits(2) t by (simp add: gaddrs_GNode)
    have tr1: "tree_ok w' d (Suc h) lo (uint (key kn')) (GNode a ks1 ts1)"
      by (rule tree_okI [OF splits(4) _ splits(6) _ _ splits(12)]) (use splits(5,10) x in simp_all)
    have tr2: "tree_ok w' d (Suc h) (uint (key kn')) hi (GNode (node kn') ks2 ts2)"
      by (rule tree_okI [OF splits(7,8,9) _ _ splits(13)]) (use splits(11) in simp_all)
    show ?thesis
      unfolding appends_def
      by (rule exI [of _ "Some kn'"], rule exI [of _ w'], rule exI [of _ "[key kn']"],
          rule exI [of _ "[GNode a ks1 ts1, GNode (node kn') ks2 ts2]"])
        (use run splits(1,3,4,5,14-16) x(2) tr1 tr2 ev t in \<open>auto simp: grow_root_def tset_GNode gaddrs_GNode simp del: tree_ok.simps\<close>)
  qed
qed

section \<open>A leaf at the right end of the tree\<close>

text \<open>
  A tree under construction: all its keys are below \<open>hi\<close>.
\<close>

definition bulk_ok :: "world \<Rightarrow> nat \<Rightarrow> int \<Rightarrow> (u64 \<times> u64) set \<Rightarrow> bool" where
  "bulk_ok w d hi S \<longleftrightarrow> (\<exists>h ks ts. root_ok w d h ks ts \<and> forest_of w ts = S \<and> (ts \<noteq> [] \<longrightarrow> kids (tree_ok w d h) 0 hi ks ts))"

lemma root_append_first:
  assumes r: "root_ok w d h [] []" and new: "loaded w kn hi" and hi: "hi \<le> KEYS"
  obtains w' where "insertLeaf (root w) kn w = Some (None, w')" "evolves {root w} w w'" "bulk_ok w' d hi (leaf_set w (node kn))"
proof -
  obtain x where x: "world_ok w" "links_ok w" "1 \<le> d" "get_inner w (root w) = Some x" "isRoot x"
    "inner_rep x d [] []" "heap w (root w) = Some (Inner x)"
    by (rule root_okD [OF r]) simp
  obtain x1 where x1: "append_child (node kn) x = Some x1" "inner_rep x1 d [] [node kn]" "isRoot x1"
    by (rule append_child_spec [OF x(6), of "node kn"]) (use x(5) in auto)
  let ?w = "put_node (root w) (Inner x1) w"
  have nk: "nKeys x = 0" "nChild x = 0" using x(6) by (simp_all add: inner_rep_def)
  have run: "insertLeaf (root w) kn w = Some (None, ?w)"
    by (subst insertLeaf.simps) (simp add: x(4,5) nk x1(1))
  note p = put_inner_spec [OF x(1,4), of x1]
  have ev: "evolves {root w} w ?w" by (rule evolves_inner [OF x(1,2,4)])
  have t: "tree_ok w d 0 (uint (key kn)) hi (GLeaf (node kn))" using new loaded_tree by blast
  then obtain m where m: "leaf_data w (node kn) = Some m" by auto
  have rn: "root w \<noteq> node kn"
    using m x(7) by (auto elim: leaf_dataD)
  have "kids (tree_ok ?w d 0) 0 hi [] [GLeaf (node kn)]"
    using t p(2) order.strict_trans1 [OF uint_ge_0 [of "key kn"]] by (auto intro: order.trans [OF uint_ge_0])
  moreover have "root_ok ?w d 0 [] [GLeaf (node kn)]"
    by (rule root_okI [OF ev x(3) _ x1(3) _ _ _ kids_tree_hi [OF calculation hi]]) (use p(4) x1(2) rn in auto)
  moreover have "forest_of ?w [GLeaf (node kn)] = leaf_set w (node kn)" by (simp add: leaf_set_def p(2))
  ultimately have "bulk_ok ?w d hi (leaf_set w (node kn))" unfolding bulk_ok_def by blast
  then show thesis using that [OF run ev] by blast
qed

lemma root_append_second:
  assumes r: "root_ok w d h [] [s]" and k: "tree_ok w d 0 0 (uint (key kn)) s" and new: "loaded w kn hi" "node kn \<notin> set (gaddrs s)" and hi: "hi \<le> KEYS"
  obtains w' where "insertLeaf (root w) kn w = Some (None, w')" "evolves {root w} w w'"
    "bulk_ok w' d hi (leaf_set w (node kn) \<union> tset w s)"
proof -
  obtain x where x: "world_ok w" "links_ok w" "1 \<le> d" "get_inner w (root w) = Some x" "isRoot x"
    "inner_rep x d [] [gaddr s]" "distinct (root w # gaddrs s)" "heap w (root w) = Some (Inner x)"
    by (rule root_okD [OF r]) simp
  obtain x1 where x1: "append_key (key kn) x = Some x1" "inner_rep x1 d [key kn] [gaddr s]" "isRoot x1"
    by (rule append_key_spec [OF x(6), of "key kn"]) (use x(5) in auto)
  obtain x2 where x2: "append_child (node kn) x1 = Some x2" "inner_rep x2 d [key kn] [gaddr s, node kn]" "isRoot x2"
    by (rule append_child_spec [OF x1(2), of "node kn"]) (use x1(3) x(3) in auto)
  let ?w = "put_node (root w) (Inner x2) w" and ?ts = "[s, GLeaf (node kn)]"
  have nk: "nKeys x = 0" "nChild x = 1" using x(6) by (simp_all add: inner_rep_def)
  have run: "insertLeaf (root w) kn w = Some (None, ?w)"
    by (subst insertLeaf.simps) (simp add: x(4,5) nk x1(1) x2(1))
  note p = put_inner_spec [OF x(1,4), of x2]
  have ev: "evolves {root w} w ?w" by (rule evolves_inner [OF x(1,2,4)])
  have t: "tree_ok w d 0 (uint (key kn)) hi (GLeaf (node kn))" using new loaded_tree by blast
  then obtain m where m: "leaf_data w (node kn) = Some m" by auto
  have rn: "root w \<noteq> node kn" using m x(8) by (auto elim: leaf_dataD)
  have "kids (tree_ok w d 0) 0 hi [key kn] ?ts" using t k by (simp del: tree_ok.simps)
  moreover have "same_nodes (set (addrs_of ?ts)) w ?w" using x(7) rn by (auto simp: same_nodes_def p)
  ultimately have kd: "kids (tree_ok ?w d 0) 0 hi [key kn] ?ts" and f: "forest_of ?w ?ts = forest_of w ?ts"
    using kids_frame by blast+
  have "root_ok ?w d 0 [key kn] ?ts"
    by (rule root_okI [OF ev x(3) _ x2(3) _ _ _ kids_tree_hi [OF kd hi]]) (use p(4) x2(2) x(3,7) rn new(2) in auto)
  then have "bulk_ok ?w d hi (leaf_set w (node kn) \<union> tset w s)"
    unfolding bulk_ok_def using kd f by (intro exI [of _ 0] exI [of _ "[key kn]"] exI [of _ ?ts]) auto
  then show thesis using that [OF run ev] by blast
qed

lemma root_append_third:
  assumes r: "root_ok w d h ks ts" and ks: "ks \<noteq> []" and kids: "kids (tree_ok w d h) 0 (uint (key kn)) ks ts"
    and new: "loaded w kn hi" "node kn \<notin> set (root w # addrs_of ts)" and hi: "hi \<le> KEYS"
  obtains w' where "insertLeaf (root w) kn w = Some (None, w')" "evolves (insert (root w) (set (addrs_of ts))) w w'"
    "bulk_ok w' d hi (leaf_set w (node kn) \<union> forest_of w ts)"
proof -
  obtain x where x: "world_ok w" "links_ok w" "1 \<le> d" "get_inner w (root w) = Some x" "isRoot x"
    "inner_rep x d ks (map gaddr ts)" "length ks \<le> 2 * d" "distinct (root w # addrs_of ts)"
    by (rule root_okD [OF r])
  have IH: "\<forall>s\<in>set ts. \<forall>lo. tree_ok w d h lo (uint (key kn)) s \<longrightarrow> appends d h kn w lo hi s"
    using appends_spec [OF x(1-3) new(1)] distinct_gaddrs [OF x(8)] new(2) addrs_of_subset by fastforce
  have nk: "nKeys x \<noteq> 0" using x(6) ks by (simp add: inner_rep_def)
  have run: "insertLeaf (root w) kn w = do { (nc, w1) \<leftarrow> leaf_step (root w) x kn w; grow_root (root w) nc w1 }"
    by (rule insertLeaf_step [OF x(1,4) _ x(6) kids new(1)]) (use nk in simp)
  show thesis
  proof (cases rule: leaf_step_spec [OF x(1,4,6) kids x(7,3,8) new(2,1) IH, case_names fits splits])
    case (fits w' x' ks' ts')
    have "root_ok w' d h ks' ts'"
      by (rule root_okI [OF fits(2) x(3) _ _ fits(6,8) _ kids_tree_hi [OF fits(9) hi]]) (use fits(3-5,7,11) x(5) ks in auto)
    then have "bulk_ok w' d hi (leaf_set w (node kn) \<union> forest_of w ts)"
      unfolding bulk_ok_def using fits(9,10) by blast
    then show thesis using that [of w'] fits(1,2,4) run by (simp add: grow_root_def)
  next
    case (splits w1 x1 y kn' ks1 ts1 ks2 ts2)
    obtain w' t1 t2 where g: "grow_root (root w) (Some kn') w1 = Some (None, w')" "evolves {root w} w1 w'"
      "root_ok w' d (Suc h) [key kn'] [t1, t2]" "kids (tree_ok w' d (Suc h)) 0 hi [key kn'] [t1, t2]"
      "forest_of w' [t1, t2] = forest_of w1 ts1 \<union> forest_of w1 ts2"
      by (rule root_splits [OF evolves_world [OF splits(2)] x(3) hi splits(4) _ splits(6,10,7-9,11-13,15)])
        (use splits(5) x(5) in simp)
    have ev: "evolves (insert (root w) (set (addrs_of ts))) w w'" by (rule evolves_trans [OF splits(2) g(2)]) auto
    have "bulk_ok w' d hi (leaf_set w (node kn) \<union> forest_of w ts)"
      unfolding bulk_ok_def
      by (rule exI [of _ "Suc h"], rule exI [of _ "[key kn']"], rule exI [of _ "[t1, t2]"]) (use g(3-5) splits(14) in simp)
    then show thesis using that [OF _ ev] run splits(1) g(1) by simp
  qed
qed

lemma root_append:
  assumes r: "root_ok w d h ks ts" and kids: "ts \<noteq> [] \<longrightarrow> kids (tree_ok w d h) 0 (uint (key kn)) ks ts"
    and new: "loaded w kn hi" "node kn \<notin> set (addrs_of ts)" and hi: "hi \<le> KEYS"
  obtains w' where "insertLeaf (root w) kn w = Some (None, w')" "evolves (insert (root w) (set (addrs_of ts))) w w'"
    "bulk_ok w' d hi (leaf_set w (node kn) \<union> forest_of w ts)"
proof (cases "ts = []")
  case True
  then have r0: "root_ok w d h [] []" using r by (auto simp: root_ok_def)
  show thesis by (rule root_append_first [OF r0 new(1) hi], rule that) (use True in simp_all)
next
  case False
  then have k: "kids (tree_ok w d h) 0 (uint (key kn)) ks ts" using kids by simp
  show thesis
  proof (cases "ks = []")
    case True
    have "length ts = 1" using kids_length [OF k] True by simp
    then obtain s where s: "ts = [s]" by (cases ts) auto
    have r1: "root_ok w d 0 [] [s]" and ts: "tree_ok w d 0 0 (uint (key kn)) s" and sn: "node kn \<notin> set (gaddrs s)"
      using r k True s new(2) by (auto simp: root_ok_def simp del: tree_ok.simps)
    show thesis by (rule root_append_second [OF r1 ts new(1) sn hi], rule that)
        (use s in \<open>auto intro: evolves_mono\<close>)
  next
    case ks: False
    have "root w \<noteq> node kn" using r new(1) by (auto simp: root_ok_def loaded_def heap_get_inner elim!: leaf_dataD)
    then have "node kn \<notin> set (root w # addrs_of ts)" using new(2) by simp
    from root_append_third [OF r ks k new(1) this hi] that show thesis by blast
  qed
qed

section \<open>What insertLeaf writes\<close>

text \<open>\<open>insertLeaf\<close> writes inner nodes only.\<close>

definition inner_only :: "world \<Rightarrow> world \<Rightarrow> bool" where
  "inner_only w w' \<longleftrightarrow> nv w' = nv w \<and> (heap_ok w \<longrightarrow> heap_ok w' \<and> (\<forall>b. get_leafnode w' b = get_leafnode w b))"

lemma inner_only_refl [simp]: "inner_only w w"
  by (simp add: inner_only_def)

lemma inner_only_trans [trans]: "inner_only w w1 \<Longrightarrow> inner_only w1 w2 \<Longrightarrow> inner_only w w2"
  by (auto simp: inner_only_def)

lemma inner_only_put: "get_inner w a = Some x \<Longrightarrow> inner_only w (put_node a (Inner y) w)"
  by (auto simp: inner_only_def heap_get_inner heap_ok_put get_leafnode_def)

lemma inner_only_alloc: "inner_only w (snd (alloc (Inner y) w))"
  by (auto simp: inner_only_def alloc_def heap_ok_def get_leafnode_def)

lemma inner_only_changeRoot [simp]: "inner_only w (changeRoot r w') \<longleftrightarrow> inner_only w w'"
  by (simp add: inner_only_def heap_ok_def get_leafnode_def)

lemma inner_only_split:
  assumes "InnerNode_split a w = Some (r, w')"
  shows "inner_only w w'"
proof -
  obtain x where x: "get_inner w a = Some x" using assms by (auto simp: InnerNode_split_def bind_eq_Some_conv)
  show ?thesis
  proof (cases "nKeys x \<le> 2 * degree x")
    case True
    then show ?thesis using assms x by (simp add: InnerNode_split_def)
  next
    case False
    then obtain y z where w': "w' = put_node a (Inner y) (snd (alloc (Inner z) w))"
      using assms x by (auto simp: InnerNode_split_def bind_eq_Some_conv Let_def split_def)
    have "\<exists>x1. get_inner (snd (alloc (Inner z) w)) a = Some x1" using x by (auto simp: alloc_def get_inner_def)
    then show ?thesis using w' inner_only_put inner_only_trans [OF inner_only_alloc] by blast
  qed
qed

lemma inner_only_take: "take_newChild a r w = Some (r', w') \<Longrightarrow> inner_only w w'"
  unfolding take_newChild_def
  by (auto simp: bind_eq_Some_conv InnerNode_insertNonFull_def split: option.splits if_splits
      dest: inner_only_split intro: inner_only_put inner_only_trans)

lemma inner_only_grow: "grow_root a r w = Some (r', w') \<Longrightarrow> inner_only w w'"
  unfolding grow_root_def
  by (cases r) (auto simp: bind_eq_Some_conv Let_def split_def split: if_splits
      intro: inner_only_trans [OF inner_only_put inner_only_alloc])

lemma inner_only_put_split:
  assumes "get_inner w a = Some x"
    and "(if c then InnerNode_split a (put_node a (Inner y) w) else Some (None, put_node a (Inner y) w)) = Some (r, w')"
  shows "inner_only w w'"
  using assms inner_only_put [OF assms(1), of y]
  by (auto split: if_splits dest!: inner_only_split intro: inner_only_trans)

lemma insertLeaf_inner_only:
  assumes "insertLeaf a kn w = Some rw"
  shows "inner_only w (snd rw)"
proof (rule insertLeaf.raw_induct [OF _ assms])
  fix rec a kn w rw
  assume IH: "\<And>a kn w rw. rec a kn w = Some rw \<Longrightarrow> inner_only w (snd rw)"
    and run: "do { x \<leftarrow> get_inner w a;
     (if isRoot x \<and> nKeys x = 0 then
        (if nChild x = 0 then do {
           x1 \<leftarrow> append_child (node kn) x;
           Some (None, put_node a (Inner x1) w)
         } else do {
           x1 \<leftarrow> append_key (key kn) x;
           x2 \<leftarrow> append_child (node kn) x1;
           Some (None, put_node a (Inner x2) w) })
      else do {
        pos \<leftarrow> findIndex x (key kn);
        c \<leftarrow> aget (childrens x) pos;
        isl \<leftarrow> ifLeaf w c;
        (newChild, w2) \<leftarrow> (if \<not> isl then do {
            (newChild, w1) \<leftarrow> rec c kn w;
            take_newChild a newChild w1
          } else do {
            x1 \<leftarrow> append_key (key kn) x;
            x2 \<leftarrow> append_child (node kn) x1;
            let w1 = put_node a (Inner x2) w;
            (if nKeys x2 > 2 * degree x2 then InnerNode_split a w1 else Some (None, w1)) });
        grow_root a newChild w2 }) } = Some rw"
  obtain x where x: "get_inner w a = Some x" using run by (auto simp: bind_eq_Some_conv)
  show "inner_only w (snd rw)"
  proof (cases "isRoot x \<and> nKeys x = 0")
    case True
    then show ?thesis using run x by (auto simp: bind_eq_Some_conv split: if_splits intro: inner_only_put)
  next
    case False
    define step where "step c isl = (if \<not> isl then do { (newChild, w1) \<leftarrow> rec c kn w; take_newChild a newChild w1 }
        else do { x1 \<leftarrow> append_key (key kn) x; x2 \<leftarrow> append_child (node kn) x1; let w1 = put_node a (Inner x2) w;
            (if nKeys x2 > 2 * degree x2 then InnerNode_split a w1 else Some (None, w1)) })" for c isl
    obtain c isl nc w2 where s: "step c isl = Some (nc, w2)" "grow_root a nc w2 = Some rw"
      using run unfolding x Option.bind.bind_lunit if_not_P [OF False] step_def [symmetric]
      by (auto simp: bind_eq_Some_conv split_def)
    have "inner_only w w2"
    proof (cases isl)
      case True
      then show ?thesis using s(1) by (auto simp: step_def bind_eq_Some_conv Let_def intro: inner_only_put_split [OF x])
    next
      case False
      then obtain n1 w1 where "rec c kn w = Some (n1, w1)" "take_newChild a n1 w1 = Some (nc, w2)"
        using s(1) by (auto simp: step_def bind_eq_Some_conv)
      then show ?thesis using IH inner_only_take inner_only_trans by (metis snd_conv)
    qed
    moreover have "inner_only w2 (snd rw)" using s(2) inner_only_grow by (metis prod.collapse)
    ultimately show ?thesis by (rule inner_only_trans)
  qed
qed

end
