(* ===== verification/Bulk_Load.thy ===== *)
theory Bulk_Load
  imports Bulk_Insert
begin

text \<open>
  \<open>FPTree::bulkLoading\<close>: the leaves are read back from persistent memory (\<open>LeafNode(PPointer, FPTree*)\<close>
  counts their entries, the loop finds their smallest keys) along the persistent \<open>pNext\<close> and put into a new
  tree. The result holds the entries of all leaves of the chain.
\<close>

section \<open>Reading a leaf back\<close>

lemma leaf_view_inner_only:
  assumes "heap_ok w" and "inner_only w w'"
  shows "leaf_view w' b = leaf_view w b"
proof -
  have "nv w' = nv w" "get_leafnode w' b = get_leafnode w b" using assms by (simp_all add: inner_only_def)
  then show ?thesis by (simp add: leaf_view_def leaf_valid_def cong: if_cong)
qed

text \<open>The entries that \<open>countOneBits\<close> finds in the bitmap.\<close>

lemma countOneBits_byte:
  "uint (countOneBits b) = int (card {j. j < 8 \<and> bit b (7 - j)})"
proof -
  have "ones (unat b) = {i. bit b i}" by (auto simp: ones_def bit_unsigned_iff dest: bit_imp_le_length)
  also have "\<dots> = (\<lambda>j. 7 - j) ` {j. j < 8 \<and> bit b (7 - j)}"
  proof (intro subset_antisym subsetI)
    fix i assume "i \<in> {i. bit b i}"
    then have "i < 8" "bit b i" using bit_imp_le_length [of b i] by simp_all
    then show "i \<in> (\<lambda>j. 7 - j) ` {j. j < 8 \<and> bit b (7 - j)}" by (intro image_eqI [of _ _ "7 - i"]) auto
  qed auto
  finally have o: "ones (unat b) = (\<lambda>j. 7 - j) ` {j. j < 8 \<and> bit b (7 - j)}" .
  have "inj_on (\<lambda>j. 7 - j) {j :: nat. j < 8 \<and> bit b (7 - j)}" by (auto simp: inj_on_def)
  then have "card (ones (unat b)) = card {j. j < 8 \<and> bit b (7 - j)}" unfolding o by (rule card_image)
  moreover have "card {j. j < 8 \<and> bit b (7 - j)} \<le> 8"
    using card_mono [of "{..<8 :: nat}" "{j. j < 8 \<and> bit b (7 - j)}"] by auto
  ultimately show ?thesis
    by (simp add: countOneBits_def count_loop_eq uint_nat unat_of_nat)
qed

lemma count_entries:
  assumes "wf_leaf m"
  shows "for_up 0 (uint bitmap_bytes) (\<lambda>i c. do { b \<leftarrow> rd (bitmap m) i; Some (c + uint (countOneBits b)) }) 0
    = Some (int (length (entries m)))"
proof -
  have len: "length (bitmap m) = 14" using assms by (simp add: wf_leaf_def)
  have bb: "uint bitmap_bytes = 14" by (simp add: bitmap_bytes_def LEAF_DEGREE_def)
  let ?P = "\<lambda>i c. c = int (card {j. j < 8 * nat i \<and> slot_used (bitmap m) j})"
  have step: "{j. j < 8 * Suc n \<and> slot_used (bitmap m) j}
      = {j. j < 8 * n \<and> slot_used (bitmap m) j} \<union> (\<lambda>j. 8 * n + j) ` {j. j < 8 \<and> bit (bitmap m ! n) (7 - j)}" for n
  proof (intro subset_antisym subsetI)
    fix j assume j: "j \<in> {j. j < 8 * Suc n \<and> slot_used (bitmap m) j}"
    show "j \<in> {j. j < 8 * n \<and> slot_used (bitmap m) j} \<union> (\<lambda>j. 8 * n + j) ` {j. j < 8 \<and> bit (bitmap m ! n) (7 - j)}"
    proof (cases "j < 8 * n")
      case False
      then obtain r where "j = 8 * n + r" "r < 8" using j by (auto simp: not_less le_iff_add)
      then show ?thesis using j by (simp add: slot_used_def)
    qed (use j in simp)
  qed (auto simp: slot_used_def)
  have "\<exists>s'. for_up 0 14 (\<lambda>i c. do { b \<leftarrow> rd (bitmap m) i; Some (c + uint (countOneBits b)) }) 0 = Some s' \<and> ?P 14 s'"
  proof (rule for_up_rule)
    fix i c assume i: "0 \<le> i" "i < 14" and P: "?P i c"
    have "card {j. j < 8 * nat (i + 1) \<and> slot_used (bitmap m) j}
        = card {j. j < 8 * nat i \<and> slot_used (bitmap m) j} + card {j. j < 8 \<and> bit (bitmap m ! nat i) (7 - j)}"
    proof -
      have "nat (i + 1) = Suc (nat i)" using i by simp
      then show ?thesis by (simp only: step) (subst card_Un_disjoint, auto simp: card_image)
    qed
    then show "\<exists>s'. (do { b \<leftarrow> rd (bitmap m) i; Some (c + uint (countOneBits b)) }) = Some s' \<and> ?P (i + 1) s'"
      using i P len by (simp add: rd_Some countOneBits_byte)
  qed simp_all
  then show ?thesis by (simp add: bb length_entries used_slots_def)
qed

lemma leaf_minKey_spec:
  assumes "wf_leaf m" and "entries m \<noteq> []"
  obtains k where "leaf_minKey 56 m = Some k" "k \<in> fst ` set (entries m)" "\<And>e. e \<in> set (entries m) \<Longrightarrow> k \<le> fst e"
proof -
  let ?S = "\<lambda>i. {fst (kv m ! j) | j. j < nat i \<and> slot_used (bitmap m) j}"
  let ?P = "\<lambda>i k. (k = MAX_KEY \<or> k \<in> ?S i) \<and> (\<forall>x\<in>?S i. k \<le> x)"
  have len: "length (kv m) = 112" using assms(1) by (simp add: wf_leaf_def)
  have "\<exists>k. leaf_minKey 56 m = Some k \<and> ?P (56 * 2) k"
    unfolding leaf_minKey_def LEAF_DEGREE_def
  proof (rule for_up_rule [where P = ?P])
    fix i k assume i: "0 \<le> i" "i < 56 * 2" and P: "?P i k"
    have S: "?S (i + 1) = ?S i \<union> (if slot_used (bitmap m) (nat i) then {fst (kv m ! nat i)} else {})"
      using i by (auto simp: nat_add_distrib less_Suc_eq)
    have b: "getBit 56 m i = Some (if slot_used (bitmap m) (nat i) then 1 else 0)"
      using getBit_eq [OF assms(1), of "nat i"] i by simp
    show "\<exists>s'. (do { b \<leftarrow> getBit 56 m i; (if b \<noteq> 0 then do { e \<leftarrow> rd (kv m) i; Some (if k \<le> fst e then k else fst e) } else Some k) })
        = Some s' \<and> ?P (i + 1) s'"
      unfolding S using i P b len by (auto simp: rd_Some)
  qed simp_all
  then obtain k where k: "leaf_minKey 56 m = Some k" "k = MAX_KEY \<or> k \<in> ?S 112" "\<forall>x\<in>?S 112. k \<le> x" by auto
  have S: "?S 112 = fst ` set (entries m)" by (auto simp: set_entries set_used_slots)
  have k': "k = MAX_KEY \<or> k \<in> fst ` set (entries m)" "\<forall>x\<in>fst ` set (entries m). k \<le> x"
    using k(2,3) unfolding S by simp_all
  obtain e where e: "e \<in> set (entries m)" using assms(2) by (cases "entries m") auto
  have "k \<in> fst ` set (entries m)"
  proof (cases "k = MAX_KEY")
    case True
    with k'(2) e have "MAX_KEY \<le> fst e" by simp
    then have "fst e = MAX_KEY" by (simp add: MAX_KEY_def word_order.extremum_unique)
    with True e show ?thesis by (metis imageI)
  qed (use k'(1) in simp)
  then show thesis using that k(1) k'(2) by blast
qed

text \<open>A leaf in persistent memory that can be loaded.\<close>

definition stored_leaf :: "leaf_image \<Rightarrow> bool" where
  "stored_leaf m \<longleftrightarrow> leaf_ok m \<and> keys_distinct m \<and> entries m \<noteq> [] \<and> length (entries m) < 112"

lemma loadLeafNode_spec:
  assumes ok: "world_ok w" "links_ok w" and A: "allocator (nv w) = Some A"
    and p: "p \<in> used_set A (dev (nv w))" "leaf_at (dev (nv w)) p = Some m" and m: "stored_leaf m"
    and fresh: "\<And>b l mb. leaf_view w b = Some (l, mb) \<Longrightarrow> pPointer l \<noteq> p"
  obtains w' l where "loadLeafNode E p w = Some (brk w, w')" "world_ok w'" "links_ok w'" "nv w' = nv w" "brk w' = brk w + 1"
    "root w' = root w" "tree_degree w' = tree_degree w" "\<And>c. get_inner w' c = get_inner w c"
    "\<And>b. leaf_view w' b = (if b = brk w then Some (l, m) else leaf_view w b)"
    "good_leaf l m" "next l = NULL" "prev l = NULL" "pPointer l = p"
proof -
  have inv: "palloc_inv A (dev (nv w))" using ok(1) A by (simp add: world_ok_def alloc_ok_def)
  have ex: "ifLeafExist A p" using p(1) by (simp add: used_set_def)
  obtain a where a: "getLeafPmemAddr A p = Some a" "a \<noteq> 0"
    using getLeafPmemAddr_eq [OF inv ex] by (metis take_bit_of_0)
  have wf: "wf_leaf m" using m by (simp add: stored_leaf_def leaf_ok_def)
  define l where "l = \<lparr>degree = LEAF_DEGREE, pmem_addr = a, nEntries = int (length (entries m)), prev = NULL, next = NULL,
      pPointer = p, filePath = DATA_DIR @ to_string (fileId p), bitmapSize = bitmap_bytes\<rparr>"
  define w' where "w' = w\<lparr>heap := (heap w)(brk w \<mapsto> Leaf l), brk := brk w + 1\<rparr>"
  have run: "loadLeafNode E p w = Some (brk w, w')"
    using A a p(2) count_entries [OF wf]
    by (simp add: loadLeafNode_def getAllocator_def leaf_mem_def leaf_valid_def leaf_at_def alloc_def w'_def l_def)
  have hb: "heap w (brk w) = None" using ok(1) by (simp add: world_ok_def heap_ok_def)
  have view: "leaf_view w' b = (if b = brk w then Some (l, m) else leaf_view w b)" for b
  proof (cases "b = brk w")
    case True
    then show ?thesis using A a p by (simp add: leaf_view_def get_leafnode_def leaf_valid_def w'_def l_def)
  next
    case False
    then show ?thesis using leaf_view_cong [of w' b w] by (simp add: w'_def)
  qed
  have "views_inj w'"
    unfolding views_inj_def view using fresh ok(1)
    by (auto simp: l_def world_ok_def dest: views_injD split: if_splits)
  moreover have "all_views w'" using ok(1) by (simp add: all_views_def world_ok_def view) (simp add: w'_def)
  moreover have "heap_ok w'" using ok(1) by (auto simp: world_ok_def heap_ok_def w'_def)
  ultimately have "world_ok w'" using ok(1) by (simp add: world_ok_def alloc_ok_def w'_def)
  moreover have "links_ok w'"
  proof -
    have "leaf_links w' = (leaf_links w)(brk w \<mapsto> (NULL, NULL))" by (auto simp: leaf_links_def view l_def)
    then show ?thesis using dll_new [of "leaf_links w" "brk w"] ok hb
      by (simp add: links_ok_def leaf_links_None world_ok_def heap_ok_def leaf_view_def get_leafnode_def)
  qed
  moreover have "get_inner w' c = get_inner w c" for c using hb by (simp add: get_inner_def w'_def)
  moreover have "good_leaf l m" using m by (simp add: good_leaf_def stored_leaf_def l_def)
  ultimately show thesis using that [OF run _ _ _ _ _ _ _ view] by (simp add: l_def w'_def)
qed

text \<open>One round of the loop of \<open>bulkLoading\<close>, up to \<open>insertLeaf\<close>.\<close>

definition load_leaf :: "env \<Rightarrow> PPointer \<Rightarrow> addr \<Rightarrow> world \<Rightarrow> (addr \<times> u64 \<times> world) option" where
  "load_leaf E ppt old_leaf w = do {
     (leaf, w1) \<leftarrow> loadLeafNode E ppt w;
     l \<leftarrow> get_leafnode w1 leaf;
     m \<leftarrow> leaf_mem l w1;
     minKey \<leftarrow> leaf_minKey (degree l) m;
     let w2 = put_node leaf (Leaf (l\<lparr>prev := old_leaf\<rparr>)) w1;
     w3 \<leftarrow> (if old_leaf \<noteq> NULL then do {
              ol \<leftarrow> get_leafnode w2 old_leaf;
              Some (put_node old_leaf (Leaf (ol\<lparr>next := leaf\<rparr>)) w2)
            } else Some w2);
     Some (leaf, minKey, w3) }"

lemma bulkLoading_loop_eq:
  assumes "allocator (nv w) = Some A" and "ifLeafUsed A (dev (nv w)) ppt = Some u"
  shows "bulkLoading_loop E ppt old w = (if \<not> u then Some w else do {
     (leaf, minKey, w3) \<leftarrow> load_leaf E ppt old w;
     (r, w4) \<leftarrow> insertLeaf (root w3) \<lparr>key = minKey, node = leaf\<rparr> w3;
     l4 \<leftarrow> get_leafnode w4 leaf;
     m4 \<leftarrow> leaf_mem l4 w4;
     bulkLoading_loop E (pNext m4) leaf w4 })"
  using assms by (subst bulkLoading_loop.simps) (simp add: load_leaf_def Option.bind_assoc split_def Let_def)

lemma good_leaf_next [simp]: "good_leaf (l\<lparr>next := p\<rparr>) m = good_leaf l m"
  by (simp add: good_leaf_def)

lemma load_leaf_spec:
  assumes ok: "world_ok w" "links_ok w" and A: "allocator (nv w) = Some A"
    and p: "p \<in> used_set A (dev (nv w))" "leaf_at (dev (nv w)) p = Some m" and m: "stored_leaf m"
    and fresh: "\<And>b l mb. leaf_view w b = Some (l, mb) \<Longrightarrow> pPointer l \<noteq> p"
    and old: "old = NULL \<or> (\<exists>q. leaf_links w old = Some (q, NULL))"
  obtains k w' l where "load_leaf E p old w = Some (brk w, k, w')" "evolves {} w w'" "nv w' = nv w" "root w' = root w"
    "\<forall>c. get_inner w' c = get_inner w c"
    "leaf_view w' (brk w) = Some (l, m)" "pPointer l = p" "good_leaf l m" "next l = NULL"
    "\<forall>b lb mb. leaf_view w' b = Some (lb, mb) \<longrightarrow> b = brk w \<or> (\<exists>l0. leaf_view w b = Some (l0, mb) \<and> pPointer lb = pPointer l0)"
    "k \<in> fst ` set (entries m)" "\<forall>e\<in>set (entries m). k \<le> fst e"
proof -
  have wf: "wf_leaf m" and ne: "entries m \<noteq> []" using m by (simp_all add: stored_leaf_def leaf_ok_def)
  obtain w1 l where L: "loadLeafNode E p w = Some (brk w, w1)" "world_ok w1" "links_ok w1" "nv w1 = nv w" "brk w1 = brk w + 1"
    "root w1 = root w" "tree_degree w1 = tree_degree w" "\<And>c. get_inner w1 c = get_inner w c"
    "\<And>b. leaf_view w1 b = (if b = brk w then Some (l, m) else leaf_view w b)"
    "good_leaf l m" "next l = NULL" "prev l = NULL" "pPointer l = p"
    by (rule loadLeafNode_spec [OF ok A p m fresh]) blast+
  obtain k where k: "leaf_minKey 56 m = Some k" "k \<in> fst ` set (entries m)" "\<And>e. e \<in> set (entries m) \<Longrightarrow> k \<le> fst e"
    by (rule leaf_minKey_spec [OF wf ne]) blast
  let ?b = "brk w" and ?l = "l\<lparr>prev := old\<rparr>"
  have vb: "leaf_view w1 ?b = Some (l, m)" by (simp add: L(9))
  have sp: "same_place ?l l" by simp
  note v2 = put_leaf_views [OF L(2) vb sp]
  let ?w2 = "put_node ?b (Leaf ?l) w1"
  have hb: "leaf_view w ?b = None" using ok(1) by (simp add: world_ok_def heap_ok_def leaf_view_def get_leafnode_def)
  have view2: "leaf_view ?w2 c = (if c = ?b then Some (?l, m) else leaf_view w c)" for c using v2(2) [of c] L(9) [of c] by simp
  have h0: "leaf_view w NULL = None" using ok(1) by (simp add: world_ok_def heap_ok_def leaf_view_def get_leafnode_def)
  obtain w3 where w3: "(if old \<noteq> NULL then do { ol \<leftarrow> get_leafnode ?w2 old; Some (put_node old (Leaf (ol\<lparr>next := ?b\<rparr>)) ?w2) } else Some ?w2) = Some w3"
    "world_ok w3" "links_ok w3" "nv w3 = nv w" "brk w3 = brk w + 1" "root w3 = root w" "tree_degree w3 = tree_degree w"
    "\<And>c. get_inner w3 c = get_inner w c"
    "\<And>c. leaf_view w3 c = (if c = ?b then Some (?l, m) else if c = old then map_option (\<lambda>(x, mx). (x\<lparr>next := ?b\<rparr>, mx)) (leaf_view w c) else leaf_view w c)"
  proof (cases "old = NULL")
    case True
    have "?w2 = w1" using True L(12) leaf_viewD(1) [OF vb] by (simp add: put_node_triv)
    then show thesis using L True view2 h0 by (intro that [of ?w2]) auto
  next
    case False
    then obtain ol mo where ol: "leaf_view w old = Some (ol, mo)" "next ol = NULL" using old by (auto simp: leaf_links_def)
    have ob: "old \<noteq> ?b" using ol(1) hb by auto
    have ol2: "leaf_view ?w2 old = Some (ol, mo)" using view2 ol(1) ob by simp
    have so: "same_place (ol\<lparr>next := ?b\<rparr>) ol" by simp
    note v3 = put_leaf_views [OF v2(1) ol2 so]
    let ?w3 = "put_node old (Leaf (ol\<lparr>next := ?b\<rparr>)) ?w2"
    have view3: "leaf_view ?w3 c = (if c = ?b then Some (?l, m) else if c = old then Some (ol\<lparr>next := ?b\<rparr>, mo) else leaf_view w c)" for c
      using v3(2) [of c] view2 [of c] ob by auto
    have "leaf_links ?w3 = link_after old ?b (leaf_links w)"
      using ol ob L(11) h0 by (auto simp: leaf_links_def link_after_def view3)
    then have "links_ok ?w3"
      using dll_after [of "leaf_links w" old "prev ol" "next ol" ?b] ok ol(1) hb
      by (simp add: links_ok_def leaf_links_None leaf_links_view world_ok_def heap_ok_def)
    then show thesis
      by (intro that [of ?w3]) (use False leaf_viewD(2) [OF ol2] v3(1,3) v2(3) L view3 ol(1) in auto)
  qed
  have "leaf_mem l w1 = Some m" "get_leafnode w1 ?b = Some l" "degree l = 56"
    using leaf_viewD [OF vb] L(10) by (simp_all add: good_leaf_def LEAF_DEGREE_def)
  then have run: "load_leaf E p old w = Some (?b, k, w3)" using L(1) k(1) w3(1) by (simp add: load_leaf_def)
  have "leaf_data w3 c = leaf_data w c" if "c < ?b" for c
    using that by (auto simp: leaf_data_def w3(9) split: option.splits)
  then have ev: "evolves {} w w3" using w3 by (simp add: evolves_def same_nodes_def)
  have inv: "b = ?b \<or> (\<exists>l0. leaf_view w b = Some (l0, mb) \<and> pPointer lb = pPointer l0)" if "leaf_view w3 b = Some (lb, mb)" for b lb mb
    using that unfolding w3(9) by (auto split: if_splits)
  show thesis
    by (rule that [of k w3 ?l, OF run ev w3(4,6) _ _ _ _ _ _ k(2)]) (use w3(8,9) inv L(10,11,13) k(3) in auto)
qed

section \<open>The chain of leaves\<close>

text \<open>
  The leaves that \<open>bulkLoading\<close> visits: from \<open>p\<close> along the persistent \<open>pNext\<close> to the first pointer that is
  not that of a leaf in use. \<open>chain_ok\<close>: they can be loaded, and the keys grow from leaf to leaf.
\<close>

fun chain :: "PAllocator \<Rightarrow> device \<Rightarrow> PPointer \<Rightarrow> (PPointer \<times> leaf_image) list \<Rightarrow> bool" where
  "chain A dv p [] \<longleftrightarrow> p \<notin> used_set A dv"
| "chain A dv p ((q, m) # cs) \<longleftrightarrow> q = p \<and> p \<in> used_set A dv \<and> leaf_at dv p = Some m \<and> chain A dv (pNext m) cs"

definition leaf_less :: "leaf_image \<Rightarrow> leaf_image \<Rightarrow> bool" where
  "leaf_less m m' \<longleftrightarrow> (\<forall>e\<in>set (entries m). \<forall>e'\<in>set (entries m'). fst e < fst e')"

definition chain_ok :: "(PPointer \<times> leaf_image) list \<Rightarrow> bool" where
  "chain_ok cs \<longleftrightarrow> (\<forall>c\<in>set cs. stored_leaf (snd c)) \<and> sorted_wrt leaf_less (map snd cs)"

definition chain_entries :: "(PPointer \<times> leaf_image) list \<Rightarrow> (u64 \<times> u64) set" where
  "chain_entries cs = (\<Union>c\<in>set cs. set (entries (snd c)))"

lemma chain_entries_simps [simp]:
  "chain_entries [] = {}" "chain_entries (c # cs) = set (entries (snd c)) \<union> chain_entries cs"
  by (simp_all add: chain_entries_def)

lemma chain_at: "chain A dv p cs \<Longrightarrow> c \<in> set cs \<Longrightarrow> fst c \<in> used_set A dv \<and> leaf_at dv (fst c) = Some (snd c)"
  by (induction A dv p cs rule: chain.induct) auto

lemma chain_ok_fresh:
  assumes "chain A dv p (c # cs)" and "chain_ok (c # cs)"
  shows "fst c \<notin> fst ` set cs"
proof
  assume "fst c \<in> fst ` set cs"
  then obtain c' where c': "c' \<in> set cs" "fst c' = fst c" by auto
  have "leaf_at dv (fst c) = Some (snd c)" "leaf_at dv (fst c') = Some (snd c')"
    using chain_at [OF assms(1), of c] chain_at [OF assms(1), of c'] c'(1) by simp_all
  then have "snd c' = snd c" using c'(2) by simp
  then have "leaf_less (snd c) (snd c)" "entries (snd c) \<noteq> []"
    using assms(2) c'(1) by (auto simp: chain_ok_def stored_leaf_def)
  then show False by (cases "entries (snd c)") (auto simp: leaf_less_def)
qed

lemma root_frame:
  assumes r: "root_ok w d h ks ts" and ev: "evolves {} w w'" and i: "root w' = root w" "get_inner w' (root w) = get_inner w (root w)"
  shows "root_ok w' d h ks ts" and "forest_of w' ts = forest_of w ts" and "set (addrs_of ts) \<subseteq> {..<brk w}"
    and "ts \<noteq> [] \<Longrightarrow> kids (tree_ok w d h) lo hi ks ts \<Longrightarrow> kids (tree_ok w' d h) lo hi ks ts"
proof -
  have ok: "world_ok w" using r by (simp add: root_ok_def)
  show old: "set (addrs_of ts) \<subseteq> {..<brk w}"
    using r addrs_of_brk [OF ok, of ts] kids_all by (cases "ts = []") (fastforce simp: root_ok_def)+
  have fr: "same_nodes (set (addrs_of ts)) w w'" using ev old by (auto simp: evolves_def intro: same_nodes_subset)
  note f = kids_frame [OF _ fr]
  show "kids (tree_ok w' d h) lo hi ks ts" if "kids (tree_ok w d h) lo hi ks ts" for lo hi using that by (rule f(1))
  show "forest_of w' ts = forest_of w ts" using r f(2) by (cases "ts = []") (auto simp: root_ok_def)
  show "root_ok w' d h ks ts" using r i f(1) evolves_world [OF ev] by (auto simp: root_ok_def)
qed

lemma bulk_step:
  assumes b: "bulk_ok w d hi S" and A: "allocator (nv w) = Some A"
    and p: "p \<in> used_set A (dev (nv w))" "leaf_at (dev (nv w)) p = Some m" and m: "stored_leaf m"
    and fresh: "\<And>b l mb. leaf_view w b = Some (l, mb) \<Longrightarrow> pPointer l \<noteq> p"
    and old: "old = NULL \<or> (\<exists>q. leaf_links w old = Some (q, NULL))" and hi: "\<And>e. e \<in> set (entries m) \<Longrightarrow> hi \<le> uint (fst e)"
  obtains w' hi' where "bulkLoading_loop E p old w = bulkLoading_loop E (pNext m) (brk w) w'" "nv w' = nv w"
    "bulk_ok w' d hi' (set (entries m) \<union> S)" "\<forall>x. (\<forall>e\<in>set (entries m). uint (fst e) < x) \<longrightarrow> hi' \<le> x"
    "\<exists>q. leaf_links w' (brk w) = Some (q, NULL)"
    "\<forall>b lb mb. leaf_view w' b = Some (lb, mb) \<longrightarrow> pPointer lb = p \<or> (\<exists>l0. leaf_view w b = Some (l0, mb) \<and> pPointer lb = pPointer l0)"
proof -
  obtain h ks ts where r: "root_ok w d h ks ts" "forest_of w ts = S" "ts \<noteq> [] \<longrightarrow> kids (tree_ok w d h) 0 hi ks ts"
    using b by (auto simp: bulk_ok_def)
  have ok: "world_ok w" "links_ok w" using r(1) by (simp_all add: root_ok_def)
  have inv: "palloc_inv A (dev (nv w))" using ok(1) A by (simp add: world_ok_def alloc_ok_def)
  obtain w3 l k where L: "load_leaf E p old w = Some (brk w, k, w3)" "evolves {} w w3" "nv w3 = nv w" "root w3 = root w"
    "\<forall>c. get_inner w3 c = get_inner w c" "leaf_view w3 (brk w) = Some (l, m)" "pPointer l = p" "good_leaf l m" "next l = NULL"
    "\<forall>b lb mb. leaf_view w3 b = Some (lb, mb) \<longrightarrow> b = brk w \<or> (\<exists>l0. leaf_view w b = Some (l0, mb) \<and> pPointer lb = pPointer l0)"
    "k \<in> fst ` set (entries m)" "\<forall>e\<in>set (entries m). k \<le> fst e"
    by (rule load_leaf_spec [where E = E, OF ok A p m fresh old]) blast
  note f = root_frame [OF r(1) L(2,4) L(5) [rule_format]]
  let ?kn = "\<lparr>key = k, node = brk w\<rparr>" and ?hi = "Max (uint ` fst ` set (entries m)) + 1"
  have mx: "uint (fst e) < ?hi" if "e \<in> set (entries m)" for e
    using Max_ge [of "uint ` fst ` set (entries m)" "uint (fst e)"] that by auto
  have kids: "ts \<noteq> [] \<longrightarrow> kids (tree_ok w3 d h) 0 (uint k) ks ts"
    using r(3) f(4) kids_tree_hi [of w3 d h 0 hi ks ts "uint k"] L(11) hi by fastforce
  obtain m' where m': "leaf_data w3 (brk w) = Some m'" "set (entries m') = set (entries m)"
    using leaf_dataI [OF L(6,8)] by blast
  have "uint k < ?hi" using L(11) mx by auto
  then have ld: "loaded w3 ?kn ?hi"
    using m' L(12) mx by (auto simp: loaded_def word_le_def)
  have nk: "node ?kn \<notin> set (addrs_of ts)" using f(3) by auto
  have ne: "entries m \<noteq> []" using m by (simp add: stored_leaf_def)
  have up: "?hi \<le> x" if "\<And>e. e \<in> set (entries m) \<Longrightarrow> uint (fst e) < x" for x
  proof -
    have "Max (uint ` fst ` set (entries m)) < x" using that ne by (subst Max_less_iff) auto
    then show ?thesis by simp
  qed
  have "?hi \<le> KEYS" by (rule up) simp
  then obtain w4 where i: "insertLeaf (root w3) ?kn w3 = Some (None, w4)" "bulk_ok w4 d ?hi (leaf_set w3 (node ?kn) \<union> forest_of w3 ts)"
    using root_append [OF f(1) _ ld nk] kids by (metis KeyNode.select_convs(1))
  have io: "inner_only w3 w4" using insertLeaf_inner_only [OF i(1)] by simp
  have hok: "heap_ok w3" using L(2) by (simp add: evolves_def world_ok_def)
  have v4: "leaf_view w4 b = leaf_view w3 b" for b by (rule leaf_view_inner_only [OF hok io])
  have vb: "leaf_view w4 (brk w) = Some (l, m)" using v4 L(6) by simp
  have run: "bulkLoading_loop E p old w = bulkLoading_loop E (pNext m) (brk w) w4"
    using bulkLoading_loop_eq [OF A ifLeafUsed_eq [OF inv], of E p old] p(1) L(1) i(1) leaf_viewD(2,4) [OF vb] by simp
  show thesis
  proof (rule that [of w4 ?hi, OF run])
    show "nv w4 = nv w" using io L(3) by (simp add: inner_only_def)
    show "bulk_ok w4 d ?hi (set (entries m) \<union> S)" using i(2) f(2) r(2) m' by (simp add: leaf_set_def)
    show "\<exists>q. leaf_links w4 (brk w) = Some (q, NULL)" using vb L(9) by (simp add: leaf_links_def)
    show "\<forall>b lb mb. leaf_view w4 b = Some (lb, mb) \<longrightarrow> pPointer lb = p \<or> (\<exists>l0. leaf_view w b = Some (l0, mb) \<and> pPointer lb = pPointer l0)"
      unfolding v4 using L(6,7,10) by (metis option.inject prod.inject)
    show "\<forall>x. (\<forall>e\<in>set (entries m). uint (fst e) < x) \<longrightarrow> ?hi \<le> x" using up by blast
  qed
qed

lemma bulkLoading_loop_spec:
  "chain A (dev (nv w)) p cs \<Longrightarrow> chain_ok cs \<Longrightarrow> bulk_ok w d hi S \<Longrightarrow> allocator (nv w) = Some A \<Longrightarrow>
    (\<And>e. e \<in> chain_entries cs \<Longrightarrow> hi \<le> uint (fst e)) \<Longrightarrow>
    (\<And>b l mb. leaf_view w b = Some (l, mb) \<Longrightarrow> pPointer l \<notin> fst ` set cs) \<Longrightarrow> old = NULL \<or> (\<exists>q. leaf_links w old = Some (q, NULL)) \<Longrightarrow>
    \<exists>w' hi'. bulkLoading_loop E p old w = Some w' \<and> bulk_ok w' d hi' (chain_entries cs \<union> S) \<and> nv w' = nv w
      \<and> (\<forall>b l mb. leaf_view w' b = Some (l, mb) \<longrightarrow>
        pPointer l \<in> fst ` set cs \<or> (\<exists>l0. leaf_view w b = Some (l0, mb) \<and> pPointer l = pPointer l0))"
proof (induction cs arbitrary: w p hi S old)
  case Nil
  then have "palloc_inv A (dev (nv w))" by (auto simp: bulk_ok_def root_ok_def world_ok_def alloc_ok_def)
  then show ?case using bulkLoading_loop_eq [OF Nil(4) ifLeafUsed_eq, where E = E and old = old] Nil(1,3) by auto
next
  case (Cons c cs)
  obtain q m where c: "c = (q, m)" by (cases c)
  then have ch: "q = p" "p \<in> used_set A (dev (nv w))" "leaf_at (dev (nv w)) p = Some m" "chain A (dev (nv w)) (pNext m) cs"
    using Cons.prems(1) by auto
  have m: "stored_leaf m" and cs: "chain_ok cs" and less: "\<And>c. c \<in> set cs \<Longrightarrow> leaf_less m (snd c)"
    using Cons.prems(2) c by (auto simp: chain_ok_def)
  obtain w' hi' where s: "bulkLoading_loop E p old w = bulkLoading_loop E (pNext m) (brk w) w'" "nv w' = nv w"
    "bulk_ok w' d hi' (set (entries m) \<union> S)" "\<forall>x. (\<forall>e\<in>set (entries m). uint (fst e) < x) \<longrightarrow> hi' \<le> x"
    "\<exists>q. leaf_links w' (brk w) = Some (q, NULL)"
    "\<forall>b lb mb. leaf_view w' b = Some (lb, mb) \<longrightarrow> pPointer lb = p \<or> (\<exists>l0. leaf_view w b = Some (l0, mb) \<and> pPointer lb = pPointer l0)"
  proof (rule bulk_step [where E = E, OF Cons.prems(3,4) ch(2,3) m _ Cons.prems(7)])
    show "pPointer l \<noteq> p" if "leaf_view w b = Some (l, mb)" for b l mb using Cons.prems(6) [OF that] c ch(1) by auto
    show "hi \<le> uint (fst e)" if "e \<in> set (entries m)" for e using Cons.prems(5) that c by simp
  qed blast
  have pf: "p \<notin> fst ` set cs" using chain_ok_fresh [OF Cons.prems(1,2)] c ch(1) by simp
  have "\<exists>w2 hi2. bulkLoading_loop E (pNext m) (brk w) w' = Some w2 \<and> bulk_ok w2 d hi2 (chain_entries cs \<union> (set (entries m) \<union> S)) \<and> nv w2 = nv w'
      \<and> (\<forall>b l mb. leaf_view w2 b = Some (l, mb) \<longrightarrow>
        pPointer l \<in> fst ` set cs \<or> (\<exists>l0. leaf_view w' b = Some (l0, mb) \<and> pPointer l = pPointer l0))"
  proof (rule Cons.IH [OF _ cs s(3)])
    show "chain A (dev (nv w')) (pNext m) cs" "allocator (nv w') = Some A" using ch(4) s(2) Cons.prems(4) by simp_all
    show "hi' \<le> uint (fst e)" if "e \<in> chain_entries cs" for e
      by (rule s(4) [rule_format]) (use that less in \<open>auto simp: chain_entries_def leaf_less_def word_less_def\<close>)
    show "pPointer l \<notin> fst ` set cs" if "leaf_view w' b = Some (l, mb)" for b l mb
    proof (cases "pPointer l = p")
      case False
      then obtain l0 where "leaf_view w b = Some (l0, mb)" "pPointer l = pPointer l0" using s(6) \<open>leaf_view w' b = Some (l, mb)\<close> by blast
      then show ?thesis using Cons.prems(6) by simp
    qed (use pf in simp)
    show "brk w = NULL \<or> (\<exists>q. leaf_links w' (brk w) = Some (q, NULL))" using s(5) by simp
  qed
  then obtain w2 hi2 where r: "bulkLoading_loop E (pNext m) (brk w) w' = Some w2"
    "bulk_ok w2 d hi2 (chain_entries cs \<union> (set (entries m) \<union> S))" "nv w2 = nv w'"
    "\<forall>b l mb. leaf_view w2 b = Some (l, mb) \<longrightarrow>
        pPointer l \<in> fst ` set cs \<or> (\<exists>l0. leaf_view w' b = Some (l0, mb) \<and> pPointer l = pPointer l0)" by blast
  have "pPointer l \<in> fst ` set (c # cs) \<or> (\<exists>l0. leaf_view w b = Some (l0, mb) \<and> pPointer l = pPointer l0)"
    if "leaf_view w2 b = Some (l, mb)" for b l mb
    using r(4) [rule_format, OF that] s(6) c ch(1) by force
  then show ?case using r(1-3) s(1,2) c by (auto simp: Un_ac)
qed


text \<open>\<open>bulkLoading\<close> and the constructor of the tree.\<close>

lemma bulk_represents:
  assumes "bulk_ok w d hi S" and "\<And>k v. M k = Some v \<longleftrightarrow> (k, v) \<in> S"
  shows "represents w d M"
  using assms unfolding bulk_ok_def represents_def by blast

lemma recover_spec:
  assumes ok: "world_ok w" "links_ok w" and A: "allocator (nv w) = Some A"
    and ch: "chain A (dev (nv w)) (startLeaf A) cs" "chain_ok cs" and none: "\<And>a. leaf_view w a = None"
    and d: "1 \<le> d" "d < 2 ^ 29 - 1" and M: "\<And>k v. M k = Some v \<longleftrightarrow> (k, v) \<in> chain_entries cs"
  obtains w' where "newFPTree E (of_nat d) w = Some w'" "represents w' d M" "nv w' = nv w"
    "\<forall>b l mb. leaf_view w' b = Some (l, mb) \<longrightarrow> pPointer l \<in> fst ` set cs"
proof -
  obtain w1 where w1: "newFPTree E (of_nat d) w = do { (b, w2) \<leftarrow> bulkLoading E w1; Some w2 }" "root_ok w1 d 0 [] []"
    "nv w1 = nv w" "\<forall>c. leaf_view w1 c = leaf_view w c"
    by (rule newFPTree_root [where E = E, OF ok d]) blast
  have "bulk_ok w1 d 0 {}" using w1(2) unfolding bulk_ok_def by force
  note n = w1(1,3,4) this
  have inv: "palloc_inv A (dev (nv w))" using ok(1) A by (simp add: world_ok_def alloc_ok_def)
  obtain w' hi where l: "bulkLoading_loop E (startLeaf A) NULL w1 = Some w'" "bulk_ok w' d hi (chain_entries cs \<union> {})" "nv w' = nv w1"
    "\<forall>b l mb. leaf_view w' b = Some (l, mb) \<longrightarrow>
      pPointer l \<in> fst ` set cs \<or> (\<exists>l0. leaf_view w1 b = Some (l0, mb) \<and> pPointer l = pPointer l0)"
    using bulkLoading_loop_spec [of A w1 "startLeaf A" cs d 0 "{}" NULL E] ch n A none by auto
  have "bulkLoading_loop E (startLeaf A) NULL w1 = Some w1" if "startLeaf A \<notin> used_set A (dev (nv w))"
    using bulkLoading_loop_eq [of w1 A "startLeaf A" False E NULL] that A n(2) ifLeafUsed_eq [OF inv] by simp
  then have "bulkLoading E w1 = Some (False, w')"
    using l(1) A ifLeafUsed_eq [OF inv, of "startLeaf A"] unfolding n(2) [symmetric]
    by (auto simp: bulkLoading_def getAllocator_def Let_def)
  then have "newFPTree E (of_nat d) w = Some w'" using n(1) by simp
  moreover have "represents w' d M" by (rule bulk_represents [OF l(2)]) (simp add: M)
  ultimately show thesis using that l(3,4) n(2,3) none by simp
qed

end
