(* ===== verification/Leaf_Chain.thy ===== *)
theory Leaf_Chain
  imports Bulk_Load
begin

text \<open>
  The leaves in persistent memory as a linked list. \<open>linked\<close> follows \<open>pNext\<close>, \<open>view_set\<close> is the set of
  leaves the program has, each with its address in persistent memory; an insertion replaces one of them by
  itself with one more entry, or by two leaves linked one after the other (\<open>leaf_grows\<close>).
\<close>

section \<open>Chains of leaves\<close>

text \<open>\<open>linked p cs q\<close>: the leaves \<open>cs\<close> lead from \<open>p\<close> along \<open>pNext\<close> to \<open>q\<close>.\<close>

fun linked :: "PPointer \<Rightarrow> (PPointer \<times> leaf_image) list \<Rightarrow> PPointer \<Rightarrow> bool" where
  "linked p [] q \<longleftrightarrow> p = q"
| "linked p ((r, m) # cs) q \<longleftrightarrow> r = p \<and> linked (pNext m) cs q"

lemma linked_append: "linked p (cs @ ds) q \<longleftrightarrow> (\<exists>r. linked p cs r \<and> linked r ds q)"
  by (induction p cs q rule: linked.induct) auto

lemma linked_replace:
  assumes "linked p (cs1 @ (r, m) # cs2) q" and "linked r new (pNext m)"
  shows "linked p (cs1 @ new @ cs2) q"
  using assms by (auto simp: linked_append)

lemma linked_chain:
  assumes "linked p cs q" and "q \<notin> used_set A dv" and "\<forall>c\<in>set cs. fst c \<in> used_set A dv \<and> leaf_at dv (fst c) = Some (snd c)"
  shows "chain A dv p cs"
  using assms by (induction p cs q rule: linked.induct) auto

lemma null_unused: "nullPPointer \<notin> used_set A dv"
  by (simp add: used_set_def ifLeafExist_def ILLEGAL_FILE_ID_def)

text \<open>The order of two leaves is that of any keys they had before.\<close>

lemma leaf_less_keep:
  assumes "leaf_less m n" and "set (entries m) \<inter> set (entries m') \<noteq> {}" and "set (entries n) \<inter> set (entries n') \<noteq> {}"
    and "leaf_less m' n' \<or> leaf_less n' m'"
  shows "leaf_less m' n'"
  using assms unfolding leaf_less_def by (meson IntE ex_in_conv less_asym)

lemma chain_entries_append [simp]: "chain_entries (cs @ ds) = chain_entries cs \<union> chain_entries ds"
  by (auto simp: chain_entries_def)

lemma leaf_less_disjoint: "leaf_less m n \<Longrightarrow> set (entries m) \<inter> set (entries n) = {}"
  by (fastforce simp: leaf_less_def)

lemma chain_ok_disjoint:
  assumes "chain_ok cs" and "c \<in> set cs" and "c' \<in> set cs" and "e \<in> set (entries (snd c))" and "e \<in> set (entries (snd c'))"
  shows "c = c'"
proof (rule ccontr)
  assume ne: "c \<noteq> c'"
  have "leaf_less (snd x) (snd y) \<or> leaf_less (snd y) (snd x)" if xy: "x \<in> set cs" "y \<in> set cs" "x \<noteq> y" for x y
  proof -
    obtain i j where ij: "i < length cs" "j < length cs" "cs ! i = x" "cs ! j = y" using xy(1,2) unfolding in_set_conv_nth by blast
    then have "i \<noteq> j" using xy(3) by auto
    moreover have "leaf_less (snd (cs ! i)) (snd (cs ! j))" if "i < j" "j < length cs" for i j
      using assms(1) that by (auto simp: chain_ok_def sorted_wrt_iff_nth_less)
    ultimately show ?thesis using ij by (metis linorder_neq_iff)
  qed
  from this [OF assms(2,3) ne] show False using assms(4,5) leaf_less_disjoint by blast
qed

lemma chain_ok_append:
  "chain_ok (cs @ ds) \<longleftrightarrow> chain_ok cs \<and> chain_ok ds \<and> (\<forall>c\<in>set cs. \<forall>d\<in>set ds. leaf_less (snd c) (snd d))"
  by (auto simp: chain_ok_def sorted_wrt_append)

text \<open>One leaf is replaced by others that take over its keys.\<close>

lemma chain_ok_replace:
  assumes ok: "chain_ok (cs1 @ (r, m) # cs2)" and new: "chain_ok new"
    and keep: "\<forall>c\<in>set new. set (entries m) \<inter> set (entries (snd c)) \<noteq> {}"
    and cmp: "\<And>c c'. c \<in> set new \<Longrightarrow> c' \<in> set cs1 \<union> set cs2 \<Longrightarrow> leaf_less (snd c) (snd c') \<or> leaf_less (snd c') (snd c)"
  shows "chain_ok (cs1 @ new @ cs2)"
proof -
  have o: "chain_ok cs1" "chain_ok cs2" "\<forall>c\<in>set cs1. leaf_less (snd c) m" "\<forall>c\<in>set cs2. leaf_less m (snd c)"
    "\<forall>c\<in>set cs1. \<forall>d\<in>set cs2. leaf_less (snd c) (snd d)"
    using ok by (auto simp: chain_ok_def sorted_wrt_append)
  have ne: "set (entries (snd c)) \<inter> set (entries (snd c)) \<noteq> {}" if "c \<in> set cs1 \<union> set cs2" for c
    using that o(1,2) by (auto simp: chain_ok_def stored_leaf_def)
  have "leaf_less (snd c) (snd c')" if "c \<in> set cs1" "c' \<in> set new" for c c'
    by (rule leaf_less_keep [of "snd c" m]) (use that o(3) ne keep cmp [of c' c] in auto)
  moreover have "leaf_less (snd c') (snd c)" if "c \<in> set cs2" "c' \<in> set new" for c c'
    by (rule leaf_less_keep [of m "snd c"]) (use that o(4) ne keep cmp [of c' c] in auto)
  ultimately show ?thesis using o new by (simp add: chain_ok_append ball_Un)
qed

section \<open>The leaves of the tree\<close>

fun gleaves :: "gtree \<Rightarrow> addr set" where
  "gleaves (GLeaf a) = {a}"
| "gleaves (GNode a ks ts) = (\<Union>t\<in>set ts. gleaves t)"

lemma tset_gleaves: "tset w t = (\<Union>a\<in>gleaves t. leaf_set w a)"
  by (induction t) (auto simp: tset_GNode forest_of_def)

definition leaf_before :: "world \<Rightarrow> addr \<Rightarrow> addr \<Rightarrow> bool" where
  "leaf_before w a b \<longleftrightarrow> (\<forall>e\<in>leaf_set w a. \<forall>e'\<in>leaf_set w b. fst e < fst e')"

text \<open>Any two leaves of the tree are in order.\<close>

lemma kids_before:
  assumes "kids (tree_ok w d h) lo hi ks ts" and "s \<in> set ts" and "s' \<in> set ts" and "s \<noteq> s'"
  shows "(\<forall>e\<in>tset w s. \<forall>e'\<in>tset w s'. fst e < fst e') \<or> (\<forall>e\<in>tset w s'. \<forall>e'\<in>tset w s. fst e < fst e')"
  using assms
proof (induction "tree_ok w d h" lo hi ks ts rule: kids.induct)
  case (2 lo hi k ks t ts)
  have first: "\<forall>e\<in>tset w t. \<forall>e'\<in>tset w u. fst e < fst e'" if u: "u \<in> set ts" for u
  proof (intro ballI)
    fix e e' assume e: "e \<in> tset w t" "e' \<in> tset w u"
    have "uint (fst e) < uint k" using tree_ok_tset [of w d h lo "uint k" t e] 2(2) e(1) by simp
    moreover have "e' \<in> tset w (GNode 0 ks ts)" using e(2) u by (auto simp: tset_GNode forest_of_def)
    have "uint k \<le> uint (fst e')"
    proof -
      have k2: "kids (tree_ok w d h) (uint k) hi ks ts" using 2(2) by simp
      obtain t0 ts0 where ts0: "ts = t0 # ts0" using u by (cases ts) auto
      have t0: "tree_ok w d h (uint k) (ub hi ks) t0" and r: "rights (tree_ok w d h) hi ks ts0"
        using k2 unfolding ts0 kids_rights by blast+
      show ?thesis
      proof (cases "u = t0")
        case True
        then show ?thesis using tree_ok_tset [OF t0] e(2) by blast
      next
        case False
        then have "ub hi ks \<le> uint (fst e')" using rights_tset [OF r _ e(2)] u ts0 by simp
        then show ?thesis using tree_ok_less [OF t0] by linarith
      qed
    qed
    ultimately show "fst e < fst e'" by (simp add: word_less_def)
  qed
  show ?case using 2 first by (cases "s = t"; cases "s' = t") auto
qed auto

lemma tree_leaves_ordered:
  "tree_ok w d h lo hi t \<Longrightarrow> a \<in> gleaves t \<Longrightarrow> b \<in> gleaves t \<Longrightarrow> a \<noteq> b \<Longrightarrow> leaf_before w a b \<or> leaf_before w b a"
proof (induction h arbitrary: lo hi t)
  case 0
  then show ?case by auto
next
  case (Suc h)
  then obtain x ks ts where t: "t = GNode x ks ts" and kids: "kids (tree_ok w d h) lo hi ks ts" by auto
  obtain s s' where s: "s \<in> set ts" "s' \<in> set ts" "a \<in> gleaves s" "b \<in> gleaves s'" using Suc.prems t by auto
  show ?case
  proof (cases "s = s'")
    case True
    then show ?thesis using Suc.IH kids_all [OF kids s(1)] s Suc.prems(4) by blast
  next
    case False
    then show ?thesis using kids_before [OF kids s(1,2)] s(3,4) unfolding leaf_before_def tset_gleaves by blast
  qed
qed

lemma root_leaves_ordered:
  assumes "root_ok w d h ks ts" and "a \<in> (\<Union>t\<in>set ts. gleaves t)" and "b \<in> (\<Union>t\<in>set ts. gleaves t)" and "a \<noteq> b"
  shows "leaf_before w a b \<or> leaf_before w b a"
proof -
  have kids: "kids (tree_ok w d h) 0 KEYS ks ts" using assms(1,2) by (auto simp: root_ok_def split: if_splits)
  obtain s s' where s: "s \<in> set ts" "s' \<in> set ts" "a \<in> gleaves s" "b \<in> gleaves s'" using assms(2,3) by auto
  show ?thesis
  proof (cases "s = s'")
    case True
    then show ?thesis using tree_leaves_ordered kids_all [OF kids s(1)] s assms(4) by blast
  next
    case False
    then show ?thesis using kids_before [OF kids s(1,2)] s(3,4) unfolding leaf_before_def tset_gleaves by blast
  qed
qed

section \<open>What an insertion does to the leaves\<close>

text \<open>A leaf as persistent memory has it: where it is and what it holds.\<close>

definition stored_view :: "world \<Rightarrow> addr \<rightharpoonup> PPointer \<times> leaf_image" where
  "stored_view w a = map_option (\<lambda>(l, m). (pPointer l, m)) (leaf_view w a)"

definition view_set :: "world \<Rightarrow> (PPointer \<times> leaf_image) set" where
  "view_set w = ran (stored_view w)"

lemma view_setE:
  assumes "c \<in> view_set w"
  obtains a l where "leaf_view w a = Some (l, snd c)" "pPointer l = fst c"
  using assms by (auto simp: view_set_def ran_def stored_view_def)

lemma view_setI: "leaf_view w a = Some (l, m) \<Longrightarrow> (pPointer l, m) \<in> view_set w"
  by (auto simp: view_set_def ran_def stored_view_def)

lemma ran_replace:
  assumes "f a = Some x" and "\<And>c. f c = Some x \<Longrightarrow> c = a"
  shows "ran (f(a \<mapsto> y)) = (ran f - {x}) \<union> {y}"
proof (intro subset_antisym subsetI)
  fix z assume "z \<in> ran (f(a \<mapsto> y))"
  then obtain c where c: "(f(a \<mapsto> y)) c = Some z" by (auto simp: ran_def)
  show "z \<in> (ran f - {x}) \<union> {y}"
  proof (cases "c = a")
    case False
    then have "f c = Some z" using c by simp
    moreover have "z \<noteq> x" using \<open>f c = Some z\<close> assms(2) False by blast
    ultimately show ?thesis by (auto simp: ran_def)
  qed (use c in simp)
next
  fix z assume z: "z \<in> (ran f - {x}) \<union> {y}"
  show "z \<in> ran (f(a \<mapsto> y))"
  proof (cases "z = y")
    case True
    then show ?thesis by (auto simp: ran_def)
  next
    case False
    then obtain c where "f c = Some z" "z \<noteq> x" using z by (auto simp: ran_def)
    then have "(f(a \<mapsto> y)) c = Some z" using assms(1) by auto
    then show ?thesis unfolding ran_def by blast
  qed
qed

lemma stored_view_inj:
  assumes "world_ok w" and "leaf_view w a = Some (l, m)" and "stored_view w c = Some (pPointer l, m)"
  shows "c = a"
proof -
  obtain l' where "leaf_view w c = Some (l', m)" "pPointer l' = pPointer l" using assms(3) by (auto simp: stored_view_def)
  then show ?thesis using views_injD [of w c l' m a l m] assms(1,2) by (simp add: world_ok_def)
qed

definition leaf_grows :: "PAllocator \<Rightarrow> world \<Rightarrow> world \<Rightarrow> u64 \<times> u64 \<Rightarrow> bool" where
  "leaf_grows A w w' e \<longleftrightarrow> (\<exists>r m new. (r, m) \<in> view_set w \<and> view_set w' = (view_set w - {(r, m)}) \<union> set new
     \<and> linked r new (pNext m) \<and> chain_entries new = insert e (set (entries m)) \<and> chain_ok new
     \<and> (\<forall>c\<in>set new. set (entries m) \<inter> set (entries (snd c)) \<noteq> {})
     \<and> (\<exists>A'. allocator (nv w') = Some A' \<and> (startLeaf A \<in> used_set A (dev (nv w)) \<longrightarrow> startLeaf A' = startLeaf A)
         \<and> (free_file_ok A (nv w) \<longrightarrow> free_file_ok A' (nv w'))))"

lemma good_stored: "good_leaf l m \<Longrightarrow> entries m \<noteq> [] \<Longrightarrow> stored_leaf m"
  by (simp add: good_leaf_def stored_leaf_def)

lemma half_old:
  assumes "set (entries x) \<subseteq> insert e S" and "keys_distinct x" and "length (entries x) = 56"
  shows "S \<inter> set (entries x) \<noteq> {}"
proof
  assume "S \<inter> set (entries x) = {}"
  then have "set (entries x) \<subseteq> {e}" using assms(1) by auto
  then have "card (set (entries x)) \<le> 1" using card_mono [of "{e}" "set (entries x)"] by simp
  moreover have "distinct (entries x)" using assms(2) by (auto simp: keys_distinct_def distinct_map)
  ultimately show False using assms(3) distinct_card by fastforce
qed

lemma LeafNode_insert_grows:
  assumes E: "libpmem_ok E" and ok: "world_ok w" and va: "leaf_view w a = Some (l, m)" and g: "good_leaf l m"
    and fresh: "k \<notin> fst ` set (entries m)" and nx: "next_ok w a l" and ne: "entries m \<noteq> []"
    and A: "allocator (nv w) = Some A" and dk: "disk_ok E A" and run: "LeafNode_insert E a k v w = Some (r, w')"
  shows "leaf_grows A w w' (k, v)"
proof -
  have fr: "leaf_map m k = None" using fresh by (simp add: leaf_map_None)
  let ?p = "pPointer l"
  have inj: "c = a" if "stored_view w c = Some (?p, m)" for c by (rule stored_view_inj [OF ok va that])
  have sa: "stored_view w a = Some (?p, m)" using va by (simp add: stored_view_def)
  have rv: "(?p, m) \<in> view_set w" by (rule view_setI [OF va])
  show ?thesis
  proof (cases rule: LeafNode_insert_spec [OF E ok va g fr nx A dk, of v, case_names keep split])
    case (keep w1 l' m')
    have w1: "w1 = w'" using keep(1) run by simp
    have "stored_view w' = (stored_view w)(a \<mapsto> (?p, m'))"
      using keep(7,9) w1 by (auto simp: stored_view_def)
    then have "view_set w' = (view_set w - {(?p, m)}) \<union> set [(?p, m')]"
      using ran_replace [of "stored_view w" a, OF sa inj] by (simp add: view_set_def)
    moreover have "entries m' \<noteq> []" using keep(11) by auto
    moreover from this have "chain_ok [(?p, m')]" using good_stored [OF keep(8)] by (simp add: chain_ok_def)
    moreover have "set (entries m) \<inter> set (entries m') \<noteq> {}" using keep(11) ne by (cases "entries m") auto
    ultimately show ?thesis
      unfolding leaf_grows_def using keep(10,11,12,15) w1 rv
      by (intro exI [of _ ?p] exI [of _ m] exI [of _ "[(?p, m')]"]) auto
  next
    case (split mid w1 b nl l' hi lo A')
    have w1: "w1 = w'" using split(1) run by simp
    have hb: "leaf_view w b = None" using split(3) ok by (simp add: leaf_view_def get_leafnode_def world_ok_def heap_ok_def)
    then have ab: "a \<noteq> b" using va by auto
    have "stored_view w' c = ((stored_view w)(a \<mapsto> (?p, lo), b \<mapsto> (pPointer nl, hi))) c" for c
    proof (cases "c = a \<or> c = b")
      case True
      then show ?thesis using split(8-10) w1 ab by (auto simp: stored_view_def)
    next
      case False
      then have "leaf_view w' c = (if c = next l then map_option (\<lambda>(x, mx). (x\<lparr>prev := b\<rparr>, mx)) (leaf_view w c) else leaf_view w c)"
        using split(13) w1 by simp
      then show ?thesis using False by (cases "leaf_view w c") (auto simp: stored_view_def)
    qed
    then have "stored_view w' = (stored_view w)(a \<mapsto> (?p, lo), b \<mapsto> (pPointer nl, hi))" by blast
    moreover have "((stored_view w)(a \<mapsto> (?p, lo))) b = None" using hb ab by (simp add: stored_view_def)
    ultimately have vs: "view_set w' = (view_set w - {(?p, m)}) \<union> set [(?p, lo), (pPointer nl, hi)]"
      using ran_replace [of "stored_view w" a, OF sa inj, of "(?p, lo)"] by (auto simp: view_set_def)
    have kd: "keys_distinct lo" "keys_distinct hi" using split(14,15) by (simp_all add: good_leaf_def)
    have sub: "set (entries lo) \<subseteq> insert (k, v) (set (entries m))" "set (entries hi) \<subseteq> insert (k, v) (set (entries m))"
      using split(16,17) by auto
    have "chain_ok [(?p, lo), (pPointer nl, hi)]"
      using good_stored [OF split(14)] good_stored [OF split(15)] split(16,17,19,20)
      by (fastforce simp: chain_ok_def leaf_less_def)
    moreover have "chain_entries [(?p, lo), (pPointer nl, hi)] = insert (k, v) (set (entries m))"
      using split(16,17) by (auto simp: not_less)
    ultimately show ?thesis
      unfolding leaf_grows_def using split(21,22,23,25,27) w1 rv vs half_old [OF sub(1) kd(1) split(20)] half_old [OF sub(2) kd(2) split(19)]
      by (intro exI [of _ ?p] exI [of _ m] exI [of _ "[(?p, lo), (pPointer nl, hi)]"]) simp
  qed
qed

definition views_good :: "world \<Rightarrow> bool" where
  "views_good w \<longleftrightarrow> (\<forall>a l m. leaf_view w a = Some (l, m) \<longrightarrow> good_leaf l m \<and> entries m \<noteq> [])"

definition insertable :: "world \<Rightarrow> u64 \<Rightarrow> bool" where
  "insertable w k \<longleftrightarrow> views_good w \<and> (\<forall>a l m. leaf_view w a = Some (l, m) \<longrightarrow> k \<notin> fst ` set (entries m))"

lemma view_set_inner_only:
  assumes "heap_ok w" and "inner_only w w'"
  shows "view_set w' = view_set w"
proof -
  have "stored_view w' = stored_view w" using leaf_view_inner_only [OF assms] by (auto simp: stored_view_def)
  then show ?thesis by (simp add: view_set_def)
qed

lemma leaf_grows_inner: "leaf_grows A w w1 e \<Longrightarrow> heap_ok w1 \<Longrightarrow> inner_only w1 w' \<Longrightarrow> leaf_grows A w w' e"
  unfolding leaf_grows_def using view_set_inner_only [of w1 w'] by (simp add: inner_only_def)

lemma Node_insert_grows:
  assumes E: "libpmem_ok E" and ok: "world_ok w" "links_ok w" and d: "1 \<le> d" and A: "allocator (nv w) = Some A" "disk_ok E A"
    and good: "insertable w k"
  shows "tree_ok w d h lo hi t \<Longrightarrow> distinct (gaddrs t) \<Longrightarrow> lo \<le> uint k \<Longrightarrow> uint k < hi \<Longrightarrow> k \<notin> fst ` tset w t \<Longrightarrow>
    Node_insert E (gaddr t) k v w = Some (r, w') \<Longrightarrow> leaf_grows A w w' (k, v)"
proof (induction h arbitrary: lo hi t r w')
  case 0
  then obtain a m where a: "t = GLeaf a" "leaf_data w a = Some m" by auto
  obtain l m0 where v: "leaf_view w a = Some (l, m0)" "heap w a = Some (Leaf l)" by (rule leaf_dataD [OF a(2)])
  have g: "good_leaf l m0" "entries m0 \<noteq> []" "k \<notin> fst ` set (entries m0)" using good v(1) by (auto simp: insertable_def views_good_def)
  have nx: "next_ok w a l" by (rule links_ok_next [OF ok(2) v(1)])
  have "LeafNode_insert E a k v w = Some (r, w')" using 0(6) a v(2) by (simp add: Node_insert.simps [of E a])
  then show ?case by (rule LeafNode_insert_grows [OF E ok(1) v(1) g(1,3) nx g(2) A])
next
  case (Suc h)
  then obtain a ks ts x where t: "t = GNode a ks ts" and kids: "kids (tree_ok w d h) lo hi ks ts"
    and x: "get_inner w a = Some x" "\<not> isRoot x" "inner_rep x d ks (map gaddr ts)" by auto
  obtain ks1 ks2 ts1 s ts2 where rt: "ks = ks1 @ ks2" "ts = ts1 @ s # ts2" "length ts1 = length ks1"
    "pos_of ks k = length ks1" "sorted ks" "tree_ok w d h (lb lo ks1) (ub hi ks2) s" "lb lo ks1 \<le> uint k" "uint k < ub hi ks2"
    by (rule route [OF kids Suc.prems(3,4)]) blast
  have s: "distinct (gaddrs s)" "k \<notin> fst ` tset w s"
    using Suc.prems(2,5) distinct_gaddrs [of a ts s] rt(2) by (auto simp: t gaddrs_GNode tset_GNode)
  have "inserts E d h k v w (lb lo ks1) (ub hi ks2) s" by (rule Node_insert_spec [OF E ok d A rt(6) s(1) rt(7,8) s(2)])
  then obtain nc w1 where i: "Node_insert E (gaddr s) k v w = Some (nc, w1)" "evolves (set (gaddrs s)) w w1"
    by (auto simp: inserts_def)
  have g: "leaf_grows A w w1 (k, v)" by (rule Suc.IH [OF rt(6) s(1) rt(7,8) s(2) i(1)])
  have "aget (childrens x) (int (length ks1)) = Some (gaddr s)"
    by (rule aget_child [of x d ks ts1 s ts2]) (use x rt in auto)
  then have "node_step E a x k v w = take_newChild a nc w1"
    using findIndex_spec [OF x(3) rt(5)] rt(4) i(1) by (simp add: node_step_def)
  then obtain n2 w2 where n: "take_newChild a nc w1 = Some (n2, w2)" "grow_root a n2 w2 = Some (r, w')"
    using Suc.prems(6) t Node_insert_inner [OF x(1), of E k v] x(2) by (auto simp: bind_eq_Some_conv)
  have "inner_only w1 w'" using inner_only_trans [OF inner_only_take [OF n(1)] inner_only_grow [OF n(2)]] .
  moreover have "heap_ok w1" using i(2) by (simp add: evolves_def world_ok_def)
  ultimately show ?case using leaf_grows_inner [OF g] by blast
qed

text \<open>The same at the root of a tree that has a leaf.\<close>

lemma root_insert_grows:
  assumes E: "libpmem_ok E" and r: "root_ok w d h ks ts" and ne: "ts \<noteq> []" and A: "allocator (nv w) = Some A" "disk_ok E A"
    and good: "insertable w k" and k: "k \<notin> fst ` forest_of w ts" and run: "Node_insert E (root w) k v w = Some (nr, w')"
  shows "leaf_grows A w w' (k, v)"
proof -
  obtain x where x: "world_ok w" "links_ok w" "1 \<le> d" "get_inner w (root w) = Some x" "isRoot x"
    "inner_rep x d ks (map gaddr ts)" "length ks \<le> 2 * d" "distinct (root w # addrs_of ts)"
    "kids (tree_ok w d h) 0 KEYS ks ts" "ks = [] \<longrightarrow> h = 0" by (rule root_kids [OF r ne])
  have child: "\<exists>nc w1. Node_insert E (gaddr s) k v w = Some (nc, w1) \<and> heap_ok w1 \<and> leaf_grows A w w1 (k, v)"
    if s: "s \<in> set ts" and t: "tree_ok w d h lo hi s" "lo \<le> uint k" "uint k < hi" for s lo hi
  proof -
    have ds: "distinct (gaddrs s)" using x(8) s by (rule distinct_gaddrs)
    have ks: "k \<notin> fst ` tset w s" using k s by (auto simp: forest_of_def)
    have "inserts E d h k v w lo hi s" by (rule Node_insert_spec [OF E x(1-3) A t(1) ds t(2,3) ks])
    then obtain nc w1 where i: "Node_insert E (gaddr s) k v w = Some (nc, w1)" "evolves (set (gaddrs s)) w w1"
      by (auto simp: inserts_def)
    then show ?thesis
      using Node_insert_grows [OF E x(1-3) A good t(1) ds t(2,3) ks i(1)] by (auto simp: evolves_def world_ok_def)
  qed
  have hx: "heap w (root w) = Some (Inner x)" using x(4) by (simp add: heap_get_inner)
  obtain ks1 ks2 ts1 s ts2 where rt: "ks = ks1 @ ks2" "ts = ts1 @ s # ts2" "length ts1 = length ks1"
    "pos_of ks k = length ks1" "sorted ks" "tree_ok w d h (lb 0 ks1) (ub KEYS ks2) s" "lb 0 ks1 \<le> uint k" "uint k < ub KEYS ks2"
    by (rule route [OF x(9), of k]) (simp, simp, blast)
  have "s \<in> set ts" using rt(2) by simp
  then obtain nc w1 where i: "Node_insert E (gaddr s) k v w = Some (nc, w1)" "heap_ok w1" "leaf_grows A w w1 (k, v)"
    using child rt(6-8) by blast
  have c: "aget (childrens x) (int (length ks1)) = Some (gaddr s)"
    by (rule aget_child [of x d ks ts1 s ts2]) (use x rt in auto)
  have "inner_only w1 w'"
  proof (cases "ks = []")
    case True
    then have nk: "nKeys x = 0" "nChild x \<noteq> 0" "ks1 = []" using x(6) ne rt(1) by (auto simp: inner_rep_def)
    show ?thesis
      using run hx x(5) nk c i(1) by (auto simp: Node_insert.simps [of E "root w"] bind_eq_Some_conv split: option.splits intro: inner_only_put)
  next
    case False
    then have nk: "nKeys x \<noteq> 0" using x(6) by (simp add: inner_rep_def)
    have "node_step E (root w) x k v w = take_newChild (root w) nc w1"
      using findIndex_spec [OF x(6) rt(5)] rt(4) i(1) c by (simp add: node_step_def)
    then obtain n2 w2 where "take_newChild (root w) nc w1 = Some (n2, w2)" "grow_root (root w) n2 w2 = Some (nr, w')"
      using run Node_insert_inner [OF x(4), of E k v] nk by (auto simp: bind_eq_Some_conv)
    then show ?thesis using inner_only_take inner_only_grow inner_only_trans by blast
  qed
  then show ?thesis using leaf_grows_inner [OF i(3,2)] by blast
qed

text \<open>The first insertion.\<close>

lemma first_insert_grows:
  assumes E: "libpmem_ok E" and r: "root_ok w d h [] []" and A: "allocator (nv w) = Some A" "disk_ok E A"
    and start: "startLeaf A \<notin> used_set A (dev (nv w))" and run: "Node_insert E (root w) k v w = Some (nr, w')"
  obtains p m A' where "view_set w' = insert (p, m) (view_set w)" "stored_leaf m" "set (entries m) = {(k, v)}" "pNext m = nullPPointer"
    "allocator (nv w') = Some A'" "startLeaf A' = p" "free_file_ok A (nv w) \<longrightarrow> free_file_ok A' (nv w')"
proof -
  obtain x where x: "world_ok w" "isRoot x" "inner_rep x d [] []" "heap w (root w) = Some (Inner x)"
    by (rule root_okD [OF r]) simp
  obtain w1 l A1 where n: "newLeafNode E w = Some (brk w, w1)" "world_ok w1"
    "\<And>b. leaf_view w1 b = (if b = brk w then Some (l, zero_leaf) else leaf_view w b)"
    "degree l = LEAF_DEGREE" "nEntries l = 0" "next l = NULL"
    "allocator (nv w1) = Some A1" "startLeaf A1 = (if startLeaf A \<in> used_set A (dev (nv w)) then startLeaf A else pPointer l)"
    "free_file_ok A (nv w) \<Longrightarrow> free_file_ok A1 (nv w1)"
    by (rule newLeafNode_spec [OF E x(1) A(1) disk_ok_available [OF A(2)]]) blast
  let ?b = "brk w" and ?l = "l\<lparr>nEntries := nEntries l + 1\<rparr>"
  have vb: "leaf_view w1 ?b = Some (l, zero_leaf)" by (simp add: n(3))
  obtain dv m' where i: "LeafNode_insertNonFull E ?b k v w1 = Some (set_dev dv (put_node ?b (Leaf ?l) w1))"
    "world_ok (set_dev dv (put_node ?b (Leaf ?l) w1))"
    "\<And>c. leaf_view (set_dev dv (put_node ?b (Leaf ?l) w1)) c = (if c = ?b then Some (?l, m') else leaf_view w1 c)"
    "leaf_ok m'" "keys_distinct m'" "pNext m' = pNext zero_leaf" "length (entries m') = Suc (length (entries zero_leaf))"
    "set (entries m') = insert (k, v) (set (entries zero_leaf))"
    by (rule LeafNode_insertNonFull_spec [OF E n(2) vb good_zero_leaf [OF n(4,5)], of k v]) (simp, blast)
  let ?w2 = "set_dev dv (put_node ?b (Leaf ?l) w1)"
  have v2: "leaf_view ?w2 c = (if c = ?b then Some (?l, m') else leaf_view w c)" for c using i(3) n(3) by simp
  have ins: "LeafNode_insert E ?b k v w1 = Some (None, ?w2)"
    using i(1) leaf_viewD(2) [of ?w2 ?b ?l m'] v2 n(4,5) by (simp add: LeafNode_insert_def LEAF_DEGREE_def)
  have nk: "nKeys x = 0" "nChild x = 0" using x(3) by (simp_all add: inner_rep_def)
  obtain x2 x3 where w': "w' = put_node (root w) (Inner x3) ?w2" "get_inner ?w2 (root w) = Some x2"
    using run x(2,4) nk n(1) ins by (auto simp: Node_insert.simps [of E "root w"] bind_eq_Some_conv)
  have io: "inner_only ?w2 w'" using inner_only_put [OF w'(2)] w'(1) by blast
  have hb: "leaf_view w ?b = None" using x(1) by (simp add: leaf_view_def get_leafnode_def world_ok_def heap_ok_def)
  have "stored_view ?w2 = (stored_view w)(?b \<mapsto> (pPointer l, m'))" by (auto simp: stored_view_def v2)
  then have "view_set ?w2 = insert (pPointer l, m') (view_set w)"
    using hb by (simp add: view_set_def stored_view_def)
  then have vs: "view_set w' = insert (pPointer l, m') (view_set w)"
    using view_set_inner_only [OF _ io] i(2) by (simp add: world_ok_def)
  have nv: "nv w' = (nv w1)\<lparr>dev := dv\<rparr>" using w'(1) by simp
  have pz: "pNext zero_leaf = nullPPointer" by (simp add: zero_leaf_def)
  show thesis
    by (rule that [OF vs, of A1]) (use i(4-8) n(7-9) start nv pz in \<open>auto simp: stored_leaf_def free_file_ok_def\<close>)
qed

end
