(* ===== verification/Chain_Steps.thy ===== *)
theory Chain_Steps
  imports Leaf_Chain
begin

text \<open>
  The invariant \<open>stored\<close>: the tree represents a map, and the chain of its leaves in persistent memory, in the
  order of the keys, holds the same entries. \<open>FPTree::insert\<close> and \<open>FPTree::update\<close> keep it.
\<close>

section \<open>The tree and its chain\<close>

text \<open>
  \<open>chained w cs M\<close>: the leaves of the program are those of \<open>cs\<close>, in the order of their keys, and hold the
  entries of \<open>M\<close>. \<open>stored w d M\<close>: the tree represents \<open>M\<close> and its leaves, linked by \<open>pNext\<close> from the start
  leaf on, are enough to build it again.
\<close>

definition chained :: "world \<Rightarrow> (PPointer \<times> leaf_image) list \<Rightarrow> (u64 \<rightharpoonup> u64) \<Rightarrow> bool" where
  "chained w cs M \<longleftrightarrow> set cs = view_set w \<and> chain_ok cs \<and> (\<forall>k v. M k = Some v \<longleftrightarrow> (k, v) \<in> chain_entries cs)"

definition stored :: "world \<Rightarrow> nat \<Rightarrow> (u64 \<rightharpoonup> u64) \<Rightarrow> bool" where
  "stored w d M \<longleftrightarrow> represents w d M \<and> (\<exists>A cs. allocator (nv w) = Some A \<and> free_file_ok A (nv w) \<and> chained w cs M
     \<and> (if cs = [] then startLeaf A \<notin> used_set A (dev (nv w)) else linked (startLeaf A) cs nullPPointer))"

lemma forest_leaf:
  assumes "root_ok w d h ks ts" and "e \<in> forest_of w ts"
  obtains a l m where "a \<in> (\<Union>t\<in>set ts. gleaves t)" "leaf_view w a = Some (l, m)" "good_leaf l m" "e \<in> set (entries m)"
proof -
  obtain t a where t: "t \<in> set ts" "a \<in> gleaves t" "e \<in> leaf_set w a" using assms(2) by (auto simp: forest_of_def tset_gleaves)
  then obtain m where m: "leaf_data w a = Some m" "e \<in> set (entries m)" by (auto simp: leaf_set_def split: option.splits)
  obtain l m' where "leaf_view w a = Some (l, m')" "good_leaf l m'" "entries m = entries m'" by (rule leaf_dataD [OF m(1)])
  then show thesis using that [of a l m'] t m(2) by auto
qed

text \<open>The leaves in memory are in the tree if no entry is in two of them.\<close>

definition views_disjoint :: "world \<Rightarrow> bool" where
  "views_disjoint w \<longleftrightarrow> (\<forall>c\<in>view_set w. \<forall>c'\<in>view_set w. \<forall>e. e \<in> set (entries (snd c)) \<longrightarrow> e \<in> set (entries (snd c')) \<longrightarrow> c = c')"

lemma view_in_tree:
  assumes r: "root_ok w d h ks ts" and dis: "views_disjoint w" and v: "leaf_view w a = Some (l, m)"
    and e: "e \<in> set (entries m)" "e \<in> forest_of w ts"
  shows "a \<in> (\<Union>t\<in>set ts. gleaves t)" and "good_leaf l m" and "leaf_set w a = set (entries m)"
proof -
  obtain b lb mb where b: "b \<in> (\<Union>t\<in>set ts. gleaves t)" "leaf_view w b = Some (lb, mb)" "good_leaf lb mb" "e \<in> set (entries mb)"
    by (rule forest_leaf [OF r e(2)])
  have "(pPointer l, m) = (pPointer lb, mb)"
    by (rule dis [unfolded views_disjoint_def, rule_format, OF view_setI [OF v] view_setI [OF b(2)], of e]) (use e(1) b(4) in simp_all)
  then have "a = b" using views_injD [OF _ v b(2)] r by (simp add: root_ok_def world_ok_def)
  then show "a \<in> (\<Union>t\<in>set ts. gleaves t)" and g: "good_leaf l m" using b v by simp_all
  obtain m' where "leaf_data w a = Some m'" "set (entries m') = set (entries m)" using leaf_dataI [OF v g] by blast
  then show "leaf_set w a = set (entries m)" by (simp add: leaf_set_def)
qed

lemma views_ordered:
  assumes r: "root_ok w d h ks ts" and dis: "views_disjoint w" and c: "c \<in> view_set w" "c' \<in> view_set w" "c \<noteq> c'"
    and sub: "set (entries (snd c)) \<subseteq> forest_of w ts" "set (entries (snd c')) \<subseteq> forest_of w ts"
    and ne: "entries (snd c) \<noteq> []" "entries (snd c') \<noteq> []"
  shows "leaf_less (snd c) (snd c') \<or> leaf_less (snd c') (snd c)"
proof -
  obtain a l where a: "leaf_view w a = Some (l, snd c)" "pPointer l = fst c" by (rule view_setE [OF c(1)])
  obtain b l' where b: "leaf_view w b = Some (l', snd c')" "pPointer l' = fst c'" by (rule view_setE [OF c(2)])
  obtain e e' where e: "e \<in> set (entries (snd c))" "e' \<in> set (entries (snd c'))" using ne by (meson list.set_sel(1))
  have ef: "e \<in> forest_of w ts" "e' \<in> forest_of w ts" using e sub by blast+
  note ta = view_in_tree [OF r dis a(1) e(1) ef(1)] and tb = view_in_tree [OF r dis b(1) e(2) ef(2)]
  have ab: "a \<noteq> b" using a b c(3) by (auto simp: prod_eq_iff)
  have "leaf_before w a b \<or> leaf_before w b a"
    by (rule root_leaves_ordered [OF r ta(1) tb(1) ab])
  then show ?thesis by (simp add: leaf_before_def leaf_less_def ta(3) tb(3))
qed

lemma chained_disjoint: "chained w cs M \<Longrightarrow> views_disjoint w"
  unfolding chained_def views_disjoint_def using chain_ok_disjoint by metis

lemma chained_ne: "chained w cs M \<Longrightarrow> c \<in> view_set w \<Longrightarrow> entries (snd c) \<noteq> []"
  by (auto simp: chained_def chain_ok_def stored_leaf_def)

lemma chained_entries: "chained w cs M \<Longrightarrow> c \<in> view_set w \<Longrightarrow> (k, v) \<in> set (entries (snd c)) \<Longrightarrow> M k = Some v"
  by (force simp: chained_def chain_entries_def)

lemma chained_good:
  assumes ch: "chained w cs M" and r: "root_ok w d h ks ts" "\<And>k v. M k = Some v \<longleftrightarrow> (k, v) \<in> forest_of w ts"
  shows "views_good w"
  unfolding views_good_def
proof (intro allI impI)
  fix a l m assume v: "leaf_view w a = Some (l, m)"
  have c: "(pPointer l, m) \<in> view_set w" by (rule view_setI [OF v])
  have ne: "entries m \<noteq> []" using chained_ne [OF ch c] by simp
  then obtain x y where e: "(x, y) \<in> set (entries m)" by (metis list.set_sel(1) surj_pair)
  then have "(x, y) \<in> forest_of w ts" using chained_entries [OF ch c] r(2) by simp
  then show "good_leaf l m \<and> entries m \<noteq> []" using view_in_tree(2) [OF r(1) chained_disjoint [OF ch] v e] ne by blast
qed

lemma chained_insertable:
  assumes ch: "chained w cs M" and g: "views_good w" and k: "M k = None"
  shows "insertable w k"
  unfolding insertable_def using g chained_entries [OF ch view_setI] k by fastforce

lemma chain_ok_split:
  assumes "chain_ok (cs1 @ c # cs2)"
  shows "c \<notin> set cs1 \<union> set cs2"
proof
  assume "c \<in> set cs1 \<union> set cs2"
  then have "leaf_less (snd c) (snd c)" "entries (snd c) \<noteq> []"
    using assms by (auto simp: chain_ok_def sorted_wrt_append stored_leaf_def)
  then show False by (cases "entries (snd c)") (auto simp: leaf_less_def)
qed

lemma chained_grows:
  assumes ch: "chained w cs M" and k: "M k = None" and g: "leaf_grows A w w' (k, v)"
    and r: "root_ok w' d h ks ts" "\<And>x y. (M(k \<mapsto> v)) x = Some y \<longleftrightarrow> (x, y) \<in> forest_of w' ts"
    and st: "linked (startLeaf A) cs nullPPointer" "startLeaf A \<in> used_set A (dev (nv w))" and ff: "free_file_ok A (nv w)"
  obtains cs' A' where "chained w' cs' (M(k \<mapsto> v))" "cs' \<noteq> []" "allocator (nv w') = Some A'"
    "linked (startLeaf A') cs' nullPPointer" "free_file_ok A' (nv w')"
proof -
  obtain p m new A' where n: "(p, m) \<in> view_set w" "view_set w' = (view_set w - {(p, m)}) \<union> set new" "linked p new (pNext m)"
    "chain_entries new = insert (k, v) (set (entries m))" "chain_ok new" "\<forall>c\<in>set new. set (entries m) \<inter> set (entries (snd c)) \<noteq> {}"
    "allocator (nv w') = Some A'" "startLeaf A' = startLeaf A" "free_file_ok A' (nv w')"
    using g st(2) ff by (auto simp: leaf_grows_def)
  have cs: "set cs = view_set w" "chain_ok cs" "\<And>k v. M k = Some v \<longleftrightarrow> (k, v) \<in> chain_entries cs" using ch by (auto simp: chained_def)
  obtain cs1 cs2 where sp: "cs = cs1 @ (p, m) # cs2" using n(1) cs(1) by (metis split_list)
  let ?cs = "cs1 @ new @ cs2"
  note out = chain_ok_split [OF cs(2) [unfolded sp]]
  have V: "view_set w' = set ?cs" using n(2) cs(1) sp out by auto
  have ent: "chain_entries ?cs = insert (k, v) (chain_entries cs)" using n(4) sp by (auto simp: chain_entries_def)
  have M: "(M(k \<mapsto> v)) x = Some y \<longleftrightarrow> (x, y) \<in> chain_entries ?cs" for x y
    unfolding ent using cs(3) [of x y] cs(3) [of k y] k by auto
  have mixed: False if c: "c \<in> set new" "c' \<in> set cs1 \<union> set cs2" and e: "e \<in> set (entries (snd c))" "e \<in> set (entries (snd c'))" for c c' e
  proof -
    have c': "c' \<in> set cs" using c(2) sp by auto
    have "e \<noteq> (k, v)" using chained_entries [OF ch, of c' k v] c' cs(1) e(2) k by auto
    moreover have "e \<in> chain_entries new" using c(1) e(1) by (auto simp: chain_entries_def)
    ultimately have "e \<in> set (entries m)" using n(4) by simp
    then have "c' = (p, m)" using chain_ok_disjoint [OF cs(2) c', of "(p, m)"] sp e(2) by simp
    then show False using out c(2) by blast
  qed
  have dis: "views_disjoint w'"
    unfolding views_disjoint_def V
  proof (intro ballI allI impI)
    fix c c' e assume c: "c \<in> set ?cs" "c' \<in> set ?cs" and e: "e \<in> set (entries (snd c))" "e \<in> set (entries (snd c'))"
    show "c = c'"
    proof (cases "c \<in> set new \<longleftrightarrow> c' \<in> set new")
      case True
      then show ?thesis using c e sp chain_ok_disjoint [OF n(5), of c c' e] chain_ok_disjoint [OF cs(2), of c c' e] by auto
    next
      case False
      then show ?thesis using mixed [of c c' e] mixed [of c' c e] c e by auto
    qed
  qed
  have forest: "set (entries (snd c)) \<subseteq> forest_of w' ts" if "c \<in> set ?cs" for c
    using that M r(2) by (fastforce simp: chain_entries_def)
  have ok: "chain_ok ?cs"
  proof (rule chain_ok_replace [OF cs(2) [unfolded sp] n(5,6)])
    fix c c' assume c: "c \<in> set new" "c' \<in> set cs1 \<union> set cs2"
    have ne: "entries (snd c) \<noteq> []" "entries (snd c') \<noteq> []"
      using c n(5) cs(2) sp by (auto simp: chain_ok_def stored_leaf_def)
    have "c \<noteq> c'" using mixed [OF c] ne by (metis list.set_sel(1))
    then show "leaf_less (snd c) (snd c') \<or> leaf_less (snd c') (snd c)"
      using views_ordered [OF r(1) dis _ _ _ forest forest ne] c V by auto
  qed
  have "chained w' ?cs (M(k \<mapsto> v))" using V ok M by (simp add: chained_def)
  moreover have "?cs \<noteq> []" using n(4) by (auto simp: chain_entries_def)
  moreover have "linked (startLeaf A') ?cs nullPPointer" using linked_replace [OF _ n(3)] st(1) sp n(8) by simp
  ultimately show thesis using that n(7,9) by blast
qed

section \<open>What an update does to the leaves\<close>

definition leaf_updates :: "PAllocator \<Rightarrow> world \<Rightarrow> world \<Rightarrow> u64 \<Rightarrow> bool" where
  "leaf_updates A w w' k \<longleftrightarrow> (\<exists>r m m'. (r, m) \<in> view_set w \<and> view_set w' = (view_set w - {(r, m)}) \<union> {(r, m')}
     \<and> pNext m' = pNext m \<and> stored_leaf m' \<and> fst ` set (entries m') = fst ` set (entries m)
     \<and> (\<forall>x y. x \<noteq> k \<longrightarrow> (x, y) \<in> set (entries m') \<longleftrightarrow> (x, y) \<in> set (entries m))
     \<and> allocator (nv w') = Some A \<and> freeListFile (nv w') = freeListFile (nv w))"

lemma LeafNode_update_updates:
  assumes E: "libpmem_ok E" and ok: "world_ok w" and va: "leaf_view w a = Some (l, m)" and g: "good_leaf l m" and ne: "entries m \<noteq> []"
    and A: "allocator (nv w) = Some A" and run: "LeafNode_update E a k v w = Some (b, w')"
  shows "leaf_updates A w w' k"
proof -
  obtain dv m' where u: "LeafNode_update E a k v w = Some (leaf_map m k \<noteq> None, set_dev dv w)"
    "\<And>c. leaf_view (set_dev dv w) c = (if c = a then Some (l, m') else leaf_view w c)"
    "good_leaf l m'" "pNext m' = pNext m"
    "leaf_map m' = (if leaf_map m k = None then leaf_map m else (leaf_map m)(k \<mapsto> v))"
    "fst ` set (entries m') = fst ` set (entries m)"
    by (rule LeafNode_update_spec [OF E ok va g, of k v]) blast
  have w': "w' = set_dev dv w" using u(1) run by simp
  have "stored_view w' = (stored_view w)(a \<mapsto> (pPointer l, m'))" using u(2) w' by (auto simp: stored_view_def)
  then have vs: "view_set w' = (view_set w - {(pPointer l, m)}) \<union> {(pPointer l, m')}"
    using ran_replace [of "stored_view w" a "(pPointer l, m)"] stored_view_inj [OF ok va] va by (simp add: view_set_def stored_view_def)
  have kd: "keys_distinct m" "keys_distinct m'" using g u(3) by (simp_all add: good_leaf_def)
  have "(x, y) \<in> set (entries m') \<longleftrightarrow> (x, y) \<in> set (entries m)" if "x \<noteq> k" for x y
    using that by (simp add: leaf_map_Some [OF kd(1), symmetric] leaf_map_Some [OF kd(2), symmetric] u(5))
  moreover have "entries m' \<noteq> []" using u(6) ne by (metis image_is_empty set_empty)
  ultimately show ?thesis
    unfolding leaf_updates_def using view_setI [OF va] vs u(3,4,6) good_stored A w'
    by (intro exI [of _ "pPointer l"] exI [of _ m] exI [of _ m']) simp
qed

lemma Node_update_updates:
  assumes E: "libpmem_ok E" and ok: "world_ok w" and A: "allocator (nv w) = Some A" and good: "views_good w"
  shows "tree_ok w d h lo hi t \<Longrightarrow> lo \<le> uint k \<Longrightarrow> uint k < hi \<Longrightarrow> Node_update E (gaddr t) k v w = Some (b, w') \<Longrightarrow>
    leaf_updates A w w' k"
proof (induction h arbitrary: lo hi t)
  case 0
  then obtain a m where a: "t = GLeaf a" "leaf_data w a = Some m" by auto
  obtain l m0 where v: "leaf_view w a = Some (l, m0)" "heap w a = Some (Leaf l)" by (rule leaf_dataD [OF a(2)])
  have g: "good_leaf l m0" "entries m0 \<noteq> []" using good v(1) by (auto simp: views_good_def)
  have "LeafNode_update E a k v w = Some (b, w')" using 0(4) a v(2) by (simp add: Node_update.simps [of E a])
  then show ?case by (rule LeafNode_update_updates [OF E ok v(1) g A])
next
  case (Suc h)
  then obtain a ks ts x where t: "t = GNode a ks ts" and kids: "kids (tree_ok w d h) lo hi ks ts"
    and x: "get_inner w a = Some x" "inner_rep x d ks (map gaddr ts)" by auto
  obtain ks1 ks2 ts1 s ts2 where rt: "ks = ks1 @ ks2" "ts = ts1 @ s # ts2" "length ts1 = length ks1"
    "pos_of ks k = length ks1" "sorted ks" "tree_ok w d h (lb lo ks1) (ub hi ks2) s" "lb lo ks1 \<le> uint k" "uint k < ub hi ks2"
    by (rule route [OF kids Suc.prems(2,3)]) blast
  have "aget (childrens x) (int (length ks1)) = Some (gaddr s)"
    by (rule aget_child [of x d ks ts1 s ts2]) (use x rt in auto)
  then have "Node_update E a k v w = Node_update E (gaddr s) k v w"
    using findIndex_spec [OF x(2) rt(5)] rt(4) x(1) tree_ok_addr [OF ok rt(6)]
    by (subst Node_update.simps) (simp add: heap_get_inner)
  then show ?case using Suc.IH [OF rt(6-8)] Suc.prems(4) t by simp
qed

lemma root_update_updates:
  assumes E: "libpmem_ok E" and A: "allocator (nv w) = Some A" and good: "views_good w"
    and r: "root_ok w d h ks ts" "ts \<noteq> []" and run: "Node_update E (root w) k v w = Some (b, w')"
  shows "leaf_updates A w w' k"
proof -
  obtain x where x: "world_ok w" "get_inner w (root w) = Some x" "inner_rep x d ks (map gaddr ts)"
    "kids (tree_ok w d h) 0 KEYS ks ts" by (rule root_kids [OF r])
  obtain ks1 ks2 ts1 s ts2 where rt: "ks = ks1 @ ks2" "ts = ts1 @ s # ts2" "length ts1 = length ks1"
    "pos_of ks k = length ks1" "sorted ks" "tree_ok w d h (lb 0 ks1) (ub KEYS ks2) s" "lb 0 ks1 \<le> uint k" "uint k < ub KEYS ks2"
    by (rule route [OF x(4), of k]) (simp, simp, blast)
  have "aget (childrens x) (int (length ks1)) = Some (gaddr s)"
    by (rule aget_child [of x d ks ts1 s ts2]) (use x rt in auto)
  then have "Node_update E (root w) k v w = Node_update E (gaddr s) k v w"
    using findIndex_spec [OF x(3) rt(5)] rt(4) x(2) tree_ok_addr [OF x(1) rt(6)]
    by (subst Node_update.simps) (simp add: heap_get_inner)
  then show ?thesis using Node_update_updates [OF E x(1) A good rt(6-8)] run by metis
qed

text \<open>A key has one value in a chain.\<close>

lemma chain_key_unique:
  assumes ok: "chain_ok cs" and e: "(k, v) \<in> chain_entries cs" "(k, v') \<in> chain_entries cs"
  shows "v = v'"
proof -
  obtain c c' where c: "c \<in> set cs" "c' \<in> set cs" "(k, v) \<in> set (entries (snd c))" "(k, v') \<in> set (entries (snd c'))"
    using e unfolding chain_entries_def by blast
  then obtain i j where ij: "i < length cs" "j < length cs" "(k, v) \<in> set (entries (snd (cs ! i)))" "(k, v') \<in> set (entries (snd (cs ! j)))"
    by (metis in_set_conv_nth)
  have lt: "leaf_less (snd (cs ! i)) (snd (cs ! j))" if "i < j" "j < length cs" for i j
    using ok that by (auto simp: chain_ok_def sorted_wrt_iff_nth_less)
  have "i = j" using lt [of i j] lt [of j i] ij unfolding leaf_less_def by (metis fst_conv less_irrefl linorder_neqE_nat)
  moreover have "keys_distinct (snd (cs ! i))" using ok ij(1) by (simp add: chain_ok_def stored_leaf_def)
  ultimately show ?thesis using ij(3,4) by (metis leaf_map_Some option.inject)
qed

lemma chained_updates:
  assumes ch: "chained w cs M" and u: "leaf_updates A w w' k" and M': "M' = (if M k = None then M else M(k \<mapsto> v))"
    and r: "root_ok w' d h ks ts" "\<And>x y. M' x = Some y \<longleftrightarrow> (x, y) \<in> forest_of w' ts"
    and st: "linked p cs nullPPointer"
  obtains cs' where "chained w' cs' M'" "cs' \<noteq> []" "linked p cs' nullPPointer"
proof -
  obtain q m m' where n: "(q, m) \<in> view_set w" "view_set w' = (view_set w - {(q, m)}) \<union> {(q, m')}" "pNext m' = pNext m"
    "stored_leaf m'" "fst ` set (entries m') = fst ` set (entries m)"
    "\<And>x y. x \<noteq> k \<Longrightarrow> (x, y) \<in> set (entries m') \<longleftrightarrow> (x, y) \<in> set (entries m)"
    using u by (auto simp: leaf_updates_def)
  have cs: "set cs = view_set w" "chain_ok cs" "\<And>k v. M k = Some v \<longleftrightarrow> (k, v) \<in> chain_entries cs" using ch by (auto simp: chained_def)
  obtain cs1 cs2 where sp: "cs = cs1 @ (q, m) # cs2" using n(1) cs(1) by (metis split_list)
  let ?cs = "cs1 @ (q, m') # cs2"
  note out = chain_ok_split [OF cs(2) [unfolded sp]]
  have V: "view_set w' = set ?cs" using n(2) cs(1) sp out by auto
  have ll: "leaf_less x y \<longleftrightarrow> (\<forall>a\<in>fst ` set (entries x). \<forall>b\<in>fst ` set (entries y). a < b)" for x y by (simp add: leaf_less_def)
  have lm: "leaf_less x m' = leaf_less x m" "leaf_less m' x = leaf_less m x" for x unfolding ll n(5) by (rule refl)+
  have ok: "chain_ok ?cs" using cs(2) sp n(4) by (auto simp: chain_ok_def sorted_wrt_append lm)
  have sub: "(x, y) \<in> chain_entries ?cs" if M: "M' x = Some y" for x y
  proof -
    have "(x, y) \<in> forest_of w' ts" using M r(2) by blast
    then obtain a l mm where "leaf_view w' a = Some (l, mm)" "(x, y) \<in> set (entries mm)" by (rule forest_leaf [OF r(1)])
    then show ?thesis using view_setI [of w' a l mm] V by (force simp: chain_entries_def)
  qed
  have keys: "fst ` chain_entries ?cs = fst ` chain_entries cs" by (simp add: sp image_Un n(5))
  have "M' x = Some y" if e: "(x, y) \<in> chain_entries ?cs" for x y
  proof (cases "x = k")
    case False
    then have "(x, y) \<in> chain_entries cs" using e n(6) sp by auto
    then show ?thesis using cs(3) False M' by auto
  next
    case True
    then have "k \<in> fst ` chain_entries cs" using e keys by (metis fst_conv imageI)
    then have "M k \<noteq> None" using cs(3) by auto
    then have "M' k = Some v" using M' by auto
    then have "(k, v) \<in> chain_entries ?cs" by (rule sub)
    then have "y = v" using chain_key_unique [OF ok] e True by blast
    then show ?thesis using \<open>M' k = Some v\<close> True by simp
  qed
  then have "chained w' ?cs M'" unfolding chained_def using V ok sub by blast
  moreover have "linked p ?cs nullPPointer" using linked_replace [of p cs1 q m cs2 nullPPointer "[(q, m')]"] st sp n(3) by simp
  ultimately show thesis using that by blast
qed

section \<open>The tree and its chain under insert and update\<close>

lemma storedE:
  assumes "stored w d M"
  obtains h ks ts A cs where "root_ok w d h ks ts" "\<And>k v. M k = Some v \<longleftrightarrow> (k, v) \<in> forest_of w ts"
    "allocator (nv w) = Some A" "free_file_ok A (nv w)" "chained w cs M"
    "if cs = [] then startLeaf A \<notin> used_set A (dev (nv w)) else linked (startLeaf A) cs nullPPointer"
    "cs = [] \<longleftrightarrow> ts = []" "M = Map.empty \<longleftrightarrow> cs = []"
proof -
  obtain A cs where s: "represents w d M" "allocator (nv w) = Some A" "free_file_ok A (nv w)" "chained w cs M"
    "if cs = [] then startLeaf A \<notin> used_set A (dev (nv w)) else linked (startLeaf A) cs nullPPointer"
    using assms by (auto simp: stored_def)
  obtain h ks ts where r: "root_ok w d h ks ts" "\<And>k v. M k = Some v \<longleftrightarrow> (k, v) \<in> forest_of w ts"
    by (rule representsE [OF s(1)]) blast
  have cs: "set cs = view_set w" "chain_ok cs" "\<And>k v. M k = Some v \<longleftrightarrow> (k, v) \<in> chain_entries cs" using s(4) by (auto simp: chained_def)
  have M: "M = Map.empty \<longleftrightarrow> cs = []"
  proof
    assume "M = Map.empty"
    then have "chain_entries cs = {}" using cs(3) by auto
    then show "cs = []" using cs(2) by (cases cs) (auto simp: chain_ok_def stored_leaf_def)
  next
    assume "cs = []"
    then show "M = Map.empty" using cs(3) by (metis chain_entries_simps(1) empty_iff ext not_None_eq)
  qed
  have "cs = [] \<longleftrightarrow> ts = []"
  proof
    assume e: "cs = []"
    show "ts = []"
    proof (rule ccontr)
      assume ne: "ts \<noteq> []"
      then have kids: "kids (tree_ok w d h) 0 KEYS ks ts" using r(1) by (simp add: root_ok_def)
      obtain lo hi where "tree_ok w d h lo hi (hd ts)" using kids_all [OF kids, of "hd ts"] ne by auto
      then have "\<exists>a m. leaf_data w a = Some m"
      proof (induction h arbitrary: lo hi "ts")
        case (Suc h)
        then obtain us kss where us: "kids (tree_ok w d h) lo hi kss us" by auto
        then have "us \<noteq> []" using kids_length by fastforce
        then obtain lo' hi' where "tree_ok w d h lo' hi' (hd us)" using kids_all [OF us, of "hd us"] by auto
        then show ?case by (rule Suc.IH)
      qed auto
      then obtain a m where a: "leaf_data w a = Some m" by blast
      obtain l m' where "leaf_view w a = Some (l, m')" by (rule leaf_dataD [OF a])
      then have "(pPointer l, m') \<in> view_set w" by (rule view_setI)
      with e cs(1) show False by simp
    qed
  next
    assume "ts = []"
    then have "M = Map.empty" using r(2) by (metis empty_iff ext forest_of_simps(1) not_None_eq)
    then show "cs = []" using M by simp
  qed
  then show thesis using that [OF r s(2-5)] M by blast
qed

lemma chained_used: "chained w cs M \<Longrightarrow> allocator (nv w) = Some A \<Longrightarrow> c \<in> set cs \<Longrightarrow>
    fst c \<in> used_set A (dev (nv w)) \<and> leaf_at (dev (nv w)) (fst c) = Some (snd c)"
  by (auto simp: chained_def elim!: view_setE dest!: leaf_viewD(5))

lemma linked_start: "linked p cs q \<Longrightarrow> cs \<noteq> [] \<Longrightarrow> p = fst (hd cs)"
  by (cases cs) auto

lemma stored_insert:
  assumes E: "libpmem_ok E" and st: "stored w d M" and k: "M k = None" and A: "allocator (nv w) = Some A" "disk_ok E A"
  obtains w' where "FPTree_insert E k v w = Some w'" "stored w' d (M(k \<mapsto> v))" "durable (dev (nv w)) \<longrightarrow> durable (dev (nv w'))"
proof -
  obtain h ks ts A0 cs where s: "root_ok w d h ks ts" "\<And>k v. M k = Some v \<longleftrightarrow> (k, v) \<in> forest_of w ts"
    "allocator (nv w) = Some A0" "free_file_ok A0 (nv w)" "chained w cs M"
    "if cs = [] then startLeaf A0 \<notin> used_set A0 (dev (nv w)) else linked (startLeaf A0) cs nullPPointer"
    "cs = [] \<longleftrightarrow> ts = []" "M = Map.empty \<longleftrightarrow> cs = []" by (rule storedE [OF st]) blast
  have A0: "A0 = A" using s(3) A(1) by simp
  have rep: "represents w d M" using st by (simp add: stored_def)
  obtain w' where w': "FPTree_insert E k v w = Some w'" "represents w' d (M(k \<mapsto> v))" "durable (dev (nv w)) \<longrightarrow> durable (dev (nv w'))"
    by (rule FPTree_insert_spec [OF E rep k A, of v])
  obtain nr where run: "Node_insert E (root w) k v w = Some (nr, w')"
    using w'(1) root_nonnull [OF s(1)] by (auto simp: FPTree_insert_def bind_eq_Some_conv)
  obtain h' ks' ts' where r': "root_ok w' d h' ks' ts'" "\<And>x y. (M(k \<mapsto> v)) x = Some y \<longleftrightarrow> (x, y) \<in> forest_of w' ts'"
    by (rule representsE [OF w'(2)]) blast
  have "\<exists>A' cs'. allocator (nv w') = Some A' \<and> free_file_ok A' (nv w') \<and> chained w' cs' (M(k \<mapsto> v)) \<and> cs' \<noteq> []
      \<and> linked (startLeaf A') cs' nullPPointer"
  proof (cases "ts = []")
    case True
    then have e: "cs = []" "ks = []" "view_set w = {}" "M = Map.empty"
      using s(1,5,7,8) by (auto simp: root_ok_def chained_def)
    have r0: "root_ok w d h [] []" "startLeaf A \<notin> used_set A (dev (nv w))" using s(1,6) e True A0 by simp_all
    obtain p m A' where f: "view_set w' = insert (p, m) (view_set w)" "stored_leaf m" "set (entries m) = {(k, v)}" "pNext m = nullPPointer"
      "allocator (nv w') = Some A'" "startLeaf A' = p" "free_file_ok A (nv w) \<longrightarrow> free_file_ok A' (nv w')"
      by (rule first_insert_grows [OF E r0(1) A r0(2) run])
    then have "chained w' [(p, m)] (M(k \<mapsto> v))" using e by (auto simp: chained_def chain_ok_def)
    then show ?thesis using f s(4) A0 by (intro exI [of _ A'] exI [of _ "[(p, m)]"]) simp
  next
    case False
    then have ne: "cs \<noteq> []" "linked (startLeaf A) cs nullPPointer" using s(6,7) A0 by auto
    have us: "startLeaf A \<in> used_set A (dev (nv w))"
      using chained_used [OF s(5) A(1), of "hd cs"] linked_start [OF ne(2,1)] ne(1) by simp
    have ins: "insertable w k" by (rule chained_insertable [OF s(5) chained_good [OF s(5,1,2)] k])
    have kf: "k \<notin> fst ` forest_of w ts" unfolding not_in_fst using s(2) [of k] k by simp
    have g: "leaf_grows A w w' (k, v)" by (rule root_insert_grows [OF E s(1) False A ins kf run])
    have ff: "free_file_ok A (nv w)" using s(4) A0 by simp
    show ?thesis by (rule chained_grows [OF s(5) k g r' ne(2) us ff]) blast
  qed
  then obtain A' cs' where c: "allocator (nv w') = Some A'" "free_file_ok A' (nv w')" "chained w' cs' (M(k \<mapsto> v))" "cs' \<noteq> []"
    "linked (startLeaf A') cs' nullPPointer" by blast
  have "stored w' d (M(k \<mapsto> v))"
    unfolding stored_def by (intro conjI exI [of _ A'] exI [of _ cs'] w'(2) c(1-3)) (simp add: c(4,5))
  then show thesis using that [OF w'(1) _ w'(3)] by blast
qed

lemma stored_update:
  assumes E: "libpmem_ok E" and st: "stored w d M" and ne: "M \<noteq> Map.empty"
  obtains w' where "FPTree_update E k v w = Some (M k \<noteq> None, w')" "stored w' d (if M k = None then M else M(k \<mapsto> v))"
    "durable (dev (nv w)) \<longrightarrow> durable (dev (nv w'))" "allocator (nv w') = allocator (nv w)"
proof -
  obtain h ks ts A cs where s: "root_ok w d h ks ts" "\<And>k v. M k = Some v \<longleftrightarrow> (k, v) \<in> forest_of w ts"
    "allocator (nv w) = Some A" "free_file_ok A (nv w)" "chained w cs M"
    "if cs = [] then startLeaf A \<notin> used_set A (dev (nv w)) else linked (startLeaf A) cs nullPPointer"
    "cs = [] \<longleftrightarrow> ts = []" "M = Map.empty \<longleftrightarrow> cs = []" by (rule storedE [OF st]) blast
  have n: "ts \<noteq> []" "linked (startLeaf A) cs nullPPointer" using ne s(6-8) by auto
  have rep: "represents w d M" using st by (simp add: stored_def)
  obtain w' where w': "FPTree_update E k v w = Some (M k \<noteq> None, w')"
    "represents w' d (if M k = None then M else M(k \<mapsto> v))" "durable (dev (nv w)) \<longrightarrow> durable (dev (nv w'))"
    by (rule FPTree_update_spec [OF E rep ne, of k v])
  have run: "Node_update E (root w) k v w = Some (M k \<noteq> None, w')"
    using w'(1) root_nonnull [OF s(1)] by (simp add: FPTree_update_def)
  have u: "leaf_updates A w w' k"
    by (rule root_update_updates [OF E s(3) chained_good [OF s(5,1,2)] s(1) n(1) run])
  obtain h' ks' ts' where r': "root_ok w' d h' ks' ts'"
    "\<And>x y. (if M k = None then M else M(k \<mapsto> v)) x = Some y \<longleftrightarrow> (x, y) \<in> forest_of w' ts'"
    by (rule representsE [OF w'(2)]) blast
  obtain cs' where c: "chained w' cs' (if M k = None then M else M(k \<mapsto> v))" "cs' \<noteq> []" "linked (startLeaf A) cs' nullPPointer"
    by (rule chained_updates [OF s(5) u refl r' n(2)])
  have "allocator (nv w') = Some A" "freeListFile (nv w') = freeListFile (nv w)" using u by (auto simp: leaf_updates_def)
  note files = this
  then have "stored w' d (if M k = None then M else M(k \<mapsto> v))"
    unfolding stored_def using s(4) c(2,3)
    by (intro conjI exI [of _ A] exI [of _ cs'] w'(2) c(1)) (simp_all add: free_file_ok_def)
  then show thesis using that [OF w'(1) _ w'(3)] files(1) s(3) by simp
qed

text \<open>A store whose leaves stay in order is a key-value store too.\<close>

definition stored_rep :: "env \<Rightarrow> nat \<Rightarrow> world \<Rightarrow> (u64 \<rightharpoonup> u64) \<Rightarrow> bool" where
  "stored_rep E d w M \<longleftrightarrow> libpmem_ok E \<and> stored w d M"

interpretation pkv: kv_store FPTree_find "FPTree_update E" "FPTree_insert E" "stored_rep E d" "tree_room E" for E d
proof
  fix w M k v
  assume r: "stored_rep E d w M"
  then have E: "libpmem_ok E" and st: "stored w d M" and rep: "represents w d M" by (simp_all add: stored_rep_def stored_def)
  show "M \<noteq> Map.empty \<Longrightarrow> FPTree_find k w = Some (case M k of None \<Rightarrow> MAX_VALUE | Some v \<Rightarrow> v)"
    by (rule FPTree_find_spec [OF rep])
  show "\<exists>w'. FPTree_update E k v w = Some (M k \<noteq> None, w') \<and> stored_rep E d w' (if M k = None then M else M(k \<mapsto> v))"
    if "M \<noteq> Map.empty"
    by (rule stored_update [OF E st that, of k v]) (use E in \<open>auto simp: stored_rep_def simp del: fun_upd_apply\<close>)
  show "\<exists>w'. FPTree_insert E k v w = Some w' \<and> stored_rep E d w' (M(k \<mapsto> v))" if k: "M k = None" and room: "tree_room E w"
  proof -
    obtain A where A: "allocator (nv w) = Some A" "disk_ok E A" using room by (auto simp: tree_room_def split: option.splits)
    show ?thesis by (rule stored_insert [OF E st k A, of v]) (use E in \<open>auto simp: stored_rep_def\<close>)
  qed
qed

end
