(* ===== verification/Tree_Restart.thy ===== *)
theory Tree_Restart
  imports Chain_Steps
begin

text \<open>
  The program across restarts: the destructor of the allocator writes the catalog and unmaps the files, the
  next process maps them again and the constructor of the tree loads the leaves (\<open>FPTree::bulkLoading\<close>).
\<close>

section \<open>Restart\<close>

text \<open>
  The process ends: the destructor of the allocator writes the catalog and unmaps the files, the
  heap is gone. The next process finds the files.
\<close>

definition started :: "nvm \<Rightarrow> world" where
  "started n = \<lparr>nv = n, heap = Map.empty, brk = 1, root = NULL, tree_degree = 0\<rparr>"

definition shutdown :: "env \<Rightarrow> world \<Rightarrow> world option" where
  "shutdown E w = do { A \<leftarrow> allocator (nv w); Some (started (deletePAllocator E A (nv w))) }"

lemma getAllocator_idem: "getAllocator E n = Some (A, n') \<Longrightarrow> getAllocator E n' = Some (A, n')"
  by (auto simp: getAllocator_def bind_eq_Some_conv split: option.splits)

text \<open>The constructor of the tree opens the allocator if nobody has.\<close>

lemma bulkLoading_opens:
  assumes "getAllocator E (nv u) = Some (A, n')"
  shows "bulkLoading E (u\<lparr>nv := n'\<rparr>) = bulkLoading E u"
  using assms getAllocator_idem [OF assms] by (simp add: bulkLoading_def)

lemma newFPTree_opens:
  assumes "getAllocator E (nv w) = Some (A, n')"
  shows "newFPTree E d w = newFPTree E d (w\<lparr>nv := n'\<rparr>)"
proof -
  have *: "fst (alloc x (w\<lparr>nv := n'\<rparr>)) = fst (alloc x w)"
    "snd (alloc x (w\<lparr>nv := n'\<rparr>))\<lparr>root := r, tree_degree := d\<rparr> = (snd (alloc x w)\<lparr>root := r, tree_degree := d\<rparr>)\<lparr>nv := n'\<rparr>" for x r
    by (cases w; simp add: alloc_def)+
  have "bulkLoading E ((snd (alloc x w)\<lparr>root := r, tree_degree := d\<rparr>)\<lparr>nv := n'\<rparr>)
    = bulkLoading E (snd (alloc x w)\<lparr>root := r, tree_degree := d\<rparr>)" for x r
    by (rule bulkLoading_opens [of _ _ A]) (use assms in \<open>simp add: alloc_def\<close>)
  then show ?thesis unfolding newFPTree_def Let_def split_def * by simp
qed

text \<open>A new process, on an allocator that knows the same leaves as the old one.\<close>

lemma started_ok:
  assumes "palloc_inv A (dev n)" and "allocator n = Some A"
  shows "world_ok (started n)" "links_ok (started n)" "leaf_view (started n) a = None"
proof -
  have none: "leaf_view (started n) a = None" for a by (simp add: leaf_view_def get_leafnode_def started_def)
  show "world_ok (started n)" "links_ok (started n)"
    using assms none
    by (simp_all add: world_ok_def alloc_ok_def heap_ok_def views_inj_def all_views_def links_ok_def leaf_links_def [abs_def] started_def)
  show "leaf_view (started n) a = None" by (rule none)
qed

lemma loaded_chain:
  assumes w': "represents w' d M" "\<forall>b l mb. leaf_view w' b = Some (l, mb) \<longrightarrow> pPointer l \<in> fst ` set cs"
    and at: "\<And>c. c \<in> set cs \<Longrightarrow> leaf_at (dev (nv w')) (fst c) = Some (snd c)"
    and cs: "chain_ok cs" "\<And>k v. M k = Some v \<longleftrightarrow> (k, v) \<in> chain_entries cs"
  shows "chained w' cs M"
proof -
  have sub: "c \<in> set cs" if c: "c \<in> view_set w'" for c
  proof -
    obtain a l where a: "leaf_view w' a = Some (l, snd c)" "pPointer l = fst c" by (rule view_setE [OF c])
    then obtain c' where c': "c' \<in> set cs" "fst c' = fst c" using w'(2) by fastforce
    have "leaf_at (dev (nv w')) (fst c) = Some (snd c)" using leaf_viewD(5) [OF a(1)] a(2) by auto
    then show ?thesis using at [OF c'(1)] c' by (metis option.inject prod_eq_iff)
  qed
  have sup: "c \<in> view_set w'" if c: "c \<in> set cs" for c
  proof -
    have "entries (snd c) \<noteq> []" using cs(1) c by (simp add: chain_ok_def stored_leaf_def)
    then obtain x y where e: "(x, y) \<in> set (entries (snd c))" by (metis list.set_sel(1) surj_pair)
    then have Mx: "M x = Some y" using cs(2) c by (force simp: chain_entries_def)
    obtain h' ks' ts' where r': "root_ok w' d h' ks' ts'" "\<And>x y. M x = Some y \<longleftrightarrow> (x, y) \<in> forest_of w' ts'"
      by (rule representsE [OF w'(1)]) blast
    obtain a l m where a: "leaf_view w' a = Some (l, m)" "(x, y) \<in> set (entries m)"
      by (rule forest_leaf [OF r'(1), of "(x, y)"]) (use r'(2) Mx in blast)+
    have v: "(pPointer l, m) \<in> view_set w'" by (rule view_setI [OF a(1)])
    then have "c = (pPointer l, m)" using chain_ok_disjoint [OF cs(1) c sub [OF v] e] a(2) by simp
    then show ?thesis using v by simp
  qed
  show ?thesis using sub sup cs by (auto simp: chained_def)
qed

text \<open>The chain of the leaves of a stored tree, as \<open>bulkLoading\<close> follows it.\<close>

lemma stored_chain:
  assumes st: "stored w d M" and A: "allocator (nv w) = Some A"
  obtains cs where "chained w cs M" "chain A (dev (nv w)) (startLeaf A) cs"
    "if cs = [] then startLeaf A \<notin> used_set A (dev (nv w)) else linked (startLeaf A) cs nullPPointer"
proof -
  obtain cs where s: "chained w cs M"
    "if cs = [] then startLeaf A \<notin> used_set A (dev (nv w)) else linked (startLeaf A) cs nullPPointer"
    by (rule storedE [OF st]) (use A in auto)
  have "chain A (dev (nv w)) (startLeaf A) cs"
  proof (cases "cs = []")
    case False
    then have "linked (startLeaf A) cs nullPPointer" using s(2) by simp
    then show ?thesis by (rule linked_chain [OF _ null_unused]) (use chained_used [OF s(1) A] in simp)
  qed (use s(2) in simp)
  then show thesis using that s by blast
qed

lemma chain_cong:
  assumes "used_set A' dv' = used_set A dv" and "\<And>p. p \<in> used_set A dv \<Longrightarrow> leaf_at dv' p = leaf_at dv p"
  shows "chain A dv p cs \<Longrightarrow> chain A' dv' p cs"
  using assms by (induction cs arbitrary: p) auto

lemma stored_opens:
  assumes st: "stored w d M" and A: "allocator (nv w) = Some A" and d: "1 \<le> d'" "d' < 2 ^ 29 - 1"
    and n: "palloc_inv A' (dev n)" "allocator n = Some A'" "used_set A' (dev n) = used_set A (dev (nv w))"
      "\<And>p. p \<in> used_set A (dev (nv w)) \<Longrightarrow> leaf_at (dev n) p = leaf_at (dev (nv w)) p"
      "startLeaf A' = startLeaf A" "free_file_ok A' n"
  obtains w' where "newFPTree E (of_nat d') (started n) = Some w'" "stored w' d' M" "nv w' = n"
proof -
  obtain cs where s: "chained w cs M" "chain A (dev (nv w)) (startLeaf A) cs"
    "if cs = [] then startLeaf A \<notin> used_set A (dev (nv w)) else linked (startLeaf A) cs nullPPointer"
    by (rule stored_chain [OF st A])
  have cs: "chain_ok cs" "\<And>k v. M k = Some v \<longleftrightarrow> (k, v) \<in> chain_entries cs" using s(1) by (auto simp: chained_def)
  have at: "leaf_at (dev n) (fst c) = Some (snd c)" if "c \<in> set cs" for c
    using chained_used [OF s(1) A that] n(4) by simp
  have "chain A' (dev (nv (started n))) (startLeaf A') cs"
    using chain_cong [OF n(3,4) s(2)] n(5) by (simp add: started_def)
  moreover have "allocator (nv (started n)) = Some A'" using n(2) by (simp add: started_def)
  ultimately obtain w' where w': "newFPTree E (of_nat d') (started n) = Some w'" "represents w' d' M" "nv w' = nv (started n)"
    "\<forall>b l mb. leaf_view w' b = Some (l, mb) \<longrightarrow> pPointer l \<in> fst ` set cs"
    using recover_spec [where E = E, OF started_ok(1,2) [OF n(1,2)] _ _ cs(1) started_ok(3) [OF n(1,2)] d cs(2)] by blast
  have nv: "nv w' = n" using w'(3) by (simp add: started_def)
  have "chained w' cs M" by (rule loaded_chain [OF w'(2,4) _ cs]) (use at nv in simp)
  then have "stored w' d' M"
    unfolding stored_def using w'(2) s(3) n nv by (intro conjI exI [of _ A'] exI [of _ cs]) simp_all
  then show thesis using that w'(1) nv by blast
qed

text \<open>The same from the files: the catalog is that of the old allocator, and so are the groups.\<close>

lemma stored_reopens:
  assumes E: "libpmem_ok E" "\<And>d is. mappable E d is" and st: "stored w d M" and A: "allocator (nv w) = Some A"
    and d: "1 \<le> d'" "d' < 2 ^ 29 - 1"
    and n: "allocator n = None" "catalogFile n = Some (maxFileId A, freeNum A, startLeaf A)" "freeListFile n = freeListFile (nv w)"
      "\<forall>f. f \<noteq> 0 \<longrightarrow> f < maxFileId A \<longrightarrow> cur (dev n) f = cur (dev (nv w)) f"
  obtains w' A' where "newFPTree E (of_nat d') (started n) = Some w'" "stored w' d' M" "dev (nv w') = dev n"
    "allocator (nv w') = Some A'" "catalogFile (nv w') = Some (maxFileId A', freeNum A', startLeaf A')"
proof -
  have inv: "palloc_inv A (dev (nv w))" and "free_file_ok A (nv w)"
    by (rule storedE [OF st]; use A in \<open>auto simp: root_ok_def world_ok_def alloc_ok_def\<close>)+
  then have ff: "free_file_ok A n" using free_file_ok_cong n(3) by blast
  obtain A' where o: "getAllocator E n = Some (A', n\<lparr>allocator := Some A'\<rparr>)" "palloc_inv A' (dev n)"
    "used_set A' (dev n) = used_set A (dev (nv w))" "\<And>p. p \<in> used_set A (dev (nv w)) \<Longrightarrow> leaf_at (dev n) p = leaf_at (dev (nv w)) p"
    "startLeaf A' = startLeaf A" "freeList A' = freeList A" "maxFileId A' = maxFileId A" "freeNum A' = freeNum A"
    by (rule open_ok [OF E(1) inv E(2) n(1,2,4) ff]) blast
  let ?n' = "n\<lparr>allocator := Some A'\<rparr>"
  have ff': "free_file_ok A' ?n'" using ff free_file_ok_cong [of ?n' n A' A] o(6) by simp
  obtain w' where w': "newFPTree E (of_nat d') (started ?n') = Some w'" "stored w' d' M" "nv w' = ?n'"
    by (rule stored_opens [OF st A d, of A' ?n']) (use o ff' in auto)
  have "started ?n' = (started n)\<lparr>nv := ?n'\<rparr>" by (simp add: started_def)
  then have "newFPTree E (of_nat d') (started n) = Some w'"
    using newFPTree_opens [of E "started n" A' ?n' "of_nat d'"] o(1) w'(1) by (simp add: started_def)
  then show thesis using that w' n(2) o(5,7,8) by simp
qed

lemma stored_restart:
  assumes E: "libpmem_ok E" "open_out E catalogPath" "\<And>d is. mappable E d is" and st: "stored w d M" and d: "1 \<le> d'" "d' < 2 ^ 29 - 1"
  obtains w0 w' A' where "shutdown E w = Some w0" "newFPTree E (of_nat d') w0 = Some w'" "stored w' d' M"
    "allocator (nv w') = Some A'" "catalogFile (nv w') = Some (maxFileId A', freeNum A', startLeaf A')"
    "durable (dev (nv w)) \<longrightarrow> durable (dev (nv w'))"
proof -
  obtain A where A: "allocator (nv w) = Some A" by (rule storedE [OF st])
  let ?n = "deletePAllocator E A (nv w)"
  note n = deletePAllocator_files [OF E(1,2), of A "nv w"]
  obtain w' A' where w': "newFPTree E (of_nat d') (started ?n) = Some w'" "stored w' d' M" "dev (nv w') = dev ?n"
    "allocator (nv w') = Some A'" "catalogFile (nv w') = Some (maxFileId A', freeNum A', startLeaf A')"
    by (rule stored_reopens [OF E(1,3) st A d n(2,1,3)]) (use n(4) in auto)
  moreover have "shutdown E w = Some (started ?n)" using A by (simp add: shutdown_def)
  moreover have "durable (dev (nv w)) \<longrightarrow> durable (dev (nv w'))" using w'(3) deletePAllocator_durable [OF E(1)] by simp
  ultimately show thesis using that by blast
qed

section \<open>Sessions\<close>

text \<open>Scripts of operations, with a restart of the program after each of them.\<close>

fun run_sessions :: "env \<Rightarrow> nat \<Rightarrow> kv_op list list \<Rightarrow> world \<Rightarrow> (kv_out list list \<times> world) option" where
  "run_sessions E d [] w = Some ([], w)"
| "run_sessions E d (cs # css) w = do {
     (os, w1) \<leftarrow> run_kv FPTree_find (FPTree_update E) (FPTree_insert E) cs w;
     w2 \<leftarrow> shutdown E w1;
     w3 \<leftarrow> newFPTree E (of_nat d) w2;
     (oss, w4) \<leftarrow> run_sessions E d css w3;
     Some (os # oss, w4) }"

fun run_maps :: "kv_op list list \<Rightarrow> (u64 \<rightharpoonup> u64) \<Rightarrow> kv_out list list \<times> (u64 \<rightharpoonup> u64)" where
  "run_maps [] M = ([], M)"
| "run_maps (cs # css) M = (let (os, M1) = run_map cs M; (oss, M2) = run_maps css M1 in (os # oss, M2))"

fun legal_sessions :: "kv_op list list \<Rightarrow> (u64 \<rightharpoonup> u64) \<Rightarrow> bool" where
  "legal_sessions [] M = True"
| "legal_sessions (cs # css) M = (legal cs M \<and> legal_sessions css (snd (run_map cs M)))"

fun roomy_sessions :: "env \<Rightarrow> nat \<Rightarrow> kv_op list list \<Rightarrow> world \<Rightarrow> bool" where
  "roomy_sessions E d [] w = True"
| "roomy_sessions E d (cs # css) w = (roomy (tree_room E) (FPTree_update E) (FPTree_insert E) cs w
     \<and> (\<forall>os w1 w2 w3. run_kv FPTree_find (FPTree_update E) (FPTree_insert E) cs w = Some (os, w1) \<longrightarrow>
         shutdown E w1 = Some w2 \<longrightarrow> newFPTree E (of_nat d) w2 = Some w3 \<longrightarrow> roomy_sessions E d css w3))"

lemma sessions_refine:
  assumes E: "libpmem_ok E" "open_out E catalogPath" "\<And>d is. mappable E d is" and d: "1 \<le> d" "d < 2 ^ 29 - 1"
  shows "stored w d M \<Longrightarrow> legal_sessions css M \<Longrightarrow> roomy_sessions E d css w \<Longrightarrow>
    \<exists>w'. run_sessions E d css w = Some (fst (run_maps css M), w') \<and> stored w' d (snd (run_maps css M))"
proof (induction css arbitrary: w M)
  case Nil
  then show ?case by simp
next
  case (Cons cs css)
  have st: "stored_rep E d w M" using E(1) Cons.prems(1) by (simp add: stored_rep_def)
  obtain w1 where w1: "run_kv FPTree_find (FPTree_update E) (FPTree_insert E) cs w = Some (fst (run_map cs M), w1)"
    "stored w1 d (snd (run_map cs M))"
    using pkv.run_refines [OF st, of cs] Cons.prems(2,3) by (auto simp: stored_rep_def)
  obtain w2 w3 where w3: "shutdown E w1 = Some w2" "newFPTree E (of_nat d) w2 = Some w3" "stored w3 d (snd (run_map cs M))"
    by (rule stored_restart [OF E w1(2) d])
  have "\<exists>w'. run_sessions E d css w3 = Some (fst (run_maps css (snd (run_map cs M))), w')
      \<and> stored w' d (snd (run_maps css (snd (run_map cs M))))"
    by (rule Cons.IH [OF w3(3)]) (use Cons.prems(2,3) w1(1) w3(1,2) in auto)
  then show ?case using w1(1) w3(1,2) by (auto simp: split_def Let_def)
qed

lemma stored_empty:
  assumes "world_ok w" "links_ok w" "allocator (nv w) = Some A" "startLeaf A \<notin> used_set A (dev (nv w))"
    and "free_file_ok A (nv w)" "\<And>a. leaf_view w a = None" "1 \<le> d" "d < 2 ^ 29 - 1"
  obtains w' where "newFPTree E (of_nat d) w = Some w'" "stored w' d Map.empty" "nv w' = nv w"
proof -
  have ch: "chain A (dev (nv w)) (startLeaf A) []" "chain_ok []" using assms(4) by (simp_all add: chain_ok_def)
  have Mc: "Map.empty k = Some v \<longleftrightarrow> (k, v) \<in> chain_entries []" for k v by simp
  obtain w' where w': "newFPTree E (of_nat d) w = Some w'" "represents w' d Map.empty" "nv w' = nv w"
    "\<forall>b l mb. leaf_view w' b = Some (l, mb) \<longrightarrow> pPointer l \<in> fst ` set ([] :: (PPointer \<times> leaf_image) list)"
    by (rule recover_spec [where E = E, OF assms(1-3) ch assms(6-8) Mc]) blast
  then have "view_set w' = {}" by (auto elim!: view_setE)
  then have "chained w' [] Map.empty" by (simp add: chained_def chain_ok_def)
  then have "stored w' d Map.empty"
    unfolding stored_def using w'(2,3) assms(3-5) by (intro conjI exI [of _ A] exI [of _ "[]"]) simp_all
  then show thesis using that w'(1,3) by blast
qed

section \<open>Properties\<close>

text \<open>A new tree in an empty directory, and one with an entry, for the witnesses.\<close>

lemma stored_first:
  obtains w where "newFPTree ideal_env 2 fresh_world = Some w" "stored w 2 Map.empty" "nv w = nv fresh_world"
proof -
  have A: "allocator (nv fresh_world) = Some fresh_alloc" by (simp add: fresh_world_def)
  have us: "startLeaf fresh_alloc \<notin> used_set fresh_alloc (dev (nv fresh_world))" using fresh_unused by (simp add: fresh_world_def)
  have ff: "free_file_ok fresh_alloc (nv fresh_world)" by (simp add: free_file_ok_def fresh_world_def fresh_nvm_def)
  have none: "leaf_view fresh_world a = None" for a by (simp add: leaf_view_def get_leafnode_def fresh_world_def)
  obtain w where "newFPTree ideal_env (of_nat 2) fresh_world = Some w" "stored w 2 Map.empty" "nv w = nv fresh_world"
    by (rule stored_empty [OF fresh_world_ok links_ok_fresh A us ff none, of 2 ideal_env]) auto
  then show thesis using that by simp
qed

lemma stored_one:
  obtains w where "stored w 2 [7 \<mapsto> 1]" "durable (dev (nv w))"
proof -
  obtain w where w: "stored w 2 Map.empty" "nv w = nv fresh_world" by (rule stored_first)
  have A: "allocator (nv w) = Some fresh_alloc" "durable (dev (nv w))" using w(2) fresh_durable by (simp_all add: fresh_world_def)
  show thesis by (rule stored_insert [OF libpmem_ok_ideal w(1) _ A(1) disk_ok_fresh, of 7 1]) (use that A(2) in auto)
qed

text \<open>
  C4: The tree keeps its entries across restarts. Every sequence of scripts of insertions of new keys, updates and
  searches, with a restart of the program after each script (the destructor of the allocator, then the constructors
  of the allocator and of the tree, which loads the leaves again), returns, with the outputs of the scripts on one
  map that goes through all of them. The first tree has its leaves linked from the start leaf on and a free list file that
  holds the free list (\<open>stored\<close>), as a new one has; the storage has room before every insertion and can be opened at
  every restart; the tree has an entry at every search and every update; and the degree is
  one for which no int computation overflows.
\<close>

theorem FPTree_survives_restarts:
  assumes "libpmem_ok E" and "open_out E catalogPath" and "\<And>d is. mappable E d is" and "1 \<le> d" and "d < 2 ^ 29 - 1"
    and "stored w d M" and "legal_sessions css M" and "roomy_sessions E d css w"
  shows "\<exists>w'. run_sessions E d css w = Some (fst (run_maps css M), w') \<and> stored w' d (snd (run_maps css M))"
  by (rule sessions_refine [OF assms])

theorem FPTree_survives_restarts_witness:
  "\<exists>w w'. newFPTree ideal_env 2 fresh_world = Some w \<and>
    run_sessions ideal_env 2 [[Insert 7 1], [Find 7, Update 7 2], [Find 7, Find 8]] w
      = Some ([[Inserted], [Found 1, Updated True], [Found 2, Found MAX_VALUE]], w') \<and> stored w' 2 [7 \<mapsto> 2]"
proof -
  obtain w where w: "newFPTree ideal_env 2 fresh_world = Some w" "stored w 2 Map.empty" "nv w = nv fresh_world"
    by (rule stored_first)
  have out: "open_out ideal_env catalogPath" by (simp add: ideal_env_def)
  have room: "tree_room ideal_env w" using w(3) disk_ok_fresh by (simp add: tree_room_def fresh_world_def)
  from FPTree_survives_restarts [OF libpmem_ok_ideal out mappable_ideal _ _ w(2), of "[[Insert 7 1], [Find 7, Update 7 2], [Find 7, Find 8]]"]
    room show ?thesis using w(1) by (auto simp: Let_def)
qed

text \<open>
  C9: The constructor of the tree (\<open>bulkLoading\<close>), run on leaves that are linked from the start leaf on, hold one to
  111 entries each, and have their keys in order from leaf to leaf, returns a well-formed tree with exactly the
  entries of these leaves, and writes nothing to persistent memory, for every degree from 1 to \<open>2 ^ 29 - 2\<close>: for these no
  int computation on the inner nodes overflows.
\<close>

theorem bulkLoading_loads_chain:
  assumes "world_ok w" and "links_ok w" and "allocator (nv w) = Some A" and "\<And>a. leaf_view w a = None"
    and "chain A (dev (nv w)) (startLeaf A) cs" and "chain_ok cs" and "1 \<le> d" and "d < 2 ^ 29 - 1"
    and "\<And>k v. M k = Some v \<longleftrightarrow> (k, v) \<in> chain_entries cs"
  shows "\<exists>w'. newFPTree E (of_nat d) w = Some w' \<and> represents w' d M \<and> nv w' = nv w"
  by (rule recover_spec [where E = E, OF assms(1-3,5,6,4,7-9)]) blast

theorem bulkLoading_loads_chain_witness:
  "\<exists>w w'. newFPTree ideal_env 3 w = Some w' \<and> represents w' 3 [7 \<mapsto> 1]"
proof -
  obtain w where w: "stored w 2 [7 \<mapsto> 1]" by (rule stored_one)
  obtain A where A: "allocator (nv w) = Some A" by (rule storedE [OF w])
  have inv: "palloc_inv A (dev (nv w))" by (rule storedE [OF w]) (use A in \<open>auto simp: root_ok_def world_ok_def alloc_ok_def\<close>)
  obtain cs where cs: "chained w cs [7 \<mapsto> 1]" "chain A (dev (nv w)) (startLeaf A) cs" by (rule stored_chain [OF w A])
  then have c: "chain_ok cs" "\<And>k v. [7 \<mapsto> 1] k = Some v \<longleftrightarrow> (k, v) \<in> chain_entries cs" by (auto simp: chained_def)
  have n: "nv (started (nv w)) = nv w" by (simp add: started_def)
  have "\<exists>w'. newFPTree ideal_env (of_nat 3) (started (nv w)) = Some w' \<and> represents w' 3 [7 \<mapsto> 1] \<and> nv w' = nv (started (nv w))"
    by (rule bulkLoading_loads_chain [where A = A and cs = cs, OF started_ok(1,2) [OF inv A] _ started_ok(3) [OF inv A] _ c(1) _ _ c(2)])
      (use A cs n in simp_all)
  then show ?thesis by auto
qed

end
