(* ===== verification/Tree_Crash.thy ===== *)
theory Tree_Crash
  imports Tree_Restart
begin

text \<open>
  The program when the power fails. What \<open>persist\<close> has flushed is found again, but the catalog of the allocator is
  written only when the first directory is made, when the start leaf is freed, and by the destructor. A tree whose
  catalog is up to date therefore survives a failure with all updates; a tree that was filled since the first
  start is lost.
\<close>

section \<open>Power failure\<close>

text \<open>
  The process ends without the destructor. A region that was flushed after its last write is found as it was;
  of the others nothing is known, since a cache may have written back any part of them. The files of the
  groups keep their sizes. The catalog and the free list are small files that the program writes through an \<open>ofstream\<close> and
  never syncs; they are assumed to be on storage, complete, when the power fails, as they are some time after
  they were written. A failure that loses or tears these files is outside this relation.
\<close>

definition crashed :: "nvm \<Rightarrow> nvm \<Rightarrow> bool" where
  "crashed n n0 \<longleftrightarrow> allocator n0 = None \<and> catalogFile n0 = catalogFile n \<and> freeListFile n0 = freeListFile n
     \<and> dur (dev n0) = cur (dev n0)
     \<and> (\<forall>f. map_option (\<lambda>g. length (leaves g)) (cur (dev n0) f) = map_option (\<lambda>g. length (leaves g)) (cur (dev n) f))
     \<and> (\<forall>r. synced r (dev n) \<longrightarrow> region_view r (cur (dev n0)) = region_view r (cur (dev n)))"

lemma crashed_group:
  assumes c: "crashed n n0" and dv: "durable (dev n)" and g: "cur (dev n) f = Some g" "length (leaves g) = 16"
  shows "cur (dev n0) f = Some g"
proof -
  have "region_view (HeadRegion f) (cur (dev n0)) = region_view (HeadRegion f) (cur (dev n))"
    using c dv unfolding crashed_def durable_def by blast
  then obtain g0 where g0: "cur (dev n0) f = Some g0" "usedNum g0 = usedNum g" "leafBitmap g0 = leafBitmap g"
    using g(1) by auto
  have "map_option (\<lambda>g. length (leaves g)) (cur (dev n0) f) = map_option (\<lambda>g. length (leaves g)) (cur (dev n) f)"
    using c unfolding crashed_def by blast
  then have len: "length (leaves g0) = 16" using g0(1) g by simp
  have "leaves g0 ! i = leaves g ! i" if "i < 16" for i
  proof -
    have "region_view (LeafRegion f i) (cur (dev n0)) = region_view (LeafRegion f i) (cur (dev n))"
      using c dv that unfolding crashed_def durable_def by blast
    then show ?thesis using g0(1) g(1) by simp
  qed
  then have "leaves g0 = leaves g" using len g(2) by (simp add: nth_equalityI)
  then show ?thesis using g0 by simp
qed

definition catalog_ok :: "nvm \<Rightarrow> bool" where
  "catalog_ok n = (case allocator n of None \<Rightarrow> False
     | Some A \<Rightarrow> catalogFile n = Some (maxFileId A, freeNum A, startLeaf A))"

lemma stored_crash:
  assumes E: "libpmem_ok E" "\<And>d is. mappable E d is" and st: "stored w d M" and d: "1 \<le> d'" "d' < 2 ^ 29 - 1"
    and dv: "durable (dev (nv w))" and ct: "catalog_ok (nv w)" and c: "crashed (nv w) n0"
  obtains w' where "newFPTree E (of_nat d') (started n0) = Some w'" "stored w' d' M" "durable (dev (nv w'))" "catalog_ok (nv w')"
proof -
  obtain A where A: "allocator (nv w) = Some A" "catalogFile (nv w) = Some (maxFileId A, freeNum A, startLeaf A)"
    using ct by (auto simp: catalog_ok_def split: option.splits)
  have inv: "palloc_inv A (dev (nv w))" by (rule storedE [OF st]) (use A in \<open>auto simp: root_ok_def world_ok_def alloc_ok_def\<close>)
  have ag: "cur (dev n0) f = cur (dev (nv w)) f" if f: "f \<noteq> 0" "f < maxFileId A" for f
  proof -
    obtain g where "cur (dev (nv w)) f = Some g" "length (leaves g) = 16"
      using inv f by (auto simp: palloc_inv_def mapped_def wf_group_def)
    then show ?thesis using crashed_group [OF c dv] by simp
  qed
  have n0: "allocator n0 = None" "catalogFile n0 = Some (maxFileId A, freeNum A, startLeaf A)"
    "freeListFile n0 = freeListFile (nv w)" "dur (dev n0) = cur (dev n0)" using c A(2) by (simp_all add: crashed_def)
  obtain w' A' where w': "newFPTree E (of_nat d') (started n0) = Some w'" "stored w' d' M" "dev (nv w') = dev n0"
    "allocator (nv w') = Some A'" "catalogFile (nv w') = Some (maxFileId A', freeNum A', startLeaf A')"
    by (rule stored_reopens [OF E st A(1) d n0(1-3)]) (use ag in auto)
  then show thesis using that n0(4) by (simp add: catalog_ok_def durable_def synced_def)
qed

section \<open>The catalog file while the program runs\<close>

text \<open>
  \<open>insert\<close> and \<open>update\<close> never write the catalog, although \<open>insert\<close> makes new groups and the first leaf.
\<close>

definition files_kept :: "nvm \<Rightarrow> nvm \<Rightarrow> bool" where
  "files_kept n n' \<longleftrightarrow> (allocator n \<noteq> None \<longrightarrow> allocator n' \<noteq> None \<and> catalogFile n' = catalogFile n
     \<and> (freeListFile n \<noteq> None \<longrightarrow> freeListFile n' \<noteq> None))"

lemma files_kept_refl [simp]: "files_kept n n"
  by (simp add: files_kept_def)

lemma files_kept_trans [trans]: "files_kept n n1 \<Longrightarrow> files_kept n1 n2 \<Longrightarrow> files_kept n n2"
  by (simp add: files_kept_def)

lemma files_kept_dev [simp]: "files_kept n (n1\<lparr>dev := d\<rparr>) = files_kept n n1"
  by (simp add: files_kept_def)

lemma files_kept_getAllocator: "getAllocator E n = Some (A, n') \<Longrightarrow> files_kept n n'"
  by (auto simp: files_kept_def getAllocator_def split: option.splits)

lemma files_kept_getLeaf:
  assumes "getLeaf E A n = Some (r, A', n')"
  shows "files_kept n (n'\<lparr>allocator := Some B\<rparr>)"
proof -
  have take: "catalogFile n2 = catalogFile n1 \<and> freeListFile n2 = freeListFile n1" if "takeLeaf E A1 n1 = Some (r, A2, n2)" for A1 n1 A2 n2
    using that by (auto simp: takeLeaf_def bind_eq_Some_conv Let_def split: if_splits)
  have "catalogFile n1 = catalogFile n \<and> (freeListFile n \<noteq> None \<longrightarrow> freeListFile n1 \<noteq> None)" if "newLeafGroup E A n = (b, A1, n1)" for b A1 n1
    using that by (auto simp: newLeafGroup_def write_free_list_def Let_def split: option.splits prod.splits if_splits)
  then show ?thesis using assms take by (auto simp: getLeaf_def files_kept_def split: if_splits prod.splits bool.splits)
qed

lemma files_kept_newLeafNode:
  assumes "newLeafNode E w = Some (b, w')"
  shows "files_kept (nv w) (nv w')"
proof -
  obtain A n1 r A1 n2 where g: "getAllocator E (nv w) = Some (A, n1)" "getLeaf E A n1 = Some (r, A1, n2)"
    "nv w' = n2\<lparr>allocator := Some A1\<rparr>"
    using assms by (auto simp: newLeafNode_def bind_eq_Some_conv Let_def alloc_def split: option.splits)
  then show ?thesis using files_kept_trans [OF files_kept_getAllocator files_kept_getLeaf] by metis
qed

lemma files_kept_persist: "persist E l w = Some w' \<Longrightarrow> files_kept (nv w) (nv w')"
  by (auto simp: persist_def bind_eq_Some_conv split: if_splits dest: files_kept_getAllocator)

lemma files_kept_set_leaf_mem: "set_leaf_mem l m w = Some w' \<Longrightarrow> files_kept (nv w) (nv w')"
  by (auto simp: set_leaf_mem_def bind_eq_Some_conv split: if_splits)

lemma nv_put_node [simp]: "nv (put_node a x w) = nv w"
  by (simp add: put_node_def)

lemma files_kept_split: 
  assumes "LeafNode_split E a w = Some (r, w')"
  shows "files_kept (nv w) (nv w')"
proof -
  have "nv w2 = nv w1" if "LeafNode_relink a b l l' w1 = Some w2" for b l l' w1 w2
    using that by (auto simp: LeafNode_relink_def bind_eq_Some_conv Let_def split: if_splits)
  then show ?thesis using assms
    by (auto simp: LeafNode_split_def bind_eq_Some_conv split: if_splits
      dest!: files_kept_newLeafNode files_kept_persist files_kept_set_leaf_mem elim!: files_kept_trans)
qed

lemma files_kept_LeafNode_insert:
  assumes "LeafNode_insert E a k v w = Some (r, w')"
  shows "files_kept (nv w) (nv w')"
proof -
  have "files_kept (nv w) (nv w1)" if "LeafNode_insertNonFull E a k v w = Some w1" for w1
    using that by (auto simp: LeafNode_insertNonFull_def bind_eq_Some_conv Let_def split: if_splits
      dest!: files_kept_persist files_kept_set_leaf_mem elim!: files_kept_trans)
  then show ?thesis using assms
    by (auto simp: LeafNode_insert_def bind_eq_Some_conv split: if_splits dest!: files_kept_split intro: files_kept_trans)
qed

lemma files_kept_LeafNode_update: "LeafNode_update E a k v w = Some (b, w') \<Longrightarrow> files_kept (nv w) (nv w')"
  by (auto simp: LeafNode_update_def bind_eq_Some_conv split: if_splits
      dest!: files_kept_persist files_kept_set_leaf_mem elim!: files_kept_trans)

lemma files_kept_inner: "inner_only w w' \<Longrightarrow> files_kept n (nv w') = files_kept n (nv w)"
  by (simp add: inner_only_def)

lemma files_kept_Node_insert:
  assumes "Node_insert E a k v w = Some rw"
  shows "files_kept (nv w) (nv (snd rw))"
proof (rule Node_insert.raw_induct [OF _ assms])
  fix rec E a k v w rw
  assume IH: "\<And>E a k v w rw. rec E a k v w = Some rw \<Longrightarrow> files_kept (nv w) (nv (snd rw))"
    and run: "(case heap w a of
      Some (Leaf l) \<Rightarrow> LeafNode_insert E a k v w
    | Some (Inner x) \<Rightarrow>
        if isRoot x \<and> nKeys x = 0 then
          (if nChild x = 0 then do {
             (b, w1) \<leftarrow> newLeafNode E w;
             (r, w2) \<leftarrow> LeafNode_insert E b k v w1;
             x2 \<leftarrow> get_inner w2 a;
             x3 \<leftarrow> append_child b x2;
             Some (None, put_node a (Inner x3) w2)
           } else do {
             c \<leftarrow> aget (childrens x) 0;
             (newChild, w1) \<leftarrow> rec E c k v w;
             (case newChild of
                None \<Rightarrow> Some (None, w1)
              | Some kn \<Rightarrow> do {
                  x1 \<leftarrow> get_inner w1 a;
                  x2 \<leftarrow> append_key (key kn) x1;
                  x3 \<leftarrow> append_child (node kn) x2;
                  Some (None, put_node a (Inner x3) w1) }) })
        else do {
          pos \<leftarrow> findIndex x k;
          c \<leftarrow> aget (childrens x) pos;
          (newChild, w1) \<leftarrow> rec E c k v w;
          (newChild, w2) \<leftarrow> take_newChild a newChild w1;
          grow_root a newChild w2 }
    | _ \<Rightarrow> None) = Some rw"
  have IH': "files_kept (nv w) (nv w1)" if "rec E c k v w = Some (r, w1)" for c r w1 using IH [OF that] by simp
  have leaf: "files_kept (nv w) (nv (snd rw))" if "LeafNode_insert E a k v w = Some rw" for a w rw
    using that files_kept_LeafNode_insert [of E a k v w "fst rw" "snd rw"] by simp
  have grow: "nv (snd rw) = nv w2" if "grow_root a r w2 = Some rw" for r w2 rw
    using inner_only_grow [of a r w2 "fst rw" "snd rw"] that by (simp add: inner_only_def)
  have tk: "nv w2 = nv w1" if "take_newChild a r w1 = Some (r', w2)" for r r' w1 w2
    using inner_only_take [OF that] by (simp add: inner_only_def)
  show "files_kept (nv w) (nv (snd rw))"
    using run
    by (auto simp: bind_eq_Some_conv split: option.splits node.splits if_splits
        dest!: IH' leaf files_kept_newLeafNode grow tk elim: files_kept_trans)
qed

lemma files_kept_Node_update:
  assumes "Node_update E a k v w = Some rw"
  shows "files_kept (nv w) (nv (snd rw))"
  by (rule Node_update.raw_induct [OF _ assms])
    (auto simp: bind_eq_Some_conv split: option.splits node.splits if_splits dest: files_kept_LeafNode_update)

lemma files_kept_insert: "FPTree_insert E k v w = Some w' \<Longrightarrow> files_kept (nv w) (nv w')"
  using files_kept_Node_insert by (fastforce simp: FPTree_insert_def bind_eq_Some_conv split: if_splits)

lemma files_kept_update: "FPTree_update E k v w = Some (b, w') \<Longrightarrow> files_kept (nv w) (nv w')"
  using files_kept_Node_update by (fastforce simp: FPTree_update_def split: if_splits)

lemma files_kept_run:
  "run_kv FPTree_find (FPTree_update E) (FPTree_insert E) cs w = Some (os, w') \<Longrightarrow> files_kept (nv w) (nv w')"
proof (induction cs arbitrary: w os)
  case (Cons c cs)
  have "\<exists>w1 os1. files_kept (nv w) (nv w1) \<and> run_kv FPTree_find (FPTree_update E) (FPTree_insert E) cs w1 = Some (os1, w')"
    using Cons.prems by (cases c) (auto simp: bind_eq_Some_conv dest: files_kept_insert files_kept_update intro: files_kept_refl)
  then show ?case using Cons.IH files_kept_trans by blast
qed simp

section \<open>A failure in the first run\<close>

lemma first_catalog_opens:
  assumes "allocator n = None" and "catalogFile n = Some (1, 0, nullPPointer)" and "freeListFile n \<noteq> None"
  obtains A where "getAllocator E n = Some (A, n\<lparr>allocator := Some A\<rparr>)" "maxFileId A = 1" "freeNum A = 0" "freeList A = []"
    "startLeaf A = nullPPointer"
  using assms by (auto simp: getAllocator_def newPAllocator_def initFilePmemAddr_def)

lemma first_catalog_empty:
  assumes "allocator n = None" and "catalogFile n = Some (1, 0, nullPPointer)" and "freeListFile n \<noteq> None"
    and d: "1 \<le> d" "d < 2 ^ 29 - 1"
  obtains w where "newFPTree E (of_nat d) (started n) = Some w" "represents w d Map.empty"
proof -
  obtain A where A: "getAllocator E n = Some (A, n\<lparr>allocator := Some A\<rparr>)" "maxFileId A = 1" "freeNum A = 0" "freeList A = []"
    "startLeaf A = nullPPointer" by (rule first_catalog_opens [OF assms(1-3)])
  let ?n = "n\<lparr>allocator := Some A\<rparr>"
  have inv: "palloc_inv A (dev ?n)" using A(2-4) by (auto simp: palloc_inv_def free_set_def ifLeafExist_iff)
  have us: "startLeaf A \<notin> used_set A (dev (nv (started ?n)))" using null_unused A(5) by (simp add: started_def)
  have al: "allocator (nv (started ?n)) = Some A" by (simp add: started_def)
  have a: "allocator ?n = Some A" by simp
  obtain w where w: "newFPTree E (of_nat d) (started ?n) = Some w" "represents w d Map.empty"
    by (rule newFPTree_spec [where E = E, OF started_ok(1,2) [OF inv a] al us d])
  have "started ?n = (started n)\<lparr>nv := ?n\<rparr>" by (simp add: started_def)
  then have "newFPTree E (of_nat d) (started n) = Some w"
    using newFPTree_opens [of E "started n" A ?n "of_nat d"] A(1) w(1) by (simp add: started_def)
  then show thesis using that w(2) by blast
qed

section \<open>Properties\<close>

text \<open>
  C5: An update survives a power failure. If the tree has entries and is \<open>stored\<close>, and the catalog file is up to date
  (as it is after a restart) and on storage, then
  \<open>FPTree::update\<close> returns, and whenever the power fails after it, the next start loads a tree with the new value
  and all other entries. The catalog is then still up to date, so that this holds for every sequence of updates and
  failures.
\<close>

theorem FPTree_update_survives_crash:
  assumes "libpmem_ok E" and "\<And>d is. mappable E d is" and "stored w d M" and "M \<noteq> Map.empty" and "1 \<le> d'" and "d' < 2 ^ 29 - 1"
    and "durable (dev (nv w))" and "catalog_ok (nv w)"
  shows "\<exists>w1. FPTree_update E k v w = Some (M k \<noteq> None, w1) \<and> (\<forall>n. crashed (nv w1) n \<longrightarrow>
    (\<exists>w'. newFPTree E (of_nat d') (started n) = Some w' \<and> stored w' d' (if M k = None then M else M(k \<mapsto> v))
      \<and> durable (dev (nv w')) \<and> catalog_ok (nv w')))"
proof -
  obtain w1 where w1: "FPTree_update E k v w = Some (M k \<noteq> None, w1)" "stored w1 d (if M k = None then M else M(k \<mapsto> v))"
    "durable (dev (nv w)) \<longrightarrow> durable (dev (nv w1))" "allocator (nv w1) = allocator (nv w)"
    by (rule stored_update [OF assms(1,3,4), of k v]) blast
  have ct: "catalog_ok (nv w1)"
    using assms(8) files_kept_update [OF w1(1)] w1(4) by (auto simp: catalog_ok_def files_kept_def split: option.splits)
  have dv: "durable (dev (nv w1))" using w1(3) assms(7) by blast
  have "\<exists>w'. newFPTree E (of_nat d') (started n) = Some w' \<and> stored w' d' (if M k = None then M else M(k \<mapsto> v))
      \<and> durable (dev (nv w')) \<and> catalog_ok (nv w')" if "crashed (nv w1) n" for n
    by (rule stored_crash [OF assms(1,2) w1(2) assms(5,6) dv ct that]) blast
  then show ?thesis using w1(1) by blast
qed

lemma crashed_ideal: "crashed n (n\<lparr>allocator := None, dev := \<lparr>cur = cur (dev n), dur = cur (dev n)\<rparr>\<rparr>)"
  by (simp add: crashed_def)

theorem FPTree_update_survives_crash_witness:
  "\<exists>w w1 n w'. FPTree_update ideal_env 7 2 w = Some (True, w1) \<and> crashed (nv w1) n
    \<and> newFPTree ideal_env 3 (started n) = Some w' \<and> stored w' 3 [7 \<mapsto> 2]"
proof -
  obtain w0 where w0: "stored w0 2 [7 \<mapsto> 1]" "durable (dev (nv w0))" by (rule stored_one)
  have out: "open_out ideal_env catalogPath" by (simp add: ideal_env_def)
  obtain w A where w: "stored w 2 [7 \<mapsto> 1]" "allocator (nv w) = Some A"
    "catalogFile (nv w) = Some (maxFileId A, freeNum A, startLeaf A)" "durable (dev (nv w0)) \<longrightarrow> durable (dev (nv w))"
    by (rule stored_restart [OF libpmem_ok_ideal out mappable_ideal w0(1), of 2]) auto
  have ok: "durable (dev (nv w))" "catalog_ok (nv w)" using w w0(2) by (simp_all add: catalog_ok_def)
  have ne: "[7 \<mapsto> 1 :: u64] \<noteq> Map.empty" by (rule map_upd_nonempty)
  from FPTree_update_survives_crash [OF libpmem_ok_ideal mappable_ideal w(1) ne _ _ ok, of 3 7 2]
  obtain w1 where w1: "FPTree_update ideal_env 7 2 w = Some (True, w1)"
    "\<forall>n. crashed (nv w1) n \<longrightarrow> (\<exists>w'. newFPTree ideal_env 3 (started n) = Some w' \<and> stored w' 3 [7 \<mapsto> 2]
      \<and> durable (dev (nv w')) \<and> catalog_ok (nv w'))"
    by auto
  show ?thesis using w1 crashed_ideal [of "nv w1"] by blast
qed

text \<open>
  C16: What is inserted in the first run of the program is lost if the run ends without the destructor. After every
  script on a tree whose catalog file is the one the first start has written, and every power failure after it, the
  next start returns an empty tree: the catalog still says that there is no group and no start leaf, although
  the leaves are durable.
\<close>

theorem FPTree_first_run_lost:
  assumes "allocator (nv w) \<noteq> None" and "catalogFile (nv w) = Some (1, 0, nullPPointer)" and "freeListFile (nv w) \<noteq> None"
    and "run_kv FPTree_find (FPTree_update E) (FPTree_insert E) cs w = Some (os, w1)" and "crashed (nv w1) n"
    and "1 \<le> d" and "d < 2 ^ 29 - 1"
  shows "\<exists>w'. newFPTree E (of_nat d) (started n) = Some w' \<and> represents w' d Map.empty"
proof -
  have "allocator n = None" "catalogFile n = Some (1, 0, nullPPointer)" "freeListFile n \<noteq> None"
    using files_kept_run [OF assms(4)] assms(1-3,5) by (simp_all add: files_kept_def crashed_def)
  then show ?thesis by (rule first_catalog_empty [OF _ _ _ assms(6,7)]) blast
qed

theorem FPTree_first_run_lost_witness:
  "\<exists>w w1 n w'. newFPTree ideal_env 2 fresh_world = Some w \<and> FPTree_insert ideal_env 7 1 w = Some w1
    \<and> represents w1 2 [7 \<mapsto> 1] \<and> durable (dev (nv w1)) \<and> crashed (nv w1) n
    \<and> newFPTree ideal_env 2 (started n) = Some w' \<and> represents w' 2 Map.empty"
proof -
  obtain w where w: "newFPTree ideal_env 2 fresh_world = Some w" "stored w 2 Map.empty" "nv w = nv fresh_world"
    by (rule stored_first)
  have n: "allocator (nv w) = Some fresh_alloc" "catalogFile (nv w) = Some (1, 0, nullPPointer)" "freeListFile (nv w) \<noteq> None"
    "durable (dev (nv w))" using w(3) fresh_durable by (simp_all add: fresh_world_def fresh_nvm_def)
  obtain w1 where w1: "FPTree_insert ideal_env 7 1 w = Some w1" "stored w1 2 [7 \<mapsto> 1]" "durable (dev (nv w1))"
    by (rule stored_insert [OF libpmem_ok_ideal w(2) _ n(1) disk_ok_fresh, of 7 1]) (use n(4) in auto)
  have run: "run_kv FPTree_find (FPTree_update ideal_env) (FPTree_insert ideal_env) [Insert 7 1] w = Some ([Inserted], w1)"
    using w1(1) by simp
  have "allocator (nv w) \<noteq> None" using n(1) by simp
  from FPTree_first_run_lost [OF this n(2,3) run crashed_ideal, of 2] w1 w(1) crashed_ideal [of "nv w1"]
  show ?thesis by (auto simp: stored_def)
qed

end
