(* ===== verification/Leaf_Remove.thy ===== *)
theory Leaf_Remove
  imports Tree_Map
begin

text \<open>
  Removal from a leaf: clearing the slot of an entry (\<open>LeafNode::remove\<close>), and taking a leaf that got
  empty out of the list of leaves and giving it back to the allocator (the second half of
  \<open>LeafNode::remove\<close> and the destructor). It ends with the three ways a removal from a leaf of
  the tree can end.
\<close>

section \<open>Steps that do not depend on the heap\<close>

lemma set_dev_inj [simp]: "set_dev d w = set_dev d' w \<longleftrightarrow> d = d'"
proof
  assume "set_dev d w = set_dev d' w"
  then have "dev (nv (set_dev d w)) = dev (nv (set_dev d' w))" by presburger
  then show "d = d'" by simp
qed simp

lemma leaf_valid_nv: "nv w' = nv w \<Longrightarrow> leaf_valid l w' = leaf_valid l w"
  by (simp add: leaf_valid_def)

lemma set_leaf_mem_eq: "set_leaf_mem l m w = (if leaf_valid l w
    then map_option (\<lambda>d. set_dev d w) (put_leaf (fileId (pPointer l)) (leaf_index (pPointer l)) m (dev (nv w))) else None)"
  by (simp add: set_leaf_mem_def set_dev_def map_conv_bind_option comp_def)

lemma persist_eq: "allocator (nv w) = Some A \<Longrightarrow> persist E l w = (if leaf_valid l w
    then Some (set_dev (flush E (ifPmemAddr A (fileId (pPointer l))) (LeafRegion (fileId (pPointer l)) (leaf_index (pPointer l))) (dev (nv w))) w)
    else None)"
  by (simp add: persist_def getAllocator_def set_dev_def)

lemma set_leaf_mem_nv: "set_leaf_mem l m w = Some (set_dev d w) \<Longrightarrow> nv w' = nv w \<Longrightarrow> set_leaf_mem l m w' = Some (set_dev d w')"
  by (auto simp: set_leaf_mem_eq leaf_valid_nv [of w' w] split: if_splits)

lemma leaf_valid_dev [simp]: "leaf_valid l (set_dev d w) = leaf_valid l w"
  by (simp add: leaf_valid_def)

lemma persist_nv:
  "persist E l (set_dev d1 w) = Some (set_dev d w) \<Longrightarrow> allocator (nv w) = Some A \<Longrightarrow> nv w' = nv w \<Longrightarrow>
    persist E l (set_dev d1 w') = Some (set_dev d w')"
  by (auto simp: persist_eq leaf_valid_nv [of w' w] split: if_splits)

lemma set_dev_same_cur:
  assumes ok: "world_ok w" and cur: "cur d = cur (dev (nv w))"
  shows "world_ok (set_dev d w)" "leaf_view (set_dev d w) b = leaf_view w b"
proof -
  have view: "leaf_view (set_dev d w) b = leaf_view w b" for b by (rule leaf_view_cong) (simp_all add: cur)
  obtain A where A: "allocator (nv w) = Some A" "palloc_inv A (dev (nv w))" using ok by (auto simp: world_ok_def alloc_ok_def)
  have "palloc_inv A d" using A(2) by (simp add: palloc_inv_def device_views_cong [OF cur])
  then show "world_ok (set_dev d w)"
    using ok A(1) by (simp add: world_ok_def alloc_ok_def heap_ok_def views_inj_def all_views_def view)
  show "leaf_view (set_dev d w) b = leaf_view w b" by (rule view)
qed

section \<open>Clearing the slot of an entry\<close>

lemma clear_entry:
  assumes E: "libpmem_ok E" and ok: "world_ok w" and v: "leaf_view w a = Some (l, m)" and g: "good_leaf l m" and k: "k \<in> fst ` set (entries m)"
  obtains w1 m' where
    "\<And>b. LeafNode_remove E a k b w = (if length (entries m') = 0
        then do { w3 \<leftarrow> LeafNode_unlink E (l\<lparr>nEntries := nEntries l - 1\<rparr>) w1; Some (True, True, w3) } else Some (True, False, w1))"
    "world_ok w1" "good_leaf (l\<lparr>nEntries := nEntries l - 1\<rparr>) m'" "pNext m' = pNext m"
    "\<And>b. leaf_view w1 b = (if b = a then Some (l\<lparr>nEntries := nEntries l - 1\<rparr>, m') else leaf_view w b)"
    "set (entries m') = {e \<in> set (entries m). fst e \<noteq> k}" "Suc (length (entries m')) = length (entries m)"
    "\<And>c. get_inner w1 c = get_inner w c" "brk w1 = brk w" "root w1 = root w" "tree_degree w1 = tree_degree w"
    "allocator (nv w1) = allocator (nv w)" "freeListFile (nv w1) = freeListFile (nv w)" "catalogFile (nv w1) = catalogFile (nv w)"
    "\<And>A. allocator (nv w) = Some A \<Longrightarrow> used_set A (dev (nv w1)) = used_set A (dev (nv w))"
    "durable (dev (nv w)) \<Longrightarrow> durable (dev (nv w1))"
proof -
  note vd = leaf_viewD [OF v]
  have lk: "leaf_ok m" "keys_distinct m" "degree l = 56" using g by (simp_all add: good_leaf_def LEAF_DEGREE_def)
  obtain r where r: "find_slot 56 m k = Some (int r)" "r < 112" "r \<in> set (used_slots m)" "fst (kv m ! r) = k"
    using find_slot_spec [OF lk(1), of k] k by blast
  obtain bm where c: "clear_bit8 (bitmap m) (int r) = Some bm" "leaf_ok (m\<lparr>bitmap := bm\<rparr>)" "keys_distinct (m\<lparr>bitmap := bm\<rparr>)"
    "set (entries (m\<lparr>bitmap := bm\<rparr>)) = set (entries m) - {kv m ! r}"
    "Suc (length (entries (m\<lparr>bitmap := bm\<rparr>))) = length (entries m)"
    by (rule clear_slot_spec [OF lk(1) r(3) lk(2)])
  let ?l = "l\<lparr>nEntries := nEntries l - 1\<rparr>" and ?m = "m\<lparr>bitmap := bm\<rparr>"
  let ?wp = "put_node a (Leaf ?l) w"
  have sp: "same_place ?l l" "same_place ?l ?l" by simp_all
  note p = put_leaf_views [OF ok v sp(1)]
  have vp: "leaf_view ?wp a = Some (?l, m)" using p(2) by simp
  have wf: "wf_leaf ?m" using c(2) by (simp add: leaf_ok_def)
  have tr: "put_node a (Leaf ?l) ?wp = ?wp" by (simp add: put_node_triv)
  obtain d1 d where s: "set_leaf_mem ?l ?m ?wp = Some (set_dev d1 ?wp)" "persist E ?l (set_dev d1 ?wp) = Some (set_dev d ?wp)"
    "world_ok (set_dev d ?wp)" "\<And>b. leaf_view (set_dev d ?wp) b = (if b = a then Some (?l, ?m) else leaf_view ?wp b)"
    "\<And>A. allocator (nv ?wp) = Some A \<Longrightarrow> used_set A d = used_set A (dev (nv ?wp))" "durable (dev (nv ?wp)) \<Longrightarrow> durable d"
    by (rule store_spec [OF E p(1) vp sp(2,2) wf]) (simp_all add: tr)
  have n: "nEntries ?l = int (length (entries ?m))" using g c(5) by (simp add: good_leaf_def)
  have run: "LeafNode_remove E a k b w = (if length (entries ?m) = 0
        then do { w3 \<leftarrow> LeafNode_unlink E ?l (set_dev d ?wp); Some (True, True, w3) } else Some (True, False, set_dev d ?wp))" for b
    unfolding LeafNode_remove_def using vd(2,4) lk(3) r(1,2) c(1) s(1,2) n by (simp add: Let_def)
  have kd: "e = kv m ! r" if "e \<in> set (entries m)" "fst e = k" for e
    using that r(3,4) lk(2) by (auto simp: set_entries keys_distinct_iff inj_on_def)
  have ent: "set (entries ?m) = {e \<in> set (entries m). fst e \<noteq> k}" using c(4) kd r(4) by auto
  have "good_leaf ?l ?m" using c(2,3,5) n g by (simp add: good_leaf_def)
  then show thesis
    by (rule that [OF run s(3)]) (use s(4-6) p(2,3) ent c(5) in simp_all)
qed

text \<open>No such entry.\<close>

lemma no_entry:
  assumes v: "leaf_view w a = Some (l, m)" and g: "good_leaf l m" and k: "k \<notin> fst ` set (entries m)"
  shows "LeafNode_remove E a k b w = Some (False, b, w)"
proof -
  have lk: "leaf_ok m" "degree l = 56" using g by (simp_all add: good_leaf_def LEAF_DEGREE_def)
  have "find_slot 56 m k = Some 112"
    using k by (cases rule: find_slot_spec [OF lk(1), of k]) (auto simp: set_entries)
  then show ?thesis using leaf_viewD(2,4) [OF v] lk(2) by (simp add: LeafNode_remove_def)
qed

section \<open>Freeing a leaf\<close>

lemma put_node_commute: "a \<noteq> b \<Longrightarrow> put_node a x (put_node b y w) = put_node b y (put_node a x w)"
  by (simp add: put_node_def fun_upd_twist)

lemma free_world:
  assumes ok: "world_ok w" and v: "leaf_view w a = Some (l, m)" and A: "allocator (nv w) = Some A"
    and n: "allocator n = Some A'" "palloc_inv A' (dev n)" "used_set A' (dev n) = used_set A (dev (nv w)) - {pPointer l}"
      "leaves_kept (used_set A (dev (nv w))) A (dev (nv w)) A' (dev n)"
  shows "world_ok (w\<lparr>nv := n, heap := (heap w)(a := None)\<rparr>)"
    and "leaf_view (w\<lparr>nv := n, heap := (heap w)(a := None)\<rparr>) c = (if c = a then None else leaf_view w c)"
proof -
  let ?w = "w\<lparr>nv := n, heap := (heap w)(a := None)\<rparr>"
  have view: "leaf_view ?w c = (if c = a then None else leaf_view w c)" for c
  proof (cases "c = a")
    case False
    show ?thesis
    proof (cases "leaf_view w c")
      case None
      then have "get_leafnode w c = None"
        using ok by (auto simp: world_ok_def all_views_def get_leafnode_def split: option.splits node.splits)
      then show ?thesis using None False by (simp add: leaf_view_def get_leafnode_def)
    next
      case (Some y)
      then obtain lc mc where c: "leaf_view w c = Some (lc, mc)" by (cases y) auto
      have "pPointer lc \<noteq> pPointer l" using False views_injD [OF _ c v] ok by (auto simp: world_ok_def)
      then show ?thesis using leaf_viewD [OF c] c False A n(1,3,4)
        by (auto simp: leaf_view_def get_leafnode_def leaf_valid_def leaves_kept_def)
    qed
  qed (simp add: leaf_view_def get_leafnode_def)
  then show "leaf_view ?w c = (if c = a then None else leaf_view w c)" .
  have "views_inj ?w" unfolding views_inj_def view using ok by (auto simp: world_ok_def dest: views_injD split: if_splits)
  moreover have "all_views ?w" using ok by (simp add: world_ok_def all_views_def view)
  moreover have "heap_ok ?w" using ok by (auto simp: world_ok_def heap_ok_def)
  ultimately show "world_ok ?w" using n(1,2) by (simp add: world_ok_def alloc_ok_def)
qed

lemma next_step:
  assumes ok: "world_ok w" and nx: "n = NULL \<or> leaf_view w n \<noteq> None"
  obtains w' where "\<And>u. heap u n = heap w n \<Longrightarrow> (if n \<noteq> NULL then do { x \<leftarrow> get_leafnode u n; Some (put_node n (Leaf (x\<lparr>prev := p\<rparr>)) u) } else Some u)
      = Some (if n = NULL then u else put_node n (the (heap w' n)) u)"
    "w' = (if n = NULL then w else put_node n (the (heap w' n)) w)"
    "world_ok w'" "\<And>c. leaf_view w' c = (if c = n then map_option (\<lambda>(x, mx). (x\<lparr>prev := p\<rparr>, mx)) (leaf_view w c) else leaf_view w c)"
    "\<And>c. get_inner w' c = get_inner w c"
proof (cases "n = NULL")
  case True
  moreover have "leaf_view w NULL = None" using ok by (simp add: world_ok_def heap_ok_def leaf_view_def get_leafnode_def)
  ultimately show thesis using that [of w] ok by auto
next
  case False
  then obtain x mx where x: "leaf_view w n = Some (x, mx)" using nx by auto
  have sp: "same_place (x\<lparr>prev := p\<rparr>) x" by simp
  note px = put_leaf_views [OF ok x sp]
  show thesis
    by (rule that [of "put_node n (Leaf (x\<lparr>prev := p\<rparr>)) w"])
      (use False px x leaf_viewD(1) [OF x] in \<open>auto simp: get_leafnode_def\<close>)
qed

text \<open>The leaf before the freed one gets its links; the freed leaf \<open>l\<close> is still a node at \<open>a\<close>.\<close>

lemma prev_step:
  assumes E: "libpmem_ok E" and ok: "world_ok wd" and A: "allocator (nv wd) = Some A"
    and mem: "\<And>u. nv u = nv wd \<Longrightarrow> leaf_mem l u = Some m"
    and pv: "prev l \<noteq> NULL \<Longrightarrow> prev l \<noteq> a \<and> leaf_view wd (prev l) \<noteq> None"
  obtains w2 where "(if prev l \<noteq> NULL then do {
              p \<leftarrow> get_leafnode (put_node a (Leaf l) wd) (prev l);
              let w2 = put_node (prev l) (Leaf (p\<lparr>next := next l\<rparr>)) (put_node a (Leaf l) wd);
              m \<leftarrow> leaf_mem l w2;
              pm \<leftarrow> leaf_mem p w2;
              w3 \<leftarrow> set_leaf_mem p (pm\<lparr>pNext := pNext m\<rparr>) w2;
              persist E p w3
            } else Some (put_node a (Leaf l) wd)) = Some (put_node a (Leaf l) w2)"
    "world_ok w2" "\<forall>c. leaf_view w2 c = (if c = prev l then map_option (\<lambda>(x, mx). (x\<lparr>next := next l\<rparr>, mx\<lparr>pNext := pNext m\<rparr>)) (leaf_view wd c) else leaf_view wd c)"
    "\<forall>c. get_inner w2 c = get_inner wd c" "allocator (nv w2) = Some A" "brk w2 = brk wd" "root w2 = root wd" "tree_degree w2 = tree_degree wd"
    "prev l = a \<or> heap w2 a = heap wd a" "durable (dev (nv wd)) \<longrightarrow> durable (dev (nv w2))"
    "used_set A (dev (nv w2)) = used_set A (dev (nv wd))"
proof (cases "prev l = NULL")
  case True
  have "leaf_view wd NULL = None" using ok by (simp add: world_ok_def heap_ok_def leaf_view_def get_leafnode_def)
  then show thesis by (intro that [of wd]) (use True ok A in auto)
next
  case False
  have pa: "prev l \<noteq> a" using pv [OF False] by simp
  obtain p pm where p: "leaf_view wd (prev l) = Some (p, pm)" using pv [OF False] by auto
  let ?p = "p\<lparr>next := next l\<rparr>" and ?pm = "pm\<lparr>pNext := pNext m\<rparr>"
  have wf: "wf_leaf ?pm" using leaf_view_wf [OF ok p] by (simp add: wf_leaf_def)
  obtain d1 d where s: "set_leaf_mem p ?pm wd = Some (set_dev d1 wd)"
    "persist E p (set_dev d1 (put_node (prev l) (Leaf ?p) wd)) = Some (set_dev d (put_node (prev l) (Leaf ?p) wd))"
    "world_ok (set_dev d (put_node (prev l) (Leaf ?p) wd))"
    "\<And>b. leaf_view (set_dev d (put_node (prev l) (Leaf ?p) wd)) b = (if b = prev l then Some (?p, ?pm) else leaf_view wd b)"
    "durable (dev (nv wd)) \<Longrightarrow> durable d" "\<And>A. allocator (nv wd) = Some A \<Longrightarrow> used_set A d = used_set A (dev (nv wd))"
    by (rule store_spec [OF E ok p _ _ wf, of p ?p]) simp_all
  let ?w2 = "put_node (prev l) (Leaf ?p) (put_node a (Leaf l) wd)"
  have A1: "allocator (nv (put_node (prev l) (Leaf ?p) wd)) = Some A" using A by simp
  have r1: "set_leaf_mem p ?pm ?w2 = Some (set_dev d1 ?w2)" by (rule set_leaf_mem_nv [OF s(1)]) simp
  have r2: "persist E p (set_dev d1 ?w2) = Some (set_dev d ?w2)" by (rule persist_nv [OF s(2) A1]) simp
  have pmem: "leaf_mem p ?w2 = Some pm" using leaf_viewD(4) [OF p] leaf_valid_nv [of ?w2 wd p] by (simp add: leaf_mem_def split: if_splits)
  have "get_leafnode (put_node a (Leaf l) wd) (prev l) = Some p" using leaf_viewD(2) [OF p] pa by (simp add: get_leafnode_def)
  moreover have "set_dev d ?w2 = put_node a (Leaf l) (set_dev d (put_node (prev l) (Leaf ?p) wd))"
    using put_node_commute [OF pa] by simp
  moreover have "leaf_mem l ?w2 = Some m" by (rule mem) simp
  moreover have "get_inner (put_node (prev l) (Leaf ?p) wd) c = get_inner wd c" for c
    using leaf_viewD(1) [OF p] by (cases "c = prev l") (simp_all add: get_inner_def)
  ultimately show thesis
    using False r1 r2 pmem s(3-6) p A pa
    by (intro that [of "set_dev d (put_node (prev l) (Leaf ?p) wd)"]) auto
qed

text \<open>
  The leaves after the one at \<open>a\<close>, the node \<open>l\<close> with the contents \<open>m\<close>, has been taken out of the list of leaves:
  its neighbours are linked to each other, also in persistent memory.
\<close>

definition unlinked :: "addr \<Rightarrow> LeafNode \<Rightarrow> leaf_image \<Rightarrow> (addr \<rightharpoonup> LeafNode \<times> leaf_image) \<Rightarrow> addr \<rightharpoonup> LeafNode \<times> leaf_image" where
  "unlinked a l m view c = (if c = a then None
     else if c = prev l then map_option (\<lambda>(x, mx). (x\<lparr>next := next l\<rparr>, mx\<lparr>pNext := pNext m\<rparr>)) (view c)
     else if c = next l then map_option (\<lambda>(x, mx). (x\<lparr>prev := prev l\<rparr>, mx)) (view c) else view c)"

text \<open>The allocator has exactly the leaf \<open>p\<close> back, as the next one to be taken.\<close>

definition freed :: "PPointer \<Rightarrow> world \<Rightarrow> world \<Rightarrow> bool" where
  "freed p w w' \<longleftrightarrow> (\<exists>A A'. allocator (nv w) = Some A \<and> allocator (nv w') = Some A' \<and> freeList A' = freeList A @ [p]
     \<and> used_set A' (dev (nv w')) = used_set A (dev (nv w)) - {p})"

lemma LeafNode_unlink_spec:
  assumes E: "libpmem_ok E" and ok: "world_ok w" "links_ok w" and v: "leaf_view w a = Some (l, m)"
    and A: "allocator (nv w) = Some A" and room: "unat (freeNum A) + 1 < 2 ^ 64"
  obtains w1 w' where "LeafNode_unlink E l w = Some w1" "deleteNode E a w1 = Some w'" "world_ok w'" "links_ok w'"
    "\<And>c. leaf_data w' c = (if c = a then None else leaf_data w c)"
    "\<And>c. get_inner w1 c = get_inner w c" "\<And>c. get_inner w' c = get_inner w c" "brk w' = brk w" "root w' = root w"
    "tree_degree w' = tree_degree w" "durable (dev (nv w)) \<Longrightarrow> durable (dev (nv w'))"
    "\<And>c. leaf_view w' c = unlinked a l m (leaf_view w) c" "freed (pPointer l) w w'"
proof -
  have inv: "palloc_inv A (dev (nv w))" using ok(1) A by (simp add: world_ok_def alloc_ok_def)
  have us: "pPointer l \<in> used_set A (dev (nv w))" "getLeafPmemAddr A (pPointer l) = Some (pmem_addr l)"
    "leaf_at (dev (nv w)) (pPointer l) = Some m" "leaf_valid l w"
    using leaf_viewD(3,5) [OF v] A by auto
  have p0: "pmem_addr l \<noteq> 0" using us(4) A by (simp add: leaf_valid_def)
  obtain A1 n2 where f: "freeLeaf E (pPointer l) A (nv w) = Some (True, A1, n2)"
    "palloc_inv A1 (dev n2)" "used_set A1 (dev n2) = used_set A (dev (nv w)) - {pPointer l}"
    "leaves_kept (used_set A (dev (nv w))) A (dev (nv w)) A1 (dev n2)" "durable (dev (nv w)) \<Longrightarrow> durable (dev n2)"
    "freeList A1 = freeList A @ [pPointer l]"
    by (rule freeLeaf_spec [OF E inv us(1) room]) blast
  let ?n = "n2\<lparr>allocator := Some A1\<rparr>"
  define wd where "wd = w\<lparr>nv := ?n, heap := (heap w)(a := None)\<rparr>"
  have wd: "world_ok wd" "\<And>c. leaf_view wd c = (if c = a then None else leaf_view w c)" "nv wd = ?n"
    "brk wd = brk w" "root wd = root w" "tree_degree wd = tree_degree w" "heap wd a = None"
    using free_world [OF ok(1) v A, of ?n A1] f by (simp_all add: wd_def)
  have ha: "heap w a = Some (Leaf l)" by (rule leaf_viewD(1) [OF v])
  have giw: "get_inner wd c = get_inner w c" for c using ha by (simp add: wd_def get_inner_def)
  have real: "w\<lparr>nv := ?n\<rparr> = put_node a (Leaf l) wd" using ha by (simp add: wd_def put_node_def fun_upd_idem)
  have dl: "dll (leaf_links w)" "leaf_links w a = Some (prev l, next l)" using ok(2) leaf_links_view [OF v] by (simp_all add: links_ok_def)
  have a0: "a \<noteq> NULL" using ha ok(1) by (cases "a = 0") (simp_all add: world_ok_def heap_ok_def)
  have pv: "prev l \<noteq> a" "prev l \<noteq> next l" "leaf_view w (prev l) \<noteq> None" if "prev l \<noteq> NULL"
    using dll_prev [OF dl that] by (auto simp: leaf_links_None [symmetric])
  have nx: "next l \<noteq> a" "next l = NULL \<or> leaf_view w (next l) \<noteq> None"
    using dll_next [OF dl] a0 by (auto simp: leaf_links_None [symmetric])
  have memd: "leaf_valid l u \<and> leaf_mem l u = Some m" if "nv u = ?n" for u
    using that us f(4) p0 by (simp add: leaf_mem_def leaf_valid_def leaves_kept_def leaf_at_def)
  have pvd: "prev l \<noteq> NULL \<Longrightarrow> prev l \<noteq> a \<and> leaf_view wd (prev l) \<noteq> None" using pv wd(2) by simp
  have Ad: "allocator (nv wd) = Some A1" using wd(3) by simp
  have memw: "leaf_mem l u = Some m" if "nv u = nv wd" for u using memd that wd(3) by simp
  obtain wd2 where w2: "(if prev l \<noteq> NULL then do {
              p \<leftarrow> get_leafnode (put_node a (Leaf l) wd) (prev l);
              let w2 = put_node (prev l) (Leaf (p\<lparr>next := next l\<rparr>)) (put_node a (Leaf l) wd);
              m \<leftarrow> leaf_mem l w2;
              pm \<leftarrow> leaf_mem p w2;
              w3 \<leftarrow> set_leaf_mem p (pm\<lparr>pNext := pNext m\<rparr>) w2;
              persist E p w3
            } else Some (put_node a (Leaf l) wd)) = Some (put_node a (Leaf l) wd2)"
    "world_ok wd2" "\<forall>c. leaf_view wd2 c = (if c = prev l then map_option (\<lambda>(x, mx). (x\<lparr>next := next l\<rparr>, mx\<lparr>pNext := pNext m\<rparr>)) (leaf_view wd c) else leaf_view wd c)"
    "\<forall>c. get_inner wd2 c = get_inner wd c" "allocator (nv wd2) = Some A1" "brk wd2 = brk wd" "root wd2 = root wd" "tree_degree wd2 = tree_degree wd"
    "prev l = a \<or> heap wd2 a = heap wd a" "durable (dev (nv wd)) \<longrightarrow> durable (dev (nv wd2))"
    "used_set A1 (dev (nv wd2)) = used_set A1 (dev (nv wd))"
    by (rule prev_step [OF E wd(1) Ad memw pvd])
  note w2 = w2(1,2) w2(3,4) [rule_format] w2(5-9) w2(10) [rule_format] w2(11)
  have a2: "heap wd2 a = None" "\<And>c. get_inner wd2 c = get_inner w c" "brk wd2 = brk w" "root wd2 = root w" "tree_degree wd2 = tree_degree w"
    using w2(4,6-9) wd(4-7) giw pv(1) a0 by metis+
  have nx2: "next l = NULL \<or> leaf_view wd2 (next l) \<noteq> None" using nx w2(3) wd(2) by auto
  obtain wd3 where w3: "\<And>u. heap u (next l) = heap wd2 (next l) \<Longrightarrow>
      (if next l \<noteq> NULL then do { x \<leftarrow> get_leafnode u (next l); Some (put_node (next l) (Leaf (x\<lparr>prev := prev l\<rparr>)) u) } else Some u)
      = Some (if next l = NULL then u else put_node (next l) (the (heap wd3 (next l))) u)"
    "wd3 = (if next l = NULL then wd2 else put_node (next l) (the (heap wd3 (next l))) wd2)"
    "world_ok wd3" "\<And>c. leaf_view wd3 c = (if c = next l then map_option (\<lambda>(x, mx). (x\<lparr>prev := prev l\<rparr>, mx)) (leaf_view wd2 c) else leaf_view wd2 c)"
    "\<And>c. get_inner wd3 c = get_inner wd2 c"
    by (rule next_step [OF w2(2) nx2]) blast
  have f3: "nv wd3 = nv wd2" "brk wd3 = brk w" "root wd3 = root w" "tree_degree wd3 = tree_degree w" "heap wd3 a = None"
    using w3(2) a2(1,3-5) nx(1) by (metis put_node_simps)+
  let ?r3 = "put_node a (Leaf l) wd3"
  have "(if next l = NULL then put_node a (Leaf l) wd2 else put_node (next l) (the (heap wd3 (next l))) (put_node a (Leaf l) wd2)) = ?r3"
    using w3(2) put_node_commute [OF nx(1)] by metis
  then have nxt: "(if next l \<noteq> NULL then do { x \<leftarrow> get_leafnode (put_node a (Leaf l) wd2) (next l);
      Some (put_node (next l) (Leaf (x\<lparr>prev := prev l\<rparr>)) (put_node a (Leaf l) wd2)) } else Some (put_node a (Leaf l) wd2)) = Some ?r3"
    using w3(1) [of "put_node a (Leaf l) wd2"] nx(1) by simp
  have g: "getAllocator E (nv w) = Some (A, nv w)" using A by (simp add: getAllocator_def)
  have run: "LeafNode_unlink E l w = Some ?r3"
    by (simp only: LeafNode_unlink_def g f(1) Option.bind.bind_lunit prod.case Let_def real w2(1) [unfolded Let_def] nxt)
  have al: "allocator (nv ?r3) = Some A1" using f3(1) w2(5) by simp
  have val: "leaf_valid l ?r3" using al us f(4) p0 by (simp add: leaf_valid_def leaves_kept_def)
  define d4 where "d4 = flush E (ifPmemAddr A1 (fileId (pPointer l))) (LeafRegion (fileId (pPointer l)) (leaf_index (pPointer l))) (dev (nv wd3))"
  have del: "deleteNode E a ?r3 = Some (set_dev d4 wd3)"
    using a0 persist_eq [OF al, of E l] val f3(5)
    by (simp add: deleteNode_def deleteLeafNode_def get_leafnode_def d4_def dispose_def put_node_def set_dev_def fun_upd_idem)
  have cur: "cur d4 = cur (dev (nv wd3))" using E by (simp add: d4_def flush_okD)
  note w4 = set_dev_same_cur [OF w3(3) cur]
  have h0: "leaf_view w NULL = None" using ok(1) by (simp add: world_ok_def heap_ok_def leaf_view_def get_leafnode_def)
  have view: "leaf_view (set_dev d4 wd3) c = unlinked a l m (leaf_view w) c" for c
    unfolding w4(2) w3(4) w2(3) wd(2) unlinked_def using pv nx h0 by (cases "c = NULL") auto
  have "leaf_links (set_dev d4 wd3) = Leaf_Links.unlink a (leaf_links w)"
  proof
    fix c
    show "leaf_links (set_dev d4 wd3) c = Leaf_Links.unlink a (leaf_links w) c"
      using v by (cases "leaf_view w c") (auto simp: Leaf_Links.unlink_def leaf_links_def view unlinked_def)
  qed
  then have lo: "links_ok (set_dev d4 wd3)" using dll_unlink [OF dl] by (simp add: links_ok_def)
  have ld: "leaf_data (set_dev d4 wd3) c = (if c = a then None else leaf_data w c)" for c
    unfolding leaf_data_def view unlinked_def by (auto simp: good_leaf_def entries_def used_slots_def leaf_ok_def wf_leaf_def keys_distinct_def split: option.splits)
  have dur: "durable d4" if "durable (dev (nv w))"
    using w2(10) wd(3) f(5) that f3(1) unfolding d4_def by (simp add: durable_def flush_okD [OF E])
  have fr: "freed (pPointer l) w (set_dev d4 wd3)"
    unfolding freed_def using A f(3,6) wd(3) w2(5,11) f3(1) device_views_cong [OF cur] by (simp add: used_set_def)
  show thesis
    by (rule that [OF run del w4(1) lo ld _ _ _ _ _ _ view fr]) (use w3(5) a2(2) f3 dur ha in \<open>auto simp: get_inner_def\<close>)
qed

section \<open>Removal from a leaf of the tree\<close>

definition del_set :: "u64 \<Rightarrow> (u64 \<times> u64) set \<Rightarrow> (u64 \<times> u64) set" where
  "del_set k S = {e \<in> S. fst e \<noteq> k}"

lemma del_set_Un [simp]: "del_set k (S \<union> T) = del_set k S \<union> del_set k T"
  by (auto simp: del_set_def)

lemma del_set_idle: "k \<notin> fst ` S \<Longrightarrow> del_set k S = S"
  by (force simp: del_set_def)

text \<open>The nodes of the tree, by the pointers from the root.\<close>

inductive below :: "world \<Rightarrow> addr \<Rightarrow> bool" for w where
  below_root: "below w (root w)"
| below_child: "below w p \<Longrightarrow> get_inner w p = Some x \<Longrightarrow> 0 \<le> i \<Longrightarrow> i < nChild x \<Longrightarrow> aget (childrens x) i = Some c \<Longrightarrow> below w c"

lemma child_of:
  assumes "inner_rep x d ks (map gaddr ts)" and "0 \<le> i" and "i < nChild x" and "aget (childrens x) i = Some c"
  obtains s where "s \<in> set ts" "c = gaddr s"
proof -
  have "nat i < length ts" "c = gaddr (ts ! nat i)"
    using assms by (auto simp: inner_rep_def aget_def nth_append nat_less_iff)
  then show thesis using that [of "ts ! nat i"] by simp
qed

text \<open>Every leaf of the tree with an entry for \<open>k\<close> has another one too, so that no leaf gets empty.\<close>

definition spare :: "world \<Rightarrow> u64 \<Rightarrow> bool" where
  "spare w k \<longleftrightarrow> (\<forall>a m. below w a \<longrightarrow> leaf_data w a = Some m \<longrightarrow> k \<in> fst ` set (entries m) \<longrightarrow> 2 \<le> length (entries m))"

text \<open>
  What a removal does to the leaves. \<open>same_leaves\<close>: nothing. \<open>leaf_removed\<close>: the leaf of the tree with
  the entry of \<open>k\<close> is unlinked, deleted and given back to the allocator if this is its only entry;
  otherwise it loses the entry, and no other leaf and no leaf in use changes.
\<close>

definition same_leaves :: "world \<Rightarrow> world \<Rightarrow> bool" where
  "same_leaves w w' \<longleftrightarrow> nv w' = nv w \<and> (\<forall>c. leaf_view w' c = leaf_view w c)"

definition leaf_removed :: "u64 \<Rightarrow> world \<Rightarrow> world \<Rightarrow> bool" where
  "leaf_removed k w w' \<longleftrightarrow> (\<exists>a l m. below w a \<and> leaf_view w a = Some (l, m) \<and> k \<in> fst ` set (entries m)
     \<and> (if length (entries m) = 1 then freed (pPointer l) w w' \<and> (\<forall>c. leaf_view w' c = unlinked a l m (leaf_view w) c)
        else (\<exists>m'. leaf_view w' a = Some (l\<lparr>nEntries := nEntries l - 1\<rparr>, m') \<and> set (entries m') = del_set k (set (entries m)))
          \<and> (\<forall>c. c \<noteq> a \<longrightarrow> leaf_view w' c = leaf_view w c) \<and> allocator (nv w') = allocator (nv w)
          \<and> (\<forall>A. allocator (nv w) = Some A \<longrightarrow> used_set A (dev (nv w')) = used_set A (dev (nv w)))))"

definition leaf_effect :: "bool \<Rightarrow> u64 \<Rightarrow> world \<Rightarrow> world \<Rightarrow> bool" where
  "leaf_effect b k w w' \<longleftrightarrow> (if b then leaf_removed k w w' else same_leaves w w')"

lemma same_leaves_refl [simp]: "same_leaves w w"
  by (simp add: same_leaves_def)

lemma same_leaves_trans: "same_leaves w w1 \<Longrightarrow> same_leaves w1 w2 \<Longrightarrow> same_leaves w w2"
  by (simp add: same_leaves_def)

lemma leaf_effect_trans:
  assumes "leaf_effect b k w w1" and "same_leaves w1 w2"
  shows "leaf_effect b k w w2"
proof -
  have "nv w2 = nv w1" "leaf_view w2 = leaf_view w1" using assms(2) by (auto simp: same_leaves_def)
  then show ?thesis using assms(1) by (simp only: leaf_effect_def leaf_removed_def freed_def same_leaves_def)
qed

lemma leaf_removed_freed:
  assumes "below w a" "leaf_view w a = Some (l, m)" "k \<in> fst ` set (entries m)" "length (entries m) = 1"
    and "freed (pPointer l) w w'" "\<And>c. leaf_view w' c = unlinked a l m (leaf_view w) c"
  shows "leaf_effect True k w w'"
  unfolding leaf_effect_def leaf_removed_def if_P [OF TrueI] using assms by (intro exI [of _ a] exI [of _ l] exI [of _ m]) simp

lemma leaf_removed_kept:
  assumes "below w a" "leaf_view w a = Some (l, m)" "k \<in> fst ` set (entries m)" "length (entries m) \<noteq> 1"
    and "leaf_view w' a = Some (l\<lparr>nEntries := nEntries l - 1\<rparr>, m')" "set (entries m') = del_set k (set (entries m))"
    and "\<And>c. c \<noteq> a \<Longrightarrow> leaf_view w' c = leaf_view w c" "allocator (nv w') = allocator (nv w)"
    and "\<And>A. allocator (nv w) = Some A \<Longrightarrow> used_set A (dev (nv w')) = used_set A (dev (nv w))"
  shows "leaf_effect True k w w'"
  unfolding leaf_effect_def leaf_removed_def if_P [OF TrueI] using assms by (intro exI [of _ a] exI [of _ l] exI [of _ m]) simp

lemma remove_leaf_cases:
  assumes E: "libpmem_ok E" and ok: "world_ok w" "links_ok w" and t: "tree_ok w d 0 lo hi (GLeaf a)" "below w a"
    and A: "allocator (nv w) = Some A" and room: "unat (freeNum A) + 1 < 2 ^ 64"
  obtains (absent) "k \<notin> fst ` leaf_set w a" "Node_remove E a k i p False w = Some (False, False, w)"
  | (kept) w' where "k \<in> fst ` leaf_set w a" "Node_remove E a k i p False w = Some (True, False, w')" "evolves {a} w w'"
      "root w' = root w" "\<And>c. get_inner w' c = get_inner w c" "tree_ok w' d 0 lo hi (GLeaf a)"
      "leaf_set w' a = del_set k (leaf_set w a)" "leaf_effect True k w w'"
  | (gone) w1 w' where "k \<in> fst ` leaf_set w a" "\<not> spare w k" "Node_remove E a k i p False w = Some (True, True, w1)"
      "deleteNode E a w1 = Some w'" "evolves {a} w w'" "root w' = root w" "\<And>c. get_inner w1 c = get_inner w c"
      "\<And>c. get_inner w' c = get_inner w c" "del_set k (leaf_set w a) = {}" "leaf_effect True k w w'"
proof -
  obtain m0 where a: "leaf_data w a = Some m0" "lo < hi"
    "\<forall>e\<in>set (entries m0). lo \<le> uint (fst e) \<and> uint (fst e) < hi" using t by auto
  obtain l m where v: "leaf_view w a = Some (l, m)" "good_leaf l m" "entries m0 = entries m"
    "heap w a = Some (Leaf l)" by (rule leaf_dataD [OF a(1)])
  have ls: "leaf_set w a = set (entries m)" using a v by (simp add: leaf_set_def)
  have run: "Node_remove E a k i p False w = LeafNode_remove E a k False w"
    using v(4) by (subst Node_remove.simps) simp
  show thesis
  proof (cases "k \<in> fst ` set (entries m)")
    case False
    then show thesis using absent no_entry [OF v(1,2) False, of E False] ls run by simp
  next
    case k: True
    let ?l = "l\<lparr>nEntries := nEntries l - 1\<rparr>"
    obtain w1 m' where c: "\<And>b. LeafNode_remove E a k b w = (if length (entries m') = 0
        then do { w3 \<leftarrow> LeafNode_unlink E ?l w1; Some (True, True, w3) } else Some (True, False, w1))"
      "world_ok w1" "good_leaf ?l m'" "\<And>b. leaf_view w1 b = (if b = a then Some (?l, m') else leaf_view w b)"
      "set (entries m') = {e \<in> set (entries m). fst e \<noteq> k}" "Suc (length (entries m')) = length (entries m)"
      "\<And>c. get_inner w1 c = get_inner w c" "brk w1 = brk w" "root w1 = root w" "tree_degree w1 = tree_degree w"
      "allocator (nv w1) = allocator (nv w)" "durable (dev (nv w)) \<Longrightarrow> durable (dev (nv w1))" "pNext m' = pNext m"
      "\<And>A. allocator (nv w) = Some A \<Longrightarrow> used_set A (dev (nv w1)) = used_set A (dev (nv w))"
      by (rule clear_entry [OF E ok(1) v(1,2) k]) blast
    have "leaf_links w1 b = leaf_links w b" for b using c(4) v(1) by (simp add: leaf_links_def)
    then have lk: "links_ok w1" using links_ok_cong ok(2) by blast
    have "same_nodes ({..<brk w} - {a}) w w1" by (simp add: same_nodes_def leaf_data_def c(4,7))
    then have ev: "evolves {a} w w1" using c(2,8,10,12) lk by (simp add: evolves_def)
    have ds: "set (entries m') = del_set k (leaf_set w a)" using c(5) ls by (simp add: del_set_def)
    have v1: "leaf_view w1 a = Some (?l, m')" by (simp add: c(4))
    show thesis
    proof (cases "length (entries m') = 0")
      case False
      obtain m1 where m1: "leaf_data w1 a = Some m1" "set (entries m1) = set (entries m')"
        using leaf_dataI [OF v1 c(3)] by auto
      have "tree_ok w1 d 0 lo hi (GLeaf a)" using a m1 c(5) v(3) by auto
      moreover have "leaf_set w1 a = del_set k (leaf_set w a)" using m1 ds by (simp add: leaf_set_def)
      moreover have "leaf_effect True k w w1"
        by (rule leaf_removed_kept [OF t(2) v(1) k _ v1]) (use c(4-6,11,14) False in \<open>auto simp: del_set_def\<close>)
      ultimately show thesis using kept [of w1] k ls run c(1,7,9) False ev by simp
    next
      case True
      have A1: "allocator (nv w1) = Some A" using A c(11) by simp
      obtain w2 w' where u: "LeafNode_unlink E ?l w1 = Some w2" "deleteNode E a w2 = Some w'" "world_ok w'" "links_ok w'"
        "\<And>c. leaf_data w' c = (if c = a then None else leaf_data w1 c)"
        "\<And>c. get_inner w2 c = get_inner w1 c" "\<And>c. get_inner w' c = get_inner w1 c" "brk w' = brk w1" "root w' = root w1"
        "tree_degree w' = tree_degree w1" "durable (dev (nv w1)) \<Longrightarrow> durable (dev (nv w'))"
        "\<And>c. leaf_view w' c = unlinked a ?l m' (leaf_view w1) c" "freed (pPointer ?l) w1 w'"
        by (rule LeafNode_unlink_spec [OF E c(2) lk v1 A1 room]) blast
      have "same_nodes ({..<brk w1} - {a}) w1 w'" by (auto simp: same_nodes_def u(5,7))
      then have "evolves {a} w1 w'" using u by (simp add: evolves_def)
      then have ev': "evolves {a} w w'" by (rule evolves_trans [OF ev]) simp
      have "\<not> spare w k" using a(1) t(2) v(3) k c(6) True by (force simp: spare_def)
      moreover have "del_set k (leaf_set w a) = {}" using ds True by simp
      moreover have "unlinked a ?l m' (leaf_view w1) c = unlinked a l m (leaf_view w) c" for c
        by (simp add: unlinked_def c(4,13))
      then have "leaf_effect True k w w'"
        by (intro leaf_removed_freed [OF t(2) v(1) k]) (use c(6) c(14) [OF A] True u(12,13) A A1 in \<open>auto simp: freed_def\<close>)
      ultimately show thesis using gone [of w2 w'] k ls run c(1,7,9) True ev' u(1,2,6,7,9) by simp
    qed
  qed
qed

end
