(* ===== verification/Inner_Remove.thy ===== *)
theory Inner_Remove
  imports FPTree
begin

text \<open>
  The steps of \<open>InnerNode::remove\<close> on the keys and children of the nodes involved: what
  \<open>removeChild\<close>, the redistribution with a brother and the merges do to the sequences of keys and
  children that \<open>inner_rep\<close> reads off a node.
\<close>

section \<open>A loop that fails\<close>

lemma for_down_None:
  assumes "n < j" and "j \<le> i" and "\<And>s. f j s = None"
  shows "for_down i n f s = None"
  using assms
proof (induction "nat (i - j)" arbitrary: i s)
  case 0
  then show ?case by (simp add: for_down_step)
next
  case (Suc m)
  then have "for_down (i - 1) n f s' = None" for s' by auto
  then show ?case using Suc by (cases "f i s") (simp_all add: for_down_step)
qed

section \<open>The keys and children after each step of a removal\<close>

lemma remove_at:
  assumes "p = int (length xs)" and "n = int (length xs + length ys)"
  shows "for_up p n (\<lambda>i a. do { y \<leftarrow> aget a (i + 1); aset a i y }) (map Some (xs @ v # ys) @ zs)
    = Some (map Some (xs @ ys) @ last (Some v # map Some ys) # zs)"
proof -
  have "drop (length ys) ([Some v] @ map Some ys) = [last (Some v # map Some ys)]"
    by (induction ys arbitrary: v) auto
  then show ?thesis
    using shift_left_loop [of p 0 "map Some xs" 1 "[Some v]" n ys zs] assms by simp
qed

lemma removeChild_spec:
  assumes rep: "inner_rep x d (ks1 @ k # ks2) (cs1 @ c # cs2)"
  obtains x' where "removeChild (int (length ks1)) (int (length cs1)) x = Some x'"
    "inner_rep x' d (ks1 @ ks2) (cs1 @ cs2)" "isRoot x' = isRoot x"
proof -
  obtain kz cz where r: "keys x = map Some (ks1 @ k # ks2) @ kz" "childrens x = map Some (cs1 @ c # cs2) @ cz"
    "length (ks1 @ k # ks2) + length kz = 2 * d + 1" "length (cs1 @ c # cs2) + length cz = 2 * d + 2"
    "degree x = int d" "nKeys x = int (length (ks1 @ k # ks2))" "nChild x = int (length (cs1 @ c # cs2))"
    by (rule inner_repE [OF rep])
  let ?x = "x\<lparr>keys := map Some (ks1 @ ks2) @ last (Some k # map Some ks2) # kz, nKeys := nKeys x - 1,
    childrens := map Some (cs1 @ cs2) @ last (Some c # map Some cs2) # cz, nChild := nChild x - 1\<rparr>"
  have "removeChild (int (length ks1)) (int (length cs1)) x = Some ?x"
    using remove_at [of "int (length ks1)" ks1 "nKeys x - 1" ks2 k kz]
      remove_at [of "int (length cs1)" cs1 "nChild x - 1" cs2 c cz] r
    by (simp add: removeChild_def)
  moreover have "inner_rep ?x d (ks1 @ ks2) (cs1 @ cs2)" by (rule inner_repI) (use r inner_rep_degree [OF rep] in auto)
  ultimately show thesis using that by simp
qed

text \<open>Copying the \<open>ks\<close> of one array behind the \<open>xs\<close> of another one.\<close>

lemma copy_behind:
  assumes "src = map Some ks @ sz" and "p = int (length xs)" and "n = int (length ks)" and "length ks \<le> length zs"
  shows "for_up 0 n (\<lambda>i a. do { y \<leftarrow> aget src i; aset a (i + p) y }) (map Some xs @ zs)
    = Some (map Some (xs @ ks) @ drop (length ks) zs)"
  using copy_loop [of src "[]" ks sz 0 0 p "map Some xs" n "take (length ks) zs" "drop (length ks) zs"] assms by simp

lemma mergeLeft_spec:
  assumes l: "inner_rep l d lks lcs" and x: "inner_rep x d xks xcs"
    and len: "length lks + length xks \<le> 2 * d" "length lcs + length xcs \<le> 2 * d + 2"
  obtains l' where "mergeLeft x l k = Some l'" "inner_rep l' d (lks @ k # xks) (lcs @ xcs)" "isRoot l' = isRoot l"
proof -
  obtain kz cz where r: "keys l = map Some lks @ kz" "childrens l = map Some lcs @ cz"
    "length lks + length kz = 2 * d + 1" "length lcs + length cz = 2 * d + 2"
    "degree l = int d" "nKeys l = int (length lks)" "nChild l = int (length lcs)"
    by (rule inner_repE [OF l])
  obtain kz' cz' where r': "keys x = map Some xks @ kz'" "childrens x = map Some xcs @ cz'"
    "nKeys x = int (length xks)" "nChild x = int (length xcs)"
    by (rule inner_repE [OF x])
  obtain z zs where kz: "kz = z # zs" using r(3) len by (cases kz) auto
  have a: "aset (keys l) (nKeys l) k = Some (map Some (lks @ [k]) @ zs)" using r kz by (simp add: aset_append_mid)
  have b: "for_up 0 (nKeys x) (\<lambda>i ks. do { y \<leftarrow> aget (keys x) i; aset ks (nKeys l + i + 1) y }) (map Some (lks @ [k]) @ zs)
      = Some (map Some ((lks @ [k]) @ xks) @ drop (length xks) zs)"
    using copy_behind [of "keys x" xks kz' "nKeys l + 1" "lks @ [k]" "nKeys x" zs] r r' kz len by (simp add: ac_simps)
  have c: "for_up 0 (nChild x) (\<lambda>i cs. do { y \<leftarrow> aget (childrens x) i; aset cs (nChild l + i) y }) (childrens l)
      = Some (map Some (lcs @ xcs) @ drop (length xcs) cz)"
    using copy_behind [of "childrens x" xcs cz' "nChild l" lcs "nChild x" cz] r r' len by (simp add: ac_simps)
  let ?l = "l\<lparr>keys := map Some (lks @ k # xks) @ drop (length xks) zs, childrens := map Some (lcs @ xcs) @ drop (length xcs) cz,
    nKeys := nKeys l + (nKeys x + 1), nChild := nChild l + nChild x\<rparr>"
  have "mergeLeft x l k = Some ?l" by (simp add: mergeLeft_def a b [simplified] c)
  moreover have "inner_rep ?l d (lks @ k # xks) (lcs @ xcs)" by (rule inner_repI) (use r r' kz len inner_rep_degree [OF x] in auto)
  ultimately show thesis using that by simp
qed

text \<open>Moving the \<open>ks\<close> at the front of an array by \<open>length xs\<close> places and copying \<open>xs\<close> before them.\<close>

lemma shift_then_copy:
  assumes "n = int (length ks)" and "m = int p" and "p \<le> length zs"
  shows "\<exists>ys. for_down (n - 1) (- 1) (\<lambda>i a. do { y \<leftarrow> aget a i; aset a (i + m) y }) (map Some ks @ zs)
    = Some (ys @ map Some ks @ drop p zs) \<and> length ys = p"
  using shift_right_loop [of "- 1" 0 "[]" "n - 1" ks m p zs] assms by simp

lemma mergeRight_spec:
  assumes r: "inner_rep r d rks rcs" and x: "inner_rep x d xks xcs"
    and len: "length rks + length xks \<le> 2 * d" "length rcs + length xcs \<le> 2 * d + 2"
  obtains r' where "mergeRight x r k = Some r'" "inner_rep r' d (xks @ k # rks) (xcs @ rcs)" "isRoot r' = isRoot r"
proof -
  obtain kz cz where r: "keys r = map Some rks @ kz" "childrens r = map Some rcs @ cz"
    "length rks + length kz = 2 * d + 1" "length rcs + length cz = 2 * d + 2"
    "degree r = int d" "nKeys r = int (length rks)" "nChild r = int (length rcs)"
    by (rule inner_repE [OF r])
  obtain kz' cz' where r': "keys x = map Some xks @ kz'" "childrens x = map Some xcs @ cz'"
    "nKeys x = int (length xks)" "nChild x = int (length xcs)"
    by (rule inner_repE [OF x])
  obtain ys where a: "for_down (nKeys r - 1) (- 1) (\<lambda>i a. do { y \<leftarrow> aget a i; aset a (i + (nKeys x + 1)) y }) (keys r)
      = Some (ys @ map Some rks @ drop (Suc (length xks)) kz)" "length ys = Suc (length xks)"
    using shift_then_copy [of "nKeys r" rks "nKeys x + 1" "Suc (length xks)" kz] r r' len by auto
  obtain ys1 y where ys: "ys = ys1 @ [y]" "length ys1 = length xks" using a(2) by (cases ys rule: rev_cases) auto
  have a': "aset (ys @ map Some rks @ drop (Suc (length xks)) kz) (nKeys x) k
      = Some (ys1 @ map Some (k # rks) @ drop (Suc (length xks)) kz)"
    using ys r' by (simp add: aset_append_mid)
  have b: "for_up 0 (nKeys x) (\<lambda>i ks. do { y \<leftarrow> aget (keys x) i; aset ks i y }) (ys1 @ map Some (k # rks) @ drop (Suc (length xks)) kz)
      = Some (map Some (xks @ k # rks) @ drop (Suc (length xks)) kz)"
    using copy_to_front [of "keys x" "[]" xks kz' 0 "nKeys x" "ys1 @ map Some (k # rks) @ drop (Suc (length xks)) kz" 0] r' ys by simp
  obtain zs where c: "for_down (nChild r - 1) (- 1) (\<lambda>i a. do { y \<leftarrow> aget a i; aset a (i + nChild x) y }) (childrens r)
      = Some (zs @ map Some rcs @ drop (length xcs) cz)" "length zs = length xcs"
    using shift_then_copy [of "nChild r" rcs "nChild x" "length xcs" cz] r r' len by auto
  have e: "for_up 0 (nChild x) (\<lambda>i cs. do { y \<leftarrow> aget (childrens x) i; aset cs i y }) (zs @ map Some rcs @ drop (length xcs) cz)
      = Some (map Some (xcs @ rcs) @ drop (length xcs) cz)"
    using copy_to_front [of "childrens x" "[]" xcs cz' 0 "nChild x" "zs @ map Some rcs @ drop (length xcs) cz" 0] r' c(2) by simp
  let ?r = "r\<lparr>keys := map Some (xks @ k # rks) @ drop (Suc (length xks)) kz, childrens := map Some (xcs @ rcs) @ drop (length xcs) cz,
    nKeys := nKeys r + (nKeys x + 1), nChild := nChild r + nChild x\<rparr>"
  have "mergeRight x r k = Some ?r"
    using a(1) c(1) by (simp add: mergeRight_def a' b [simplified] e add.assoc)
  moreover have "inner_rep ?r d (xks @ k # rks) (xcs @ rcs)" by (rule inner_repI) (use r r' len inner_rep_degree [OF x] in auto)
  ultimately show thesis using that by simp
qed

lemma copy_front:
  assumes "src = map Some ks @ sz" and "n = int (length ks)" and "length ks \<le> length zs"
  shows "for_up 0 n (\<lambda>i a. do { y \<leftarrow> aget src i; aset a i y }) zs = Some (map Some ks @ drop (length ks) zs)"
  using copy_to_front [of src "[]" ks sz 0 n zs 0] assms by simp

text \<open>
  The key array of the root after a merge with its two children: the first copy loop may
  overwrite \<open>keys[0]\<close>, which has been moved before.
\<close>

lemma merge_keys:
  assumes p: "pks = Some pk # pz" "length pks = 2 * d + 1" and l: "lsrc = map Some lks @ lz" "nl = int (length lks)"
    and r: "rsrc = map Some rks @ rz" "nr = int (length rks)" and len: "length lks + length rks \<le> 2 * d"
  shows "do { ks \<leftarrow> aset pks nl pk;
      ks \<leftarrow> for_up 0 nl (\<lambda>i ks. do { y \<leftarrow> aget lsrc i; aset ks i y }) ks;
      for_up 0 nr (\<lambda>i ks. do { y \<leftarrow> aget rsrc i; aset ks (i + nl + 1) y }) ks }
    = Some (map Some (lks @ pk # rks) @ drop (length lks + 1 + length rks) pks)"
proof -
  have a: "aset pks nl pk = Some (pks[length lks := Some pk])"
    using l p(2) len by (simp add: aset_def)
  have b: "for_up 0 nl (\<lambda>i ks. do { y \<leftarrow> aget lsrc i; aset ks i y }) (pks[length lks := Some pk])
      = Some (map Some lks @ drop (length lks) (pks[length lks := Some pk]))"
    by (rule copy_front [OF l]) (use p(2) len in simp)
  have dr: "drop (length lks) (pks[length lks := Some pk]) = Some pk # drop (Suc (length lks)) pks"
    using p(2) len by (simp add: upd_conv_take_nth_drop)
  have c: "for_up 0 nr (\<lambda>i ks. do { y \<leftarrow> aget rsrc i; aset ks (i + (nl + 1)) y }) (map Some (lks @ [pk]) @ drop (Suc (length lks)) pks)
      = Some (map Some ((lks @ [pk]) @ rks) @ drop (length rks) (drop (Suc (length lks)) pks))"
    by (rule copy_behind [OF r(1) _ r(2)]) (use l(2) p(2) len in simp_all)
  show ?thesis using a b dr c by (simp add: add.assoc add.commute [of "length rks"])
qed

lemma merge_childrens:
  assumes l: "lsrc = map Some lcs @ lz" "nl = int (length lcs)" and r: "rsrc = map Some rcs @ rz" "nr = int (length rcs)"
    and len: "length pcs = 2 * d + 2" "length lcs + length rcs \<le> 2 * d + 1"
  shows "\<exists>cz. do { cs \<leftarrow> for_up 0 nl (\<lambda>i cs. do { y \<leftarrow> aget lsrc i; aset cs i y }) pcs;
      cs \<leftarrow> for_up 0 nr (\<lambda>i cs. do { y \<leftarrow> aget rsrc i; aset cs (i + nl) y }) cs;
      aset cs (nl + nr) self }
    = Some (map Some (lcs @ rcs @ [self]) @ cz) \<and> length cz + length lcs + length rcs + 1 = 2 * d + 2"
proof -
  have b: "for_up 0 nl (\<lambda>i cs. do { y \<leftarrow> aget lsrc i; aset cs i y }) pcs = Some (map Some lcs @ drop (length lcs) pcs)"
    by (rule copy_front [OF l]) (use len in simp)
  have c: "for_up 0 nr (\<lambda>i cs. do { y \<leftarrow> aget rsrc i; aset cs (i + nl) y }) (map Some lcs @ drop (length lcs) pcs)
      = Some (map Some (lcs @ rcs) @ drop (length rcs) (drop (length lcs) pcs))"
    by (rule copy_behind [OF r(1) l(2) r(2)]) (use len in simp)
  obtain z zs where z: "drop (length rcs) (drop (length lcs) pcs) = z # zs" "length zs + length lcs + length rcs + 1 = 2 * d + 2"
    using len by (cases "drop (length rcs) (drop (length lcs) pcs)") (auto dest: arg_cong [of _ _ length])
  have "aset (map Some (lcs @ rcs) @ z # zs) (nl + nr) self = Some (map Some (lcs @ rcs @ [self]) @ zs)"
    using l(2) r(2) aset_append_mid [of "nl + nr" "map Some (lcs @ rcs)" z zs self] by simp
  then show ?thesis using b c [simplified] z by (intro exI [of _ zs]) simp
qed

text \<open>
  The root after \<open>mergeParentLeft\<close> or \<open>mergeParentRight\<close>, once the caller has set \<open>nChild\<close> to
  \<open>nKeys + 1\<close>: it has all keys and children, and the node to delete behind them.
\<close>

definition merged_root :: "InnerNode \<Rightarrow> InnerNode \<Rightarrow> nat \<Rightarrow> u64 list \<Rightarrow> addr list \<Rightarrow> addr \<Rightarrow> bool" where
  "merged_root p p' d ks cs self \<longleftrightarrow> nChild p' = 0 \<and> isRoot p' = isRoot p
     \<and> inner_rep (p'\<lparr>nChild := nKeys p' + 1\<rparr>) d ks cs \<and> aget (childrens p') (nKeys p' + 1) = Some self"

lemma merge_parent:
  assumes p: "inner_rep p d [pk] pcs" and l: "inner_rep l d lks lcs" and r: "inner_rep r d rks rcs"
    and len: "length lks + length rks < 2 * d" "length lcs = Suc (length lks)" "length rcs = Suc (length rks)"
  obtains p1 p2 where "mergeParentLeft self r p l = Some p1" "merged_root p p1 d (lks @ pk # rks) (lcs @ rcs) self"
    "mergeParentRight self l p r = Some p2" "merged_root p p2 d (lks @ pk # rks) (lcs @ rcs) self"
proof -
  obtain kz cz where rp: "keys p = map Some [pk] @ kz" "childrens p = map Some pcs @ cz"
    "length [pk] + length kz = 2 * d + 1" "length pcs + length cz = 2 * d + 2" "degree p = int d"
    by (rule inner_repE [OF p])
  obtain lkz lcz where rl: "keys l = map Some lks @ lkz" "childrens l = map Some lcs @ lcz"
    "nKeys l = int (length lks)" "nChild l = int (length lcs)" by (rule inner_repE [OF l])
  obtain rkz rcz where rr: "keys r = map Some rks @ rkz" "childrens r = map Some rcs @ rcz"
    "nKeys r = int (length rks)" "nChild r = int (length rcs)" by (rule inner_repE [OF r])
  have pk: "aget (keys p) 0 = Some pk" using rp(1) by (simp add: aget_def)
  have lp: "length (keys p) = 2 * d + 1" "length (childrens p) = 2 * d + 2" using rp by simp_all
  let ?ks = "map Some (lks @ pk # rks) @ drop (length lks + 1 + length rks) (keys p)"
  have k: "do { ks \<leftarrow> aset (keys p) (nKeys l) pk;
      ks \<leftarrow> for_up 0 (nKeys l) (\<lambda>i ks. do { y \<leftarrow> aget (keys l) i; aset ks i y }) ks;
      for_up 0 (nKeys r) (\<lambda>i ks. do { y \<leftarrow> aget (keys r) i; aset ks (i + nKeys l + 1) y }) ks } = Some ?ks"
    by (rule merge_keys [of _ _ kz d _ _ lkz _ _ _ rkz]) (use rp rl rr lp len in simp_all)
  obtain zs where c: "do { cs \<leftarrow> for_up 0 (nChild l) (\<lambda>i cs. do { y \<leftarrow> aget (childrens l) i; aset cs i y }) (childrens p);
      cs \<leftarrow> for_up 0 (nChild r) (\<lambda>i cs. do { y \<leftarrow> aget (childrens r) i; aset cs (i + nChild l) y }) cs;
      aset cs (nChild l + nChild r) self } = Some (map Some (lcs @ rcs @ [self]) @ zs)"
    "length zs + length lcs + length rcs + 1 = 2 * d + 2"
    using merge_childrens [of "childrens l" lcs lcz "nChild l" "childrens r" rcs rcz "nChild r" "childrens p" d self]
      rl rr lp len by auto
  let ?p = "p\<lparr>keys := ?ks, childrens := map Some (lcs @ rcs @ [self]) @ zs, nKeys := nKeys l + nKeys r + 1, nChild := 0\<rparr>"
  have "mergeParentLeft self r p l = do { ks \<leftarrow> do { ks \<leftarrow> aset (keys p) (nKeys l) pk;
      ks \<leftarrow> for_up 0 (nKeys l) (\<lambda>i ks. do { y \<leftarrow> aget (keys l) i; aset ks i y }) ks;
      for_up 0 (nKeys r) (\<lambda>i ks. do { y \<leftarrow> aget (keys r) i; aset ks (i + nKeys l + 1) y }) ks };
      cs \<leftarrow> do { cs \<leftarrow> for_up 0 (nChild l) (\<lambda>i cs. do { y \<leftarrow> aget (childrens l) i; aset cs i y }) (childrens p);
      cs \<leftarrow> for_up 0 (nChild r) (\<lambda>i cs. do { y \<leftarrow> aget (childrens r) i; aset cs (i + nChild l) y }) cs;
      aset cs (nChild l + nChild r) self };
      Some (p\<lparr>keys := ks, childrens := cs, nKeys := nKeys l + nKeys r + 1, nChild := 0\<rparr>) }"
    using pk by (simp add: mergeParentLeft_def Option.bind_assoc)
  also have "\<dots> = Some ?p" unfolding k c(1) by simp
  finally have left: "mergeParentLeft self r p l = Some ?p" .
  have right: "mergeParentRight self l p r = Some ?p"
    using left by (simp add: mergeParentLeft_def mergeParentRight_def)
  have "inner_rep (?p\<lparr>nChild := nKeys ?p + 1\<rparr>) d (lks @ pk # rks) (lcs @ rcs)"
    by (rule inner_repI [where kz = "drop (length lks + 1 + length rks) (keys p)" and cz = "Some self # zs"])
      (use rp rl rr lp c(2) len inner_rep_degree [OF l] in auto)
  moreover have "aget (childrens ?p) (nKeys ?p + 1) = Some self"
    using aget_append_mid [of "nKeys ?p + 1" "map Some (lcs @ rcs)" "Some self" zs] rl rr len by simp
  ultimately have "merged_root p ?p d (lks @ pk # rks) (lcs @ rcs) self" by (simp add: merged_root_def)
  with left right that show thesis by blast
qed

lemma shift_left_front:
  assumes "n = int (length ks) - int m" and "m \<le> length ks" and "c = int m"
  shows "\<exists>ys. for_up 0 n (\<lambda>i a. do { y \<leftarrow> aget a (i + c); aset a i y }) (map Some ks @ zs)
    = Some (map Some (drop m ks) @ ys @ zs) \<and> length ys = m"
proof -
  have "map Some ks = map Some (take m ks) @ map Some (drop m ks)" by (simp flip: map_append)
  then show ?thesis
    using shift_left_loop [of 0 0 "[]" c "map Some (take m ks)" n "drop m ks" zs] assms by simp
qed

lemma cdiv_2 [simp]: "cdiv (int a) 2 = int (a div 2)" "cdiv (int a + int b) 2 = int ((a + b) div 2)"
  by (simp_all add: cdiv_def zdiv_int)

lemma redistributeRight_spec:
  assumes x: "inner_rep x d xks xcs" and r: "inner_rep r d rks rcs" and p: "inner_rep p e (pks1 @ pk # pks2) pcs"
    and len: "length xcs = Suc (length xks)" "length rcs = Suc (length rks)" "length xks \<le> 2 * d" "length rks \<le> 2 * d"
    and m: "(length xks + length rks) div 2 = length xks + m" "1 \<le> m"
  obtains x' r' p' where "redistributeRight (int (length pks1)) x r p = Some (x', r', p')"
    "inner_rep x' d (xks @ pk # take (m - 1) rks) (xcs @ take m rcs)" "inner_rep r' d (drop m rks) (drop m rcs)"
    "inner_rep p' e (pks1 @ rks ! (m - 1) # pks2) pcs"
    "isRoot x' = isRoot x" "isRoot r' = isRoot r" "isRoot p' = isRoot p"
proof -
  obtain kz cz where rx: "keys x = map Some xks @ kz" "childrens x = map Some xcs @ cz"
    "length xks + length kz = 2 * d + 1" "length xcs + length cz = 2 * d + 2"
    "degree x = int d" "nKeys x = int (length xks)" "nChild x = int (length xcs)"
    by (rule inner_repE [OF x])
  obtain rkz rcz where rr: "keys r = map Some rks @ rkz" "childrens r = map Some rcs @ rcz"
    "length rks + length rkz = 2 * d + 1" "length rcs + length rcz = 2 * d + 2"
    "degree r = int d" "nKeys r = int (length rks)" "nChild r = int (length rcs)"
    by (rule inner_repE [OF r])
  obtain pkz pcz where rp: "keys p = map Some (pks1 @ pk # pks2) @ pkz" "childrens p = map Some pcs @ pcz"
    "length (pks1 @ pk # pks2) + length pkz = 2 * e + 1" "length pcs + length pcz = 2 * e + 2"
    "degree p = int e" "nKeys p = int (length (pks1 @ pk # pks2))" "nChild p = int (length pcs)"
    by (rule inner_repE [OF p])
  have mm: "length xks + m \<le> 2 * d" "m \<le> length rks" using m len by linarith+
  have mk: "cdiv (nKeys x + nKeys r) 2 - nKeys x = int m" using m(1) rx(6) rr(6) by simp
  obtain z zs where kz: "kz = z # zs" using rx(3) len by (cases kz) auto
  have a1: "aget (keys p) (int (length pks1)) = Some pk" using rp(1) by (simp add: aget_append_mid)
  have a2: "aset (keys x) (nKeys x) pk = Some (map Some (xks @ [pk]) @ zs)" using rx kz by (simp add: aset_append_mid)
  have src: "keys r = map Some (take (m - 1) rks) @ map Some (drop (m - 1) rks) @ rkz"
    using rr(1) by (simp flip: map_append)
  have srcc: "childrens r = map Some (take m rcs) @ map Some (drop m rcs) @ rcz" using rr(2) by (simp flip: map_append)
  have a3: "for_up 1 (int m) (\<lambda>i ks. do { y \<leftarrow> aget (keys r) (i - 1); aset ks (nKeys x + i) y }) (map Some (xks @ [pk]) @ zs)
      = Some (map Some ((xks @ [pk]) @ take (m - 1) rks) @ drop (m - 1) zs)"
    using copy_loop [of "keys r" "[]" "take (m - 1) rks" "map Some (drop (m - 1) rks) @ rkz" 1 "- 1" "nKeys x"
        "map Some (xks @ [pk])" "int m" "take (m - 1) zs" "drop (m - 1) zs"] src rx kz m(2) mm
    by (simp add: of_nat_diff add.commute)
  have a4: "for_up 0 (int m) (\<lambda>i cs. do { y \<leftarrow> aget (childrens r) i; aset cs (nChild x + i) y }) (childrens x)
      = Some (map Some (xcs @ take m rcs) @ drop m cz)"
    using copy_behind [of "childrens r" "take m rcs" "map Some (drop m rcs) @ rcz" "nChild x" xcs "int m" cz] srcc rx mm len
    by (simp add: add.commute)
  have a5: "aget (keys r) (int m - 1) = Some (rks ! (m - 1))"
    using rr(1) m(2) mm aget_map_Some [of "int m - 1" rks rkz] by (simp add: nat_diff_distrib)
  have a6: "aset (keys p) (int (length pks1)) (rks ! (m - 1)) = Some (map Some (pks1 @ rks ! (m - 1) # pks2) @ pkz)"
    using rp(1) by (simp add: aset_append_mid)
  obtain ys1 where a7: "for_up 0 (nKeys r - int m) (\<lambda>i ks. do { y \<leftarrow> aget ks (i + int m); aset ks i y }) (keys r)
      = Some (map Some (drop m rks) @ ys1 @ rkz)" "length ys1 = m"
    using shift_left_front [of "nKeys r - int m" rks m "int m" rkz] rr mm by auto
  obtain ys2 where a8: "for_up 0 (nChild r - int m) (\<lambda>i ks. do { y \<leftarrow> aget ks (i + int m); aset ks i y }) (childrens r)
      = Some (map Some (drop m rcs) @ ys2 @ rcz)" "length ys2 = m"
    using shift_left_front [of "nChild r - int m" rcs m "int m" rcz] rr mm len by auto
  let ?x = "x\<lparr>keys := map Some (xks @ pk # take (m - 1) rks) @ drop (m - 1) zs, childrens := map Some (xcs @ take m rcs) @ drop m cz,
    nKeys := nKeys x + int m, nChild := nChild x + int m\<rparr>"
  let ?r = "r\<lparr>keys := map Some (drop m rks) @ ys1 @ rkz, childrens := map Some (drop m rcs) @ ys2 @ rcz,
    nKeys := nKeys r - int m, nChild := nChild r - int m\<rparr>"
  let ?p = "p\<lparr>keys := map Some (pks1 @ rks ! (m - 1) # pks2) @ pkz\<rparr>"
  have "redistributeRight (int (length pks1)) x r p = Some (?x, ?r, ?p)"
    unfolding redistributeRight_def mk Let_def a1 by (simp add: a2 a3 [simplified] a4 a5 a6 [simplified] a7(1) a8(1))
  moreover have "inner_rep ?x d (xks @ pk # take (m - 1) rks) (xcs @ take m rcs)"
    by (rule inner_repI) (use rx kz m(2) mm len inner_rep_degree [OF x] in auto)
  moreover have "inner_rep ?r d (drop m rks) (drop m rcs)"
    by (rule inner_repI [where kz = "ys1 @ rkz" and cz = "ys2 @ rcz"]) (use rr a7(2) a8(2) mm len inner_rep_degree [OF x] in auto)
  moreover have "inner_rep ?p e (pks1 @ rks ! (m - 1) # pks2) pcs" by (rule inner_repI) (use rp inner_rep_degree [OF p] in auto)
  ultimately show thesis using that by simp
qed

lemma redistributeRight_cut:
  assumes "inner_rep x d xks xcs" and "inner_rep r d rks rcs" and "inner_rep p e (pks1 @ pk # pks2) pcs"
    and "length xcs = Suc (length xks)" and "length rcs = Suc (length rks)"
    and "length xks < d" and "length rks \<le> 2 * d" and "2 * d \<le> length rks + length xks"
  obtains x' r' p' xks' sep rks' xcs' rcs' where "redistributeRight (int (length pks1)) x r p = Some (x', r', p')"
    "inner_rep x' d xks' xcs'" "inner_rep r' d rks' rcs'" "inner_rep p' e (pks1 @ sep # pks2) pcs"
    "xks @ pk # rks = xks' @ sep # rks'" "xcs @ rcs = xcs' @ rcs'"
    "length xcs' = Suc (length xks')" "length rcs' = Suc (length rks')" "d \<le> length xks'" "d \<le> length rks'"
    "isRoot x' = isRoot x" "isRoot r' = isRoot r" "isRoot p' = isRoot p"
proof -
  define m where "m = (length xks + length rks) div 2 - length xks"
  have m: "(length xks + length rks) div 2 = length xks + m" "1 \<le> m" "m \<le> length rks" "d \<le> length xks + m" "d \<le> length rks - m"
    using assms(6,8) by (auto simp: m_def)
  have xl: "length xks \<le> 2 * d" using assms(6) by simp
  have rk: "rks = take (m - 1) rks @ rks ! (m - 1) # drop m rks"
    using m(2,3) id_take_nth_drop [of "m - 1" rks] by simp
  obtain x' r' p' where n: "redistributeRight (int (length pks1)) x r p = Some (x', r', p')"
    "inner_rep x' d (xks @ pk # take (m - 1) rks) (xcs @ take m rcs)" "inner_rep r' d (drop m rks) (drop m rcs)"
    "inner_rep p' e (pks1 @ rks ! (m - 1) # pks2) pcs" "isRoot x' = isRoot x" "isRoot r' = isRoot r" "isRoot p' = isRoot p"
    by (rule redistributeRight_spec [OF assms(1-5) xl assms(7) m(1,2)]) blast
  show thesis by (rule that [OF n(1-4) _ _ _ _ _ _ n(5-7)]) (use rk m assms(4,5) in auto)
qed

section \<open>Properties\<close>

text \<open>
  C13: \<open>InnerNode::redistributeRight\<close>, when the node and its right brother have enough keys: the
  keys of the node, the parent's separator and the brother's keys, in this order, are cut at a new
  separator, and the children are cut at the same place; the node gets half of the keys.
\<close>

theorem redistributeRight_correct:
  assumes "inner_rep x d xks xcs" and "inner_rep r d rks rcs" and "inner_rep p e (pks1 @ pk # pks2) pcs"
    and "length xcs = Suc (length xks)" and "length rcs = Suc (length rks)"
    and "length xks < d" and "length rks \<le> 2 * d" and "2 * d \<le> length rks + length xks"
  shows "\<exists>x' r' p' xks' sep rks' xcs' rcs'. redistributeRight (int (length pks1)) x r p = Some (x', r', p')
    \<and> inner_rep x' d xks' xcs' \<and> inner_rep r' d rks' rcs' \<and> inner_rep p' e (pks1 @ sep # pks2) pcs
    \<and> xks @ pk # rks = xks' @ sep # rks' \<and> xcs @ rcs = xcs' @ rcs'
    \<and> length xcs' = Suc (length xks') \<and> length rcs' = Suc (length rks') \<and> d \<le> length xks' \<and> d \<le> length rks'"
  by (rule redistributeRight_cut [OF assms]) blast

theorem redistributeRight_correct_witness:
  "\<exists>x r p x' r' p'. redistributeRight 0 x r p = Some (x', r', p') \<and> nKeys x = 0 \<and> nKeys r = 2 \<and> 1 \<le> nKeys x' \<and> 1 \<le> nKeys r'"
proof -
  let ?x = "\<lparr>degree = 1, isRoot = False, nKeys = 0, nChild = 1, keys = [None, None, None], childrens = [Some 2, None, None, None]\<rparr>"
  let ?r = "\<lparr>degree = 1, isRoot = False, nKeys = 2, nChild = 3, keys = [Some 7, Some 8, None], childrens = [Some 3, Some 4, Some 5, None]\<rparr>"
  let ?p = "\<lparr>degree = 1, isRoot = True, nKeys = 1, nChild = 2, keys = [Some 6, None, None], childrens = [Some 10, Some 11, None, None]\<rparr>"
  have "inner_rep ?x 1 [] [2]" "inner_rep ?r 1 [7, 8] [3, 4, 5]" "inner_rep ?p 1 ([] @ 6 # []) [10, 11]"
    by (simp_all add: inner_rep_def)
  from redistributeRight_correct [OF this]
  obtain x' r' p' xks' rks' xcs' rcs' where "redistributeRight 0 ?x ?r ?p = Some (x', r', p')"
    "inner_rep x' 1 xks' xcs'" "inner_rep r' 1 rks' rcs'" "1 \<le> length xks'" "1 \<le> length rks'" by auto
  then show ?thesis
    by (intro exI [of _ ?x] exI [of _ ?r] exI [of _ ?p] exI [of _ x'] exI [of _ r'] exI [of _ p']) (simp add: inner_rep_def)
qed

text \<open>
  C14: \<open>InnerNode::redistributeLeft\<close> has no defined result whenever \<open>remove\<close> calls it: the node has
  fewer than \<open>d\<close> keys and the left brother more, so that \<open>moveKeys\<close> is negative and the first loop
  writes before the start of an array.
\<close>

theorem redistributeLeft_undefined:
  assumes "inner_rep x d xks xcs" and "inner_rep l d lks lcs" and "length xcs = Suc (length xks)"
    and "length xks < d" and "2 * d \<le> length lks + length xks"
  shows "redistributeLeft index x l p = None"
proof -
  have n: "nKeys x = int (length xks)" "nKeys l = int (length lks)" "nChild x = int (length xks) + 1"
    using assms(1-3) by (simp_all add: inner_rep_def)
  have neg: "cdiv (nKeys l + nKeys x) 2 - nKeys l < 0" using assms(4,5) by (simp add: n)
  have out: "do { y \<leftarrow> aget a 0; aset a (0 + j) y } = None" if "j < 0" for a :: "'a option list" and j
    using that by (cases "aget a 0") (simp_all add: aset_def)
  have "for_down (nChild x - 1) (- 1) (\<lambda>i cs. do { y \<leftarrow> aget cs i; aset cs (i + j) y }) (childrens x) = None" if "j < 0" for j
    by (rule for_down_None [where j = 0]) (use n out that in auto)
  then show ?thesis
    using neg by (auto simp: redistributeLeft_def Let_def bind_eq_None_conv)
qed

theorem redistributeLeft_undefined_witness:
  "\<exists>x l p. redistributeLeft 1 x l p = None \<and> inner_rep x 1 [] [5] \<and> inner_rep l 1 [7, 8] [2, 3, 4] \<and> inner_rep p 1 [9] [10, 11]"
proof -
  let ?x = "\<lparr>degree = 1, isRoot = False, nKeys = 0, nChild = 1, keys = [None, None, None], childrens = [Some 5, None, None, None]\<rparr>"
  let ?l = "\<lparr>degree = 1, isRoot = False, nKeys = 2, nChild = 3, keys = [Some 7, Some 8, None], childrens = [Some 2, Some 3, Some 4, None]\<rparr>"
  let ?p = "\<lparr>degree = 1, isRoot = True, nKeys = 1, nChild = 2, keys = [Some 9, None, None], childrens = [Some 10, Some 11, None, None]\<rparr>"
  have r: "inner_rep ?x 1 [] [5]" "inner_rep ?l 1 [7, 8] [2, 3, 4]" "inner_rep ?p 1 [9] [10, 11]" by (simp_all add: inner_rep_def)
  with redistributeLeft_undefined [OF r(1,2), of 1 ?p] show ?thesis
    by (intro exI [of _ ?x] exI [of _ ?l] exI [of _ ?p]) simp
qed

text \<open>
  C15: The merges of \<open>InnerNode::remove\<close>. When the node and its brother have at most \<open>2d\<close> keys
  together with the separator, \<open>mergeLeft\<close> and \<open>mergeRight\<close> put all keys around the separator and all
  children, in order, into the brother; when the parent is the root with two children,
  \<open>mergeParentLeft\<close> and \<open>mergeParentRight\<close> put them into the root, with the node to be deleted
  behind the children.
\<close>

theorem merges_keep_entries:
  assumes "inner_rep l d lks lcs" and "inner_rep r d rks rcs" and "inner_rep p d [k] pcs"
    and "length lcs = Suc (length lks)" and "length rcs = Suc (length rks)" and "length lks + length rks < 2 * d"
  shows "\<exists>l' r' p1 p2. mergeLeft r l k = Some l' \<and> inner_rep l' d (lks @ k # rks) (lcs @ rcs)
    \<and> mergeRight l r k = Some r' \<and> inner_rep r' d (lks @ k # rks) (lcs @ rcs)
    \<and> mergeParentLeft self r p l = Some p1 \<and> merged_root p p1 d (lks @ k # rks) (lcs @ rcs) self
    \<and> mergeParentRight self l p r = Some p2 \<and> merged_root p p2 d (lks @ k # rks) (lcs @ rcs) self"
proof -
  obtain l' where l': "mergeLeft r l k = Some l'" "inner_rep l' d (lks @ k # rks) (lcs @ rcs)"
    by (rule mergeLeft_spec [OF assms(1,2), of k]) (use assms(4-6) in auto)
  obtain r' where r': "mergeRight l r k = Some r'" "inner_rep r' d (lks @ k # rks) (lcs @ rcs)"
    by (rule mergeRight_spec [OF assms(2,1), of k]) (use assms(4-6) in auto)
  show ?thesis
    by (rule merge_parent [OF assms(3,1,2,6,4,5), of self]) (use l' r' in blast)
qed

theorem merges_keep_entries_witness:
  "\<exists>l r p l' p1. mergeLeft r l 6 = Some l' \<and> nKeys l' = 2 \<and> mergeParentRight 10 l p r = Some p1 \<and> nKeys p1 = 2"
proof -
  let ?l = "\<lparr>degree = 1, isRoot = False, nKeys = 0, nChild = 1, keys = [None, None, None], childrens = [Some 2, None, None, None]\<rparr>"
  let ?r = "\<lparr>degree = 1, isRoot = False, nKeys = 1, nChild = 2, keys = [Some 7, None, None], childrens = [Some 3, Some 4, None, None]\<rparr>"
  let ?p = "\<lparr>degree = 1, isRoot = True, nKeys = 1, nChild = 2, keys = [Some 6, None, None], childrens = [Some 10, Some 11, None, None]\<rparr>"
  have "inner_rep ?l 1 [] [2]" "inner_rep ?r 1 [7] [3, 4]" "inner_rep ?p 1 [6] [10, 11]" by (simp_all add: inner_rep_def)
  from merges_keep_entries [OF this, of 10] show ?thesis
    by (simp add: inner_rep_def merged_root_def) blast
qed

text \<open>
  \<open>InnerNode::removeChild\<close> takes out exactly the named key and child, and does nothing if an
  index is out of bounds.
\<close>

theorem removeChild_correct:
  assumes "inner_rep x d ks cs" and "length cs = Suc (length ks)"
  shows "(0 \<le> i \<and> i < int (length ks) \<and> 0 \<le> j \<and> j < int (length cs) \<longrightarrow>
      (\<exists>x'. removeChild i j x = Some x' \<and> inner_rep x' d (take (nat i) ks @ drop (nat i + 1) ks) (take (nat j) cs @ drop (nat j + 1) cs)))
    \<and> (\<not> (0 \<le> i \<and> i < int (length ks) \<and> 0 \<le> j \<and> j < int (length cs)) \<longrightarrow> removeChild i j x = Some x)"
proof (intro conjI impI)
  assume b: "0 \<le> i \<and> i < int (length ks) \<and> 0 \<le> j \<and> j < int (length cs)"
  have ks: "ks = take (nat i) ks @ ks ! nat i # drop (nat i + 1) ks" and cs: "cs = take (nat j) cs @ cs ! nat j # drop (nat j + 1) cs"
    using b by (simp_all add: id_take_nth_drop [symmetric] nat_less_iff)
  have "inner_rep x d (take (nat i) ks @ ks ! nat i # drop (nat i + 1) ks) (take (nat j) cs @ cs ! nat j # drop (nat j + 1) cs)"
    using assms(1) ks cs by simp
  moreover have "i = int (length (take (nat i) ks))" "j = int (length (take (nat j) cs))" using b by auto
  ultimately show "\<exists>x'. removeChild i j x = Some x' \<and> inner_rep x' d (take (nat i) ks @ drop (nat i + 1) ks) (take (nat j) cs @ drop (nat j + 1) cs)"
    by (metis removeChild_spec)
next
  assume "\<not> (0 \<le> i \<and> i < int (length ks) \<and> 0 \<le> j \<and> j < int (length cs))"
  with assms(1) show "removeChild i j x = Some x" by (auto simp: removeChild_def inner_rep_def)
qed

theorem removeChild_correct_witness:
  "\<exists>x x'. removeChild 0 1 x = Some x' \<and> inner_rep x' 1 [8] [3, 5] \<and> removeChild 2 0 x = Some x"
proof -
  let ?x = "\<lparr>degree = 1, isRoot = False, nKeys = 2, nChild = 3, keys = [Some 7, Some 8, None], childrens = [Some 3, Some 4, Some 5, None]\<rparr>"
  have "inner_rep ?x 1 [7, 8] [3, 4, 5]" by (simp add: inner_rep_def)
  from removeChild_correct [OF this, of 0 1] removeChild_correct [OF this, of 2 0]
  have "(\<exists>x'. removeChild 0 1 ?x = Some x' \<and> inner_rep x' 1 [8] [3, 5]) \<and> removeChild 2 0 ?x = Some ?x" by simp
  then show ?thesis by blast
qed

text \<open>
  \<open>InnerNode::findIndex\<close> returns, for sorted keys, the number of keys that are not larger than
  the given one, which is the index of the child to descend into.
\<close>

theorem findIndex_correct:
  assumes "inner_rep x d ks cs" and "sorted ks"
  shows "findIndex x k = Some (int (card {i. i < length ks \<and> ks ! i \<le> k}))"
proof -
  have "{i. i < length ks \<and> ks ! i \<le> k} = {..<pos_of ks k}"
  proof (intro set_eqI iffI; clarsimp)
    fix i assume i: "i < length ks" "ks ! i \<le> k"
    show "i < pos_of ks k"
    proof (rule ccontr)
      assume "\<not> i < pos_of ks k"
      then have le: "pos_of ks k \<le> i" "pos_of ks k < length ks" using i by simp_all
      then have "k < ks ! pos_of ks k" "ks ! pos_of ks k \<le> ks ! i"
        using pos_of_at sorted_nth_mono [OF assms(2)] i by blast+
      with i show False by simp
    qed
  next
    fix i assume "i < pos_of ks k"
    then show "i < length ks \<and> ks ! i \<le> k" using pos_of_le [of ks k] pos_of_less [of i ks k] by simp
  qed
  then show ?thesis using findIndex_spec [OF assms, of k] by simp
qed

theorem findIndex_correct_witness: "\<exists>x. findIndex x 7 = Some (int (card {i. i < length [5 :: u64, 7, 9] \<and> [5, 7, 9] ! i \<le> (7 :: u64)}))"
proof -
  let ?x = "\<lparr>degree = 2, isRoot = True, nKeys = 3, nChild = 0, keys = [Some 5, Some 7, Some 9, None, None], childrens = [None, None, None, None, None, None]\<rparr>"
  have "inner_rep ?x 2 [5, 7, 9] []" "sorted [5 :: u64, 7, 9]" by (simp_all add: inner_rep_def)
  from findIndex_correct [OF this, of 7] show ?thesis by blast
qed

end
