(* ===== verification/Tree_Rebalance.thy ===== *)
theory Tree_Rebalance
  imports Leaf_Remove Inner_Remove
begin

text \<open>
  What a removal below a child leaves of its parent, and the rebalancing of an inner node that got
  underfull (the second half of \<open>InnerNode::remove\<close>): entries move from the right brother, the node
  is merged with a brother, or the root takes over the children of its two children.
\<close>

section \<open>Taking a child out of a node\<close>

definition keys_without :: "u64 list \<Rightarrow> u64 list \<Rightarrow> u64 list" where
  "keys_without ks1 ks2 = (if ks2 = [] then butlast ks1 else ks1 @ tl ks2)"

lemma length_keys_without: "ks1 @ ks2 \<noteq> [] \<Longrightarrow> Suc (length (keys_without ks1 ks2)) = length (ks1 @ ks2)"
  by (auto simp: keys_without_def)

lemma kids_lo: "kids P lo hi ks ts \<Longrightarrow> (\<And>hi t. P lo hi t \<Longrightarrow> P lo' hi t) \<Longrightarrow> kids P lo' hi ks ts"
  by (induction P lo hi ks ts rule: kids.induct) auto

lemma tree_ok_lo: "tree_ok w d h lo hi t \<Longrightarrow> lo' \<le> lo \<Longrightarrow> tree_ok w d h lo' hi t"
proof (induction h arbitrary: hi t)
  case 0
  then show ?case by fastforce
next
  case (Suc h)
  then obtain a ks ts x where t: "t = GNode a ks ts" and kids: "kids (tree_ok w d h) lo hi ks ts"
    and x: "get_inner w a = Some x" "\<not> isRoot x" "inner_rep x d ks (map gaddr ts)" "d \<le> length ks" "length ks \<le> 2 * d"
    by auto
  have "kids (tree_ok w d h) lo' hi ks ts" by (rule kids_lo [OF kids]) (use Suc in blast)
  then show ?case unfolding t by (rule tree_okI [OF x])
qed

lemma lefts_snoc:
  "length ts = length ks \<Longrightarrow> lefts P lo (ks @ [k]) (ts @ [t]) \<longleftrightarrow> lefts P lo ks ts \<and> P (lb lo ks) (uint k) t"
  by (induction ts ks arbitrary: lo rule: list_induct2) auto

lemma rights_length: "rights P hi ks ts \<Longrightarrow> length ts = length ks"
  by (induction P hi ks ts rule: rights.induct) auto

lemma kids_without:
  assumes l: "lefts (tree_ok w d h) lo ks1 ts1" "length ts1 = length ks1" and r: "rights (tree_ok w d h) hi ks2 ts2"
    and ne: "ks1 @ ks2 \<noteq> []" and le: "lb lo ks1 \<le> ub hi ks2"
  shows "kids (tree_ok w d h) lo hi (keys_without ks1 ks2) (ts1 @ ts2)"
proof (cases ks2)
  case (Cons k ks)
  then obtain t ts where t: "ts2 = t # ts" using r by (cases ts2) auto
  have "tree_ok w d h (uint k) (ub hi ks) t" "rights (tree_ok w d h) hi ks ts" using r Cons t by auto
  then show ?thesis using kids_mid [OF l(2), of "tree_ok w d h" lo hi ks t ts] l le Cons t tree_ok_lo by (auto simp: keys_without_def)
next
  case Nil
  then obtain ks k where k: "ks1 = ks @ [k]" using ne by (cases ks1 rule: rev_cases) auto
  then obtain ts t where t: "ts1 = ts @ [t]" using l(2) by (cases ts1 rule: rev_cases) auto
  have len: "length ts = length ks" "ts2 = []" using k t l(2) r Nil rights_length by fastforce+
  have "lefts (tree_ok w d h) lo ks ts" "tree_ok w d h (lb lo ks) (uint k) t"
    using l(1) lefts_snoc [OF len(1)] by (auto simp: k t)
  then show ?thesis
    using kids_mid [OF len(1), of "tree_ok w d h" lo hi "[]" t "[]"] le Nil k t len(2) tree_ok_hi by (auto simp: keys_without_def)
qed

lemma removeChild_at:
  assumes rep: "inner_rep x d (ks1 @ ks2) (cs1 @ c # cs2)" and len: "length cs1 = length ks1" and ne: "ks1 @ ks2 \<noteq> []"
  obtains x' where "removeChild (if int (length ks1) < nKeys x then int (length ks1) else int (length ks1) - 1) (int (length ks1)) x = Some x'"
    "inner_rep x' d (keys_without ks1 ks2) (cs1 @ cs2)" "isRoot x' = isRoot x"
proof (cases ks2)
  case (Cons k ks)
  have nk: "int (length ks1) < nKeys x" using rep Cons by (simp add: inner_rep_def)
  have "inner_rep x d (ks1 @ k # ks) (cs1 @ c # cs2)" using rep Cons by simp
  from removeChild_spec [OF this] obtain x' where "removeChild (int (length ks1)) (int (length ks1)) x = Some x'"
    "inner_rep x' d (ks1 @ ks) (cs1 @ cs2)" "isRoot x' = isRoot x" using len by metis
  then show thesis using that nk Cons by (simp add: keys_without_def)
next
  case Nil
  then obtain ks k where k: "ks1 = ks @ [k]" using ne by (cases ks1 rule: rev_cases) auto
  have nk: "\<not> int (length ks1) < nKeys x" "int (length ks1) - 1 = int (length ks)" using rep Nil k by (simp_all add: inner_rep_def)
  have "inner_rep x d (ks @ k # []) (cs1 @ c # cs2)" using rep Nil k by simp
  from removeChild_spec [OF this] obtain x' where "removeChild (int (length ks)) (int (length ks1)) x = Some x'"
    "inner_rep x' d (ks @ []) (cs1 @ cs2)" "isRoot x' = isRoot x" using len by metis
  then show thesis using that nk Nil k by (simp add: keys_without_def)
qed

section \<open>What a removal from a child leaves\<close>

text \<open>
  \<open>holds\<close>: the node \<open>x\<close> at \<open>p\<close> has the children \<open>ts\<close> with the entries \<open>F\<close>, and only nodes of \<open>S\<close>
  have changed since \<open>w\<close>; \<open>Q\<close> is what is known of the leaves. \<open>outcome\<close> has the three ways a removal from the child \<open>c\<close> of \<open>p\<close> ends: the
  children stay, the child \<open>c\<close> is to be taken out, or the root has taken over all grandchildren.
\<close>

definition holds :: "(world \<Rightarrow> bool) \<Rightarrow> nat \<Rightarrow> nat \<Rightarrow> addr \<Rightarrow> InnerNode \<Rightarrow> int \<Rightarrow> int \<Rightarrow> u64 list \<Rightarrow> gtree list \<Rightarrow> (u64 \<times> u64) set \<Rightarrow> addr set \<Rightarrow> world \<Rightarrow> world \<Rightarrow> bool" where
  "holds Q d h p x lo hi ks ts F S w w' \<longleftrightarrow> get_inner w' p = Some x \<and> kids (tree_ok w' d h) lo hi ks ts \<and> forest_of w' ts = F
     \<and> distinct (p # addrs_of ts) \<and> set (addrs_of ts) \<subseteq> S \<and> evolves S w w' \<and> root w' = root w \<and> Q w'"

definition stays :: "(world \<Rightarrow> bool) \<Rightarrow> nat \<Rightarrow> nat \<Rightarrow> addr \<Rightarrow> bool \<Rightarrow> int \<Rightarrow> int \<Rightarrow> nat \<Rightarrow> (u64 \<times> u64) set \<Rightarrow> addr set \<Rightarrow> world \<Rightarrow> world \<Rightarrow> bool" where
  "stays Q d h p b lo hi n F S w w' \<longleftrightarrow> (\<exists>ks ts x. holds Q d h p x lo hi ks ts F S w w' \<and> isRoot x = b
     \<and> inner_rep x d ks (map gaddr ts) \<and> length ks = n)"

definition drops :: "(world \<Rightarrow> bool) \<Rightarrow> env \<Rightarrow> nat \<Rightarrow> nat \<Rightarrow> addr \<Rightarrow> InnerNode \<Rightarrow> int \<Rightarrow> int \<Rightarrow> u64 list \<Rightarrow> addr list \<Rightarrow> addr \<Rightarrow> (u64 \<times> u64) set \<Rightarrow> addr set \<Rightarrow> world \<Rightarrow> world \<Rightarrow> bool" where
  "drops Q E d h p x lo hi ks cs c F S w w1 \<longleftrightarrow> (\<exists>ts w'. get_inner w1 p = Some x \<and> deleteNode E c w1 = Some w'
     \<and> holds Q d h p x lo hi ks ts F S w w' \<and> map gaddr ts = cs \<and> (isRoot x \<and> ks = [] \<longrightarrow> h = 0))"

definition merged :: "(world \<Rightarrow> bool) \<Rightarrow> env \<Rightarrow> nat \<Rightarrow> nat \<Rightarrow> addr \<Rightarrow> int \<Rightarrow> int \<Rightarrow> addr \<Rightarrow> (u64 \<times> u64) set \<Rightarrow> addr set \<Rightarrow> world \<Rightarrow> world \<Rightarrow> bool" where
  "merged Q E d h p lo hi c F S w w1 \<longleftrightarrow> (\<exists>h' ks ts x1 x2 w'. h = Suc h' \<and> get_inner w1 p = Some x1 \<and> isRoot x1 \<and> nChild x1 = 0
     \<and> aget (childrens x1) (nKeys x1 + 1) = Some c \<and> x2 = x1\<lparr>nChild := nKeys x1 + 1\<rparr> \<and> inner_rep x2 d ks (map gaddr ts)
     \<and> ks \<noteq> [] \<and> length ks \<le> 2 * d \<and> deleteNode E c (put_node p (Inner x2) w1) = Some w'
     \<and> holds Q d h' p x2 lo hi ks ts F S w w')"

definition outcome :: "(world \<Rightarrow> bool) \<Rightarrow> env \<Rightarrow> nat \<Rightarrow> nat \<Rightarrow> addr \<Rightarrow> InnerNode \<Rightarrow> int \<Rightarrow> int \<Rightarrow> u64 list \<Rightarrow> u64 list \<Rightarrow> addr list \<Rightarrow> addr \<Rightarrow> (u64 \<times> u64) set \<Rightarrow> addr set \<Rightarrow> world \<Rightarrow> bool \<Rightarrow> world \<Rightarrow> bool" where
  "outcome Q E d h p x lo hi ks1 ks2 cs c F S w ifDelete w1 \<longleftrightarrow>
     (if ifDelete then drops Q E d h p x lo hi (keys_without ks1 ks2) cs c F S w w1 \<or> isRoot x \<and> merged Q E d h p lo hi c F S w w1
      else stays Q d h p (isRoot x) lo hi (length (ks1 @ ks2)) F S w w1)"

lemma holds_trans:
  "holds Q d h p x lo hi ks ts F S w1 w' \<Longrightarrow> evolves T w w1 \<Longrightarrow> root w1 = root w \<Longrightarrow> S \<subseteq> T \<Longrightarrow> holds Q d h p x lo hi ks ts F T w w'"
  by (auto simp: holds_def intro: evolves_trans)

lemma outcome_trans:
  "outcome Q E d h p x lo hi ks1 ks2 cs c F S w1 b w2 \<Longrightarrow> evolves T w w1 \<Longrightarrow> root w1 = root w \<Longrightarrow> S \<subseteq> T \<Longrightarrow>
    outcome Q E d h p x lo hi ks1 ks2 cs c F T w b w2"
  unfolding outcome_def drops_def stays_def merged_def using holds_trans [of Q _ _ _ _ _ _ _ _ _ S w1 _ T w] by (simp split: if_splits) blast+

lemma staysI:
  "holds Q d h p x lo hi ks ts F S w w' \<Longrightarrow> isRoot x = b \<Longrightarrow> inner_rep x d ks (map gaddr ts) \<Longrightarrow> length ks = n \<Longrightarrow>
    stays Q d h p b lo hi n F S w w'"
  unfolding stays_def by blast

lemma dropsI:
  "holds Q d h p x lo hi ks ts F S w w' \<Longrightarrow> get_inner w1 p = Some x \<Longrightarrow> deleteNode E c w1 = Some w' \<Longrightarrow> map gaddr ts = cs \<Longrightarrow>
    (isRoot x \<Longrightarrow> ks = [] \<Longrightarrow> h = 0) \<Longrightarrow> drops Q E d h p x lo hi ks cs c F S w w1"
  unfolding drops_def by blast

text \<open>The result of \<open>remove\<close> on the child \<open>s\<close> of the node at \<open>p\<close>.\<close>

definition removes :: "env \<Rightarrow> nat \<Rightarrow> nat \<Rightarrow> u64 \<Rightarrow> world \<Rightarrow> addr \<Rightarrow> InnerNode \<Rightarrow> int \<Rightarrow> int \<Rightarrow> u64 list \<Rightarrow> u64 list \<Rightarrow> gtree list \<Rightarrow> gtree \<Rightarrow> gtree list \<Rightarrow> bool" where
  "removes E d h k w p x lo hi ks1 ks2 ts1 s ts2 \<longleftrightarrow> (\<exists>ifDelete w1.
     Node_remove E (gaddr s) k (int (length ks1)) p False w = Some (k \<in> fst ` tset w s, ifDelete, w1)
     \<and> outcome (leaf_effect (k \<in> fst ` tset w s) k w) E d h p x lo hi ks1 ks2 (map gaddr (ts1 @ ts2)) (gaddr s) (del_set k (forest_of w (ts1 @ s # ts2)))
         (insert p (set (addrs_of (ts1 @ s # ts2)))) w ifDelete w1
     \<and> (ifDelete \<longrightarrow> \<not> spare w k \<and> k \<in> fst ` tset w s))"

lemma removesI:
  "Node_remove E (gaddr s) k (int (length ks1)) p False w = Some (k \<in> fst ` tset w s, ifDelete, v) \<Longrightarrow>
   outcome (leaf_effect (k \<in> fst ` tset w s) k w) E d h p x lo hi ks1 ks2 (map gaddr (ts1 @ ts2)) (gaddr s) (del_set k (forest_of w (ts1 @ s # ts2)))
     (insert p (set (addrs_of (ts1 @ s # ts2)))) w ifDelete v \<Longrightarrow>
   (ifDelete \<Longrightarrow> \<not> spare w k \<and> k \<in> fst ` tset w s) \<Longrightarrow> removes E d h k w p x lo hi ks1 ks2 ts1 s ts2"
  unfolding removes_def by blast

text \<open>The node at \<open>p\<close> with the child \<open>s\<close> in focus.\<close>

definition focus :: "nat \<Rightarrow> nat \<Rightarrow> world \<Rightarrow> addr \<Rightarrow> InnerNode \<Rightarrow> int \<Rightarrow> int \<Rightarrow> u64 list \<Rightarrow> u64 list \<Rightarrow> gtree list \<Rightarrow> gtree \<Rightarrow> gtree list \<Rightarrow> bool" where
  "focus d h w p x lo hi ks1 ks2 ts1 s ts2 \<longleftrightarrow> get_inner w p = Some x \<and> inner_rep x d (ks1 @ ks2) (map gaddr (ts1 @ s # ts2))
     \<and> ks1 @ ks2 \<noteq> [] \<and> length ts1 = length ks1 \<and> distinct (p # addrs_of (ts1 @ s # ts2))
     \<and> lefts (tree_ok w d h) lo ks1 ts1 \<and> rights (tree_ok w d h) hi ks2 ts2"

lemma focusD:
  assumes "focus d h w p x lo hi ks1 ks2 ts1 s ts2"
  shows "get_inner w p = Some x" "inner_rep x d (ks1 @ ks2) (map gaddr (ts1 @ s # ts2))"
     "ks1 @ ks2 \<noteq> []" "length ts1 = length ks1" "distinct (p # addrs_of (ts1 @ s # ts2))"
     "lefts (tree_ok w d h) lo ks1 ts1" "rights (tree_ok w d h) hi ks2 ts2"
  using assms by (simp_all add: focus_def)

lemma focus_below:
  assumes "focus d h w p x lo hi ks1 ks2 ts1 s ts2" and "below w p"
  shows "below w (gaddr s)"
proof (rule below_child [OF assms(2) focusD(1) [OF assms(1)], of "int (length ts1)"])
  show "aget (childrens x) (int (length ts1)) = Some (gaddr s)" by (rule aget_child [OF focusD(2) [OF assms(1)] refl])
qed (use focusD(2) [OF assms(1)] in \<open>simp_all add: inner_rep_def\<close>)

text \<open>A step below \<open>s\<close> that leaves a tree at its place.\<close>

lemma focus_replaced:
  assumes ok: "world_ok w" and f: "focus d h w p x lo hi ks1 ks2 ts1 s ts2" and ev: "evolves (set (gaddrs s)) w w'" "root w' = root w"
    and t: "tree_ok w' d h (lb lo ks1) (ub hi ks2) t" "gaddr t = gaddr s" "distinct (gaddrs t)" "set (gaddrs t) \<subseteq> set (gaddrs s)"
    and ts: "tset w' t = del_set k (tset w s)" and nk: "k \<notin> fst ` forest_of w (ts1 @ ts2)" and Q: "Q w'"
  shows "stays Q d h p (isRoot x) lo hi (length (ks1 @ ks2)) (del_set k (forest_of w (ts1 @ s # ts2))) (insert p (set (addrs_of (ts1 @ s # ts2)))) w w'"
proof -
  note fd = focusD [OF f]
  have "p < brk w" using heap_brk [OF ok] fd(1) by (simp add: heap_get_inner)
  then have x: "get_inner w' p = Some x" using fd(1,5) ev(1) by (auto simp: evolves_def same_nodes_def)
  have dis: "distinct (addrs_of (ts1 @ s # ts2))" using fd(5) by simp
  note fr = others_frame [OF ok fd(6,7) ev(1) dis]
  have "kids (tree_ok w' d h) lo hi (ks1 @ ks2) (ts1 @ t # ts2)" unfolding kids_mid [OF fd(4)] using fr t(1) by blast
  moreover have "forest_of w' (ts1 @ t # ts2) = del_set k (forest_of w (ts1 @ s # ts2))"
    using fr(3,4) ts nk by (simp add: del_set_idle image_Un)
  moreover have "distinct (p # addrs_of (ts1 @ t # ts2))" using fd(5) t(3,4) by auto
  moreover have "evolves (insert p (set (addrs_of (ts1 @ s # ts2)))) w w'" using ev(1) by (rule evolves_mono) auto
  ultimately have "holds Q d h p x lo hi (ks1 @ ks2) (ts1 @ t # ts2) (del_set k (forest_of w (ts1 @ s # ts2))) (insert p (set (addrs_of (ts1 @ s # ts2)))) w w'"
    using x ev(2) t(4) Q by (auto simp: holds_def)
  then show ?thesis by (rule staysI) (use fd(2) t(2) in simp_all)
qed

lemma remove_leaf_child:
  assumes E: "libpmem_ok E" and ok: "world_ok w" "links_ok w" and A: "allocator (nv w) = Some A" "unat (freeNum A) + 1 < 2 ^ 64"
    and f: "focus d 0 w p x lo hi ks1 ks2 ts1 s ts2" and t: "tree_ok w d 0 (lb lo ks1) (ub hi ks2) s" and b: "below w p"
    and nk: "k \<notin> fst ` forest_of w (ts1 @ ts2)"
  shows "removes E d 0 k w p x lo hi ks1 ks2 ts1 s ts2"
proof -
  note fd = focusD [OF f]
  obtain a where a: "s = GLeaf a" using t by auto
  have t': "tree_ok w d 0 (lb lo ks1) (ub hi ks2) (GLeaf a)" "below w a" using t a focus_below [OF f b] by simp_all
  have ls: "tset w s = leaf_set w a" "gaddrs s = [a]" using a by simp_all
  let ?Q = "leaf_effect (k \<in> fst ` tset w s) k w"
  note rp = focus_replaced [where Q = ?Q, OF ok(1) f _ _ _ _ _ _ _ nk]
  show ?thesis
  proof (cases rule: remove_leaf_cases [OF E ok t' A, of k "int (length ks1)" p, case_names absent kept gone])
    case absent
    have "evolves (set (gaddrs s)) w w" using ok by (simp add: evolves_def same_nodes_def)
    then have "stays ?Q d 0 p (isRoot x) lo hi (length (ks1 @ ks2)) (del_set k (forest_of w (ts1 @ s # ts2))) (insert p (set (addrs_of (ts1 @ s # ts2)))) w w"
      by (rule rp [OF _ refl t]) (use absent ls in \<open>simp_all add: del_set_idle leaf_effect_def\<close>)
    then show ?thesis
      by (intro removesI [where ifDelete = False and v = w]) (use absent a ls in \<open>simp_all add: outcome_def\<close>)
  next
    case (kept w')
    have "stays ?Q d 0 p (isRoot x) lo hi (length (ks1 @ ks2)) (del_set k (forest_of w (ts1 @ s # ts2))) (insert p (set (addrs_of (ts1 @ s # ts2)))) w w'"
      by (rule rp [of w' s]) (use kept a ls in \<open>simp_all del: tree_ok.simps\<close>)
    then show ?thesis
      by (intro removesI [where ifDelete = False and v = w']) (use kept a ls in \<open>simp_all add: outcome_def\<close>)
  next
    case (gone w1 w')
    have dis: "distinct (addrs_of (ts1 @ s # ts2))" using fd(5) by simp
    have ev: "evolves (set (gaddrs s)) w w'" using gone ls by simp
    note fr = others_frame [OF ok(1) fd(6,7) ev dis]
    have le: "lb lo ks1 \<le> ub hi ks2" using tree_ok_less [OF t] by simp
    have "kids (tree_ok w' d 0) lo hi (keys_without ks1 ks2) (ts1 @ ts2)"
      by (rule kids_without [OF fr(1) fd(4) fr(2) fd(3) le])
    moreover have "forest_of w' (ts1 @ ts2) = del_set k (forest_of w (ts1 @ s # ts2))"
      using fr(3,4) gone(9) ls nk by (simp add: del_set_idle image_Un)
    moreover have "evolves (insert p (set (addrs_of (ts1 @ s # ts2)))) w w'" using ev by (rule evolves_mono) auto
    moreover have "distinct (p # addrs_of (ts1 @ ts2))" using fd(5) by auto
    ultimately have "holds ?Q d 0 p x lo hi (keys_without ks1 ks2) (ts1 @ ts2) (del_set k (forest_of w (ts1 @ s # ts2))) (insert p (set (addrs_of (ts1 @ s # ts2)))) w w'"
      using gone(1,6,8,10) fd(1) ls by (auto simp: holds_def)
    then have "drops ?Q E d 0 p x lo hi (keys_without ks1 ks2) (map gaddr (ts1 @ ts2)) a (del_set k (forest_of w (ts1 @ s # ts2))) (insert p (set (addrs_of (ts1 @ s # ts2)))) w w1"
      by (rule dropsI) (use gone fd(1) in simp_all)
    then show ?thesis
      by (intro removesI [where ifDelete = True and v = w1]) (use gone a ls in \<open>simp_all add: outcome_def\<close>)
  qed
qed

section \<open>Steps on inner nodes only\<close>

lemma dispose_inner:
  assumes ok: "world_ok w" "links_ok w" and a: "get_inner w a = Some x"
  shows "evolves {a} w (dispose a w)" and "get_inner (dispose a w) c = (if c = a then None else get_inner w c)"
    and "root (dispose a w) = root w" and "deleteNode E a w = Some (dispose a w)" and "same_leaves w (dispose a w)"
proof -
  have ha: "heap w a = Some (Inner x)" using a by (simp add: heap_get_inner)
  have v: "leaf_view (dispose a w) b = leaf_view w b" for b
  proof (cases "b = a")
    case True
    then show ?thesis using ha by (simp add: leaf_view_def get_leafnode_def dispose_def)
  next
    case False
    then show ?thesis by (intro leaf_view_cong) (simp_all add: dispose_def)
  qed
  note vc = views_cong [of "dispose a w" w, OF v]
  show gi: "get_inner (dispose a w) c = (if c = a then None else get_inner w c)" for c by (simp add: get_inner_def dispose_def)
  have "world_ok (dispose a w)"
    using ok(1) vc(2) unfolding world_ok_def by (auto simp: heap_ok_def all_views_def alloc_ok_def v) (auto simp: dispose_def split: if_splits)
  then show "evolves {a} w (dispose a w)"
    using ok(2) vc(1,3) gi by (simp add: evolves_def same_nodes_def) (simp add: dispose_def)
  show "root (dispose a w) = root w" by (simp add: dispose_def)
  show "deleteNode E a w = Some (dispose a w)" using heap_nonnull [OF ok(1), of a] ha by (simp add: deleteNode_def)
  show "same_leaves w (dispose a w)" unfolding same_leaves_def using v by (simp add: dispose_def)
qed

lemma put_inner_evolves:
  assumes "world_ok w" and "links_ok w" and "get_inner w a = Some x"
  shows "evolves {a} w (put_node a (Inner y) w)" and "get_inner (put_node a (Inner y) w) c = (if c = a then Some y else get_inner w c)"
    and "root (put_node a (Inner y) w) = root w" and "same_leaves w (put_node a (Inner y) w)"
  using evolves_inner [OF assms] put_inner_spec(4) [OF assms(1,3)] leaf_view_put_inner [of w a] assms(3)
  by (auto simp: same_leaves_def heap_get_inner)

text \<open>What is known of the leaves does not depend on the inner nodes.\<close>

definition leafwise :: "(world \<Rightarrow> bool) \<Rightarrow> bool" where
  "leafwise Q \<longleftrightarrow> (\<forall>w w'. Q w \<longrightarrow> same_leaves w w' \<longrightarrow> Q w')"

lemma leafwiseD: "leafwise Q \<Longrightarrow> Q w \<Longrightarrow> same_leaves w w' \<Longrightarrow> Q w'"
  by (auto simp: leafwise_def)

lemma leafwise_effect: "leafwise (leaf_effect b k w)"
  unfolding leafwise_def using leaf_effect_trans by blast

section \<open>Two neighbours and their separator\<close>

text \<open>
  The children \<open>t1\<close> and \<open>t2\<close> on the outside, and the keys and children of two neighbouring inner nodes
  with the separator \<open>kk\<close> between them.
\<close>

definition pair :: "nat \<Rightarrow> nat \<Rightarrow> world \<Rightarrow> int \<Rightarrow> int \<Rightarrow> u64 list \<Rightarrow> u64 list \<Rightarrow> gtree list \<Rightarrow> u64 list \<Rightarrow> gtree list \<Rightarrow> gtree list \<Rightarrow> bool" where
  "pair d h w lo hi k1 k2 t1 ks ts t2 \<longleftrightarrow> lefts (tree_ok w d (Suc h)) lo k1 t1 \<and> rights (tree_ok w d (Suc h)) hi k2 t2
     \<and> kids (tree_ok w d h) (lb lo k1) (ub hi k2) ks ts \<and> length t1 = length k1"

lemma same_nodes_evolves:
  assumes ok: "world_ok w" and ev: "evolves D w w'" and ts: "\<And>s. s \<in> set ts \<Longrightarrow> \<exists>lo hi. tree_ok w d h lo hi s"
    and dis: "D \<inter> set (addrs_of ts) = {}"
  shows "same_nodes (set (addrs_of ts)) w w'"
proof -
  have "set (addrs_of ts) \<subseteq> {..<brk w}" by (rule addrs_of_brk [OF ok ts])
  then show ?thesis using ev dis by (auto simp: evolves_def intro!: same_nodes_subset [of "{..<brk w} - D"])
qed

lemma pair_frame:
  assumes ok: "world_ok w" and ev: "evolves D w w'" and p: "pair d h w lo hi k1 k2 t1 ks ts t2"
    and dis: "D \<inter> set (addrs_of (t1 @ ts @ t2)) = {}"
  shows "pair d h w' lo hi k1 k2 t1 ks ts t2" and "forest_of w' t1 = forest_of w t1" and "forest_of w' ts = forest_of w ts"
    and "forest_of w' t2 = forest_of w t2"
proof -
  have p': "lefts (tree_ok w d (Suc h)) lo k1 t1" "rights (tree_ok w d (Suc h)) hi k2 t2"
    "kids (tree_ok w d h) (lb lo k1) (ub hi k2) ks ts" "length t1 = length k1" using p by (simp_all add: pair_def)
  note all = lefts_all [OF p'(1)] rights_all [OF p'(2)] kids_all [OF p'(3)]
  have "same_nodes (set (addrs_of t1)) w w'" by (rule same_nodes_evolves [OF ok ev all(1)]) (use dis in auto)
  moreover have "same_nodes (set (addrs_of t2)) w w'" by (rule same_nodes_evolves [OF ok ev all(2)]) (use dis in auto)
  moreover have "same_nodes (set (addrs_of ts)) w w'" by (rule same_nodes_evolves [OF ok ev all(3)]) (use dis in auto)
  ultimately have fr: "same_nodes (set (addrs_of t1)) w w'" "same_nodes (set (addrs_of t2)) w w'" "same_nodes (set (addrs_of ts)) w w'" by blast+
  have "lefts (tree_ok w' d (Suc h)) lo k1 t1"
    using tree_ok_frame same_nodes_subset [OF fr(1) addrs_of_subset] by (blast intro: lefts_mono [OF p'(1)])
  moreover have "rights (tree_ok w' d (Suc h)) hi k2 t2"
    using tree_ok_frame same_nodes_subset [OF fr(2) addrs_of_subset] by (blast intro: rights_mono [OF p'(2)])
  ultimately show "pair d h w' lo hi k1 k2 t1 ks ts t2" using kids_frame(1) [OF p'(3) fr(3)] p'(4) by (simp add: pair_def)
  show "forest_of w' t1 = forest_of w t1" "forest_of w' ts = forest_of w ts" "forest_of w' t2 = forest_of w t2"
    using forest_frame [OF all(1) fr(1)] kids_frame(2) [OF p'(3) fr(3)] forest_frame [OF all(2) fr(2)] by blast+
qed

lemma pair_join:
  assumes "pair d h w lo hi k1 k2 t1 ks ts t2" and "get_inner w b = Some z" and "\<not> isRoot z" and "inner_rep z d ks (map gaddr ts)"
    and "d \<le> length ks" and "length ks \<le> 2 * d"
  shows "kids (tree_ok w d (Suc h)) lo hi (k1 @ k2) (t1 @ GNode b ks ts # t2)"
proof -
  have p: "lefts (tree_ok w d (Suc h)) lo k1 t1" "rights (tree_ok w d (Suc h)) hi k2 t2"
    "kids (tree_ok w d h) (lb lo k1) (ub hi k2) ks ts" "length t1 = length k1" using assms(1) by (simp_all add: pair_def)
  show ?thesis unfolding kids_mid [OF p(4)] using p tree_okI [OF assms(2-6) p(3)] by blast
qed

lemma pair_cut:
  assumes "pair d h w lo hi k1 k2 t1 (lks @ kk # rks) (lts @ rts) t2" and len: "length lts = Suc (length lks)"
    and l: "get_inner w a = Some y" "\<not> isRoot y" "inner_rep y d lks (map gaddr lts)" "d \<le> length lks" "length lks \<le> 2 * d"
    and r: "get_inner w b = Some z" "\<not> isRoot z" "inner_rep z d rks (map gaddr rts)" "d \<le> length rks" "length rks \<le> 2 * d"
  shows "kids (tree_ok w d (Suc h)) lo hi (k1 @ [kk] @ k2) (t1 @ [GNode a lks lts, GNode b rks rts] @ t2)"
proof -
  have p: "lefts (tree_ok w d (Suc h)) lo k1 t1" "rights (tree_ok w d (Suc h)) hi k2 t2"
    "kids (tree_ok w d h) (lb lo k1) (ub hi k2) (lks @ kk # rks) (lts @ rts)" using assms(1) by (simp_all add: pair_def)
  have kr: "kids (tree_ok w d h) (lb lo k1) (uint kk) lks lts" "kids (tree_ok w d h) (uint kk) (ub hi k2) rks rts"
    using p(3) kids_append [OF len] by auto
  have "kids (tree_ok w d (Suc h)) (lb lo k1) (ub hi k2) [kk] [GNode a lks lts, GNode b rks rts]"
    using tree_okI [OF l kr(1)] tree_okI [OF r kr(2)] by (simp del: tree_ok.simps)
  then show ?thesis by (rule kids_subst [OF p(1) _ p(2)])
qed

section \<open>Rebalancing two neighbours\<close>

definition node_at :: "world \<Rightarrow> nat \<Rightarrow> addr \<Rightarrow> InnerNode \<Rightarrow> u64 list \<Rightarrow> gtree list \<Rightarrow> bool" where
  "node_at w d a y ks ts \<longleftrightarrow> get_inner w a = Some y \<and> \<not> isRoot y \<and> inner_rep y d ks (map gaddr ts) \<and> length ts = Suc (length ks)"

lemma node_atD:
  assumes "node_at w d a y ks ts"
  shows "get_inner w a = Some y" "\<not> isRoot y" "inner_rep y d ks (map gaddr ts)" "length ts = Suc (length ks)"
  using assms by (simp_all add: node_at_def)

lemma node_at_length: "node_at w d a y ks ts \<Longrightarrow> length (map gaddr ts) = Suc (length ks)"
  by (simp add: node_at_def)

lemma evolves_step: "evolves S w w1 \<Longrightarrow> evolves T w1 w2 \<Longrightarrow> evolves (S \<union> T) w w2"
  by (rule evolves_trans [where T = T]) (auto intro: evolves_mono)

text \<open>Entries move from the right neighbour.\<close>

lemma redistribute_stays:
  assumes ok: "world_ok w" "links_ok w" and x: "get_inner w p = Some x" "inner_rep x d (k1 @ kk # k2) (map gaddr (t1 @ GNode a lks lts # GNode b rks rts # t2))"
    and y: "node_at w d a y lks lts" and z: "node_at w d b z rks rts" and pr: "pair d h w lo hi k1 k2 t1 (lks @ kk # rks) (lts @ rts) t2"
    and len: "length lks < d" "length rks \<le> 2 * d" "2 * d \<le> length rks + length lks"
    and dis: "distinct (p # addrs_of (t1 @ GNode a lks lts # GNode b rks rts # t2))" (is "distinct (p # addrs_of ?ts)")
    and Q: "Q w" "leafwise Q"
  obtains x' y' z' where "redistributeRight (int (length k1)) y z x = Some (y', z', x')"
    "stays Q d (Suc h) p (isRoot x) lo hi (length (k1 @ kk # k2)) (forest_of w ?ts) (insert p (set (addrs_of ?ts))) w
      (put_node a (Inner y') (put_node b (Inner z') (put_node p (Inner x') w)))"
proof -
  note y' = node_atD [OF y] and z' = node_atD [OF z]
  obtain y1 z1 x1 ls sep rs lcs rcs where r: "redistributeRight (int (length k1)) y z x = Some (y1, z1, x1)"
    "inner_rep y1 d ls lcs" "inner_rep z1 d rs rcs" "inner_rep x1 d (k1 @ sep # k2) (map gaddr ?ts)"
    "lks @ kk # rks = ls @ sep # rs" "map gaddr lts @ map gaddr rts = lcs @ rcs"
    "length lcs = Suc (length ls)" "length rcs = Suc (length rs)" "d \<le> length ls" "d \<le> length rs"
    "isRoot y1 = isRoot y" "isRoot z1 = isRoot z" "isRoot x1 = isRoot x"
    by (rule redistributeRight_cut [OF y'(3) z'(3) x(2) node_at_length [OF y] node_at_length [OF z] len])
  define lts' where "lts' = take (length lcs) (lts @ rts)"
  define rts' where "rts' = drop (length lcs) (lts @ rts)"
  have sp: "lts @ rts = lts' @ rts'" unfolding lts'_def rts'_def by (rule append_take_drop_id [symmetric])
  have "map gaddr (lts' @ rts') = lcs @ rcs" using r(6) sp by (metis map_append)
  moreover have "length lts' = length lcs" using arg_cong [OF r(6), of length] by (simp add: lts'_def)
  ultimately have ch: "map gaddr lts' = lcs" "map gaddr rts' = rcs" by simp_all
  have lens: "length ls \<le> 2 * d" "length rs \<le> 2 * d" using arg_cong [OF r(5), of length] r(9,10) len by simp_all
  let ?w1 = "put_node p (Inner x1) w"
  let ?w2 = "put_node b (Inner z1) ?w1"
  let ?w3 = "put_node a (Inner y1) ?w2"
  have ne: "a \<noteq> b" "a \<noteq> p" "b \<noteq> p" using dis by (auto simp: gaddrs_GNode)
  note e1 = put_inner_evolves [OF ok x(1), of x1]
  have b1: "get_inner ?w1 b = Some z" using e1(2) z'(1) ne by simp
  note e2 = put_inner_evolves [OF evolves_world [OF e1(1)] b1, of z1]
  have a2: "get_inner ?w2 a = Some y" using e1(2) e2(2) y'(1) ne by simp
  note e3 = put_inner_evolves [OF evolves_world [OF e2(1)] a2, of y1]
  have ev: "evolves ({p} \<union> {b} \<union> {a}) w ?w3" by (intro evolves_step [OF evolves_step [OF e1(1) e2(1)] e3(1)])
  have gi: "get_inner ?w3 p = Some x1" "get_inner ?w3 a = Some y1" "get_inner ?w3 b = Some z1"
    using e1(2) e2(2) e3(2) ne by simp_all
  have "({p} \<union> {b} \<union> {a}) \<inter> set (addrs_of (t1 @ (lts @ rts) @ t2)) = {}" using dis by (auto simp: gaddrs_GNode)
  note fr = pair_frame [OF ok(1) ev pr this]
  have pr3: "pair d h ?w3 lo hi k1 k2 t1 (ls @ sep # rs) (lts' @ rts') t2" using fr(1) r(5) sp by simp
  have ll: "length lts' = Suc (length ls)" using r(7) ch(1) by (metis length_map)
  let ?ts' = "t1 @ [GNode a ls lts', GNode b rs rts'] @ t2"
  have k: "kids (tree_ok ?w3 d (Suc h)) lo hi (k1 @ [sep] @ k2) ?ts'"
    by (rule pair_cut [OF pr3 ll gi(2) _ _ r(9) lens(1) gi(3) _ _ r(10) lens(2)]) (use r(2,3,11,12) y'(2) z'(2) ch in simp_all)
  have ad: "addrs_of lts' @ addrs_of rts' = addrs_of lts @ addrs_of rts" using arg_cong [OF sp, of addrs_of] by simp
  have fo: "forest_of ?w3 lts' \<union> forest_of ?w3 rts' = forest_of w lts \<union> forest_of w rts"
    using fr(3) arg_cong [OF sp, of "forest_of ?w3"] by simp
  have st: "set (addrs_of lts') \<union> set (addrs_of rts') = set (addrs_of lts) \<union> set (addrs_of rts)"
    using arg_cong [OF ad, of set] by simp
  have "holds Q d (Suc h) p x1 lo hi (k1 @ [sep] @ k2) ?ts' (forest_of w ?ts) (insert p (set (addrs_of ?ts))) w ?w3"
    unfolding holds_def
  proof (intro conjI gi(1) k)
    show "forest_of ?w3 ?ts' = forest_of w ?ts" using fr(2,4) fo by (simp add: tset_GNode) blast
    have "distinct (addrs_of lts' @ addrs_of rts')" unfolding ad using dis by (auto simp: gaddrs_GNode)
    then show "distinct (p # addrs_of ?ts')" using dis st by (auto simp: gaddrs_GNode)
    show "set (addrs_of ?ts') \<subseteq> insert p (set (addrs_of ?ts))" using st by (auto simp: gaddrs_GNode)
    show "evolves (insert p (set (addrs_of ?ts))) w ?w3" by (rule evolves_mono [OF ev]) (auto simp: gaddrs_GNode)
    show "Q ?w3" using leafwiseD [OF Q(2)] leafwiseD [OF Q(2)] Q(1) e1(4) e2(4) e3(4) by blast
  qed simp_all
  then have "stays Q d (Suc h) p (isRoot x) lo hi (length (k1 @ kk # k2)) (forest_of w ?ts) (insert p (set (addrs_of ?ts))) w ?w3"
    by (rule staysI) (use r(4,13) in simp_all)
  with that r(1) show thesis by blast
qed

text \<open>One of the neighbours takes over the keys and children of the other one, which is deleted.\<close>

lemma merge_leaves:
  assumes ok: "world_ok w" "links_ok w" and x: "get_inner w p = Some x"
    and y: "get_inner w c = Some y" and z: "get_inner w q = Some z" "\<not> isRoot z'" "inner_rep z' d (lks @ kk # rks) (map gaddr (lts @ rts))"
    and cq: "{c, q} = {a, b}" "c \<noteq> q" and pr: "pair d h w lo hi k1 k2 t1 (lks @ kk # rks) (lts @ rts) t2"
    and len: "d \<le> length (lks @ kk # rks)" "length (lks @ kk # rks) \<le> 2 * d"
    and dis: "distinct (p # addrs_of (t1 @ GNode a lks lts # GNode b rks rts # t2))" (is "distinct (p # addrs_of ?ts)")
    and rt: "isRoot x \<Longrightarrow> k1 @ k2 \<noteq> []" and Q: "Q w" "leafwise Q"
  shows "drops Q E d (Suc h) p x lo hi (k1 @ k2) (map gaddr t1 @ q # map gaddr t2) c (forest_of w ?ts) (insert p (set (addrs_of ?ts))) w (put_node q (Inner z') w)"
proof -
  let ?w1 = "put_node q (Inner z') w"
  let ?w2 = "dispose c ?w1"
  have ne: "c \<noteq> p" "q \<noteq> p" "p \<notin> {a, b}" using dis cq by (auto simp: gaddrs_GNode doubleton_eq_iff)
  note e1 = put_inner_evolves [OF ok z(1), of z']
  have c1: "get_inner ?w1 c = Some y" using e1(2) y cq by simp
  note e2 = dispose_inner [OF evolves_world [OF e1(1)] c1]
  have ev: "evolves ({q} \<union> {c}) w ?w2" by (intro evolves_step [OF e1(1) e2(1)])
  have gi: "get_inner ?w1 p = Some x" "get_inner ?w2 p = Some x" "get_inner ?w2 q = Some z'"
    using e1(2) e2(2) x ne cq by simp_all
  have qc: "{q} \<union> {c} = {a, b}" using cq by auto
  have "({q} \<union> {c}) \<inter> set (addrs_of (t1 @ (lts @ rts) @ t2)) = {}" unfolding qc using dis by (auto simp: gaddrs_GNode)
  note fr = pair_frame [OF ok(1) ev pr this]
  let ?ts' = "t1 @ GNode q (lks @ kk # rks) (lts @ rts) # t2"
  have qab: "q \<in> {a, b}" using cq by blast
  have "holds Q d (Suc h) p x lo hi (k1 @ k2) ?ts' (forest_of w ?ts) (insert p (set (addrs_of ?ts))) w ?w2"
    unfolding holds_def
  proof (intro conjI gi(2))
    show "kids (tree_ok ?w2 d (Suc h)) lo hi (k1 @ k2) ?ts'" by (rule pair_join [OF fr(1) gi(3) z(2,3) len])
    show "forest_of ?w2 ?ts' = forest_of w ?ts" using fr(2-4) by (simp add: tset_GNode) blast
    show "distinct (p # addrs_of ?ts')" using dis qab by (auto simp: gaddrs_GNode)
    show "set (addrs_of ?ts') \<subseteq> insert p (set (addrs_of ?ts))" using qab by (auto simp: gaddrs_GNode)
    show "evolves (insert p (set (addrs_of ?ts))) w ?w2" by (rule evolves_mono [OF ev]) (use qc in \<open>auto simp: gaddrs_GNode\<close>)
    show "root ?w2 = root w" using e1(3) e2(3) by simp
    show "Q ?w2" using leafwiseD [OF Q(2)] Q(1) e1(4) e2(5) by blast
  qed
  then show ?thesis by (rule dropsI) (use gi(1) e2(4) rt in auto)
qed

text \<open>The root takes over the keys and children of its two children.\<close>

lemma merge_root:
  assumes ok: "world_ok w" "links_ok w" and x: "get_inner w p = Some x" "isRoot x"
    and y: "get_inner w c = Some y" and z: "get_inner w q = Some z" and x1: "merged_root x x1 d (lks @ kk # rks) (map gaddr (lts @ rts)) c"
    and cq: "{c, q} = {a, b}" "c \<noteq> q" and pr: "pair d h w lo hi [] [] [] (lks @ kk # rks) (lts @ rts) []"
    and len: "length (lks @ kk # rks) \<le> 2 * d"
    and dis: "distinct (p # addrs_of [GNode a lks lts, GNode b rks rts])" (is "distinct (p # addrs_of ?ts)")
    and Q: "Q w" "leafwise Q"
  shows "merged Q E d (Suc h) p lo hi c (forest_of w ?ts) (insert p (set (addrs_of ?ts))) w (dispose q (put_node p (Inner x1) w))"
proof -
  let ?x2 = "x1\<lparr>nChild := nKeys x1 + 1\<rparr>"
  let ?w1 = "put_node p (Inner x1) w"
  let ?w2 = "dispose q ?w1"
  let ?w3 = "put_node p (Inner ?x2) ?w2"
  let ?w4 = "dispose c ?w3"
  have ne: "c \<noteq> p" "q \<noteq> p" using dis cq by (auto simp: gaddrs_GNode doubleton_eq_iff)
  note e1 = put_inner_evolves [OF ok x(1), of x1]
  have q1: "get_inner ?w1 q = Some z" using e1(2) z ne by simp
  note e2 = dispose_inner [OF evolves_world [OF e1(1)] q1]
  have p2: "get_inner ?w2 p = Some x1" using e1(2) e2(2) ne by simp
  note e3 = put_inner_evolves [OF evolves_world [OF e2(1)] p2, of ?x2]
  have c3: "get_inner ?w3 c = Some y" using e1(2) e2(2) e3(2) ne cq y by simp
  note e4 = dispose_inner [OF evolves_world [OF e3(1)] c3]
  have ev: "evolves ({p} \<union> {q} \<union> {p} \<union> {c}) w ?w4"
    by (intro evolves_step [OF evolves_step [OF evolves_step [OF e1(1) e2(1)] e3(1)] e4(1)])
  have qc: "{p} \<union> {q} \<union> {p} \<union> {c} = {p, a, b}" using cq by auto
  have p4: "get_inner ?w4 p = Some ?x2" using e4(2) e3(2) ne by simp
  have "({p} \<union> {q} \<union> {p} \<union> {c}) \<inter> set (addrs_of ([] @ (lts @ rts) @ [])) = {}" unfolding qc using dis by (auto simp: gaddrs_GNode)
  note fr = pair_frame [OF ok(1) ev pr this]
  have "holds Q d h p ?x2 lo hi (lks @ kk # rks) (lts @ rts) (forest_of w ?ts) (insert p (set (addrs_of ?ts))) w ?w4"
    unfolding holds_def
  proof (intro conjI p4)
    show "kids (tree_ok ?w4 d h) lo hi (lks @ kk # rks) (lts @ rts)" using fr(1) by (simp add: pair_def)
    show "forest_of ?w4 (lts @ rts) = forest_of w ?ts" using fr(3) by (simp add: tset_GNode)
    show "distinct (p # addrs_of (lts @ rts))" using dis by (auto simp: gaddrs_GNode)
    show "set (addrs_of (lts @ rts)) \<subseteq> insert p (set (addrs_of ?ts))" by (auto simp: gaddrs_GNode)
    show "evolves (insert p (set (addrs_of ?ts))) w ?w4" by (rule evolves_mono [OF ev]) (use qc in \<open>auto simp: gaddrs_GNode\<close>)
    show "root ?w4 = root w" using e1(3) e2(3) e3(3) e4(3) by simp
    show "Q ?w4" using leafwiseD [OF Q(2)] Q(1) e1(4) e2(5) e3(4) e4(5) by blast
  qed
  moreover have "deleteNode E c ?w3 = Some ?w4" by (rule e4(4))
  moreover have "isRoot x1" "nChild x1 = 0" "aget (childrens x1) (nKeys x1 + 1) = Some c" "inner_rep ?x2 d (lks @ kk # rks) (map gaddr (lts @ rts))"
    using x1 x(2) by (simp_all add: merged_root_def)
  ultimately show ?thesis unfolding merged_def using p2 len by blast
qed

section \<open>Rebalancing an underfull node\<close>

lemma getBrother_spec:
  assumes "inner_rep x d ks (cs1 @ c # cs2)" and "i = int (length cs1)"
  shows "getBrother i (Some x) = Some (if cs1 = [] then NULL else last cs1, if cs2 = [] then NULL else hd cs2)"
proof -
  obtain cz where cz: "childrens x = map Some (cs1 @ c # cs2) @ cz" "nChild x = int (length (cs1 @ c # cs2))"
    by (rule inner_repE [OF assms(1)])
  have "aget (childrens x) (i - 1) = Some (last cs1)" if "cs1 \<noteq> []"
    using that assms(2) cz(1) aget_append_mid [of "i - 1" "map Some (butlast cs1)" "Some (last cs1)" "map Some (c # cs2) @ cz"]
    by (cases cs1 rule: rev_cases) auto
  moreover have "aget (childrens x) (i + 1) = Some (hd cs2)" if "cs2 \<noteq> []"
    using that assms(2) cz(1) aget_append_mid [of "i + 1" "map Some (cs1 @ [c])" "Some (hd cs2)" "map Some (tl cs2) @ cz"]
    by (cases cs2) auto
  ultimately show ?thesis using assms(2) cz(2) by (auto simp: getBrother_def)
qed

fun gkeys :: "gtree \<Rightarrow> nat" where
  "gkeys (GLeaf a) = 0"
| "gkeys (GNode a ks ts) = length ks"

lemma right_brother:
  assumes f: "focus d (Suc h) w p x lo hi ks1 ks2 ts1 s ts2" and y: "kids (tree_ok w d h) (lb lo ks1) (ub hi ks2) yks yts"
    and ne: "ts2 \<noteq> []"
  obtains kk k2 b rks rts t2 z where "ks2 = kk # k2" "ts2 = GNode b rks rts # t2" "node_at w d b z rks rts"
    "d \<le> length rks" "length rks \<le> 2 * d" "pair d h w lo hi ks1 k2 ts1 (yks @ kk # rks) (yts @ rts) t2"
proof -
  note fd = focusD [OF f]
  obtain r t2 where t2: "ts2 = r # t2" using ne by (cases ts2) auto
  obtain kk k2 where k2: "ks2 = kk # k2" using fd(7) t2 by (cases ks2) auto
  have r: "tree_ok w d (Suc h) (uint kk) (ub hi k2) r" "rights (tree_ok w d (Suc h)) hi k2 t2" using fd(7) t2 k2 by simp_all
  then obtain b rks rts z where b: "r = GNode b rks rts" "get_inner w b = Some z" "\<not> isRoot z" "inner_rep z d rks (map gaddr rts)"
    "d \<le> length rks" "length rks \<le> 2 * d" "kids (tree_ok w d h) (uint kk) (ub hi k2) rks rts" by auto
  have "kids (tree_ok w d h) (lb lo ks1) (ub hi k2) (yks @ kk # rks) (yts @ rts)"
    using kids_append [OF kids_length [OF y]] y b(7) k2 by simp
  then have "pair d h w lo hi ks1 k2 ts1 (yks @ kk # rks) (yts @ rts) t2"
    unfolding pair_def using fd(4,6) r(2) by blast
  with b that k2 t2 kids_length [OF b(7)] show thesis by (simp add: node_at_def)
qed

lemma left_brother:
  assumes f: "focus d (Suc h) w p x lo hi ks1 ks2 ts1 s ts2" and y: "kids (tree_ok w d h) (lb lo ks1) (ub hi ks2) yks yts"
    and ne: "ts1 \<noteq> []"
  obtains k1 kk t1 b lks lts z where "ks1 = k1 @ [kk]" "ts1 = t1 @ [GNode b lks lts]" "length t1 = length k1" "node_at w d b z lks lts"
    "d \<le> length lks" "length lks \<le> 2 * d" "pair d h w lo hi k1 ks2 t1 (lks @ kk # yks) (lts @ yts) ts2"
proof -
  note fd = focusD [OF f]
  obtain t1 l where t1: "ts1 = t1 @ [l]" using ne by (cases ts1 rule: rev_cases) auto
  obtain k1 kk where k1: "ks1 = k1 @ [kk]" using fd(4) t1 by (cases ks1 rule: rev_cases) auto
  have len: "length t1 = length k1" using fd(4) t1 k1 by simp
  have l: "tree_ok w d (Suc h) (lb lo k1) (uint kk) l" "lefts (tree_ok w d (Suc h)) lo k1 t1"
    using fd(6) lefts_snoc [OF len] by (auto simp: t1 k1 simp del: tree_ok.simps)
  then obtain b lks lts z where b: "l = GNode b lks lts" "get_inner w b = Some z" "\<not> isRoot z" "inner_rep z d lks (map gaddr lts)"
    "d \<le> length lks" "length lks \<le> 2 * d" "kids (tree_ok w d h) (lb lo k1) (uint kk) lks lts" by auto
  have "kids (tree_ok w d h) (lb lo k1) (ub hi ks2) (lks @ kk # yks) (lts @ yts)"
    using kids_append [OF kids_length [OF b(7)]] y b(7) k1 by simp
  then have "pair d h w lo hi k1 ks2 t1 (lks @ kk # yks) (lts @ yts) ts2"
    unfolding pair_def using fd(7) l(2) len by blast
  with b that k1 t1 len kids_length [OF b(7)] show thesis by (simp add: node_at_def)
qed

lemma rebalance_full:
  assumes ok: "world_ok w" "links_ok w" and f: "focus d (Suc h) w p x lo hi ks1 ks2 ts1 (GNode a yks yts) ts2" (is "focus _ _ _ _ _ _ _ _ _ _ ?s _")
    and y: "node_at w d a y yks yts" and kids: "kids (tree_ok w d h) (lb lo ks1) (ub hi ks2) yks yts"
    and len: "d \<le> length yks" "length yks \<le> 2 * d" and Q: "Q w"
  shows "InnerNode_rebalance a i p True w = Some (False, w)"
    and "stays Q d (Suc h) p (isRoot x) lo hi (length (ks1 @ ks2)) (forest_of w (ts1 @ ?s # ts2)) (insert p (set (addrs_of (ts1 @ ?s # ts2)))) w w"
proof -
  note fd = focusD [OF f] and y' = node_atD [OF y]
  show "InnerNode_rebalance a i p True w = Some (False, w)"
    using y' len by (simp add: InnerNode_rebalance_def inner_rep_def)
  have t: "tree_ok w d (Suc h) (lb lo ks1) (ub hi ks2) ?s" by (rule tree_okI [OF y'(1-3) len kids])
  have "kids (tree_ok w d (Suc h)) lo hi (ks1 @ ks2) (ts1 @ ?s # ts2)" unfolding kids_mid [OF fd(4)] using fd(6,7) t by blast
  moreover have "evolves S w w" for S using ok by (simp add: evolves_def same_nodes_def)
  ultimately have "holds Q d (Suc h) p x lo hi (ks1 @ ks2) (ts1 @ ?s # ts2) (forest_of w (ts1 @ ?s # ts2)) (insert p (set (addrs_of (ts1 @ ?s # ts2)))) w w"
    using fd(1,5) Q by (auto simp: holds_def simp del: tree_ok.simps)
  then show "stays Q d (Suc h) p (isRoot x) lo hi (length (ks1 @ ks2)) (forest_of w (ts1 @ ?s # ts2)) (insert p (set (addrs_of (ts1 @ ?s # ts2)))) w w"
    by (rule staysI) (use fd(2) in simp_all)
qed

text \<open>The code for an underfull node, with the two brothers at hand.\<close>

definition rebalance_with :: "addr \<Rightarrow> InnerNode \<Rightarrow> int \<Rightarrow> addr \<Rightarrow> InnerNode \<Rightarrow> addr \<Rightarrow> addr \<Rightarrow> int \<Rightarrow> int \<Rightarrow> world \<Rightarrow> (bool \<times> world) option" where
  "rebalance_with a y i p x L R ln rn w =
     (if R \<noteq> NULL \<and> rn + nKeys y \<ge> 2 * degree y then do {
        r \<leftarrow> get_inner w R;
        (y1, r1, x1) \<leftarrow> redistributeRight i y r x;
        Some (False, put_node a (Inner y1) (put_node R (Inner r1) (put_node p (Inner x1) w)))
      } else if L \<noteq> NULL \<and> ln + nKeys y \<ge> 2 * degree y then do {
        l \<leftarrow> get_inner w L;
        (y1, l1, x1) \<leftarrow> redistributeLeft i y l x;
        Some (False, put_node a (Inner y1) (put_node L (Inner l1) (put_node p (Inner x1) w)))
      } else if isRoot x \<and> nChild x = 2 then
        (if L \<noteq> NULL then do {
           l \<leftarrow> get_inner w L;
           x1 \<leftarrow> mergeParentLeft a y x l;
           Some (True, dispose L (put_node p (Inner x1) w))
         } else do {
           r \<leftarrow> get_inner w R;
           x1 \<leftarrow> mergeParentRight a y x r;
           Some (True, dispose R (put_node p (Inner x1) w)) })
      else if R \<noteq> NULL then do {
        k \<leftarrow> aget (keys x) i;
        r \<leftarrow> get_inner w R;
        r1 \<leftarrow> mergeRight y r k;
        Some (True, put_node R (Inner r1) w)
      } else do {
        k \<leftarrow> aget (keys x) (i - 1);
        l \<leftarrow> get_inner w L;
        l1 \<leftarrow> mergeLeft y l k;
        Some (True, put_node L (Inner l1) w) })"

lemma rebalance_eq:
  assumes "get_inner w a = Some y" and "nKeys y < degree y" and "\<not> isRoot y" and "get_inner w p = Some x" and "p \<noteq> NULL"
    and "getBrother i (Some x) = Some (L, R)"
    and "R = NULL \<and> rn = 0 \<or> R \<noteq> NULL \<and> (\<exists>r. get_inner w R = Some r \<and> nKeys r = rn)"
    and "L = NULL \<and> ln = 0 \<or> L \<noteq> NULL \<and> (\<exists>l. get_inner w L = Some l \<and> nKeys l = ln)"
  shows "InnerNode_rebalance a i p True w = rebalance_with a y i p x L R ln rn w"
proof -
  have r: "(if R = NULL then Some 0 else do { r \<leftarrow> get_inner w R; Some (nKeys r) }) = Some rn"
    and l: "(if L = NULL then Some 0 else do { l \<leftarrow> get_inner w L; Some (nKeys l) }) = Some ln"
    using assms(7,8) by auto
  show ?thesis
    unfolding InnerNode_rebalance_def rebalance_with_def using assms(1-6) by (simp add: r l)
qed

definition brother :: "gtree list \<Rightarrow> (gtree list \<Rightarrow> gtree) \<Rightarrow> addr" where
  "brother ts f = (if ts = [] then NULL else gaddr (f ts))"

definition brother_keys :: "gtree list \<Rightarrow> (gtree list \<Rightarrow> gtree) \<Rightarrow> int" where
  "brother_keys ts f = (if ts = [] then 0 else int (gkeys (f ts)))"

lemma inner_child:
  assumes "world_ok w" and "tree_ok w d (Suc h) lo hi t"
  shows "gaddr t \<noteq> NULL \<and> (\<exists>z. get_inner w (gaddr t) = Some z \<and> nKeys z = int (gkeys t))"
proof -
  obtain b ks ts z where "t = GNode b ks ts" "get_inner w b = Some z" "inner_rep z d ks (map gaddr ts)" using assms(2) by auto
  then show ?thesis using heap_nonnull [OF assms(1), of b] by (simp add: heap_get_inner inner_rep_def)
qed

lemma rebalance_run:
  assumes ok: "world_ok w" and f: "focus d (Suc h) w p x lo hi ks1 ks2 ts1 (GNode a yks yts) ts2"
    and y: "node_at w d a y yks yts" and len: "length yks < d"
  shows "InnerNode_rebalance a (int (length ks1)) p True w = rebalance_with a y (int (length ks1)) p x
    (brother ts1 last) (brother ts2 hd) (brother_keys ts1 last) (brother_keys ts2 hd) w"
proof -
  note fd = focusD [OF f] and y' = node_atD [OF y]
  have inner: "gaddr t \<noteq> NULL \<and> (\<exists>z. get_inner w (gaddr t) = Some z \<and> nKeys z = int (gkeys t))" if "t \<in> set ts1 \<union> set ts2" for t
    using that inner_child [OF ok] lefts_all [OF fd(6)] rights_all [OF fd(7)] by blast
  have g: "getBrother (int (length ks1)) (Some x) = Some (brother ts1 last, brother ts2 hd)"
    using getBrother_spec [of x d "ks1 @ ks2" "map gaddr ts1" a "map gaddr ts2" "int (length ks1)"] fd(2,4)
    by (simp add: brother_def last_map list.map_sel(1))
  show ?thesis
    by (rule rebalance_eq [OF y'(1) _ y'(2) fd(1) _ g])
      (use y'(3) len fd(1) heap_nonnull [OF ok, of p] inner in \<open>auto simp: inner_rep_def heap_get_inner brother_def brother_keys_def\<close>)
qed

text \<open>The result of the second half of \<open>remove\<close> on the child at \<open>a\<close> of the node at \<open>p\<close>.\<close>

definition rebalances :: "(world \<Rightarrow> bool) \<Rightarrow> env \<Rightarrow> nat \<Rightarrow> nat \<Rightarrow> world \<Rightarrow> addr \<Rightarrow> InnerNode \<Rightarrow> int \<Rightarrow> int \<Rightarrow> u64 list \<Rightarrow> u64 list \<Rightarrow> gtree list \<Rightarrow> gtree \<Rightarrow> gtree list \<Rightarrow> bool" where
  "rebalances Q E d h w p x lo hi ks1 ks2 ts1 s ts2 \<longleftrightarrow> (\<exists>b w1. InnerNode_rebalance (gaddr s) (int (length ks1)) p True w = Some (b, w1)
     \<and> outcome Q E d (Suc h) p x lo hi ks1 ks2 (map gaddr (ts1 @ ts2)) (gaddr s) (forest_of w (ts1 @ s # ts2))
         (insert p (set (addrs_of (ts1 @ s # ts2)))) w b w1)"

lemma rebalancesI:
  "InnerNode_rebalance (gaddr s) (int (length ks1)) p True w = Some (b, v) \<Longrightarrow>
   outcome Q E d (Suc h) p x lo hi ks1 ks2 (map gaddr (ts1 @ ts2)) (gaddr s) (forest_of w (ts1 @ s # ts2))
     (insert p (set (addrs_of (ts1 @ s # ts2)))) w b v \<Longrightarrow> rebalances Q E d h w p x lo hi ks1 ks2 ts1 s ts2"
  unfolding rebalances_def by blast

lemma rebalance_with_merge:
  assumes "\<not> (R \<noteq> NULL \<and> rn + nKeys y \<ge> 2 * degree y)" and "\<not> (L \<noteq> NULL \<and> ln + nKeys y \<ge> 2 * degree y)"
  shows "rebalance_with a y i p x L R ln rn w = (if isRoot x \<and> nChild x = 2 then
        (if L \<noteq> NULL then do { l \<leftarrow> get_inner w L; x1 \<leftarrow> mergeParentLeft a y x l; Some (True, dispose L (put_node p (Inner x1) w)) }
         else do { r \<leftarrow> get_inner w R; x1 \<leftarrow> mergeParentRight a y x r; Some (True, dispose R (put_node p (Inner x1) w)) })
      else if R \<noteq> NULL then do { k \<leftarrow> aget (keys x) i; r \<leftarrow> get_inner w R; r1 \<leftarrow> mergeRight y r k; Some (True, put_node R (Inner r1) w) }
      else do { k \<leftarrow> aget (keys x) (i - 1); l \<leftarrow> get_inner w L; l1 \<leftarrow> mergeLeft y l k; Some (True, put_node L (Inner l1) w) })"
  unfolding rebalance_with_def by (simp only: if_not_P [OF assms(1)] if_not_P [OF assms(2)])

lemma merge_with_right:
  assumes ok: "world_ok w" "links_ok w" and f: "focus d (Suc h) w p x lo hi ks1 (kk # k2) ts1 (GNode a yks yts) (GNode b rks rts # t2)" (is "focus _ _ _ _ _ _ _ _ _ _ ?s (?r # _)")
    and y: "node_at w d a y yks yts" and z: "node_at w d b z rks rts" and pr: "pair d h w lo hi ks1 k2 ts1 (yks @ kk # rks) (yts @ rts) t2"
    and small: "length rks = d" "d = Suc (length yks)" and safe: "ts1 \<noteq> [] \<Longrightarrow> gkeys (last ts1) \<le> d"
    and Q: "Q w" "leafwise Q"
  shows "rebalances Q E d h w p x lo hi ks1 (kk # k2) ts1 ?s (?r # t2)"
proof -
  note fd = focusD [OF f] and y' = node_atD [OF y] and z' = node_atD [OF z]
  have ab: "a \<noteq> b" and cq: "{a, b} = {a, b}" using fd(5) by (auto simp: gaddrs_GNode)
  have ny: "nKeys y = int (length yks)" "degree y = int d" using y'(3) by (simp_all add: inner_rep_def)
  have R: "brother (?r # t2) hd = b" "brother_keys (?r # t2) hd = int (length rks)" "b \<noteq> NULL"
    using z'(1) heap_nonnull [OF ok(1), of b] by (simp_all add: brother_def brother_keys_def heap_get_inner)
  have run: "InnerNode_rebalance a (int (length ks1)) p True w = rebalance_with a y (int (length ks1)) p x
    (brother ts1 last) (brother (?r # t2) hd) (brother_keys ts1 last) (brother_keys (?r # t2) hd) w"
    by (rule rebalance_run [OF ok(1) f y]) (use small in simp)
  have nl: "\<not> (brother ts1 last \<noteq> NULL \<and> 2 * degree y \<le> brother_keys ts1 last + nKeys y)"
    using safe small ny by (auto simp: brother_def brother_keys_def)
  have nr: "\<not> (brother (?r # t2) hd \<noteq> NULL \<and> brother_keys (?r # t2) hd + nKeys y \<ge> 2 * degree y)" using R small ny by simp
  note run = run [unfolded rebalance_with_merge [OF nr nl], unfolded R(1)]
  have tot: "d \<le> length (yks @ kk # rks)" "length (yks @ kk # rks) \<le> 2 * d" using small by simp_all
  have c2: "nChild x = int (length ts1 + length t2 + 2)" "length t2 = length k2"
    using fd(2) rights_length [OF fd(7)] by (simp_all add: inner_rep_def)
  show ?thesis
  proof (cases "isRoot x \<and> nChild x = 2")
    case True
    then have "length ts1 + length t2 = 0" using c2(1) by linarith
    then have e: "ts1 = []" "t2 = []" "ks1 = []" "k2 = []" using fd(4) c2(2) by simp_all
    have xr: "inner_rep x d [kk] (map gaddr [?s, ?r])" using fd(2) e by simp
    obtain p2 where p2: "mergeParentRight a y x z = Some p2" "merged_root x p2 d (yks @ kk # rks) (map gaddr yts @ map gaddr rts) a"
      by (rule merge_parent [OF xr y'(3) z'(3), of a]) (use small y'(4) z'(4) in auto)
    have "merged Q E d (Suc h) p lo hi a (forest_of w [?s, ?r]) (insert p (set (addrs_of [?s, ?r]))) w (dispose b (put_node p (Inner p2) w))"
      by (rule merge_root [where Q = Q, OF ok fd(1) _ y'(1) z'(1) _ cq ab]) (use True p2(2) pr e tot fd(5) Q in simp_all)
    moreover have "brother ts1 last = NULL" using e by (simp add: brother_def)
    ultimately show ?thesis
      by (intro rebalancesI [of _ _ _ _ True "dispose b (put_node p (Inner p2) w)"])
        (use run R True z'(1) p2(1) e in \<open>simp_all add: outcome_def\<close>)
  next
    case False
    have len2: "length rks + length yks \<le> 2 * d" "length (map gaddr rts) + length (map gaddr yts) \<le> 2 * d + 2" using small y'(4) z'(4) by simp_all
    obtain z1 where z1: "mergeRight y z kk = Some z1" "inner_rep z1 d (yks @ kk # rks) (map gaddr yts @ map gaddr rts)" "isRoot z1 = isRoot z"
      by (rule mergeRight_spec [OF z'(3) y'(3) len2])
    have rt: "isRoot x \<Longrightarrow> ks1 @ k2 \<noteq> []" using False c2 fd(4) by auto
    have "drops Q E d (Suc h) p x lo hi (ks1 @ k2) (map gaddr ts1 @ b # map gaddr t2) a (forest_of w (ts1 @ ?s # ?r # t2))
        (insert p (set (addrs_of (ts1 @ ?s # ?r # t2)))) w (put_node b (Inner z1) w)"
      by (rule merge_leaves [where Q = Q, OF ok fd(1) y'(1) z'(1) _ _ cq ab pr tot fd(5) rt]) (use z1(2,3) z'(2) Q in simp_all)
    moreover have "aget (keys x) (int (length ks1)) = Some kk" by (rule inner_repE [OF fd(2)]) (simp add: aget_append_mid)
    ultimately show ?thesis
      by (intro rebalancesI [of _ _ _ _ True "put_node b (Inner z1) w"])
        (use run R False z'(1) z1(1) in \<open>simp_all add: outcome_def keys_without_def\<close>)
  qed
qed

lemma merge_with_left:
  assumes ok: "world_ok w" "links_ok w" and f: "focus d (Suc h) w p x lo hi (k1 @ [kk]) [] (t1 @ [GNode b lks lts]) (GNode a yks yts) []" (is "focus _ _ _ _ _ _ _ _ _ (_ @ [?l]) ?s _")
    and y: "node_at w d a y yks yts" and z: "node_at w d b z lks lts" and pr: "pair d h w lo hi k1 [] t1 (lks @ kk # yks) (lts @ yts) []"
    and small: "length lks = d" "d = Suc (length yks)" and Q: "Q w" "leafwise Q"
  shows "rebalances Q E d h w p x lo hi (k1 @ [kk]) [] (t1 @ [?l]) ?s []"
proof -
  note fd = focusD [OF f] and y' = node_atD [OF y] and z' = node_atD [OF z]
  have ab: "a \<noteq> b" and cq: "{a, b} = {b, a}" using fd(5) by (auto simp: gaddrs_GNode)
  have ny: "nKeys y = int (length yks)" "degree y = int d" using y'(3) by (simp_all add: inner_rep_def)
  have L: "brother (t1 @ [?l]) last = b" "brother_keys (t1 @ [?l]) last = int (length lks)" "b \<noteq> NULL" "brother [] hd = NULL"
    using z'(1) heap_nonnull [OF ok(1), of b] by (simp_all add: brother_def brother_keys_def heap_get_inner)
  have run: "InnerNode_rebalance a (int (length (k1 @ [kk]))) p True w = rebalance_with a y (int (length (k1 @ [kk]))) p x
    (brother (t1 @ [?l]) last) (brother [] hd) (brother_keys (t1 @ [?l]) last) (brother_keys [] hd) w"
    by (rule rebalance_run [OF ok(1) f y]) (use small in simp)
  have tot: "d \<le> length (lks @ kk # yks)" "length (lks @ kk # yks) \<le> 2 * d" using small by simp_all
  have c2: "nChild x = int (length t1 + 2)" "length t1 = length k1" using fd(2,4) by (simp_all add: inner_rep_def)
  have dis: "distinct (p # addrs_of (t1 @ ?l # ?s # []))" using fd(5) by simp
  show ?thesis
  proof (cases "isRoot x \<and> nChild x = 2")
    case True
    then have e: "t1 = []" "k1 = []" using c2 by auto
    have xr: "inner_rep x d [kk] (map gaddr [?l, ?s])" using fd(2) e by simp
    obtain p1 where p1: "mergeParentLeft a y x z = Some p1" "merged_root x p1 d (lks @ kk # yks) (map gaddr lts @ map gaddr yts) a"
      by (rule merge_parent [OF xr z'(3) y'(3), of a]) (use small y'(4) z'(4) in auto)
    have "merged Q E d (Suc h) p lo hi a (forest_of w [?l, ?s]) (insert p (set (addrs_of [?l, ?s]))) w (dispose b (put_node p (Inner p1) w))"
      by (rule merge_root [where Q = Q, OF ok fd(1) _ y'(1) z'(1) _ cq ab]) (use True p1(2) pr e tot dis Q in simp_all)
    then show ?thesis
      by (intro rebalancesI [of _ _ _ _ True "dispose b (put_node p (Inner p1) w)"])
        (use run L small True ny z'(1) p1(1) e in \<open>simp_all add: rebalance_with_def outcome_def\<close>)
  next
    case False
    have len2: "length lks + length yks \<le> 2 * d" "length (map gaddr lts) + length (map gaddr yts) \<le> 2 * d + 2" using small y'(4) z'(4) by simp_all
    obtain z1 where z1: "mergeLeft y z kk = Some z1" "inner_rep z1 d (lks @ kk # yks) (map gaddr lts @ map gaddr yts)" "isRoot z1 = isRoot z"
      by (rule mergeLeft_spec [OF z'(3) y'(3) len2])
    have rt: "isRoot x \<Longrightarrow> k1 @ [] \<noteq> []" using False c2 by auto
    have "drops Q E d (Suc h) p x lo hi (k1 @ []) (map gaddr t1 @ b # map gaddr []) a (forest_of w (t1 @ ?l # ?s # []))
        (insert p (set (addrs_of (t1 @ ?l # ?s # [])))) w (put_node b (Inner z1) w)"
      by (rule merge_leaves [where Q = Q, OF ok fd(1) y'(1) z'(1) _ _ cq ab pr tot dis rt]) (use z1(2,3) z'(2) Q in simp_all)
    moreover have "aget (keys x) (int (length k1)) = Some kk" by (rule inner_repE [OF fd(2)]) (simp add: aget_append_mid)
    ultimately show ?thesis
      by (intro rebalancesI [of _ _ _ _ True "put_node b (Inner z1) w"])
        (use run L small False ny z'(1) z1(1) in \<open>simp_all add: rebalance_with_def outcome_def keys_without_def\<close>)
  qed
qed

lemma rebalance_spec:
  assumes ok: "world_ok w" "links_ok w" and f: "focus d (Suc h) w p x lo hi ks1 ks2 ts1 (GNode a yks yts) ts2" (is "focus _ _ _ _ _ _ _ _ _ _ ?s _")
    and y: "node_at w d a y yks yts" and kids: "kids (tree_ok w d h) (lb lo ks1) (ub hi ks2) yks yts"
    and len: "d \<le> Suc (length yks)" "length yks \<le> 2 * d"
    and safe: "length yks < d \<Longrightarrow> ts1 \<noteq> [] \<Longrightarrow> gkeys (last ts1) \<le> d \<or> ts2 \<noteq> [] \<and> d < gkeys (hd ts2)"
    and Q: "Q w" "leafwise Q"
  shows "rebalances Q E d h w p x lo hi ks1 ks2 ts1 ?s ts2"
proof (cases "d \<le> length yks")
  case True
  from rebalance_full [where Q = Q, OF ok f y kids True len(2) Q(1)] show ?thesis by (auto simp: outcome_def intro!: rebalancesI)
next
  case low: False
  note fd = focusD [OF f] and y' = node_atD [OF y]
  have ny: "nKeys y = int (length yks)" "degree y = int d" using y'(3) by (simp_all add: inner_rep_def)
  show ?thesis
  proof (cases "ts2 = []")
    case True
    have k2: "ks2 = []" using fd(7) True rights_length by fastforce
    then have ne: "ts1 \<noteq> []" using fd(3,4) by auto
    obtain k1 kk t1 b lks lts z where l: "ks1 = k1 @ [kk]" "ts1 = t1 @ [GNode b lks lts]" "node_at w d b z lks lts"
      "d \<le> length lks" "pair d h w lo hi k1 ks2 t1 (lks @ kk # yks) (lts @ yts) ts2"
      by (rule left_brother [OF f kids ne])
    have "rebalances Q E d h w p x lo hi (k1 @ [kk]) [] (t1 @ [GNode b lks lts]) ?s []"
      by (rule merge_with_left [where Q = Q, OF ok _ y l(3)]) (use f l(1,2,4,5) safe k2 ne True low len Q in simp_all)
    then show ?thesis using l(1,2) k2 True by simp
  next
    case False
    obtain kk k2 b rks rts t2 z where r: "ks2 = kk # k2" "ts2 = GNode b rks rts # t2" "node_at w d b z rks rts"
      "d \<le> length rks" "length rks \<le> 2 * d" "pair d h w lo hi ks1 k2 ts1 (yks @ kk # rks) (yts @ rts) t2"
      by (rule right_brother [OF f kids False])
    show ?thesis
    proof (cases "2 * d \<le> length rks + length yks")
      case False
      then have "length rks = d" "d = Suc (length yks)" using r(4) low len by simp_all
      moreover from this have "ts1 \<noteq> [] \<Longrightarrow> gkeys (last ts1) \<le> d" using safe r(2) by simp
      ultimately show ?thesis using merge_with_right [where Q = Q, OF ok _ y r(3,6) _ _ _ Q, of p x] f r(1,2) by simp
    next
      case True
      have ly: "length yks < d" using low by simp
      have xr: "inner_rep x d (ks1 @ kk # k2) (map gaddr (ts1 @ ?s # GNode b rks rts # t2))"
        and dis: "distinct (p # addrs_of (ts1 @ ?s # GNode b rks rts # t2))" using fd(2,5) r(1,2) by simp_all
      obtain x' y1 z1 where s: "redistributeRight (int (length ks1)) y z x = Some (y1, z1, x')"
        "stays Q d (Suc h) p (isRoot x) lo hi (length (ks1 @ kk # k2)) (forest_of w (ts1 @ ?s # GNode b rks rts # t2))
          (insert p (set (addrs_of (ts1 @ ?s # GNode b rks rts # t2)))) w
          (put_node a (Inner y1) (put_node b (Inner z1) (put_node p (Inner x') w)))"
        by (rule redistribute_stays [where Q = Q, OF ok fd(1) xr y r(3,6) ly r(5) True dis Q])
      have "brother ts2 hd = b" "brother_keys ts2 hd = int (length rks)" "b \<noteq> NULL"
        using r(2) node_atD(1) [OF r(3)] heap_nonnull [OF ok(1), of b] by (simp_all add: brother_def brother_keys_def heap_get_inner)
      with s True ny node_atD(1) [OF r(3)] r(1,2) rebalance_run [OF ok(1) f y ly] show ?thesis
        by (intro rebalancesI [of _ _ _ _ False "put_node a (Inner y1) (put_node b (Inner z1) (put_node p (Inner x') w))"])
          (simp_all add: rebalance_with_def outcome_def)
    qed
  qed
qed

end
