(* ===== verification/Tree_Remove.thy ===== *)
theory Tree_Remove
  imports Tree_Rebalance
begin

text \<open>
  \<open>FPTree::remove\<close> on the whole tree, by induction on its height, and the contract of a key-value
  store with removal. The one path left out is \<open>redistributeLeft\<close>, which has no defined result:
  \<open>left_safe\<close> says that no removal can reach it.
\<close>

section \<open>remove on subtrees\<close>

text \<open>
  No removal has to move entries from a left brother: a node of the tree with the least number of
  keys and a left brother with more has a right brother with more, which is asked first.
\<close>

definition crowded :: "world \<Rightarrow> addr \<Rightarrow> bool" where
  "crowded w a \<longleftrightarrow> (case get_inner w a of None \<Rightarrow> False | Some x \<Rightarrow> degree x < nKeys x)"

definition minimal :: "world \<Rightarrow> addr \<Rightarrow> bool" where
  "minimal w a \<longleftrightarrow> (case get_inner w a of None \<Rightarrow> False | Some x \<Rightarrow> degree x = nKeys x)"

definition left_safe :: "world \<Rightarrow> bool" where
  "left_safe w \<longleftrightarrow> (\<forall>p x i l c. below w p \<longrightarrow> get_inner w p = Some x \<longrightarrow> 0 < i \<longrightarrow> i < nChild x \<longrightarrow>
     aget (childrens x) (i - 1) = Some l \<longrightarrow> aget (childrens x) i = Some c \<longrightarrow> crowded w l \<longrightarrow> minimal w c \<longrightarrow>
     i + 1 < nChild x \<and> (\<exists>r. aget (childrens x) (i + 1) = Some r \<and> crowded w r))"

lemma crowded_child: "tree_ok w d (Suc h) lo hi t \<Longrightarrow> crowded w (gaddr t) \<longleftrightarrow> d < gkeys t"
  by (auto simp: crowded_def inner_rep_def)

lemma left_safe_child:
  assumes sf: "left_safe w" and b: "below w p" and f: "focus d (Suc h) w p x lo hi ks1 ks2 ts1 s ts2"
    and s: "tree_ok w d (Suc h) l u s" "gkeys s = d" and ne: "ts1 \<noteq> []"
  shows "gkeys (last ts1) \<le> d \<or> ts2 \<noteq> [] \<and> d < gkeys (hd ts2)"
proof (rule ccontr)
  assume n: "\<not> ?thesis"
  note fd = focusD [OF f]
  obtain t1 t where t1: "ts1 = t1 @ [t]" using ne by (cases ts1 rule: rev_cases) auto
  let ?i = "int (length ts1)"
  have "\<exists>lo hi. tree_ok w d (Suc h) lo hi t" using lefts_all [OF fd(6)] t1 by simp
  then have cl: "crowded w (gaddr t)" using crowded_child n t1 by fastforce
  have l: "aget (childrens x) (?i - 1) = Some (gaddr t)"
    by (rule aget_child [of x d "ks1 @ ks2" t1 t "s # ts2"]) (use fd(2) t1 in auto)
  have c: "aget (childrens x) ?i = Some (gaddr s)" by (rule aget_child [OF fd(2) refl])
  have mi: "minimal w (gaddr s)" using s by (auto simp: minimal_def inner_rep_def)
  have i: "0 < ?i" "?i < nChild x" "nChild x = int (length ts1 + 1 + length ts2)" using ne fd(2) by (simp_all add: inner_rep_def)
  obtain r where r: "?i + 1 < nChild x" "aget (childrens x) (?i + 1) = Some r" "crowded w r"
    using sf b fd(1) i(1,2) l c cl mi unfolding left_safe_def by blast
  then obtain q t2 where t2: "ts2 = q # t2" using i(3) by (cases ts2) auto
  have "aget (childrens x) (?i + 1) = Some (gaddr q)"
    by (rule aget_child [of x d "ks1 @ ks2" "ts1 @ [s]" q t2]) (use fd(2) t2 in auto)
  moreover have "\<exists>lo hi. tree_ok w d (Suc h) lo hi q" using rights_all [OF fd(7)] t2 by simp
  ultimately show False using r n t2 crowded_child by fastforce
qed

text \<open>The code of \<open>remove\<close> on a node with keys, once the child has returned.\<close>

lemma Node_remove_step:
  assumes "get_inner w a = Some y" and "\<not> (isRoot y \<and> nKeys y = 0)" and "findIndex y k = Some j" and "aget (childrens y) j = Some c"
    and "Node_remove E c k j a False w = Some (b, ifDelete, w1)"
  shows "Node_remove E a k i p False w = (if \<not> ifDelete then Some (b, ifDelete, w1)
      else do {
        x1 \<leftarrow> get_inner w1 a;
        (if isRoot x1 \<and> nChild x1 = 0 then do {
           let x2 = x1\<lparr>nChild := nKeys x1 + 1\<rparr>;
           c \<leftarrow> aget (childrens x2) (nChild x2);
           w2 \<leftarrow> deleteNode E c (put_node a (Inner x2) w1);
           Some (b, ifDelete, w2)
         } else do {
           c1 \<leftarrow> aget (childrens x1) j;
           w2 \<leftarrow> deleteNode E c1 w1;
           x2 \<leftarrow> get_inner w2 a;
           x3 \<leftarrow> removeChild (if j < nKeys x2 then j else j - 1) j x2;
           (ifDelete, w3) \<leftarrow> InnerNode_rebalance a i p ifDelete (put_node a (Inner x3) w2);
           Some (b, ifDelete, w3) }) })"
  using assms unfolding heap_get_inner by (subst Node_remove.simps) (simp only: option.case node.case if_False Option.bind.bind_lunit prod.case)

text \<open>The node after a child has been taken out, in the new world.\<close>

lemma taken_out:
  assumes y: "get_inner w a = Some y" "inner_rep y d (j1 @ j2) (map gaddr (u1 @ c # u2))" and jl: "j1 @ j2 \<noteq> []" "length u1 = length j1"
    and lv: "drops Q E d h a y lo hi (keys_without j1 j2) (map gaddr (u1 @ u2)) (gaddr c) F S w w1" and S: "a \<in> S" and Q: "leafwise Q"
  obtains w2 y3 ts where "deleteNode E (gaddr c) w1 = Some w2" "get_inner w1 a = Some y" "get_inner w2 a = Some y"
    "removeChild (if int (length j1) < nKeys y then int (length j1) else int (length j1) - 1) (int (length j1)) y = Some y3"
    "isRoot y3 = isRoot y" "inner_rep y3 d (keys_without j1 j2) (map gaddr ts)"
    "holds Q d h a y3 lo hi (keys_without j1 j2) ts F S w (put_node a (Inner y3) w2)" "isRoot y \<Longrightarrow> keys_without j1 j2 = [] \<Longrightarrow> h = 0"
proof -
  obtain ts w2 where l: "get_inner w1 a = Some y" "deleteNode E (gaddr c) w1 = Some w2"
    "holds Q d h a y lo hi (keys_without j1 j2) ts F S w w2" "map gaddr ts = map gaddr (u1 @ u2)" "isRoot y \<and> keys_without j1 j2 = [] \<longrightarrow> h = 0"
    using lv unfolding drops_def by blast
  note h = l(3) [unfolded holds_def]
  have rep: "inner_rep y d (j1 @ j2) (map gaddr u1 @ gaddr c # map gaddr u2)" using y(2) by simp
  obtain y3 where y3: "removeChild (if int (length j1) < nKeys y then int (length j1) else int (length j1) - 1) (int (length j1)) y = Some y3"
    "inner_rep y3 d (keys_without j1 j2) (map gaddr u1 @ map gaddr u2)" "isRoot y3 = isRoot y"
    by (rule removeChild_at [OF rep _ jl(1)]) (use jl(2) in auto)
  let ?w3 = "put_node a (Inner y3) w2"
  have w2: "world_ok w2" "links_ok w2" using h evolves_world by blast+
  note e3 = put_inner_evolves [OF w2, of a y y3]
  have "same_nodes (set (addrs_of ts)) w2 ?w3"
    using h put_inner_spec(2,4) [OF w2(1), of a y y3] by (auto simp: same_nodes_def)
  note fr = kids_frame [OF _ this, of d h lo hi "keys_without j1 j2"]
  have "evolves S w ?w3" using h e3(1) S evolves_trans [of S w w2 "{a}"] by blast
  then have "holds Q d h a y3 lo hi (keys_without j1 j2) ts F S w ?w3"
    using h fr e3 leafwiseD [OF Q, of w2] unfolding holds_def by simp
  then show thesis by (rule that [OF l(2,1) _ y3(1,3), rotated 2]) (use l y3 h in simp_all)
qed

text \<open>The parent, after its child \<open>s\<close> has lost a child of its own and may have too few keys.\<close>

lemma child_rebalanced:
  assumes ok: "world_ok w" and f: "focus d (Suc h) w p x lo hi ks1 ks2 ts1 s ts2" and nk: "k \<notin> fst ` forest_of w (ts1 @ ts2)"
    and s: "gaddr s = a" "a \<in> set (gaddrs s)"
    and h: "holds Q d h a y (lb lo ks1) (ub hi ks2) ks ts (del_set k (tset w s)) (set (gaddrs s)) w w3"
    and y: "\<not> isRoot y" "inner_rep y d ks (map gaddr ts)" "d \<le> Suc (length ks)" "length ks \<le> 2 * d"
    and safe: "length ks < d \<Longrightarrow> ts1 \<noteq> [] \<Longrightarrow> gkeys (last ts1) \<le> d \<or> ts2 \<noteq> [] \<and> d < gkeys (hd ts2)"
    and Q: "leafwise Q"
  obtains ifDelete w4 where "InnerNode_rebalance a (int (length ks1)) p True w3 = Some (ifDelete, w4)"
    "outcome Q E d (Suc h) p x lo hi ks1 ks2 (map gaddr (ts1 @ ts2)) a (del_set k (forest_of w (ts1 @ s # ts2)))
       (insert p (set (addrs_of (ts1 @ s # ts2)))) w ifDelete w4"
proof -
  note fd = focusD [OF f] and h = h [unfolded holds_def]
  let ?s = "GNode a ks ts"
  have ev: "evolves (set (gaddrs s)) w w3" "root w3 = root w" using h by blast+
  have y3: "node_at w3 d a y ks ts" using h y kids_length by (auto simp: node_at_def)
  have dis: "distinct (addrs_of (ts1 @ s # ts2))" using fd(5) by simp
  note fr = others_frame [OF ok fd(6,7) ev(1) dis]
  have "p < brk w" using heap_brk [OF ok] fd(1) by (simp add: heap_get_inner)
  then have px: "get_inner w3 p = Some x" using ev(1) fd(1,5) by (auto simp: evolves_def same_nodes_def)
  have sub: "set (gaddrs ?s) \<subseteq> set (gaddrs s)" "distinct (gaddrs ?s)" using h s(2) by (auto simp: gaddrs_GNode)
  have f3: "focus d (Suc h) w3 p x lo hi ks1 ks2 ts1 ?s ts2"
    unfolding focus_def using px fd(2-5) fr(1,2) sub s(1) by (auto simp del: tree_ok.simps)
  have "rebalances Q E d h w3 p x lo hi ks1 ks2 ts1 ?s ts2"
    by (rule rebalance_spec [where Q = Q, OF evolves_world [OF ev(1)] f3 y3]) (use h y(3,4) safe Q in auto)
  then obtain b w4 where rb: "InnerNode_rebalance a (int (length ks1)) p True w3 = Some (b, w4)"
    "outcome Q E d (Suc h) p x lo hi ks1 ks2 (map gaddr (ts1 @ ts2)) a (forest_of w3 (ts1 @ ?s # ts2)) (insert p (set (addrs_of (ts1 @ ?s # ts2)))) w3 b w4"
    unfolding rebalances_def by auto
  have F: "forest_of w3 (ts1 @ ?s # ts2) = del_set k (forest_of w (ts1 @ s # ts2))"
    using fr(3,4) h nk by (simp add: tset_GNode del_set_idle image_Un)
  show thesis
    by (rule that [OF rb(1) outcome_trans [OF rb(2) [unfolded F] evolves_mono [OF ev(1)] ev(2)]]) (use sub in auto)
qed

lemma remove_inner_child:
  assumes ok: "world_ok w" "links_ok w" and d: "1 \<le> d" and sf: "left_safe w \<or> spare w k"
    and f: "focus d (Suc h) w p x lo hi ks1 ks2 ts1 s ts2" and b: "below w p" and nk: "k \<notin> fst ` forest_of w (ts1 @ ts2)"
    and s: "s = GNode a kks tts" and t: "tree_ok w d (Suc h) (lb lo ks1) (ub hi ks2) s" and y: "node_at w d a y kks tts"
    and j: "kks = j1 @ j2" "tts = u1 @ c # u2" "length u1 = length j1" "findIndex y k = Some (int (length j1))"
      "k \<notin> fst ` forest_of w (u1 @ u2)"
    and IH: "removes E d h k w a y (lb lo ks1) (ub hi ks2) j1 j2 u1 c u2"
  shows "removes E d (Suc h) k w p x lo hi ks1 ks2 ts1 s ts2"
proof -
  note fd = focusD [OF f] and y' = node_atD [OF y]
  have ga: "gaddr s = a" "tset w s = forest_of w tts" "set (gaddrs s) = insert a (set (addrs_of tts))" using s by (simp_all add: tset_GNode gaddrs_GNode)
  have dl: "d \<le> length kks" "length kks \<le> 2 * d" using t s by auto
  then have jl: "j1 @ j2 \<noteq> []" using d j(1) by auto
  have kin: "k \<in> fst ` tset w c \<longleftrightarrow> k \<in> fst ` tset w s" using j(2,5) ga(2) by (auto simp: image_Un)
  let ?Q = "leaf_effect (k \<in> fst ` tset w s) k w"
  obtain fl w1 where r: "Node_remove E (gaddr c) k (int (length j1)) a False w = Some (k \<in> fst ` tset w c, fl, w1)"
    "outcome ?Q E d h a y (lb lo ks1) (ub hi ks2) j1 j2 (map gaddr (u1 @ u2)) (gaddr c) (del_set k (tset w s)) (set (gaddrs s)) w fl w1"
    "fl \<longrightarrow> \<not> spare w k \<and> k \<in> fst ` tset w c"
    using IH j(2) ga kin unfolding removes_def by auto
  have ch: "aget (childrens y) (int (length j1)) = Some (gaddr c)"
    by (rule aget_child [of y d kks u1 c u2]) (use y'(3) j in auto)
  note run = Node_remove_step [OF y'(1) _ j(4) ch r(1), of "int (length ks1)" p]
  show ?thesis
  proof (cases fl)
    case False
    then obtain ks ts x' where h: "holds ?Q d h a x' (lb lo ks1) (ub hi ks2) ks ts (del_set k (tset w s)) (set (gaddrs s)) w w1"
      "\<not> isRoot x'" "inner_rep x' d ks (map gaddr ts)" "length ks = length kks"
      using r(2) y'(2) j(1) unfolding outcome_def stays_def by auto
    note h' = h(1) [unfolded holds_def]
    have "stays ?Q d (Suc h) p (isRoot x) lo hi (length (ks1 @ ks2)) (del_set k (forest_of w (ts1 @ s # ts2))) (insert p (set (addrs_of (ts1 @ s # ts2)))) w w1"
      by (rule focus_replaced [where Q = ?Q, OF ok(1) f, of w1 "GNode a ks ts"])
        (use h' h dl ga nk tree_okI [of w1 a x' d ks ts] in \<open>auto simp: gaddrs_GNode tset_GNode simp del: tree_ok.simps\<close>)
    then show ?thesis using run False ga kin y'(2)
      by (intro removesI [where ifDelete = False and v = w1]) (simp_all add: outcome_def)
  next
    case True
    have yr: "inner_rep y d (j1 @ j2) (map gaddr (u1 @ c # u2))" using y'(3) j by simp
    have lv: "drops ?Q E d h a y (lb lo ks1) (ub hi ks2) (keys_without j1 j2) (map gaddr (u1 @ u2)) (gaddr c) (del_set k (tset w s)) (set (gaddrs s)) w w1"
      using r(2) True y'(2) by (simp add: outcome_def)
    obtain w2 y3 ts where o: "deleteNode E (gaddr c) w1 = Some w2" "get_inner w1 a = Some y" "get_inner w2 a = Some y"
      "removeChild (if int (length j1) < nKeys y then int (length j1) else int (length j1) - 1) (int (length j1)) y = Some y3"
      "isRoot y3 = isRoot y" "inner_rep y3 d (keys_without j1 j2) (map gaddr ts)"
      "holds ?Q d h a y3 (lb lo ks1) (ub hi ks2) (keys_without j1 j2) ts (del_set k (tset w s)) (set (gaddrs s)) w (put_node a (Inner y3) w2)"
      by (rule taken_out [OF y'(1) yr jl j(3) lv _ leafwise_effect]) (use ga(3) in simp, blast)
    have lk: "Suc (length (keys_without j1 j2)) = length kks" using length_keys_without [OF jl] j(1) by simp
    have safe: "gkeys (last ts1) \<le> d \<or> ts2 \<noteq> [] \<and> d < gkeys (hd ts2)" if "length (keys_without j1 j2) < d" "ts1 \<noteq> []"
      using left_safe_child [OF _ b f t _ that(2)] sf r(3) True that(1) lk dl s by simp
    obtain fl' w4 where rb: "InnerNode_rebalance a (int (length ks1)) p True (put_node a (Inner y3) w2) = Some (fl', w4)"
      "outcome ?Q E d (Suc h) p x lo hi ks1 ks2 (map gaddr (ts1 @ ts2)) a (del_set k (forest_of w (ts1 @ s # ts2))) (insert p (set (addrs_of (ts1 @ s # ts2)))) w fl' w4"
      by (rule child_rebalanced [OF ok(1) f nk ga(1) _ o(7) _ o(6) _ _ safe leafwise_effect]) (use ga(3) o(5) y'(2) lk dl in auto)
    have "Node_remove E (gaddr s) k (int (length ks1)) p False w = Some (k \<in> fst ` tset w s, fl', w4)"
      unfolding ga(1) using run True y'(2) o(1-4) ch rb(1) kin by simp
    then show ?thesis using rb(2) r(3) True kin ga(1) by (intro removesI) simp_all
  qed
qed

lemma Node_remove_spec:
  assumes E: "libpmem_ok E" and ok: "world_ok w" "links_ok w" and d: "1 \<le> d" and A: "allocator (nv w) = Some A" "unat (freeNum A) + 1 < 2 ^ 64"
    and sf: "left_safe w \<or> spare w k"
  shows "focus d h w p x lo hi ks1 ks2 ts1 s ts2 \<Longrightarrow> below w p \<Longrightarrow> tree_ok w d h (lb lo ks1) (ub hi ks2) s \<Longrightarrow>
    lb lo ks1 \<le> uint k \<Longrightarrow> uint k < ub hi ks2 \<Longrightarrow> k \<notin> fst ` forest_of w (ts1 @ ts2) \<Longrightarrow>
    removes E d h k w p x lo hi ks1 ks2 ts1 s ts2"
proof (induction h arbitrary: p x lo hi ks1 ks2 ts1 s ts2)
  case 0
  then show ?case by (intro remove_leaf_child [OF E ok A])
next
  case (Suc h)
  obtain a kks tts y where s: "s = GNode a kks tts" and kids: "kids (tree_ok w d h) (lb lo ks1) (ub hi ks2) kks tts"
    and y: "get_inner w a = Some y" "\<not> isRoot y" "inner_rep y d kks (map gaddr tts)" "d \<le> length kks"
    using Suc.prems(3) by auto
  have na: "node_at w d a y kks tts" using y kids_length [OF kids] by (simp add: node_at_def)
  obtain j1 j2 u1 c u2 where r: "kks = j1 @ j2" "tts = u1 @ c # u2" "length u1 = length j1"
    "pos_of kks k = length j1" "sorted kks" "tree_ok w d h (lb (lb lo ks1) j1) (ub (ub hi ks2) j2) c"
    "lb (lb lo ks1) j1 \<le> uint k" "uint k < ub (ub hi ks2) j2"
    "lefts (tree_ok w d h) (lb lo ks1) j1 u1" "rights (tree_ok w d h) (ub hi ks2) j2 u2"
    "\<And>s' v. s' \<in> set u1 \<union> set u2 \<Longrightarrow> (k, v) \<notin> tset w s'"
    by (rule route [OF kids Suc.prems(4,5)]) blast
  have nk: "k \<notin> fst ` forest_of w (u1 @ u2)" using r(11) by (auto simp: forest_of_def)
  have dis: "distinct (a # addrs_of tts)"
    using focusD(5) [OF Suc.prems(1)] s distinct_gaddrs [of p "ts1 @ s # ts2" s] by (simp add: gaddrs_GNode)
  have f: "focus d h w a y (lb lo ks1) (ub hi ks2) j1 j2 u1 c u2"
    unfolding focus_def using y r(1-3,9,10) d dis by auto
  have b: "below w a" using focus_below [OF Suc.prems(1,2)] s by simp
  have fi: "findIndex y k = Some (int (length j1))" using findIndex_spec [OF y(3) r(5), of k] r(4) by simp
  show ?case
    by (rule remove_inner_child [OF ok d sf Suc.prems(1,2,6) s Suc.prems(3) na r(1-3) fi nk])
      (rule Suc.IH [OF f b r(6-8) nk])
qed

section \<open>remove at the root\<close>

lemma root_removed:
  assumes "holds Q d h (root w) x 0 KEYS ks ts F S w w'" and "1 \<le> d" and "isRoot x" and "inner_rep x d ks (map gaddr ts)"
    and "length ks \<le> 2 * d" and "ks = [] \<longrightarrow> h = 0"
  shows "root_ok w' d h ks ts" and "forest_of w' ts = F"
    and "durable (dev (nv w)) \<longrightarrow> durable (dev (nv w'))" and "Q w'"
proof -
  note h = assms(1) [unfolded holds_def]
  show "root_ok w' d h ks ts" by (rule root_okI [of S w w' d x]) (use h assms in auto)
  show "forest_of w' ts = F" using h by blast
  show "durable (dev (nv w)) \<longrightarrow> durable (dev (nv w'))" "Q w'" using h by (simp_all add: evolves_def)
qed

text \<open>The root with keys, once its child has returned.\<close>

lemma root_outcome:
  assumes x: "1 \<le> d" "get_inner w (root w) = Some x" "isRoot x" "inner_rep x d ks (map gaddr ts)" "length ks \<le> 2 * d" "ks \<noteq> []"
    and t: "ks = j1 @ j2" "ts = u1 @ c # u2" "length u1 = length j1"
    and ch: "findIndex x k = Some (int (length j1))" "aget (childrens x) (int (length j1)) = Some (gaddr c)"
    and n: "Node_remove E (gaddr c) k (int (length j1)) (root w) False w = Some (r, fl, w1)"
      "outcome Q E d h (root w) x 0 KEYS j1 j2 (map gaddr (u1 @ u2)) (gaddr c) F (insert (root w) (set (addrs_of ts))) w fl w1" and Q: "leafwise Q"
  obtains b w' h' ks' ts' where "Node_remove E (root w) k (- 1) NULL False w = Some (r, b, w')"
    "root_ok w' d h' ks' ts'" "forest_of w' ts' = F" "durable (dev (nv w)) \<longrightarrow> durable (dev (nv w'))" "Q w'"
proof -
  have nk0: "\<not> (isRoot x \<and> nKeys x = 0)" using x(4,6) by (simp add: inner_rep_def)
  note run = Node_remove_step [OF x(2) nk0 ch n(1), of "- 1" NULL]
  consider (stays) "\<not> fl" "stays Q d h (root w) True 0 KEYS (length ks) F (insert (root w) (set (addrs_of ts))) w w1"
    | (leaves) "fl" "drops Q E d h (root w) x 0 KEYS (keys_without j1 j2) (map gaddr (u1 @ u2)) (gaddr c) F (insert (root w) (set (addrs_of ts))) w w1"
    | (merged) "fl" "merged Q E d h (root w) 0 KEYS (gaddr c) F (insert (root w) (set (addrs_of ts))) w w1"
    using n(2) x(3) t(1) unfolding outcome_def by (auto split: if_splits)
  then show thesis
  proof cases
    case stays
    then obtain ks' ts' x' where s: "holds Q d h (root w) x' 0 KEYS ks' ts' F (insert (root w) (set (addrs_of ts))) w w1"
      "isRoot x'" "inner_rep x' d ks' (map gaddr ts')" "length ks' = length ks" unfolding stays_def by auto
    have "length ks' \<le> 2 * d" "ks' = [] \<longrightarrow> h = 0" using s(4) x(5,6) by auto
    from root_removed [OF s(1) x(1) s(2,3) this] show thesis by (rule that [OF run [unfolded if_P [OF stays(1)]]])
  next
    case leaves
    have xr: "inner_rep x d (j1 @ j2) (map gaddr (u1 @ c # u2))" using x(4) t by simp
    have jl: "j1 @ j2 \<noteq> []" using x(6) t(1) by simp
    obtain w2 y3 ts' where o: "deleteNode E (gaddr c) w1 = Some w2" "get_inner w1 (root w) = Some x" "get_inner w2 (root w) = Some x"
      "removeChild (if int (length j1) < nKeys x then int (length j1) else int (length j1) - 1) (int (length j1)) x = Some y3"
      "isRoot y3 = isRoot x" "inner_rep y3 d (keys_without j1 j2) (map gaddr ts')"
      "holds Q d h (root w) y3 0 KEYS (keys_without j1 j2) ts' F (insert (root w) (set (addrs_of ts))) w (put_node (root w) (Inner y3) w2)"
      "isRoot x \<Longrightarrow> keys_without j1 j2 = [] \<Longrightarrow> h = 0"
      by (rule taken_out [OF x(2) xr jl t(3) leaves(2) _ Q]) (simp, blast)
    have "length (keys_without j1 j2) \<le> 2 * d" using length_keys_without [OF jl] x(5) t(1) by simp
    note rr = root_removed [OF o(7) x(1) _ o(6) this]
    have nc: "nChild x \<noteq> 0" using x(4) t(2) by (simp add: inner_rep_def)
    have y3: "get_inner (put_node (root w) (Inner y3) w2) (root w) = Some y3" "isRoot y3" using o(5) x(3) by (simp_all add: get_inner_def)
    define b where "b \<longleftrightarrow> nKeys y3 < degree y3"
    have rb: "InnerNode_rebalance (root w) (- 1) NULL True (put_node (root w) (Inner y3) w2) = Some (b, put_node (root w) (Inner y3) w2)"
      using y3 by (simp add: InnerNode_rebalance_def b_def)
    have "Node_remove E (root w) k (- 1) NULL False w = Some (r, b, put_node (root w) (Inner y3) w2)"
      using run leaves(1) o(1-4) nc ch(2) rb by simp
    then show thesis by (rule that [OF _ rr(1,2)]) (use o(5,8) x(3) rr(3,4) in auto)
  next
    case merged
    then obtain h' ks' ts' x1 x2 w' where m: "get_inner w1 (root w) = Some x1" "isRoot x1" "nChild x1 = 0"
      "aget (childrens x1) (nKeys x1 + 1) = Some (gaddr c)" "x2 = x1\<lparr>nChild := nKeys x1 + 1\<rparr>" "inner_rep x2 d ks' (map gaddr ts')"
      "ks' \<noteq> []" "length ks' \<le> 2 * d" "deleteNode E (gaddr c) (put_node (root w) (Inner x2) w1) = Some w'"
      "holds Q d h' (root w) x2 0 KEYS ks' ts' F (insert (root w) (set (addrs_of ts))) w w'"
      unfolding merged_def by blast
    have "isRoot x2" using m(2,5) by simp
    note rr = root_removed [OF m(10) x(1) this m(6,8)]
    have "Node_remove E (root w) k (- 1) NULL False w = Some (r, True, w')"
      using run merged(1) m(1-4) m(9) [unfolded m(5)] by (simp add: Let_def)
    then show thesis by (rule that [OF _ rr(1,2)]) (use m(7) rr(3,4) in auto)
  qed
qed

lemma remove_at_keys:
  assumes E: "libpmem_ok E" and r: "root_ok w d h ks ts" and A: "allocator (nv w) = Some A" "unat (freeNum A) + 1 < 2 ^ 64"
    and sf: "left_safe w \<or> spare w k" and ks: "ks \<noteq> []"
  obtains b w' h' ks' ts' where "Node_remove E (root w) k (- 1) NULL False w = Some (k \<in> fst ` forest_of w ts, b, w')"
    "root_ok w' d h' ks' ts'" "forest_of w' ts' = del_set k (forest_of w ts)" "durable (dev (nv w)) \<longrightarrow> durable (dev (nv w'))"
    "leaf_effect (k \<in> fst ` forest_of w ts) k w w'"
proof -
  have "ts \<noteq> []" using r ks by (auto simp: root_ok_def)
  then obtain x where x: "world_ok w" "links_ok w" "1 \<le> d" "get_inner w (root w) = Some x" "isRoot x"
    "inner_rep x d ks (map gaddr ts)" "length ks \<le> 2 * d" "distinct (root w # addrs_of ts)"
    "kids (tree_ok w d h) 0 KEYS ks ts" by (rule root_kids [OF r])
  obtain j1 j2 u1 c u2 where t: "ks = j1 @ j2" "ts = u1 @ c # u2" "length u1 = length j1"
    "pos_of ks k = length j1" "sorted ks" "tree_ok w d h (lb 0 j1) (ub KEYS j2) c"
    "lb 0 j1 \<le> uint k" "uint k < ub KEYS j2"
    "lefts (tree_ok w d h) 0 j1 u1" "rights (tree_ok w d h) KEYS j2 u2"
    "\<And>s' v. s' \<in> set u1 \<union> set u2 \<Longrightarrow> (k, v) \<notin> tset w s'"
    by (rule route [OF x(9), of k]) (simp, simp, blast)
  have nk: "k \<notin> fst ` forest_of w (u1 @ u2)" using t(11) by (auto simp: forest_of_def)
  have kin: "k \<in> fst ` tset w c \<longleftrightarrow> k \<in> fst ` forest_of w ts" using nk t(2) by (auto simp: image_Un)
  have f: "focus d h w (root w) x 0 KEYS j1 j2 u1 c u2" unfolding focus_def using x t ks by auto
  have "removes E d h k w (root w) x 0 KEYS j1 j2 u1 c u2"
    by (rule Node_remove_spec [OF E x(1-3) A sf f below_root t(6-8) nk])
  then obtain fl w1 where n: "Node_remove E (gaddr c) k (int (length j1)) (root w) False w = Some (k \<in> fst ` forest_of w ts, fl, w1)"
    "outcome (leaf_effect (k \<in> fst ` forest_of w ts) k w) E d h (root w) x 0 KEYS j1 j2 (map gaddr (u1 @ u2)) (gaddr c) (del_set k (forest_of w ts)) (insert (root w) (set (addrs_of ts))) w fl w1"
    unfolding removes_def t(2) [symmetric] kin by blast
  have fi: "findIndex x k = Some (int (length j1))" using findIndex_spec [OF x(6) t(5), of k] t(4) by simp
  have ch: "aget (childrens x) (int (length j1)) = Some (gaddr c)"
    by (rule aget_child [of x d ks u1 c u2]) (use x(6) t in auto)
  show thesis
    by (rule root_outcome [OF x(3-7) ks t(1-3) fi ch n leafwise_effect]) (rule that)
qed

text \<open>The root over a single leaf, and the empty root.\<close>

lemma remove_at_leaf:
  assumes E: "libpmem_ok E" and r: "root_ok w d h [] ts" and A: "allocator (nv w) = Some A" "unat (freeNum A) + 1 < 2 ^ 64"
  obtains b w' h' ks' ts' where "Node_remove E (root w) k (- 1) NULL False w = Some (k \<in> fst ` forest_of w ts, b, w')"
    "root_ok w' d h' ks' ts'" "forest_of w' ts' = del_set k (forest_of w ts)" "durable (dev (nv w)) \<longrightarrow> durable (dev (nv w'))"
    "leaf_effect (k \<in> fst ` forest_of w ts) k w w'"
proof (cases "ts = []")
  case True
  obtain x where x: "isRoot x" "inner_rep x d [] (map gaddr ts)" "heap w (root w) = Some (Inner x)" by (rule root_okD [OF r])
  have "Node_remove E (root w) k (- 1) NULL False w = Some (False, False, w)"
    using x True by (subst Node_remove.simps) (simp add: inner_rep_def)
  then show thesis using that [of False w h "[]" ts] r True by (simp add: del_set_def leaf_effect_def)
next
  case False
  then obtain x where x: "world_ok w" "links_ok w" "1 \<le> d" "get_inner w (root w) = Some x" "isRoot x"
    "inner_rep x d [] (map gaddr ts)" "distinct (root w # addrs_of ts)" "kids (tree_ok w d h) 0 KEYS [] ts" "h = 0"
    by (rule root_kids [OF r]) simp
  have "length ts = 1" using kids_length [OF x(8)] by simp
  then obtain s where s: "ts = [s]" by (cases ts) auto
  then have t: "tree_ok w d 0 0 KEYS s" using x(8,9) by simp
  then obtain a where a: "s = GLeaf a" by auto
  have nx: "nKeys x = 0" "nChild x = 1" "aget (childrens x) 0 = Some a"
    using x(6) s a aget_child [of x d "[]" "[]" s "[]" 0] by (simp_all add: inner_rep_def)
  have b: "below w a" by (rule below_child [OF below_root x(4), of 0]) (use nx in simp_all)
  have hx: "heap w (root w) = Some (Inner x)" using x(4) by (simp add: heap_get_inner)
  have fo: "forest_of w ts = leaf_set w a" using s a by simp
  have ra: "root w \<noteq> a" using x(7) s a by simp
  show thesis
  proof (cases rule: remove_leaf_cases [OF E x(1,2) t [unfolded a] b A, of k 0 "root w", case_names absent kept gone])
    case absent
    have "Node_remove E (root w) k (- 1) NULL False w = Some (False, False, w)"
      using hx x(5) nx absent(2) by (subst Node_remove.simps) simp
    then show thesis using that [of False w h "[]" ts] r absent(1) fo by (simp add: del_set_idle leaf_effect_def)
  next
    case (kept w')
    have "Node_remove E (root w) k (- 1) NULL False w = Some (True, False, w')"
      using hx x(5) nx kept(2) by (subst Node_remove.simps) simp
    moreover have "root_ok w' d 0 [] ts"
      by (rule root_okI [OF kept(3) x(3) _ x(5,6)]) (use kept(4-6) x(4,7) s a in \<open>simp_all del: tree_ok.simps\<close>)
    ultimately show thesis using that [of False w' 0 "[]" ts] kept(1,3,7,8) fo s a by (simp add: evolves_def)
  next
    case (gone w1 w')
    let ?x = "x\<lparr>nChild := nChild x - 1\<rparr>"
    let ?w = "put_node (root w) (Inner ?x) w'"
    have x': "get_inner w' (root w) = Some x" using gone(8) x(4) by simp
    note e = put_inner_evolves [OF evolves_world [OF gone(5)] x', of ?x]
    have run: "Node_remove E (root w) k (- 1) NULL False w = Some (True, True, ?w)"
      using hx x(5) nx gone(3,4) x' by (subst Node_remove.simps) simp
    have xr: "inner_rep ?x d [] []" using x(6) s by (auto simp: inner_rep_def)
    have ev: "evolves {a, root w} w ?w" using evolves_step [OF gone(5) e(1)] by (simp add: insert_commute)
    have "root_ok ?w d 0 [] []"
      unfolding root_ok_def using evolves_world [OF ev] x(3,5) e(2,3) gone(6) xr by simp
    moreover have "leaf_effect True k w ?w" by (rule leaf_effect_trans [OF gone(10) e(4)])
    ultimately show thesis using that [of True ?w 0 "[]" "[]"] run gone(1,9) fo ev by (simp add: evolves_def)
  qed
qed

lemma FPTree_remove_spec:
  assumes E: "libpmem_ok E" and rep: "represents w d M" and A: "allocator (nv w) = Some A" "unat (freeNum A) + 1 < 2 ^ 64"
    and sf: "left_safe w \<or> spare w k"
  obtains w' where "FPTree_remove E k w = Some (M k \<noteq> None, w')" "represents w' d (M(k := None))"
    "durable (dev (nv w)) \<longrightarrow> durable (dev (nv w'))" "leaf_effect (M k \<noteq> None) k w w'"
proof -
  obtain h ks ts where r: "root_ok w d h ks ts" "\<And>k v. M k = Some v \<longleftrightarrow> (k, v) \<in> forest_of w ts"
    "\<And>k. M k = None \<longleftrightarrow> k \<notin> fst ` forest_of w ts"
    by (rule representsE [OF rep]) blast
  obtain b w' h' ks' ts' where n: "Node_remove E (root w) k (- 1) NULL False w = Some (k \<in> fst ` forest_of w ts, b, w')"
    "root_ok w' d h' ks' ts'" "forest_of w' ts' = del_set k (forest_of w ts)" "durable (dev (nv w)) \<longrightarrow> durable (dev (nv w'))"
    "leaf_effect (k \<in> fst ` forest_of w ts) k w w'"
  proof (cases "ks = []")
    case True
    with r(1) have r0: "root_ok w d h [] ts" by simp
    show thesis by (rule remove_at_leaf [OF E r0 A, of k]) (rule that)
  next
    case False
    show thesis by (rule remove_at_keys [OF E r(1) A sf False]) (rule that)
  qed
  have "(M(k := None)) x = Some y \<longleftrightarrow> (x, y) \<in> forest_of w' ts'" for x y
    using r(2) [of x y] unfolding n(3) by (auto simp: del_set_def)
  then have "represents w' d (M(k := None))" using n(2) unfolding represents_def by blast
  moreover have "FPTree_remove E k w = Some (M k \<noteq> None, w')"
    using n(1) root_nonnull [OF r(1)] r(3) [of k] by (simp add: FPTree_remove_def)
  moreover have "leaf_effect (M k \<noteq> None) k w w'" using n(5) r(3) [of k] by simp
  ultimately show thesis using that n(4) by blast
qed

section \<open>A key-value store with removal\<close>

text \<open>
  The contract extended by a removal, which is safe when \<open>ready\<close> holds. A step is a script of the
  other operations or a removal.
\<close>

datatype kv_step = Script "kv_op list" | Remove u64

fun run_steps :: "(u64 \<Rightarrow> 's \<Rightarrow> u64 option) \<Rightarrow> (u64 \<Rightarrow> u64 \<Rightarrow> 's \<Rightarrow> (bool \<times> 's) option) \<Rightarrow> (u64 \<Rightarrow> u64 \<Rightarrow> 's \<Rightarrow> 's option) \<Rightarrow>
    (u64 \<Rightarrow> 's \<Rightarrow> (bool \<times> 's) option) \<Rightarrow> kv_step list \<Rightarrow> 's \<Rightarrow> ((kv_out list + bool) list \<times> 's) option" where
  "run_steps fnd upd ins rem [] s = Some ([], s)"
| "run_steps fnd upd ins rem (Script cs # ss) s = do {
     (os, s1) \<leftarrow> run_kv fnd upd ins cs s; (rs, s2) \<leftarrow> run_steps fnd upd ins rem ss s1; Some (Inl os # rs, s2) }"
| "run_steps fnd upd ins rem (Remove k # ss) s = do {
     (b, s1) \<leftarrow> rem k s; (rs, s2) \<leftarrow> run_steps fnd upd ins rem ss s1; Some (Inr b # rs, s2) }"

fun steps_map :: "kv_step list \<Rightarrow> (u64 \<rightharpoonup> u64) \<Rightarrow> (kv_out list + bool) list \<times> (u64 \<rightharpoonup> u64)" where
  "steps_map [] M = ([], M)"
| "steps_map (Script cs # ss) M = apfst ((#) (Inl (fst (run_map cs M)))) (steps_map ss (snd (run_map cs M)))"
| "steps_map (Remove k # ss) M = apfst ((#) (Inr (M k \<noteq> None))) (steps_map ss (M(k := None)))"

fun legal_steps :: "kv_step list \<Rightarrow> (u64 \<rightharpoonup> u64) \<Rightarrow> bool" where
  "legal_steps [] M = True"
| "legal_steps (Script cs # ss) M = (legal cs M \<and> legal_steps ss (snd (run_map cs M)))"
| "legal_steps (Remove k # ss) M = legal_steps ss (M(k := None))"

text \<open>There is room before every insertion, and every removal is safe.\<close>

fun ready_steps :: "('s \<Rightarrow> bool) \<Rightarrow> (u64 \<Rightarrow> 's \<Rightarrow> bool) \<Rightarrow> (u64 \<Rightarrow> 's \<Rightarrow> u64 option) \<Rightarrow> (u64 \<Rightarrow> u64 \<Rightarrow> 's \<Rightarrow> (bool \<times> 's) option) \<Rightarrow>
    (u64 \<Rightarrow> u64 \<Rightarrow> 's \<Rightarrow> 's option) \<Rightarrow> (u64 \<Rightarrow> 's \<Rightarrow> (bool \<times> 's) option) \<Rightarrow> kv_step list \<Rightarrow> 's \<Rightarrow> bool" where
  "ready_steps room ready fnd upd ins rem [] s = True"
| "ready_steps room ready fnd upd ins rem (Script cs # ss) s = (roomy room upd ins cs s
     \<and> (\<forall>os s1. run_kv fnd upd ins cs s = Some (os, s1) \<longrightarrow> ready_steps room ready fnd upd ins rem ss s1))"
| "ready_steps room ready fnd upd ins rem (Remove k # ss) s = (ready k s
     \<and> (\<forall>b s1. rem k s = Some (b, s1) \<longrightarrow> ready_steps room ready fnd upd ins rem ss s1))"

locale kv_store_remove = kv_store fnd upd ins rep room
  for fnd :: "u64 \<Rightarrow> 's \<Rightarrow> u64 option" and upd :: "u64 \<Rightarrow> u64 \<Rightarrow> 's \<Rightarrow> (bool \<times> 's) option"
    and ins :: "u64 \<Rightarrow> u64 \<Rightarrow> 's \<Rightarrow> 's option" and rep :: "'s \<Rightarrow> (u64 \<rightharpoonup> u64) \<Rightarrow> bool" and room :: "'s \<Rightarrow> bool" +
  fixes rem :: "u64 \<Rightarrow> 's \<Rightarrow> (bool \<times> 's) option" and ready :: "u64 \<Rightarrow> 's \<Rightarrow> bool"
  assumes rem_law: "rep s M \<Longrightarrow> ready k s \<Longrightarrow> \<exists>s'. rem k s = Some (M k \<noteq> None, s') \<and> rep s' (M(k := None))"
begin

lemma steps_refine:
  "rep s M \<Longrightarrow> legal_steps ss M \<Longrightarrow> ready_steps room ready fnd upd ins rem ss s \<Longrightarrow>
    \<exists>s'. run_steps fnd upd ins rem ss s = Some (fst (steps_map ss M), s') \<and> rep s' (snd (steps_map ss M))"
proof (induction ss arbitrary: s M)
  case Nil
  then show ?case by simp
next
  case (Cons c ss)
  show ?case
  proof (cases c)
    case (Script cs)
    with run_refines [of s M cs] Cons.prems obtain s1 where
      s1: "run_kv fnd upd ins cs s = Some (fst (run_map cs M), s1)" "rep s1 (snd (run_map cs M))" by auto
    from Cons.IH [OF s1(2)] Cons.prems Script s1(1) show ?thesis by auto
  next
    case (Remove k)
    with rem_law [of s M k] Cons.prems obtain s1 where s1: "rem k s = Some (M k \<noteq> None, s1)" "rep s1 (M(k := None))" by auto
    from Cons.IH [OF s1(2)] Cons.prems Remove s1(1) show ?thesis by (auto simp del: fun_upd_apply)
  qed
qed

text \<open>A removed key is not found any more, and the others are found as before.\<close>

lemma remove_find:
  assumes "rep s M" and "ready k s" and "M k' \<noteq> None" and "k' \<noteq> k"
  shows "\<exists>s'. rem k s = Some (M k \<noteq> None, s') \<and> fnd k s' = Some MAX_VALUE \<and> (\<forall>j. j \<noteq> k \<longrightarrow> fnd j s' = fnd j s)"
proof -
  obtain s' where s': "rem k s = Some (M k \<noteq> None, s')" "rep s' (M(k := None))" using rem_law [OF assms(1,2)] by blast
  have ne: "M(k := None) \<noteq> Map.empty" "M \<noteq> Map.empty" using assms(3,4) by (metis fun_upd_apply)+
  show ?thesis using s'(1) find_law [OF s'(2) ne(1)] find_law [OF assms(1) ne(2)] by simp
qed

end

text \<open>A removal is safe: the free list has room, and \<open>redistributeLeft\<close> is not reached.\<close>

definition tree_ready :: "u64 \<Rightarrow> world \<Rightarrow> bool" where
  "tree_ready k w \<longleftrightarrow> (case allocator (nv w) of None \<Rightarrow> False | Some A \<Rightarrow> unat (freeNum A) + 1 < 2 ^ 64)
     \<and> (left_safe w \<or> spare w k)"

interpretation rkv: kv_store_remove FPTree_find "FPTree_update E" "FPTree_insert E" "tree_rep E d" "tree_room E" "FPTree_remove E" tree_ready for E d
proof
  fix w M k
  assume r: "tree_rep E d w M" and rd: "tree_ready k w"
  then obtain A where A: "allocator (nv w) = Some A" "unat (freeNum A) + 1 < 2 ^ 64" "left_safe w \<or> spare w k"
    by (auto simp: tree_ready_def split: option.splits)
  have E: "libpmem_ok E" "represents w d M" using r by (simp_all add: tree_rep_def)
  show "\<exists>w'. FPTree_remove E k w = Some (M k \<noteq> None, w') \<and> tree_rep E d w' (M(k := None))"
    by (rule FPTree_remove_spec [OF E A]) (use E in \<open>auto simp: tree_rep_def\<close>)
qed

section \<open>Trees that are safe\<close>

text \<open>In a tree whose root is over leaves only no inner node is ever underfull.\<close>

lemma left_safe_flat:
  assumes r: "root_ok w d 0 ks ts"
  shows "left_safe w"
proof -
  obtain x where x: "get_inner w (root w) = Some x" "inner_rep x d ks (map gaddr ts)" by (rule root_okD [OF r])
  have leaf: "get_inner w (gaddr t) = None" if "t \<in> set ts" for t
  proof -
    have "kids (tree_ok w d 0) 0 KEYS ks ts" using r that by (auto simp: root_ok_def split: if_splits)
    from kids_all [OF this that] obtain a m where "t = GLeaf a" "leaf_data w a = Some m" by auto
    then show ?thesis by (auto elim!: leaf_dataD simp: get_inner_def)
  qed
  have inner: "p = root w \<or> get_inner w p = None" if "below w p" for p
    using that
  proof induction
    case (below_child p y i c)
    then have "p = root w" "y = x" using x(1) by auto
    then obtain t where "t \<in> set ts" "c = gaddr t" using child_of [OF x(2)] below_child.hyps(3-5) by blast
    then show ?case using leaf by simp
  qed simp
  have "\<not> crowded w l" if b: "below w p" "get_inner w p = Some y" "0 < i" "i < nChild y" "aget (childrens y) (i - 1) = Some l" for p y i l
  proof -
    have "y = x" using inner [OF b(1)] b(2) x(1) by auto
    then obtain t where "t \<in> set ts" "l = gaddr t" by (rule_tac child_of [OF x(2), of "i - 1" l]) (use b(3-5) in auto)
    then show ?thesis using leaf by (simp add: crowded_def)
  qed
  then show ?thesis unfolding left_safe_def by blast
qed

lemma free_bound:
  assumes inv: "palloc_inv A dv" and b: "unat (maxFileId A) * 16 + 1 < 2 ^ 64"
  shows "unat (freeNum A) + 1 < 2 ^ 64"
proof -
  let ?S = "{..<unat (maxFileId A)} \<times> {..<16 :: nat}"
  have "set (freeList A) \<subseteq> (\<lambda>(n, i). leaf_pp (of_nat n) i) ` ?S"
  proof
    fix p assume "p \<in> set (freeList A)"
    then have "ifLeafExist A p" using inv by (simp add: palloc_inv_def free_set_def)
    then obtain f i where "p = leaf_pp f i" "i < 16" "f < maxFileId A" using existE [OF inv] by metis
    then show "p \<in> (\<lambda>(n, i). leaf_pp (of_nat n) i) ` ?S"
      by (intro image_eqI [of _ _ "(unat f, i)"]) (simp_all add: word_less_nat_alt)
  qed
  then have "card (set (freeList A)) \<le> card ?S" by (meson card_image_le card_mono finite_SigmaI finite_imageI finite_lessThan le_trans)
  moreover have "distinct (freeList A)" "unat (freeNum A) = length (freeList A)" using inv by (simp_all add: palloc_inv_def)
  ultimately show ?thesis using b by (simp add: distinct_card)
qed

lemma one_entry_ready:
  obtains w w' where "newFPTree ideal_env 2 fresh_world = Some w" "represents w 2 Map.empty" "allocator (nv w) = Some fresh_alloc"
    "FPTree_insert ideal_env 7 1 w = Some w'" "represents w' 2 [7 \<mapsto> 1]" "tree_ready 7 w'" "durable (dev (nv w'))"
proof -
  obtain w where w: "newFPTree ideal_env 2 fresh_world = Some w" "represents w 2 Map.empty" "allocator (nv w) = Some fresh_alloc"
    "durable (dev (nv w))" "root_ok w 2 0 [] []" by (rule empty_tree)
  obtain w' A where i: "Node_insert ideal_env (root w) 7 1 w = Some (None, w')" "evolves {root w} w w'"
    "root_ok w' 2 0 [] [GLeaf (brk w)]" "tset w' (GLeaf (brk w)) = {(7, 1)}" "allocator (nv w') = Some A"
    "maxFileId A = maxFileId fresh_alloc \<or> maxFileId A = maxFileId fresh_alloc + 1"
    by (rule first_insert [OF libpmem_ok_ideal w(5,3) disk_ok_fresh, of 7 1])
  have "palloc_inv A (dev (nv w'))" using evolves_world(1) [OF i(2)] i(5) by (simp add: world_ok_def alloc_ok_def)
  then have "unat (freeNum A) + 1 < 2 ^ 64" by (rule free_bound) (use i(6) in auto)
  then have "tree_ready 7 w'" using i(5) left_safe_flat [OF i(3)] by (simp add: tree_ready_def)
  moreover have "represents w' 2 [7 \<mapsto> 1]"
    unfolding represents_def using i(3,4) by (intro exI [of _ 0] exI [of _ "[]"] exI [of _ "[GLeaf (brk w)]"]) auto
  moreover have "FPTree_insert ideal_env 7 1 w = Some w'" using i(1) root_nonnull [OF w(5)] by (simp add: FPTree_insert_def)
  moreover have "durable (dev (nv w'))" using i(2) w(4) by (simp add: evolves_def)
  ultimately show thesis using that w(1-3) by blast
qed

section \<open>Properties\<close>

text \<open>
  C3: \<open>FPTree::remove\<close> returns true exactly if the key has an entry, takes out this entry and nothing
  else, leaves everything durable, and keeps the tree well-formed (an inner node with too few keys takes some
  from its right brother or is merged with a brother, up to the root). If the entry is the only one of its leaf, the leaf
  is unlinked from its neighbours, in memory and in persistent memory, its node is deleted, and
  the allocator has exactly this leaf back at the end of its free list; otherwise only this leaf changes and no
  leaf is freed; if the key has no entry, no leaf changes. The free list must have room for one more
  leaf, and the removal must not reach \<open>redistributeLeft\<close>, which is undefined whenever it is called: either
  the leaf keeps an entry, or every node with the least number of keys next to a left brother with more has a right
  brother with more.
\<close>

theorem FPTree_remove_correct:
  assumes "libpmem_ok E" and "represents w d M" and "allocator (nv w) = Some A" and "unat (freeNum A) + 1 < 2 ^ 64"
    and "left_safe w \<or> spare w k" and "durable (dev (nv w))"
  shows "\<exists>w'. FPTree_remove E k w = Some (M k \<noteq> None, w') \<and> represents w' d (M(k := None)) \<and> durable (dev (nv w'))
    \<and> (if M k = None then same_leaves w w' else leaf_removed k w w')"
proof -
  obtain w' where "FPTree_remove E k w = Some (M k \<noteq> None, w')" "represents w' d (M(k := None))"
    "durable (dev (nv w)) \<longrightarrow> durable (dev (nv w'))" "leaf_effect (M k \<noteq> None) k w w'"
    by (rule FPTree_remove_spec [OF assms(1-5)])
  then show ?thesis using assms(6) by (auto simp: leaf_effect_def)
qed

theorem FPTree_remove_correct_witness:
  "\<exists>w w'. represents w 2 [7 \<mapsto> 1] \<and> FPTree_remove ideal_env 7 w = Some (True, w') \<and> represents w' 2 Map.empty \<and> durable (dev (nv w'))
    \<and> leaf_removed 7 w w'"
proof -
  obtain w where w: "represents w 2 [7 \<mapsto> 1]" "tree_ready 7 w" "durable (dev (nv w))" by (rule one_entry_ready)
  obtain A where A: "allocator (nv w) = Some A" "unat (freeNum A) + 1 < 2 ^ 64" "left_safe w \<or> spare w 7"
    using w(2) by (auto simp: tree_ready_def split: option.splits)
  from FPTree_remove_correct [OF libpmem_ok_ideal w(1) A w(3)] w(1) show ?thesis by auto
qed

text \<open>
  C6: Scripts with removals: every sequence of scripts of insertions of new keys, updates and searches
  and of removals between them returns, with the outputs of the same sequence on a map, and
  the tree represents the map it leads to. The storage must have room before every insertion, the tree must
  have an entry at every search and every update (so none may follow the removal of the last entry before a new
  insertion), and every removal must be safe: the free list has room, and \<open>redistributeLeft\<close> is not reached.
\<close>

theorem FPTree_steps_refine_map:
  assumes "libpmem_ok E" and "represents w d M" and "legal_steps ss M"
    and "ready_steps (tree_room E) tree_ready FPTree_find (FPTree_update E) (FPTree_insert E) (FPTree_remove E) ss w"
  shows "\<exists>w'. run_steps FPTree_find (FPTree_update E) (FPTree_insert E) (FPTree_remove E) ss w = Some (fst (steps_map ss M), w')
    \<and> represents w' d (snd (steps_map ss M))"
  using rkv.steps_refine [of E d w M ss] assms by (auto simp: tree_rep_def)

theorem FPTree_steps_refine_map_witness:
  "\<exists>w w'. newFPTree ideal_env 2 fresh_world = Some w \<and>
    run_steps FPTree_find (FPTree_update ideal_env) (FPTree_insert ideal_env) (FPTree_remove ideal_env) [Script [Insert 7 1], Remove 7] w
      = Some ([Inl [Inserted], Inr True], w') \<and> represents w' 2 Map.empty"
proof -
  obtain w w1 where w: "newFPTree ideal_env 2 fresh_world = Some w" "represents w 2 Map.empty" "allocator (nv w) = Some fresh_alloc"
    "FPTree_insert ideal_env 7 1 w = Some w1" "tree_ready 7 w1" by (rule one_entry_ready)
  have "tree_room ideal_env w" using w(3) disk_ok_fresh by (simp add: tree_room_def)
  with FPTree_steps_refine_map [OF libpmem_ok_ideal w(2), of "[Script [Insert 7 1], Remove 7]"] w(1,4,5) show ?thesis by auto
qed

end
