(* ===== verification/Tree_Delete.thy ===== *)
theory Tree_Delete
  imports Leaf_Remove Tree_Restart
begin

text \<open>
  The destructor of the tree (\<open>FPTree::recursiveDelete\<close>): it deletes the nodes that can be reached
  from the root, in postorder, and leaves persistent memory as it is; the next start loads the same tree.
\<close>

section \<open>Deleting nodes\<close>

text \<open>\<open>clears S w w'\<close>: the nodes of \<open>S\<close> are gone, and the memory has been flushed at most.\<close>

definition clears :: "addr set \<Rightarrow> world \<Rightarrow> world \<Rightarrow> bool" where
  "clears S w w' \<longleftrightarrow> (\<forall>a. heap w' a = (if a \<in> S then None else heap w a))
     \<and> (\<exists>dv. nv w' = (nv w)\<lparr>dev := dv\<rparr> \<and> cur dv = cur (dev (nv w)) \<and> (durable (dev (nv w)) \<longrightarrow> durable dv))"

lemma clears_trans:
  assumes "clears S w w1" and "clears T w1 w2"
  shows "clears (S \<union> T) w w2"
proof -
  obtain d1 where d1: "nv w1 = (nv w)\<lparr>dev := d1\<rparr>" "cur d1 = cur (dev (nv w))" "durable (dev (nv w)) \<longrightarrow> durable d1"
    using assms(1) by (auto simp: clears_def)
  obtain d2 where d2: "nv w2 = (nv w1)\<lparr>dev := d2\<rparr>" "cur d2 = cur (dev (nv w1))" "durable (dev (nv w1)) \<longrightarrow> durable d2"
    using assms(2) by (auto simp: clears_def)
  have "nv w2 = (nv w)\<lparr>dev := d2\<rparr>" "cur d2 = cur (dev (nv w))" "durable (dev (nv w)) \<longrightarrow> durable d2" using d1 d2 by auto
  then show ?thesis using assms by (auto simp: clears_def)
qed

lemma clears_same_nodes:
  assumes "clears S w w'" and "S \<inter> X = {}"
  shows "same_nodes X w w'"
proof -
  have "get_inner w' a = get_inner w a \<and> leaf_view w' a = leaf_view w a" if "a \<in> X" for a
  proof -
    have "heap w' a = heap w a" "allocator (nv w') = allocator (nv w)" "cur (dev (nv w')) = cur (dev (nv w))"
      using assms that by (auto simp: clears_def)
    then show ?thesis using leaf_view_cong [of w' a w] by (simp add: get_inner_def)
  qed
  then show ?thesis by (simp add: same_nodes_def leaf_data_def)
qed

lemma delete_leaf:
  assumes E: "libpmem_ok E" and v: "leaf_data w a = Some m" and a: "a \<noteq> NULL"
  obtains w' where "recursiveDelete_from E a i w = Some w'" "clears {a} w w'"
proof -
  obtain l m' where l: "leaf_view w a = Some (l, m')" "heap w a = Some (Leaf l)" by (rule leaf_dataD [OF v])
  obtain A where A: "allocator (nv w) = Some A" using leaf_viewD(5) [OF l(1)] by auto
  have val: "leaf_valid l w" using l(1) by (rule leaf_viewD(3))
  let ?d = "flush E (ifPmemAddr A (fileId (pPointer l))) (LeafRegion (fileId (pPointer l)) (leaf_index (pPointer l))) (dev (nv w))"
  have "recursiveDelete_from E a i w = Some (dispose a (set_dev ?d w))"
    using l(2) a val persist_eq [OF A, of E l]
    by (subst recursiveDelete_from.simps) (simp add: deleteNode_def deleteLeafNode_def get_leafnode_def)
  moreover have "durable ?d" if "durable (dev (nv w))" using that flush_okD [OF E] by (simp add: durable_def)
  moreover have "cur ?d = cur (dev (nv w))" by (rule flush_okD(1) [OF E])
  ultimately show thesis by (intro that) (auto simp: clears_def dispose_def set_dev_def)
qed

text \<open>A node whose children \<open>vs\<close> are gone already.\<close>

lemma delete_node:
  assumes x: "heap w a = Some (Inner x)" "inner_rep x d ks (map gaddr (vs @ us))" and a: "a \<noteq> NULL" and dis: "distinct (a # addrs_of us)"
    and sub: "\<And>u. u \<in> set us \<Longrightarrow> \<exists>lo hi. tree_ok w d h lo hi u"
    and IH: "\<And>u w lo hi. u \<in> set us \<Longrightarrow> tree_ok w d h lo hi u \<Longrightarrow> heap w NULL = None \<Longrightarrow>
      \<exists>w'. recursiveDelete_from E (gaddr u) 0 w = Some w' \<and> clears (set (gaddrs u)) w w'"
    and null: "heap w NULL = None"
  shows "\<exists>w'. recursiveDelete_from E a (int (length vs)) w = Some w' \<and> clears (insert a (set (addrs_of us))) w w'"
  using assms
proof (induction us arbitrary: vs w)
  case Nil
  have "recursiveDelete_from E a (int (length vs)) w = Some (dispose a w)"
    using Nil.prems(1-3) by (subst recursiveDelete_from.simps) (simp add: inner_rep_def deleteNode_def)
  moreover have "clears {a} w (dispose a w)" unfolding clears_def dispose_def by (auto intro!: exI [of _ "dev (nv w)"])
  ultimately show ?case by auto
next
  case (Cons u us)
  obtain lo hi where t: "tree_ok w d h lo hi u" using Cons.prems(5) [of u] by auto
  obtain w1 where w1: "recursiveDelete_from E (gaddr u) 0 w = Some w1" "clears (set (gaddrs u)) w w1"
    using Cons.prems(6) [OF _ t Cons.prems(7)] by auto
  have c: "aget (childrens x) (int (length vs)) = Some (gaddr u)"
    by (rule aget_child [of x d ks vs u us]) (use Cons.prems(2) in simp_all)
  have n: "int (length vs) < nChild x" using Cons.prems(2) by (simp add: inner_rep_def)
  have h1: "heap w1 a = Some (Inner x)" "heap w1 NULL = None" using w1(2) Cons.prems(1,4,7) by (auto simp: clears_def)
  have sub: "\<exists>lo hi. tree_ok w1 d h lo hi s" if s: "s \<in> set us" for s
  proof -
    have "set (gaddrs u) \<inter> set (gaddrs s) = {}" using Cons.prems(4) addrs_of_subset [OF s] by auto
    from clears_same_nodes [OF w1(2) this] show ?thesis using Cons.prems(5) s tree_ok_frame by (meson list.set_intros(2))
  qed
  have "\<exists>w'. recursiveDelete_from E a (int (length (vs @ [u]))) w1 = Some w' \<and> clears (insert a (set (addrs_of us))) w1 w'"
    by (rule Cons.IH [OF h1(1) _ Cons.prems(3) _ sub Cons.prems(6) h1(2)]) (use Cons.prems(2,4) in auto)
  then obtain w' where w': "recursiveDelete_from E a (int (length vs) + 1) w1 = Some w'" "clears (insert a (set (addrs_of us))) w1 w'"
    by (auto simp: add.commute)
  have "recursiveDelete_from E a (int (length vs)) w = Some w'"
    using Cons.prems(1) n c w1(1) w'(1) by (subst recursiveDelete_from.simps) simp
  then show ?case using clears_trans [OF w1(2) w'(2)] by (auto simp: ac_simps)
qed

lemma delete_tree:
  assumes E: "libpmem_ok E"
  shows "tree_ok w d h lo hi t \<Longrightarrow> distinct (gaddrs t) \<Longrightarrow> heap w NULL = None \<Longrightarrow>
    \<exists>w'. recursiveDelete_from E (gaddr t) 0 w = Some w' \<and> clears (set (gaddrs t)) w w'"
proof (induction h arbitrary: w lo hi t)
  case 0
  then obtain a m where a: "t = GLeaf a" "leaf_data w a = Some m" by auto
  have "heap w a \<noteq> None" by (rule leaf_dataD [OF a(2)]) simp
  then have "a \<noteq> NULL" using 0(3) by metis
  from delete_leaf [OF E a(2) this, of 0] a(1) show ?case by auto
next
  case (Suc h)
  then obtain a ks ts x where t: "t = GNode a ks ts" and kids: "kids (tree_ok w d h) lo hi ks ts"
    and x: "get_inner w a = Some x" "inner_rep x d ks (map gaddr ts)" by auto
  have dis: "distinct (a # addrs_of ts)" using Suc.prems(2) t by (simp add: gaddrs_GNode)
  have hx: "heap w a = Some (Inner x)" using x(1) by (simp add: heap_get_inner)
  then have a: "a \<noteq> NULL" using Suc.prems(3) by (metis option.distinct(1))
  have "\<exists>w'. recursiveDelete_from E a (int (length ([] :: gtree list))) w = Some w' \<and> clears (insert a (set (addrs_of ts))) w w'"
    by (rule delete_node [OF hx _ a dis kids_all [OF kids] _ Suc.prems(3)])
      (use x(2) Suc.IH distinct_gaddrs [OF dis] in auto)
  then show ?case using t by (simp add: gaddrs_GNode)
qed

section \<open>The nodes of the tree\<close>

lemma tree_closed:
  "tree_ok w d h lo hi t \<Longrightarrow> p \<in> set (gaddrs t) \<Longrightarrow> get_inner w p = Some x \<Longrightarrow> 0 \<le> i \<Longrightarrow> i < nChild x \<Longrightarrow>
    aget (childrens x) i = Some c \<Longrightarrow> c \<in> set (gaddrs t)"
proof (induction h arbitrary: lo hi t)
  case 0
  then show ?case by (auto elim!: leaf_dataD simp: get_inner_def)
next
  case (Suc h)
  then obtain a ks ts y where t: "t = GNode a ks ts" and kids: "kids (tree_ok w d h) lo hi ks ts"
    and y: "get_inner w a = Some y" "inner_rep y d ks (map gaddr ts)" by auto
  show ?case
  proof (cases "p = a")
    case True
    then have "x = y" using Suc.prems(3) y(1) by simp
    then obtain s where "s \<in> set ts" "c = gaddr s" using child_of [OF y(2)] Suc.prems(4-6) by blast
    then show ?thesis using addrs_of_subset gaddr_in t by (fastforce simp: gaddrs_GNode)
  next
    case False
    then obtain s where s: "s \<in> set ts" "p \<in> set (gaddrs s)" using Suc.prems(2) t by (auto simp: gaddrs_GNode addrs_of_def)
    obtain l u where "tree_ok w d h l u s" using kids_all [OF kids s(1)] by blast
    from Suc.IH [OF this s(2) Suc.prems(3-6)] show ?thesis using addrs_of_subset [OF s(1)] t by (auto simp: gaddrs_GNode)
  qed
qed

lemma below_kids:
  assumes x: "get_inner w p = Some x" "inner_rep x d ks (map gaddr ts)" and s: "s \<in> set ts" and b: "below w p"
  shows "below w (gaddr s)"
proof -
  obtain ts1 ts2 where ts: "ts = ts1 @ s # ts2" using s by (meson split_list)
  have "aget (childrens x) (int (length ts1)) = Some (gaddr s)" by (rule aget_child [of x d ks ts1 s ts2]) (use x(2) ts in simp_all)
  then show ?thesis by (rule below_child [OF b x(1), rotated 2]) (use x(2) ts in \<open>simp_all add: inner_rep_def\<close>)
qed

lemma below_tree: "tree_ok w d h lo hi t \<Longrightarrow> below w (gaddr t) \<Longrightarrow> a \<in> set (gaddrs t) \<Longrightarrow> below w a"
proof (induction h arbitrary: lo hi t)
  case 0
  then show ?case by auto
next
  case (Suc h)
  then obtain b ks ts x where t: "t = GNode b ks ts" and kids: "kids (tree_ok w d h) lo hi ks ts"
    and x: "get_inner w b = Some x" "inner_rep x d ks (map gaddr ts)" by auto
  have "below w a" if s: "s \<in> set ts" "a \<in> set (gaddrs s)" for s
    using Suc.IH [OF _ below_kids [OF x s(1)] s(2)] kids_all [OF kids s(1)] Suc.prems(2) t by auto
  then show ?case using Suc.prems(2,3) t by (auto simp: gaddrs_GNode addrs_of_def)
qed

lemma root_nodes:
  assumes r: "root_ok w d h ks ts"
  shows "below w a \<longleftrightarrow> a \<in> insert (root w) (set (addrs_of ts))"
proof
  obtain x where x: "get_inner w (root w) = Some x" "inner_rep x d ks (map gaddr ts)" by (rule root_okD [OF r])
  have sub: "\<exists>lo hi. tree_ok w d h lo hi s" if "s \<in> set ts" for s
    using r that kids_all by (fastforce simp: root_ok_def split: if_splits)
  show "a \<in> insert (root w) (set (addrs_of ts))" if "below w a"
    using that
  proof induction
    case (below_child p y i c)
    show ?case
    proof (cases "p = root w")
      case True
      then have "y = x" using below_child.hyps(2) x(1) by simp
      then obtain s where "s \<in> set ts" "c = gaddr s" using child_of [OF x(2)] below_child.hyps(3-5) by blast
      then show ?thesis using addrs_of_subset gaddr_in by fastforce
    next
      case False
      then obtain s where s: "s \<in> set ts" "p \<in> set (gaddrs s)" using below_child.IH by (auto simp: addrs_of_def)
      obtain l u where "tree_ok w d h l u s" using sub [OF s(1)] by blast
      from tree_closed [OF this s(2) below_child.hyps(2-5)] show ?thesis using addrs_of_subset [OF s(1)] by auto
    qed
  qed simp
  show "below w a" if "a \<in> insert (root w) (set (addrs_of ts))"
    using that below_root below_tree [OF _ below_kids [OF x _ below_root]] sub by (fastforce simp: addrs_of_def)
qed

lemma deleteFPTree_spec:
  assumes E: "libpmem_ok E" and rep: "represents w d M"
  obtains w' where "deleteFPTree E w = Some w'" "clears {a. below w a} w w'"
proof -
  obtain h ks ts where r: "root_ok w d h ks ts" by (rule representsE [OF rep])
  obtain x where x: "world_ok w" "inner_rep x d ks (map gaddr ts)" "distinct (root w # addrs_of ts)" "heap w (root w) = Some (Inner x)"
    by (rule root_okD [OF r])
  have null: "heap w NULL = None" using x(1) by (simp add: world_ok_def heap_ok_def)
  have sub: "\<exists>lo hi. tree_ok w d h lo hi s" if "s \<in> set ts" for s
    using r that kids_all by (fastforce simp: root_ok_def split: if_splits)
  have "\<exists>w'. recursiveDelete_from E (root w) (int (length ([] :: gtree list))) w = Some w' \<and> clears (insert (root w) (set (addrs_of ts))) w w'"
    by (rule delete_node [where us = ts and h = h and d = d and ks = ks, OF x(4) _ root_nonnull [OF r] x(3) sub _ null])
      (use x(2) delete_tree [OF E] distinct_gaddrs [OF x(3)] in auto)
  moreover have "{a. below w a} = insert (root w) (set (addrs_of ts))" using root_nodes [OF r] by blast
  ultimately show thesis using that by (auto simp: deleteFPTree_def recursiveDelete_def)
qed

section \<open>Properties\<close>

text \<open>
  C10: The destructor \<open>~FPTree\<close> returns, deletes every node that can be reached from the root and no
  other one, and changes nothing in persistent memory: it flushes the leaves.
\<close>

theorem deleteFPTree_correct:
  assumes "libpmem_ok E" and "represents w d M"
  shows "\<exists>w'. deleteFPTree E w = Some w' \<and> (\<forall>a. heap w' a = (if below w a then None else heap w a))
    \<and> cur (dev (nv w')) = cur (dev (nv w)) \<and> allocator (nv w') = allocator (nv w)
    \<and> (durable (dev (nv w)) \<longrightarrow> durable (dev (nv w')))"
  by (rule deleteFPTree_spec [OF assms]) (auto simp: clears_def)

theorem deleteFPTree_correct_witness:
  "\<exists>w w'. represents w 2 [7 \<mapsto> 1] \<and> deleteFPTree ideal_env w = Some w' \<and> heap w (root w) \<noteq> None \<and> heap w' (root w) = None"
proof -
  obtain w where w: "represents w 2 [7 \<mapsto> 1]" by (rule one_entry_tree)
  then have "heap w (root w) \<noteq> None" by (auto simp: represents_def root_ok_def heap_get_inner)
  moreover have "below w (root w)" by (rule below_root)
  ultimately show ?thesis using deleteFPTree_correct [OF libpmem_ok_ideal w] w by auto
qed

text \<open>
  C11: A clean end of the program: after the destructors of the tree and of the allocator the next start loads a
  tree with the same entries, for every degree from 1 to \<open>2 ^ 29 - 2\<close> (no int computation overflows). The tree must be
  \<open>stored\<close>: its leaves are linked from the start leaf on, and the free list file holds the free list, which insertions,
  updates and restarts keep but a removal that frees a leaf does not. The catalog must be writable and the group files mappable.
\<close>

theorem FPTree_reopens:
  assumes "libpmem_ok E" and "open_out E catalogPath" and "\<And>d is. mappable E d is" and "stored w d M" and "1 \<le> d'" and "d' < 2 ^ 29 - 1"
  shows "\<exists>w1 w2 w'. deleteFPTree E w = Some w1 \<and> shutdown E w1 = Some w2 \<and> newFPTree E (of_nat d') w2 = Some w' \<and> stored w' d' M"
proof -
  have "represents w d M" using assms(4) by (simp add: stored_def)
  then obtain w1 where w1: "deleteFPTree E w = Some w1" "clears {a. below w a} w w1" by (rule deleteFPTree_spec [OF assms(1)])
  obtain A where A: "allocator (nv w) = Some A" by (rule storedE [OF assms(4)])
  have nv: "allocator (nv w1) = Some A" "freeListFile (nv w1) = freeListFile (nv w)" "cur (dev (nv w1)) = cur (dev (nv w))"
    using w1(2) A by (auto simp: clears_def)
  let ?n = "deletePAllocator E A (nv w1)"
  note n = deletePAllocator_files [OF assms(1,2), of A "nv w1"]
  obtain w' where "newFPTree E (of_nat d') (started ?n) = Some w'" "stored w' d' M"
    by (rule stored_reopens [OF assms(1,3,4) A assms(5,6), of ?n]) (use n nv in auto)
  moreover have "shutdown E w1 = Some (started ?n)" using nv(1) by (simp add: shutdown_def)
  ultimately show ?thesis using w1(1) by blast
qed

theorem FPTree_reopens_witness:
  "\<exists>w w1 w2 w'. deleteFPTree ideal_env w = Some w1 \<and> shutdown ideal_env w1 = Some w2 \<and> newFPTree ideal_env 3 w2 = Some w' \<and> represents w' 3 [7 \<mapsto> 1]"
proof -
  obtain w where w: "stored w 2 [7 \<mapsto> 1]" by (rule stored_one)
  have out: "open_out ideal_env catalogPath" by (simp add: ideal_env_def)
  from FPTree_reopens [OF libpmem_ok_ideal out mappable_ideal w, of 3] show ?thesis by (auto simp: stored_def)
qed

end
