(* ===== verification/Layout.thy ===== *)
theory Layout
  imports PAllocator
begin

text \<open>
  The bytes of a leaf group file, as the comments of \<open>p_allocator.cpp\<close> and \<open>fptree.h\<close> give them:
  \<open>| usedNum | bitmap (one byte per leaf) | leaf 0 | ... | leaf 15 |\<close>, a leaf being
  \<open>| bitmap | pNext | fingerprints | KV |\<close>. A leaf takes \<open>calLeafSize\<close> bytes, and \<open>getPNext\<close> of
  \<open>utility.cpp\<close>, which reads the file at the offset of a leaf, finds the successor of that leaf.
\<close>

section \<open>Bytes\<close>

definition word_bytes :: "u64 \<Rightarrow> u8 list" where
  "word_bytes v = map (\<lambda>i. ucast (drop_bit (8 * i) v)) [0..<8]"

definition pointer_bytes :: "PPointer \<Rightarrow> u8 list" where
  "pointer_bytes p = word_bytes (fileId p) @ word_bytes (offset p)"

definition leaf_bytes :: "leaf_image \<Rightarrow> u8 list" where
  "leaf_bytes m = bitmap m @ pointer_bytes (pNext m) @ fingerprints m
     @ concat (map (\<lambda>(k, v). word_bytes k @ word_bytes v) (kv m))"

definition group_bytes :: "group_image \<Rightarrow> u8 list" where
  "group_bytes g = word_bytes (usedNum g) @ leafBitmap g @ concat (map leaf_bytes (leaves g))"

text \<open>
  \<open>getPNext\<close>: the file system is an argument, from paths to contents. The position is an \<open>int\<close>; a seek to a
  negative one fails, and \<open>read\<close> then leaves the pointer as it is. At the end of the file \<open>read\<close> fills only the
  bytes that are there.
\<close>

definition read_pointer :: "u8 list \<Rightarrow> PPointer" where
  "read_pointer got = (let buf = take 16 got @ replicate (16 - length got) 0
     in \<lparr>fileId = le_word (take 8 buf), offset = le_word (drop 8 buf)\<rparr>)"

definition getPNext :: "(string \<Rightarrow> u8 list option) \<Rightarrow> PPointer \<Rightarrow> PPointer" where
  "getPNext files p = (case files (DATA_DIR @ to_string (fileId p)) of
       None \<Rightarrow> \<lparr>fileId = 0, offset = 0\<rparr>
     | Some bytes \<Rightarrow>
         let len = sint (ucast (of_int ((LEAF_DEGREE * 2 + 7) div 8) + offset p) :: u32)
         in if len < 0 then \<lparr>fileId = 0, offset = 0\<rparr> else read_pointer (drop (nat len) bytes))"

lemma length_word_bytes [simp]: "length (word_bytes v) = 8"
  by (simp add: word_bytes_def)

lemma le_word_bytes [simp]: "le_word (word_bytes v) = v"
proof -
  have byte: "push_bit 8 (drop_bit (8 * Suc i) v) OR ucast (ucast (drop_bit (8 * i) v) :: u8) = drop_bit (8 * i) v" for i
    by (rule bit_word_eqI) (auto simp: bit_or_iff bit_push_bit_iff bit_drop_bit_eq bit_ucast_iff not_le dest: bit_imp_le_length)
  have "foldr (\<lambda>b acc. push_bit 8 acc OR ucast b) (map (\<lambda>i. ucast (drop_bit (8 * i) v) :: u8) [i..<8]) 0 = drop_bit (8 * i) v" if "i \<le> 8" for i
    using that
  proof (induction rule: inc_induct)
    case base
    show ?case by (rule bit_word_eqI) (auto simp: bit_drop_bit_eq dest: bit_imp_le_length)
  next
    case (step i)
    then show ?case using byte [of i] by (simp add: upt_conv_Cons)
  qed
  from this [of 0] show ?thesis by (simp add: le_word_def word_bytes_def)
qed

lemma length_leaf_bytes: "wf_leaf m \<Longrightarrow> length (leaf_bytes m) = unat calLeafSize"
proof -
  assume m: "wf_leaf m"
  have "length (concat (map (\<lambda>(k, v). word_bytes k @ word_bytes v) es)) = 16 * length es" for es
    by (induction es) auto
  then show ?thesis using m by (simp add: leaf_bytes_def pointer_bytes_def wf_leaf_def calLeafSize_eq)
qed

lemma drop_equal_parts:
  assumes "\<forall>x\<in>set xs. length (f x) = n" and "i < length xs"
  shows "drop (i * n) (concat (map f xs)) = concat (map f (drop i xs))"
  using assms
proof (induction xs arbitrary: i)
  case (Cons x xs)
  then show ?case by (cases i) auto
qed simp

lemma read_pointer_bytes [simp]: "read_pointer (pointer_bytes p @ rest) = p"
  by (simp add: read_pointer_def pointer_bytes_def)

lemma leaf_in_group:
  assumes g: "wf_group g" and i: "i < 16"
  shows "drop (24 + i * 1934) (group_bytes g) = leaf_bytes (leaves g ! i) @ concat (map leaf_bytes (drop (Suc i) (leaves g)))"
proof -
  have "\<forall>m\<in>set (leaves g). length (leaf_bytes m) = 1934"
    using g length_leaf_bytes by (auto simp: wf_group_def calLeafSize_eq)
  then have "drop (i * 1934) (concat (map leaf_bytes (leaves g))) = concat (map leaf_bytes (drop i (leaves g)))"
    by (rule drop_equal_parts) (use g i in \<open>simp add: wf_group_def\<close>)
  moreover have "drop i (leaves g) = leaves g ! i # drop (Suc i) (leaves g)"
    using g i by (simp add: Cons_nth_drop_Suc wf_group_def)
  ultimately show ?thesis using g by (simp add: group_bytes_def wf_group_def)
qed

lemma getPNext_correct:
  assumes g: "wf_group g" and i: "i < 16" and f: "files (DATA_DIR @ to_string f) = Some (group_bytes g)"
  shows "getPNext files (leaf_pp f i) = pNext (leaves g ! i)"
proof -
  have "14 + offset (leaf_pp f i) = of_nat (38 + i * 1934)" by (simp add: leaf_pp_def fp_consts)
  moreover have "unat (of_nat (38 + i * 1934) :: u64) = 38 + i * 1934" using i by (simp add: unat_of_nat del: of_nat_add of_nat_mult)
  ultimately have "ucast (14 + offset (leaf_pp f i)) = (of_nat (38 + i * 1934) :: u32)"
    by (metis of_nat_unat)
  moreover have "sint (of_nat (38 + i * 1934) :: u32) = int (38 + i * 1934)"
    unfolding signed_of_nat of_int_eq_id id_apply by (rule signed_take_bit_int_eq_self) (use i in simp_all)
  ultimately have len: "sint (ucast (of_int ((LEAF_DEGREE * 2 + 7) div 8) + offset (leaf_pp f i)) :: u32) = int (38 + i * 1934)"
    by (simp add: LEAF_DEGREE_def)
  have "length (bitmap (leaves g ! i)) = 14" using g i by (simp add: wf_group_def wf_leaf_def)
  then have "drop 14 (drop (24 + i * 1934) (group_bytes g)) = pointer_bytes (pNext (leaves g ! i)) @ drop 30 (leaf_bytes (leaves g ! i))
      @ concat (map leaf_bytes (drop (Suc i) (leaves g)))"
    unfolding leaf_in_group [OF g i] by (simp add: leaf_bytes_def pointer_bytes_def)
  then show ?thesis using f by (simp add: getPNext_def len del: of_nat_add)
qed

end
