(* ===== verification/LDB_Coding.thy ===== *)
theory LDB_Coding
  imports FPT_Prelude
begin

text \<open>
  \<open>leveldb/util/coding.h\<close>, \<open>leveldb/util/coding.cc\<close>: the integers and strings of leveldb's file
  formats. A string is a list of bytes. A pointer \<open>p\<close> with its \<open>limit\<close> is the list of the bytes
  between them, and a returned pointer the list of the bytes it still has before it. The writers
  return what they append.
\<close>

type_synonym bytes = "u8 list"

section \<open>Fixed-width integers\<close>

text \<open>The bytes an integer occupies in the memory of a little-endian machine.\<close>

definition mem_bytes :: "nat \<Rightarrow> 'a::len word \<Rightarrow> bytes" where
  "mem_bytes n v = map (\<lambda>i. ucast (drop_bit (8 * i) v)) [0..<n]"

primrec mem_word :: "nat \<Rightarrow> bytes \<Rightarrow> 'a::len word option" where
  "mem_word 0 bs = Some 0"
| "mem_word (Suc n) bs = (case bs of [] \<Rightarrow> None
     | b # bs' \<Rightarrow> do { w \<leftarrow> mem_word n bs'; Some (ucast b OR push_bit 8 w) })"

definition kLittleEndian :: bool where
  "kLittleEndian \<longleftrightarrow> True"

definition EncodeFixed32 :: "u32 \<Rightarrow> bytes" where
  "EncodeFixed32 v = (if kLittleEndian then mem_bytes 4 v
     else [ucast (v AND 0xff), ucast (drop_bit 8 v AND 0xff), ucast (drop_bit 16 v AND 0xff), ucast (drop_bit 24 v AND 0xff)])"

definition EncodeFixed64 :: "u64 \<Rightarrow> bytes" where
  "EncodeFixed64 v = (if kLittleEndian then mem_bytes 8 v
     else [ucast (v AND 0xff), ucast (drop_bit 8 v AND 0xff), ucast (drop_bit 16 v AND 0xff), ucast (drop_bit 24 v AND 0xff),
           ucast (drop_bit 32 v AND 0xff), ucast (drop_bit 40 v AND 0xff), ucast (drop_bit 48 v AND 0xff), ucast (drop_bit 56 v AND 0xff)])"

definition PutFixed32 :: "bytes \<Rightarrow> u32 \<Rightarrow> bytes" where
  "PutFixed32 dst v = dst @ EncodeFixed32 v"

definition PutFixed64 :: "bytes \<Rightarrow> u64 \<Rightarrow> bytes" where
  "PutFixed64 dst v = dst @ EncodeFixed64 v"

text \<open>The readers do not check bounds; without enough bytes they have no defined result.\<close>

definition DecodeFixed32 :: "bytes \<Rightarrow> u32 option" where
  "DecodeFixed32 p = (if kLittleEndian then mem_word 4 p
     else case p of b0 # b1 # b2 # b3 # _ \<Rightarrow>
         Some (ucast b0 OR push_bit 8 (ucast b1) OR push_bit 16 (ucast b2) OR push_bit 24 (ucast b3))
       | _ \<Rightarrow> None)"

definition DecodeFixed64 :: "bytes \<Rightarrow> u64 option" where
  "DecodeFixed64 p = (if kLittleEndian then mem_word 8 p
     else do { lo \<leftarrow> DecodeFixed32 p; hi \<leftarrow> DecodeFixed32 (drop 4 p); Some (push_bit 32 (ucast hi) OR ucast lo) })"

section \<open>Varints\<close>

definition EncodeVarint32 :: "u32 \<Rightarrow> bytes" where
  "EncodeVarint32 v = (let B = 128 in
     if v < push_bit 7 1 then [ucast v]
     else if v < push_bit 14 1 then [ucast (v OR B), ucast (drop_bit 7 v)]
     else if v < push_bit 21 1 then [ucast (v OR B), ucast (drop_bit 7 v OR B), ucast (drop_bit 14 v)]
     else if v < push_bit 28 1 then
       [ucast (v OR B), ucast (drop_bit 7 v OR B), ucast (drop_bit 14 v OR B), ucast (drop_bit 21 v)]
     else
       [ucast (v OR B), ucast (drop_bit 7 v OR B), ucast (drop_bit 14 v OR B), ucast (drop_bit 21 v OR B), ucast (drop_bit 28 v)])"

definition PutVarint32 :: "bytes \<Rightarrow> u32 \<Rightarrow> bytes" where
  "PutVarint32 dst v = dst @ EncodeVarint32 v"

lemma unat_drop_7: "(v :: u64) \<ge> 128 \<Longrightarrow> unat (drop_bit 7 v) < unat v"
proof -
  assume "v \<ge> 128"
  then have "0 < unat v" by (simp add: word_le_nat_alt)
  moreover have "unat (drop_bit 7 v) = unat v div 128" by (simp only: unat_drop_bit_eq drop_bit_nat_def) simp
  ultimately show ?thesis by simp
qed

function EncodeVarint64 :: "u64 \<Rightarrow> bytes" where
  "EncodeVarint64 v = (if v \<ge> 128 then ucast (v OR 128) # EncodeVarint64 (drop_bit 7 v) else [ucast v])"
  by pat_completeness auto
termination
  by (relation "measure unat") (auto intro: unat_drop_7)

definition PutVarint64 :: "bytes \<Rightarrow> u64 \<Rightarrow> bytes" where
  "PutVarint64 dst v = dst @ EncodeVarint64 v"

text \<open>\<open>value.size()\<close> is converted to \<open>uint32_t\<close>.\<close>

definition PutLengthPrefixedSlice :: "bytes \<Rightarrow> bytes \<Rightarrow> bytes" where
  "PutLengthPrefixedSlice dst value = PutVarint32 dst (of_nat (length value)) @ value"

function VarintLength_loop :: "u64 \<Rightarrow> int \<Rightarrow> int" where
  "VarintLength_loop v len = (if v \<ge> 128 then VarintLength_loop (drop_bit 7 v) (len + 1) else len)"
  by pat_completeness auto
termination
  by (relation "measure (\<lambda>(v, len). unat v)") (auto intro: unat_drop_7)

definition VarintLength :: "u64 \<Rightarrow> int" where
  "VarintLength v = VarintLength_loop v 1"

text \<open>
  The loop of \<open>GetVarint32PtrFallback\<close> and \<open>GetVarint64Ptr\<close>, which differ in the type of \<open>result\<close> and
  in the largest shift only.
\<close>

fun GetVarint_loop :: "nat \<Rightarrow> nat \<Rightarrow> 'a::len word \<Rightarrow> bytes \<Rightarrow> ('a word \<times> bytes) option" where
  "GetVarint_loop maxs shift result [] = None"
| "GetVarint_loop maxs shift result (b # p) =
     (if shift \<le> maxs then
        (let byte = ucast b in
         if byte AND 128 \<noteq> 0 then GetVarint_loop maxs (shift + 7) (result OR push_bit shift (byte AND 127)) p
         else Some (result OR push_bit shift byte, p))
      else None)"

definition GetVarint32PtrFallback :: "bytes \<Rightarrow> (u32 \<times> bytes) option" where
  "GetVarint32PtrFallback p = GetVarint_loop 28 0 0 p"

definition GetVarint32Ptr :: "bytes \<Rightarrow> (u32 \<times> bytes) option" where
  "GetVarint32Ptr p = (case p of
       b # p' \<Rightarrow> (let result = ucast b in if result AND 128 = 0 then Some (result, p') else GetVarint32PtrFallback p)
     | [] \<Rightarrow> GetVarint32PtrFallback p)"

definition GetVarint64Ptr :: "bytes \<Rightarrow> (u64 \<times> bytes) option" where
  "GetVarint64Ptr p = GetVarint_loop 63 0 0 p"

text \<open>
  The readers on slices: \<open>None\<close> for the result false, otherwise the value and the rest of the input.
  With the result false the varint readers leave \<open>input\<close> as it was, but \<open>GetLengthPrefixedSlice\<close> has already
  advanced it over the length if only the data is too short. This \<open>input\<close> is not part of the result here:
  the callers (\<open>WriteBatch::Iterate\<close>, \<open>VersionEdit::DecodeFrom\<close> and its \<open>GetInternalKey\<close>) report a corruption
  after the result false and do not read \<open>input\<close> again.
\<close>

definition GetVarint32 :: "bytes \<Rightarrow> (u32 \<times> bytes) option" where
  "GetVarint32 input = (case GetVarint32Ptr input of None \<Rightarrow> None | Some (v, q) \<Rightarrow> Some (v, q))"

definition GetVarint64 :: "bytes \<Rightarrow> (u64 \<times> bytes) option" where
  "GetVarint64 input = (case GetVarint64Ptr input of None \<Rightarrow> None | Some (v, q) \<Rightarrow> Some (v, q))"

definition GetLengthPrefixedSlicePtr :: "bytes \<Rightarrow> (bytes \<times> bytes) option" where
  "GetLengthPrefixedSlicePtr p = (case GetVarint32Ptr p of None \<Rightarrow> None
     | Some (len, p) \<Rightarrow> if unat len > length p then None else Some (take (unat len) p, drop (unat len) p))"

definition GetLengthPrefixedSlice :: "bytes \<Rightarrow> (bytes \<times> bytes) option" where
  "GetLengthPrefixedSlice input = (case GetVarint32 input of None \<Rightarrow> None
     | Some (len, input) \<Rightarrow>
         if length input \<ge> unat len then Some (take (unat len) input, drop (unat len) input) else None)"

declare EncodeVarint64.simps [simp del] VarintLength_loop.simps [simp del]

section \<open>Fixed-width integers are read back\<close>

lemma mem_bytes_length [simp]: "length (mem_bytes n v) = n"
  by (simp add: mem_bytes_def)

lemma mem_bytes_Suc: "mem_bytes (Suc n) v = ucast v # mem_bytes n (drop_bit 8 v)"
  by (simp add: mem_bytes_def upt_conv_Cons map_Suc_upt [symmetric] o_def algebra_simps del: upt_Suc)

lemma mem_word_bytes: "mem_word n (mem_bytes n v @ rest) = Some (take_bit (8 * n) v)"
proof (induction n arbitrary: v)
  case 0
  then show ?case by (simp add: mem_bytes_def)
next
  case (Suc n)
  have "ucast (ucast v :: u8) OR push_bit 8 (take_bit (8 * n) (drop_bit 8 v)) = take_bit (8 * Suc n) v"
    by (rule bit_word_eqI) (auto simp: bit_or_iff bit_push_bit_iff bit_take_bit_iff bit_drop_bit_eq bit_unsigned_iff)
  then show ?case by (simp add: mem_bytes_Suc Suc)
qed

lemma mem_word_defined: "n \<le> length p \<Longrightarrow> \<exists>w. mem_word n p = Some (w :: 'a::len word)"
proof (induction n arbitrary: p)
  case (Suc n)
  then show ?case by (cases p) fastforce+
qed simp

lemma fixed32_get [simp]: "DecodeFixed32 (EncodeFixed32 v @ rest) = Some v"
  by (simp add: DecodeFixed32_def EncodeFixed32_def kLittleEndian_def mem_word_bytes take_bit_word_eq_self)

lemma fixed64_get [simp]: "DecodeFixed64 (EncodeFixed64 v @ rest) = Some v"
  by (simp add: DecodeFixed64_def EncodeFixed64_def kLittleEndian_def mem_word_bytes take_bit_word_eq_self)

lemma EncodeFixed_length [simp]: "length (EncodeFixed32 v) = 4" "length (EncodeFixed64 w) = 8"
  by (simp_all add: EncodeFixed32_def EncodeFixed64_def)

section \<open>Varints are read back\<close>

text \<open>The base-128 digits of a word, the reference for both encoders.\<close>

lemma and_127: "v AND 127 = take_bit 7 (v :: 'a::len word)"
  by (simp add: take_bit_eq_mask mask_eq_exp_minus_1)

lemma and_128: "v AND 128 = 0 \<longleftrightarrow> \<not> bit (v :: 'a::len word) 7"
  using and_exp_eq_0_iff_not_bit [of v 7] by simp

lemma bit_128: "bit (128 :: 'a::len word) i \<longleftrightarrow> i = 7 \<and> 7 < LENGTH('a)"
  using bit_exp_iff [of 7 i, where 'a = "'a word"] by auto

lemma bit_128_int: "bit (128 :: int) i \<longleftrightarrow> i = 7"
  using bit_exp_iff [of 7 i, where 'a = int] by auto

text \<open>One digit: with the continuation bit, and without it.\<close>

lemma digit_more:
  assumes "8 \<le> LENGTH('a)"
  shows "(ucast (ucast (v OR 128) :: u8) AND 128 :: 'a::len word) \<noteq> 0"
    and "(ucast (ucast (v OR 128) :: u8) AND 127 :: 'a word) = take_bit 7 (ucast (v :: u64))"
proof -
  show "(ucast (ucast (v OR 128) :: u8) AND 128 :: 'a word) \<noteq> 0"
    using assms by (simp add: and_128 bit_unsigned_iff bit_or_iff bit_128)
  show "(ucast (ucast (v OR 128) :: u8) AND 127 :: 'a word) = take_bit 7 (ucast v)"
    unfolding and_127
    by (rule bit_word_eqI) (use assms in \<open>auto simp: bit_take_bit_iff bit_unsigned_iff bit_or_iff bit_128 bit_128_int\<close>)
qed

lemma digit_last:
  assumes "unat v < 128" and "8 \<le> LENGTH('a)"
  shows "(ucast (ucast (v :: u64) :: u8) AND 128 :: 'a::len word) = 0" and "(ucast (ucast v :: u8) :: 'a word) = ucast v"
proof -
  have "take_bit 7 v = v" using assms(1) by (simp add: word_unat_eq_iff unsigned_take_bit_eq take_bit_nat_eq_self)
  then have b: "bit v i \<Longrightarrow> i < 7" for i by (metis bit_take_bit_iff)
  show "(ucast (ucast v :: u8) AND 128 :: 'a word) = 0"
    unfolding and_128 using b by (auto simp: bit_unsigned_iff)
  show "(ucast (ucast v :: u8) :: 'a word) = ucast v"
    by (rule bit_word_eqI) (use b in \<open>fastforce simp: bit_unsigned_iff\<close>)
qed

lemma join_digit:
  "push_bit s (take_bit 7 (ucast v)) OR push_bit (s + 7) (ucast (drop_bit 7 (v :: u64))) = push_bit s (ucast v :: 'a::len word)"
proof (rule bit_word_eqI)
  fix i
  have "7 + (i - (s + 7)) = i - s" if "s + 7 \<le> i" using that by simp
  then show "bit (push_bit s (take_bit 7 (ucast v)) OR push_bit (s + 7) (ucast (drop_bit 7 v)) :: 'a word) i = bit (push_bit s (ucast v :: 'a word)) i"
    by (cases "s + 7 \<le> i") (auto simp: bit_or_iff bit_push_bit_iff bit_take_bit_iff bit_drop_bit_eq bit_unsigned_iff)
qed

lemma unat_bound: "unat (v :: 'a::len word) < 2 ^ LENGTH('a)"
  by (rule unsigned_less)

lemma unat_drop_bit_div: "unat (drop_bit n (v :: 'a::len word)) = unat v div 2 ^ n"
  by (simp only: unat_drop_bit_eq drop_bit_nat_def)

lemma varint64_small: "unat v < 128 \<Longrightarrow> EncodeVarint64 v = [ucast v]"
  and varint64_big: "128 \<le> unat v \<Longrightarrow> EncodeVarint64 v = ucast (v OR 128) # EncodeVarint64 (drop_bit 7 v)"
  by (simp_all add: EncodeVarint64.simps [of v] word_le_nat_alt)

lemma varint_loop:
  fixes result :: "'a::len word"
  assumes "unat v < 2 ^ (LENGTH('a) - shift)" and "shift \<le> maxs" and "7 dvd shift"
    and "\<And>s. 7 dvd s \<Longrightarrow> s < LENGTH('a) \<Longrightarrow> s \<le> maxs" and "8 \<le> LENGTH('a)"
  shows "GetVarint_loop maxs shift result (EncodeVarint64 v @ rest) = Some (result OR push_bit shift (ucast v), rest)"
  using assms(1-3)
proof (induction v arbitrary: shift result rule: EncodeVarint64.induct)
  case (1 v)
  show ?case
  proof (cases "v \<ge> 128")
    case True
    then have big: "128 \<le> unat v" by (simp add: word_le_nat_alt)
    then have "(2 :: nat) ^ 7 < 2 ^ (LENGTH('a) - shift)" using 1(2) by simp
    then have "7 < LENGTH('a) - shift" by (rule power_less_imp_less_exp [rotated]) simp
    then have s: "shift + 7 < LENGTH('a)" by simp
    then have s': "shift + 7 \<le> maxs" using assms(4) 1(4) by simp
    have "(2 :: nat) ^ (LENGTH('a) - shift) = 2 ^ (LENGTH('a) - (shift + 7)) * 2 ^ 7"
      using s by (simp only: power_add [symmetric]) simp
    then have "unat (drop_bit 7 v) < 2 ^ (LENGTH('a) - (shift + 7))"
      using 1(2) by (simp add: unat_drop_bit_div less_mult_imp_div_less)
    note IH = 1(1) [OF True this s', of "result OR push_bit shift (take_bit 7 (ucast v))"]
    show ?thesis
      using IH 1(3,4) digit_more [OF assms(5), of v]
      by (simp add: varint64_big [OF big] Let_def or.assoc join_digit)
  next
    case False
    then have "unat v < 128" by (simp add: word_le_nat_alt)
    then show ?thesis using 1(3) digit_last [OF _ assms(5), of v] by (simp add: varint64_small Let_def)
  qed
qed

lemma varint64_get [simp]: "GetVarint64 (EncodeVarint64 v @ rest) = Some (v, rest)"
  using varint_loop [of v 0 63 "0 :: u64" rest] unat_bound [of v]
  by (auto simp: GetVarint64_def GetVarint64Ptr_def elim!: dvdE)

text \<open>The branches of \<open>EncodeVarint32\<close> are the loop of \<open>EncodeVarint64\<close>, unrolled.\<close>

lemma byte_of_u64:
  "(ucast (drop_bit n (ucast v :: u64)) :: u8) = ucast (drop_bit n (v :: u32))"
  "(ucast (drop_bit n (ucast v :: u64) OR 128) :: u8) = ucast (drop_bit n v OR 128)"
  by (rule bit_word_eqI, auto simp: bit_unsigned_iff bit_or_iff bit_drop_bit_eq bit_128 dest: bit_imp_le_length)+

lemma EncodeVarint32_eq: "EncodeVarint32 v = EncodeVarint64 (ucast v)"
proof -
  have top: "unat v < 2 ^ 32" using unat_bound [of v] by simp
  then have "take_bit 64 (unat v) = unat v" by (intro take_bit_nat_eq_self) simp
  then have u: "unat (drop_bit n (ucast v :: u64)) = unat v div 2 ^ n" for n
    by (simp add: unat_drop_bit_div unsigned_ucast_eq)
  have u0: "unat (ucast v :: u64) = unat v" using u [of 0] by simp
  have lt: "v < 128 \<longleftrightarrow> unat v < 128" "v < 16384 \<longleftrightarrow> unat v < 16384"
    "v < 2097152 \<longleftrightarrow> unat v < 2097152" "v < 268435456 \<longleftrightarrow> unat v < 268435456"
    by (simp_all add: word_less_nat_alt)
  have b0: "(ucast (ucast v :: u64) :: u8) = ucast v" "(ucast (ucast v OR 128 :: u64) :: u8) = ucast (v OR 128)"
    using byte_of_u64 [of 0 v] by simp_all
  have d: "drop_bit 7 (drop_bit n (ucast v :: u64)) = drop_bit (n + 7) (ucast v)" for n by (simp add: add.commute)
  consider "unat v < 2 ^ 7" | "2 ^ 7 \<le> unat v" "unat v < 2 ^ 14" | "2 ^ 14 \<le> unat v" "unat v < 2 ^ 21"
    | "2 ^ 21 \<le> unat v" "unat v < 2 ^ 28" | "2 ^ 28 \<le> unat v" by linarith
  then show ?thesis
  proof cases
    case 1
    then show ?thesis by (simp add: EncodeVarint32_def lt varint64_small u0 b0)
  next
    case 2
    then have "EncodeVarint64 (ucast v) = [ucast (v OR 128), ucast (drop_bit 7 v)]"
      by (simp add: varint64_big u0 b0 varint64_small u byte_of_u64)
    with 2 show ?thesis by (simp add: EncodeVarint32_def lt)
  next
    case 3
    then have "EncodeVarint64 (ucast v) = [ucast (v OR 128), ucast (drop_bit 7 v OR 128), ucast (drop_bit 14 v)]"
      by (simp add: varint64_big u0 b0 varint64_small u byte_of_u64 d)
    with 3 show ?thesis by (simp add: EncodeVarint32_def lt)
  next
    case 4
    then have "EncodeVarint64 (ucast v) = [ucast (v OR 128), ucast (drop_bit 7 v OR 128), ucast (drop_bit 14 v OR 128), ucast (drop_bit 21 v)]"
      by (simp add: varint64_big u0 b0 varint64_small u byte_of_u64 d)
    with 4 show ?thesis by (simp add: EncodeVarint32_def lt)
  next
    case 5
    then have "EncodeVarint64 (ucast v) = [ucast (v OR 128), ucast (drop_bit 7 v OR 128), ucast (drop_bit 14 v OR 128), ucast (drop_bit 21 v OR 128), ucast (drop_bit 28 v)]"
      using top by (simp add: varint64_big u0 b0 varint64_small u byte_of_u64 d)
    with 5 show ?thesis by (simp add: EncodeVarint32_def lt)
  qed
qed

lemma GetVarint32Ptr_eq: "GetVarint32Ptr p = GetVarint32PtrFallback p"
  by (cases p) (simp_all add: GetVarint32Ptr_def GetVarint32PtrFallback_def Let_def)

lemma ucast_back: "ucast (ucast (v :: u32) :: u64) = v"
  by (rule bit_word_eqI) (auto simp: bit_unsigned_iff dest: bit_imp_le_length)

lemma unat_ucast_u64 [simp]: "unat (ucast (v :: u32) :: u64) = unat v"
  using unat_bound [of v] by (simp add: unsigned_ucast_eq take_bit_nat_eq_self)

lemma varint32_get [simp]: "GetVarint32 (EncodeVarint32 v @ rest) = Some (v, rest)"
proof -
  have "GetVarint_loop 28 0 (0 :: u32) (EncodeVarint64 (ucast v) @ rest) = Some (0 OR push_bit 0 (ucast (ucast v :: u64)), rest)"
    using unat_bound [of v] by (intro varint_loop) (auto elim!: dvdE)
  then show ?thesis by (simp add: GetVarint32_def GetVarint32Ptr_eq GetVarint32PtrFallback_def EncodeVarint32_eq ucast_back)
qed

lemma unat_of_nat32: "n < 2 ^ 32 \<Longrightarrow> unat (of_nat n :: u32) = n"
  by (simp add: unsigned_of_nat take_bit_nat_eq_self)

lemma Put_eq: "PutVarint32 [] = EncodeVarint32" "PutVarint64 [] = EncodeVarint64" "PutFixed32 [] = EncodeFixed32" "PutFixed64 [] = EncodeFixed64"
  by (simp_all add: fun_eq_iff PutVarint32_def PutVarint64_def PutFixed32_def PutFixed64_def)

lemma lps_get: "length s < 2 ^ 32 \<Longrightarrow> GetLengthPrefixedSlice (PutLengthPrefixedSlice [] s @ rest) = Some (s, rest)"
  by (simp add: GetLengthPrefixedSlice_def PutLengthPrefixedSlice_def PutVarint32_def unat_of_nat32)

section \<open>Lengths\<close>

lemma VarintLength_loop_eq: "VarintLength_loop v len = len + int (length (EncodeVarint64 v)) - 1"
  by (induction v len rule: VarintLength_loop.induct)
    (subst VarintLength_loop.simps, subst EncodeVarint64.simps, simp)

lemma varint_length_le: "unat v < 2 ^ (7 * n) \<Longrightarrow> 0 < n \<Longrightarrow> length (EncodeVarint64 v) \<le> n"
proof (induction n arbitrary: v)
  case (Suc n)
  show ?case
  proof (cases "128 \<le> unat v")
    case True
    have "0 < n" using True Suc.prems(1) by (cases n) auto
    moreover have "(2 :: nat) ^ (7 * Suc n) = 2 ^ (7 * n) * 2 ^ 7" by (simp only: power_add [symmetric]) simp
    then have "unat (drop_bit 7 v) < 2 ^ (7 * n)"
      using Suc.prems(1) by (simp add: unat_drop_bit_div less_mult_imp_div_less)
    ultimately show ?thesis using Suc.IH by (simp add: varint64_big [OF True])
  qed (simp add: varint64_small)
qed simp

lemma varint_length_bounds: "length (EncodeVarint64 v) \<le> 10" "length (EncodeVarint32 u) \<le> 5"
proof -
  have "unat v < 2 ^ 64" "unat u < 2 ^ 32" using unat_bound [of v] unat_bound [of u] by simp_all
  then show "length (EncodeVarint64 v) \<le> 10" "length (EncodeVarint32 u) \<le> 5"
    unfolding EncodeVarint32_eq by (auto intro!: varint_length_le)
qed

section \<open>Truncated input\<close>

lemma varint_loop_truncated: "n < length (EncodeVarint64 v) \<Longrightarrow> 8 \<le> LENGTH('a) \<Longrightarrow>
    GetVarint_loop maxs shift (result :: 'a::len word) (take n (EncodeVarint64 v)) = None"
proof (induction v arbitrary: n shift result rule: EncodeVarint64.induct)
  case (1 v)
  show ?case
  proof (cases "128 \<le> unat v")
    case True
    then have "v \<ge> 128" by (simp add: word_le_nat_alt)
    with True 1 digit_more(1) [OF 1(3), of v] show ?thesis by (cases n) (auto simp: varint64_big Let_def)
  next
    case False
    with 1(2) show ?thesis by (simp add: varint64_small)
  qed
qed

section \<open>The contract of an encoding\<close>

text \<open>
  What the file formats rely on: the bytes of a value, followed by anything, are read back and the
  rest is left. Then a sequence of values is read back too, and no two sequences share their bytes.
\<close>

primrec get_many :: "(bytes \<Rightarrow> ('a \<times> bytes) option) \<Rightarrow> nat \<Rightarrow> bytes \<Rightarrow> ('a list \<times> bytes) option" where
  "get_many get 0 p = Some ([], p)"
| "get_many get (Suc n) p = do { (x, p1) \<leftarrow> get p; (xs, p2) \<leftarrow> get_many get n p1; Some (x # xs, p2) }"

locale codec =
  fixes put :: "'a \<Rightarrow> bytes" and get :: "bytes \<Rightarrow> ('a \<times> bytes) option" and valid :: "'a \<Rightarrow> bool"
  assumes get_put: "valid x \<Longrightarrow> get (put x @ rest) = Some (x, rest)"
begin

lemma get_many_put: "\<forall>x\<in>set xs. valid x \<Longrightarrow> get_many get (length xs) (concat (map put xs) @ rest) = Some (xs, rest)"
  by (induction xs) (simp_all add: get_put)

lemma prefix_free: "valid x \<Longrightarrow> valid y \<Longrightarrow> put x @ r = put y @ s \<Longrightarrow> x = y \<and> r = s"
  by (metis get_put option.inject prod.inject)

lemma put_many_inj:
  assumes "\<forall>x\<in>set xs. valid x" and "\<forall>y\<in>set ys. valid y" and "length xs = length ys"
    and "concat (map put xs) @ r = concat (map put ys) @ s"
  shows "xs = ys \<and> r = s"
  using get_many_put [OF assms(1), of r] get_many_put [OF assms(2), of s] assms(3,4) by (metis option.inject prod.inject)

end

definition GetFixed32 :: "bytes \<Rightarrow> (u32 \<times> bytes) option" where
  "GetFixed32 p = do { v \<leftarrow> DecodeFixed32 p; Some (v, drop 4 p) }"

definition GetFixed64 :: "bytes \<Rightarrow> (u64 \<times> bytes) option" where
  "GetFixed64 p = do { v \<leftarrow> DecodeFixed64 p; Some (v, drop 8 p) }"

interpretation varint32: codec EncodeVarint32 GetVarint32 "\<lambda>_. True"
  by unfold_locales simp

interpretation varint64: codec EncodeVarint64 GetVarint64 "\<lambda>_. True"
  by unfold_locales simp

interpretation fixed32: codec EncodeFixed32 GetFixed32 "\<lambda>_. True"
  by unfold_locales (simp add: GetFixed32_def)

interpretation fixed64: codec EncodeFixed64 GetFixed64 "\<lambda>_. True"
  by unfold_locales (simp add: GetFixed64_def)

interpretation lps: codec "PutLengthPrefixedSlice []" GetLengthPrefixedSlice "\<lambda>s. length s < 2 ^ 32"
  by unfold_locales (rule lps_get)

section \<open>Properties\<close>

text \<open>
  C27: Every sequence of varints, fixed-width integers and length-prefixed strings shorter than 4 GiB
  that the \<open>Put\<close> functions append is read back by the \<open>Get\<close> functions, and what follows is left in
  the input.
\<close>

theorem coding_roundtrip:
  assumes "\<forall>s\<in>set ss. length s < 2 ^ 32"
  shows "get_many GetVarint32 (length us) (concat (map (PutVarint32 []) us) @ rest) = Some (us, rest)
    \<and> get_many GetVarint64 (length vs) (concat (map (PutVarint64 []) vs) @ rest) = Some (vs, rest)
    \<and> get_many GetFixed32 (length us) (concat (map (PutFixed32 []) us) @ rest) = Some (us, rest)
    \<and> get_many GetFixed64 (length vs) (concat (map (PutFixed64 []) vs) @ rest) = Some (vs, rest)
    \<and> get_many GetLengthPrefixedSlice (length ss) (concat (map (PutLengthPrefixedSlice []) ss) @ rest) = Some (ss, rest)"
  using varint32.get_many_put [of us rest] varint64.get_many_put [of vs rest] fixed32.get_many_put [of us rest]
    fixed64.get_many_put [of vs rest] lps.get_many_put [OF assms, of rest]
  by (simp add: Put_eq)

theorem coding_roundtrip_witness:
  "get_many GetLengthPrefixedSlice 2 (concat (map (PutLengthPrefixedSlice []) [[1, 2, 3], []]) @ [9]) = Some ([[1, 2, 3], []], [9])"
proof -
  have "\<forall>s\<in>set [[1, 2, 3], []]. length (s :: bytes) < 2 ^ 32" by simp
  from coding_roundtrip [OF this, of "[]" "[9]" "[]"] show ?thesis by (simp only: length_Cons list.size One_nat_def numeral_2_eq_2 add_0 plus_1_eq_Suc add_Suc add_Suc_right)
qed

text \<open>
  \<open>VarintLength\<close> is the number of bytes of the varint, which fits the buffers of \<open>PutVarint32\<close>
  (5 bytes) and \<open>PutVarint64\<close> (10 bytes); \<open>EncodeVarint32\<close>, which has no loop, writes the bytes of
  \<open>EncodeVarint64\<close>.
\<close>

theorem varint_bounds:
  "VarintLength v = int (length (EncodeVarint64 v)) \<and> length (EncodeVarint64 v) \<le> 10
    \<and> EncodeVarint32 u = EncodeVarint64 (ucast u) \<and> length (EncodeVarint32 u) \<le> 5"
  by (simp add: VarintLength_def VarintLength_loop_eq varint_length_bounds EncodeVarint32_eq [of u, symmetric] flip: EncodeVarint32_eq)

text \<open>
  C28: A varint or a length-prefixed string cut short is rejected: no reader accepts a proper prefix
  of what a writer wrote.
\<close>

theorem truncated_input_rejected:
  "(n < length (EncodeVarint32 u) \<longrightarrow> GetVarint32 (take n (EncodeVarint32 u)) = None)
    \<and> (n < length (EncodeVarint64 v) \<longrightarrow> GetVarint64 (take n (EncodeVarint64 v)) = None)
    \<and> (length s < 2 ^ 32 \<longrightarrow> n < length (PutLengthPrefixedSlice [] s) \<longrightarrow>
         GetLengthPrefixedSlice (take n (PutLengthPrefixedSlice [] s)) = None)"
proof -
  have a: "GetVarint32 (take n (EncodeVarint32 u)) = None" if "n < length (EncodeVarint32 u)" for n u
    using that varint_loop_truncated [of n "ucast u" 28 0 "0 :: u32"]
    by (simp add: GetVarint32_def GetVarint32Ptr_eq GetVarint32PtrFallback_def EncodeVarint32_eq)
  have b: "GetVarint64 (take n (EncodeVarint64 v)) = None" if "n < length (EncodeVarint64 v)"
    using that varint_loop_truncated [of n v 63 0 "0 :: u64"] by (simp add: GetVarint64_def GetVarint64Ptr_def)
  have c: "GetLengthPrefixedSlice (take n (PutLengthPrefixedSlice [] s)) = None"
    if s: "length s < 2 ^ 32" and n: "n < length (PutLengthPrefixedSlice [] s)"
  proof (cases "n < length (EncodeVarint32 (of_nat (length s)))")
    case True
    then show ?thesis by (simp add: GetLengthPrefixedSlice_def PutLengthPrefixedSlice_def PutVarint32_def a)
  next
    case False
    with n s show ?thesis
      by (simp add: GetLengthPrefixedSlice_def PutLengthPrefixedSlice_def PutVarint32_def unat_of_nat32)
  qed
  from a b c show ?thesis by blast
qed

theorem truncated_input_rejected_witness: "GetLengthPrefixedSlice [3, 1, 2] = None"
proof -
  have "PutLengthPrefixedSlice [] [1, 2, 4] = [3, 1, 2, 4 :: u8]"
    by (simp add: PutLengthPrefixedSlice_def PutVarint32_def EncodeVarint32_def)
  with truncated_input_rejected [of 3 0 0 "[1, 2, 4]"] show ?thesis by simp
qed

end
