(* ===== verification/LDB_Bloom.thy ===== *)
theory LDB_Bloom
  imports LDB_Coding
begin

text \<open>
  \<open>leveldb/util/hash.cc\<close> and \<open>leveldb/util/bloom.cc\<close>: the hash function and the built-in Bloom filter.
\<close>

section \<open>Hash\<close>

fun Hash_loop :: "u32 \<Rightarrow> bytes \<Rightarrow> u32 \<times> bytes" where
  "Hash_loop h (b0 # b1 # b2 # b3 # data) =
     (let w = the (DecodeFixed32 [b0, b1, b2, b3]);
          h = (h + w) * 0xc6a4a793;
          h = h XOR drop_bit 16 h
      in Hash_loop h data)"
| "Hash_loop h data = (h, data)"

text \<open>The \<open>switch\<close> on the number of bytes left, with its fall-throughs.\<close>

definition Hash_tail :: "u32 \<Rightarrow> bytes \<Rightarrow> u32" where
  "Hash_tail h data = (let
     h = (if length data = 3 then h + push_bit 16 (ucast (data ! 2)) else h);
     h = (if length data = 3 \<or> length data = 2 then h + push_bit 8 (ucast (data ! 1)) else h)
     in if length data = 3 \<or> length data = 2 \<or> length data = 1 then
          (let h = (h + ucast (data ! 0)) * 0xc6a4a793 in h XOR drop_bit 24 h)
        else h)"

definition Hash :: "bytes \<Rightarrow> u32 \<Rightarrow> u32" where
  "Hash data seed = (let
     h = seed XOR (of_nat (length data) * 0xc6a4a793);
     (h, data) = Hash_loop h data
     in Hash_tail h data)"

section \<open>The Bloom filter\<close>

definition BloomHash :: "bytes \<Rightarrow> u32" where
  "BloomHash key = Hash key 0xbc9f1d34"

record BloomFilterPolicy =
  policy_bits :: u64
  num_probes :: u64

text \<open>
  The constructor. \<open>k0\<close> is the value of \<open>static_cast<size_t>(bits_per_key * 0.69)\<close>, a product of
  floating-point numbers.
\<close>

definition newBloomFilterPolicy :: "int \<Rightarrow> u64 \<Rightarrow> BloomFilterPolicy" where
  "newBloomFilterPolicy bits_per_key k0 = (let
     k = k0;
     k = (if k < 1 then 1 else k);
     k = (if k > 30 then 30 else k)
     in \<lparr>policy_bits = of_int bits_per_key, num_probes = k\<rparr>)"

definition probe_delta :: "u32 \<Rightarrow> u32" where
  "probe_delta h = drop_bit 17 h OR push_bit 15 h"

text \<open>\<open>h % bits\<close>, with \<open>bits\<close> a \<open>size_t\<close>; a zero divisor has no defined result.\<close>

definition probe_pos :: "u32 \<Rightarrow> u64 \<Rightarrow> u32 option" where
  "probe_pos h bits = (if bits = 0 then None else Some (ucast ((ucast h :: u64) mod bits)))"

primrec set_probes :: "nat \<Rightarrow> u32 \<Rightarrow> u32 \<Rightarrow> u64 \<Rightarrow> bytes \<Rightarrow> bytes option" where
  "set_probes 0 h delta bits array = Some array"
| "set_probes (Suc k) h delta bits array = do {
     bitpos \<leftarrow> probe_pos h bits;
     b \<leftarrow> rd array (int (unat (bitpos div 8)));
     array \<leftarrow> wr array (int (unat (bitpos div 8))) (b OR push_bit (unat (bitpos mod 8)) 1);
     set_probes k (h + delta) delta bits array }"

primrec add_keys :: "BloomFilterPolicy \<Rightarrow> bytes list \<Rightarrow> u64 \<Rightarrow> bytes \<Rightarrow> bytes option" where
  "add_keys P [] bits array = Some array"
| "add_keys P (key # keys) bits array = do {
     let h = BloomHash key;
     array \<leftarrow> set_probes (unat (num_probes P)) h (probe_delta h) bits array;
     add_keys P keys bits array }"

definition filter_bytes :: "BloomFilterPolicy \<Rightarrow> nat \<Rightarrow> u64" where
  "filter_bytes P n = (let
     bits = of_nat n * policy_bits P;
     bits = (if bits < 64 then 64 else bits)
     in (bits + 7) div 8)"

definition CreateFilter :: "BloomFilterPolicy \<Rightarrow> bytes list \<Rightarrow> bytes \<Rightarrow> bytes option" where
  "CreateFilter P keys dst = do {
     let bytes = filter_bytes P (length keys);
     let bits = bytes * 8;
     array \<leftarrow> add_keys P keys bits (replicate (unat bytes) 0 @ [ucast (num_probes P)]);
     Some (dst @ array) }"

primrec test_probes :: "nat \<Rightarrow> u32 \<Rightarrow> u32 \<Rightarrow> u64 \<Rightarrow> bytes \<Rightarrow> bool option" where
  "test_probes 0 h delta bits array = Some True"
| "test_probes (Suc k) h delta bits array = do {
     bitpos \<leftarrow> probe_pos h bits;
     b \<leftarrow> rd array (int (unat (bitpos div 8)));
     (if b AND push_bit (unat (bitpos mod 8)) 1 = 0 then Some False
      else test_probes k (h + delta) delta bits array) }"

text \<open>\<open>array[len-1]\<close> is a \<open>char\<close>, which is signed, and is widened to \<open>size_t\<close>.\<close>

definition KeyMayMatch :: "bytes \<Rightarrow> bytes \<Rightarrow> bool option" where
  "KeyMayMatch key bloom_filter = (let len = length bloom_filter in
     if len < 2 then Some False
     else (let bits = of_nat (len - 1) * 8;
               k = scast (bloom_filter ! (len - 1)) :: u64 in
       if k > 30 then Some True
       else (let h = BloomHash key in test_probes (unat k) h (probe_delta h) bits bloom_filter)))"

section \<open>Probes that are set stay set\<close>

definition probe_ok :: "bytes \<Rightarrow> u32 \<Rightarrow> u64 \<Rightarrow> bool" where
  "probe_ok array h bits \<longleftrightarrow> bit (array ! (unat (ucast h mod bits :: u64) div 8)) (unat (ucast h mod bits :: u64) mod 8)"

text \<open>\<open>room\<close>: the array has the bytes of \<open>bits\<close> bits, and one more.\<close>

definition filter_room :: "bytes \<Rightarrow> u64 \<Rightarrow> bool" where
  "filter_room array bits \<longleftrightarrow> 0 < unat bits \<and> unat bits \<le> 8 * (length array - 1)"

lemma probe_pos_spec:
  assumes "filter_room array bits"
  obtains p where "probe_pos h bits = Some p" "unat (p div 8) = unat (ucast h mod bits :: u64) div 8"
    "unat (p mod 8) = unat (ucast h mod bits :: u64) mod 8" "unat (p div 8) < length array - 1" "uint (p div 8) < int (length array)"
proof -
  let ?r = "ucast h mod bits :: u64"
  have b: "bits \<noteq> 0" using assms by (auto simp: filter_room_def)
  have r: "unat ?r = unat h mod unat bits" by (simp add: unat_mod)
  then have "unat ?r < 2 ^ 32" using unat_bound [of h] by (simp add: mod_less_eq_dividend [THEN order.strict_trans1])
  then have u: "unat (ucast ?r :: u32) = unat ?r" by (simp add: unsigned_ucast_eq take_bit_nat_eq_self)
  have "unat ?r < unat bits" using r assms by (simp add: filter_room_def)
  then have "unat ?r div 8 < length array - 1" using assms by (simp add: filter_room_def less_mult_imp_div_less mult.commute)
  then have lt: "unat (ucast ?r div 8 :: u32) < length array - 1" using u by (simp only: unat_div) simp
  then have lt': "uint (ucast ?r div 8 :: u32) < int (length array)" by (simp only: uint_nat)
  show thesis by (rule that [OF _ _ _ lt lt']) (use b u in \<open>simp_all add: probe_pos_def unat_div unat_mod\<close>)
qed

lemma set_probe_step:
  assumes "filter_room array bits"
  obtains array' where
    "set_probes (Suc k) h delta bits array = set_probes k (h + delta) delta bits array'" "probe_ok array' h bits"
    "\<And>g. probe_ok array g bits \<Longrightarrow> probe_ok array' g bits" "length array' = length array" "last array' = last array"
proof -
  let ?r = "\<lambda>h. unat (ucast h mod bits :: u64)"
  obtain p where p: "probe_pos h bits = Some p" "unat (p div 8) = ?r h div 8" "unat (p mod 8) = ?r h mod 8"
    "unat (p div 8) < length array - 1" "uint (p div 8) < int (length array)"
    by (rule probe_pos_spec [OF assms])
  let ?a = "array[?r h div 8 := array ! (?r h div 8) OR push_bit (?r h mod 8) 1]"
  have lt: "?r h div 8 < length array" "?r h div 8 \<noteq> length array - 1" using p(2,4) by simp_all
  have b: "bit (push_bit (?r h mod 8) (1 :: u8)) i \<longleftrightarrow> i = ?r h mod 8" for i
    by (simp add: bit_exp_iff) auto
  have "set_probes (Suc k) h delta bits array = set_probes k (h + delta) delta bits ?a"
    using lt p by (simp add: rd_def wr_def)
  moreover have "probe_ok ?a h bits" using lt(1) b by (simp add: probe_ok_def bit_or_iff)
  moreover have "probe_ok ?a g bits" if "probe_ok array g bits" for g
    using that lt(1) by (cases "?r g div 8 = ?r h div 8") (simp_all add: probe_ok_def bit_or_iff)
  moreover have "last ?a = last array" using lt by (cases "array = []") (simp_all add: last_conv_nth)
  ultimately show thesis using that by simp
qed

definition probes_ok :: "bytes \<Rightarrow> nat \<Rightarrow> u32 \<Rightarrow> u32 \<Rightarrow> u64 \<Rightarrow> bool" where
  "probes_ok array k h delta bits \<longleftrightarrow> (\<forall>j<k. probe_ok array (h + of_nat j * delta) bits)"

lemma probes_ok_Suc: "probes_ok array (Suc k) h delta bits \<longleftrightarrow> probe_ok array h bits \<and> probes_ok array k (h + delta) delta bits"
  unfolding probes_ok_def All_less_Suc2 by (simp add: algebra_simps)

lemma set_probes_spec:
  assumes "filter_room array bits"
  shows "\<exists>array'. set_probes k h delta bits array = Some array' \<and> probes_ok array' k h delta bits
    \<and> (\<forall>g. probe_ok array g bits \<longrightarrow> probe_ok array' g bits) \<and> length array' = length array \<and> last array' = last array"
  using assms
proof (induction k arbitrary: h array)
  case 0
  then show ?case by (simp add: probes_ok_def)
next
  case (Suc k)
  obtain a where a: "set_probes (Suc k) h delta bits array = set_probes k (h + delta) delta bits a" "probe_ok a h bits"
    "\<And>g. probe_ok array g bits \<Longrightarrow> probe_ok a g bits" "length a = length array" "last a = last array"
    by (rule set_probe_step [OF Suc.prems, of k h delta]) blast
  have "filter_room a bits" using Suc.prems a(4) by (simp add: filter_room_def)
  from Suc.IH [OF this, of "h + delta"] a show ?case by (auto simp: probes_ok_Suc)
qed

lemma test_probes_spec:
  assumes "filter_room array bits"
  shows "test_probes k h delta bits array = Some (probes_ok array k h delta bits)"
proof (induction k arbitrary: h)
  case 0
  then show ?case by (simp add: probes_ok_def)
next
  case (Suc k)
  obtain p where p: "probe_pos h bits = Some p" "unat (p div 8) = unat (ucast h mod bits :: u64) div 8"
    "unat (p mod 8) = unat (ucast h mod bits :: u64) mod 8" "uint (p div 8) < int (length array)"
    by (rule probe_pos_spec [OF assms])
  then show ?case using Suc
    by (simp add: rd_def probes_ok_Suc probe_ok_def and_exp_eq_0_iff_not_bit push_bit_eq_mult)
qed

lemma add_keys_spec:
  assumes "filter_room array bits"
  shows "\<exists>array'. add_keys P keys bits array = Some array' \<and> length array' = length array \<and> last array' = last array
    \<and> (\<forall>g. probe_ok array g bits \<longrightarrow> probe_ok array' g bits)
    \<and> (\<forall>key\<in>set keys. probes_ok array' (unat (num_probes P)) (BloomHash key) (probe_delta (BloomHash key)) bits)"
  using assms
proof (induction keys arbitrary: array)
  case Nil
  then show ?case by simp
next
  case (Cons key keys)
  obtain a where a: "set_probes (unat (num_probes P)) (BloomHash key) (probe_delta (BloomHash key)) bits array = Some a"
    "probes_ok a (unat (num_probes P)) (BloomHash key) (probe_delta (BloomHash key)) bits"
    "\<forall>g. probe_ok array g bits \<longrightarrow> probe_ok a g bits" "length a = length array" "last a = last array"
    using set_probes_spec [OF Cons.prems] by blast
  have "filter_room a bits" using Cons.prems a(4) by (simp add: filter_room_def)
  from Cons.IH [OF this] a show ?case by (auto simp: Let_def probes_ok_def)
qed

section \<open>The size of the filter\<close>

lemma filter_bytes_unat:
  assumes "n * unat (policy_bits P) + 7 < 2 ^ 64"
  shows "unat (filter_bytes P n) = (max 64 (n * unat (policy_bits P)) + 7) div 8"
    and "unat (filter_bytes P n * 8) = 8 * unat (filter_bytes P n)" and "8 \<le> unat (filter_bytes P n)"
proof -
  let ?m = "max 64 (n * unat (policy_bits P))"
  have b: "unat (of_nat n * policy_bits P) = n * unat (policy_bits P)"
    using assms by (simp add: unat_word_ariths unsigned_of_nat take_bit_eq_mod mod_mult_left_eq)
  then have m: "unat (if of_nat n * policy_bits P < 64 then 64 else of_nat n * policy_bits P) = ?m"
    by (auto simp: word_less_nat_alt max_def)
  then have "unat ((if of_nat n * policy_bits P < 64 then 64 else of_nat n * policy_bits P) + 7) = ?m + 7"
    using assms by (subst unat_word_ariths(1)) (simp add: max_def)
  then show u: "unat (filter_bytes P n) = (?m + 7) div 8"
    by (simp add: filter_bytes_def Let_def unat_div del: max_less_iff_conj)
  show "unat (filter_bytes P n * 8) = 8 * unat (filter_bytes P n)"
    unfolding unat_word_ariths u using assms by simp
  show "8 \<le> unat (filter_bytes P n)" unfolding u by simp
qed

lemma scast_small: "unat (x :: u64) < 128 \<Longrightarrow> scast (ucast x :: u8) = x"
proof -
  assume x: "unat x < 128"
  then have "int (unat x) < 128" by linarith
  then have l: "uint x < 128" by simp
  then have "uint (ucast x :: u8) = uint x" by (simp add: unsigned_ucast_eq take_bit_int_eq_self)
  moreover have "- (2 ^ 7) \<le> uint x" by (rule order.trans [OF _ uint_ge_0]) simp
  ultimately have "sint (ucast x :: u8) = uint x" using l by (simp add: sint_uint signed_take_bit_int_eq_self)
  then show ?thesis by (simp add: scast_eq)
qed

section \<open>The contract of a filter policy\<close>

text \<open>
  What \<open>include/leveldb/filter_policy.h\<close> asks of a policy: a filter matches every key of the list it
  was made from. \<open>room\<close> holds for the lists a policy can make a filter of.
\<close>

locale filter_policy =
  fixes create :: "bytes list \<Rightarrow> bytes \<Rightarrow> bytes option" and matches :: "bytes \<Rightarrow> bytes \<Rightarrow> bool option" and room :: "bytes list \<Rightarrow> bool"
  assumes accepts: "room keys \<Longrightarrow> \<exists>filter. create keys dst = Some (dst @ filter) \<and> (\<forall>key\<in>set keys. matches key filter = Some True)"
begin

text \<open>A key that a filter rejects is in none of the lists with that filter.\<close>

lemma rejected: "room keys \<Longrightarrow> create keys [] = Some f \<Longrightarrow> matches key f = Some False \<Longrightarrow> key \<notin> set keys"
  using accepts [of keys "[]"] by auto

end

definition bloom_room :: "BloomFilterPolicy \<Rightarrow> bytes list \<Rightarrow> bool" where
  "bloom_room P keys \<longleftrightarrow> length keys * unat (policy_bits P) + 7 < 2 ^ 64"

lemma Bloom_accepts:
  assumes P: "P = newBloomFilterPolicy bits_per_key k0" and "bloom_room P keys"
  shows "\<exists>filter. CreateFilter P keys dst = Some (dst @ filter) \<and> (\<forall>key\<in>set keys. KeyMayMatch key filter = Some True)"
proof -
  have size: "length keys * unat (policy_bits P) + 7 < 2 ^ 64" using assms(2) by (simp add: bloom_room_def)
  note fb = filter_bytes_unat [OF size]
  let ?bytes = "filter_bytes P (length keys)"
  let ?init = "replicate (unat ?bytes) 0 @ [ucast (num_probes P)] :: bytes"
  have k: "num_probes P \<le> 30" by (auto simp: P newBloomFilterPolicy_def Let_def)
  have "filter_room ?init (?bytes * 8)" using fb by (simp add: filter_room_def)
  then obtain a where a: "add_keys P keys (?bytes * 8) ?init = Some a" "length a = unat ?bytes + 1" "last a = ucast (num_probes P)"
    "\<forall>key\<in>set keys. probes_ok a (unat (num_probes P)) (BloomHash key) (probe_delta (BloomHash key)) (?bytes * 8)"
    using add_keys_spec by fastforce
  have run: "CreateFilter P keys dst = Some (dst @ a)" by (simp add: CreateFilter_def Let_def a(1))
  have room: "filter_room a (?bytes * 8)" using fb a(2) by (simp add: filter_room_def)
  have bits: "of_nat (length a - 1) * 8 = ?bytes * 8" by (simp add: a(2))
  have "a ! (length a - 1) = ucast (num_probes P)" using a(2,3) by (cases "a = []") (simp_all add: last_conv_nth)
  moreover have "unat (num_probes P) < 128" using k by (simp add: word_le_nat_alt)
  ultimately have "scast (a ! (length a - 1)) = num_probes P" by (simp add: scast_small)
  then have "KeyMayMatch key a = Some True" if "key \<in> set keys" for key
    using that a(2,4) fb(3) k test_probes_spec [OF room] by (simp add: KeyMayMatch_def Let_def bits [simplified] not_less)
  with run show ?thesis by blast
qed

interpretation bloom: filter_policy "CreateFilter (newBloomFilterPolicy bits_per_key k0)" KeyMayMatch "bloom_room (newBloomFilterPolicy bits_per_key k0)"
  for bits_per_key k0
  by unfold_locales (rule Bloom_accepts [OF refl])

end
