(* ===== verification/LDB_Format.thy ===== *)
theory LDB_Format
  imports LDB_Bloom "HOL-Library.List_Lexorder"
begin

text \<open>
  The keys of leveldb and their order: the comparisons of \<open>include/leveldb/slice.h\<close>, the default
  comparator of \<open>util/comparator.cc\<close>, and the internal keys, their comparator, their filter policy
  and the lookup keys of \<open>db/dbformat.h\<close> and \<open>db/dbformat.cc\<close>. A failed \<open>assert\<close> has no result.
\<close>

section \<open>Slices\<close>

text \<open>\<open>memcmp\<close> reads \<open>n\<close> bytes of both arguments; only the sign of its result is specified.\<close>

fun memcmp :: "nat \<Rightarrow> bytes \<Rightarrow> bytes \<Rightarrow> int option" where
  "memcmp 0 p q = Some 0"
| "memcmp (Suc n) (a # p) (b # q) = (if a < b then Some (-1) else if b < a then Some 1 else memcmp n p q)"
| "memcmp (Suc n) _ _ = None"

definition Slice_compare :: "bytes \<Rightarrow> bytes \<Rightarrow> int option" where
  "Slice_compare a b = do {
     let min_len = (if length a < length b then length a else length b);
     r \<leftarrow> memcmp min_len a b;
     Some (if r = 0 then (if length a < length b then -1 else if length a > length b then 1 else r) else r) }"

definition Slice_starts_with :: "bytes \<Rightarrow> bytes \<Rightarrow> bool option" where
  "Slice_starts_with a x = (if length a \<ge> length x then map_option (\<lambda>r. r = 0) (memcmp (length x) a x) else Some False)"

definition Slice_eq :: "bytes \<Rightarrow> bytes \<Rightarrow> bool option" where
  "Slice_eq x y = (if length x = length y then map_option (\<lambda>r. r = 0) (memcmp (length x) x y) else Some False)"

definition Slice_remove_prefix :: "bytes \<Rightarrow> nat \<Rightarrow> bytes option" where
  "Slice_remove_prefix s n = (if n \<le> length s then Some (drop n s) else None)"

section \<open>Comparators\<close>

text \<open>The virtual functions of a comparator; the two that shorten a key return the new key.\<close>

record Comparator =
  Compare :: "bytes \<Rightarrow> bytes \<Rightarrow> int option"
  FindShortestSeparator :: "bytes \<Rightarrow> bytes \<Rightarrow> bytes option"
  FindShortSuccessor :: "bytes \<Rightarrow> bytes option"

fun diff_index :: "bytes \<Rightarrow> bytes \<Rightarrow> nat" where
  "diff_index (a # s) (b # t) = (if a = b then Suc (diff_index s t) else 0)"
| "diff_index _ _ = 0"

definition Bytewise_FindShortestSeparator :: "bytes \<Rightarrow> bytes \<Rightarrow> bytes option" where
  "Bytewise_FindShortestSeparator start limit =
     (let min_length = min (length start) (length limit); d = diff_index start limit in
      if d \<ge> min_length then Some start
      else let diff_byte = start ! d in
        if diff_byte < 0xff \<and> uint diff_byte + 1 < uint (limit ! d) then do {
          let start' = take (d + 1) (start[d := start ! d + 1]);
          r \<leftarrow> Slice_compare start' limit;
          if r < 0 then Some start' else None }
        else Some start)"

text \<open>The bytes before the loop's index, and those from it on.\<close>

primrec short_successor :: "bytes \<Rightarrow> bytes \<Rightarrow> bytes" where
  "short_successor pre [] = pre"
| "short_successor pre (byte # key) =
     (if byte \<noteq> 0xff then pre @ [byte + 1] else short_successor (pre @ [byte]) key)"

definition BytewiseComparator :: Comparator where
  "BytewiseComparator = \<lparr>Compare = Slice_compare, FindShortestSeparator = Bytewise_FindShortestSeparator,
     FindShortSuccessor = (\<lambda>key. Some (short_successor [] key))\<rparr>"

section \<open>Internal keys\<close>

datatype ValueType = kTypeDeletion | kTypeValue

primrec type_code :: "ValueType \<Rightarrow> u64" where
  "type_code kTypeDeletion = 0"
| "type_code kTypeValue = 1"

definition kValueTypeForSeek :: ValueType where
  "kValueTypeForSeek = kTypeValue"

definition kMaxSequenceNumber :: u64 where
  "kMaxSequenceNumber = push_bit 56 1 - 1"

record ParsedInternalKey =
  user_key :: bytes
  sequence :: u64
  vtype :: ValueType

definition InternalKeyEncodingLength :: "ParsedInternalKey \<Rightarrow> nat" where
  "InternalKeyEncodingLength key = length (user_key key) + 8"

definition PackSequenceAndType :: "u64 \<Rightarrow> ValueType \<Rightarrow> u64 option" where
  "PackSequenceAndType seq t =
     (if seq \<le> kMaxSequenceNumber \<and> type_code t \<le> type_code kValueTypeForSeek then Some (push_bit 8 seq OR type_code t) else None)"

definition AppendInternalKey :: "bytes \<Rightarrow> ParsedInternalKey \<Rightarrow> bytes option" where
  "AppendInternalKey result key = do {
     tag \<leftarrow> PackSequenceAndType (sequence key) (vtype key);
     Some (PutFixed64 (result @ user_key key) tag) }"

text \<open>
  \<open>ParseInternalKey\<close>: no result when the C++ code has none, \<open>Some None\<close> for the result false, in
  which the caller finds nothing of use in \<open>*result\<close>.
\<close>

definition ParseInternalKey :: "bytes \<Rightarrow> ParsedInternalKey option option" where
  "ParseInternalKey internal_key =
     (let n = length internal_key in
      if n < 8 then Some None
      else do {
        num \<leftarrow> DecodeFixed64 (drop (n - 8) internal_key);
        let c = (ucast (num AND 0xff) :: u8);
        Some (if c \<le> 1 then
            Some \<lparr>user_key = take (n - 8) internal_key, sequence = drop_bit 8 num,
              vtype = (if c = 0 then kTypeDeletion else kTypeValue)\<rparr>
          else None) })"

definition ExtractUserKey :: "bytes \<Rightarrow> bytes option" where
  "ExtractUserKey internal_key = (if length internal_key \<ge> 8 then Some (take (length internal_key - 8) internal_key) else None)"

section \<open>The comparator of internal keys\<close>

definition Internal_Compare :: "Comparator \<Rightarrow> bytes \<Rightarrow> bytes \<Rightarrow> int option" where
  "Internal_Compare user_comparator akey bkey = do {
     a \<leftarrow> ExtractUserKey akey;
     b \<leftarrow> ExtractUserKey bkey;
     r \<leftarrow> Compare user_comparator a b;
     if r = 0 then do {
       anum \<leftarrow> DecodeFixed64 (drop (length akey - 8) akey);
       bnum \<leftarrow> DecodeFixed64 (drop (length bkey - 8) bkey);
       Some (if anum > bnum then -1 else if anum < bnum then 1 else r)
     } else Some r }"

definition Internal_FindShortestSeparator :: "Comparator \<Rightarrow> bytes \<Rightarrow> bytes \<Rightarrow> bytes option" where
  "Internal_FindShortestSeparator user_comparator start limit = do {
     user_start \<leftarrow> ExtractUserKey start;
     user_limit \<leftarrow> ExtractUserKey limit;
     tmp \<leftarrow> FindShortestSeparator user_comparator user_start user_limit;
     shorter \<leftarrow> (if length tmp < length user_start then map_option (\<lambda>r. r < 0) (Compare user_comparator user_start tmp) else Some False);
     if shorter then do {
       tag \<leftarrow> PackSequenceAndType kMaxSequenceNumber kValueTypeForSeek;
       let tmp = PutFixed64 tmp tag;
       r \<leftarrow> Internal_Compare user_comparator start tmp;
       r' \<leftarrow> Internal_Compare user_comparator tmp limit;
       if r < 0 \<and> r' < 0 then Some tmp else None
     } else Some start }"

definition Internal_FindShortSuccessor :: "Comparator \<Rightarrow> bytes \<Rightarrow> bytes option" where
  "Internal_FindShortSuccessor user_comparator key = do {
     user_key \<leftarrow> ExtractUserKey key;
     tmp \<leftarrow> FindShortSuccessor user_comparator user_key;
     shorter \<leftarrow> (if length tmp < length user_key then map_option (\<lambda>r. r < 0) (Compare user_comparator user_key tmp) else Some False);
     if shorter then do {
       tag \<leftarrow> PackSequenceAndType kMaxSequenceNumber kValueTypeForSeek;
       let tmp = PutFixed64 tmp tag;
       r \<leftarrow> Internal_Compare user_comparator key tmp;
       if r < 0 then Some tmp else None
     } else Some key }"

definition InternalKeyComparator :: "Comparator \<Rightarrow> Comparator" where
  "InternalKeyComparator c = \<lparr>Compare = Internal_Compare c, FindShortestSeparator = Internal_FindShortestSeparator c,
     FindShortSuccessor = Internal_FindShortSuccessor c\<rparr>"

section \<open>The class of internal keys, the filter policy and the lookup keys\<close>

text \<open>An object of class \<open>InternalKey\<close> is its field \<open>rep_\<close>.\<close>

type_synonym InternalKey = bytes

definition newInternalKey :: "bytes \<Rightarrow> u64 \<Rightarrow> ValueType \<Rightarrow> InternalKey option" where
  "newInternalKey k s t = AppendInternalKey [] \<lparr>user_key = k, sequence = s, vtype = t\<rparr>"

definition InternalKey_DecodeFrom :: "bytes \<Rightarrow> InternalKey" where
  "InternalKey_DecodeFrom s = s"

definition InternalKey_Encode :: "InternalKey \<Rightarrow> bytes option" where
  "InternalKey_Encode rep = (if rep = [] then None else Some rep)"

definition InternalKey_user_key :: "InternalKey \<Rightarrow> bytes option" where
  "InternalKey_user_key rep = ExtractUserKey rep"

definition InternalKey_SetFrom :: "ParsedInternalKey \<Rightarrow> InternalKey option" where
  "InternalKey_SetFrom p = AppendInternalKey [] p"

definition Compare_InternalKey :: "Comparator \<Rightarrow> InternalKey \<Rightarrow> InternalKey \<Rightarrow> int option" where
  "Compare_InternalKey c a b = do { x \<leftarrow> InternalKey_Encode a; y \<leftarrow> InternalKey_Encode b; Internal_Compare c x y }"

text \<open>\<open>CreateFilter\<close> changes the caller's array of keys, which is returned with the filter.\<close>

primrec extract_keys :: "bytes list \<Rightarrow> bytes list option" where
  "extract_keys [] = Some []"
| "extract_keys (key # keys) = do { k \<leftarrow> ExtractUserKey key; ks \<leftarrow> extract_keys keys; Some (k # ks) }"

definition Internal_CreateFilter :: "BloomFilterPolicy \<Rightarrow> bytes list \<Rightarrow> bytes \<Rightarrow> (bytes list \<times> bytes) option" where
  "Internal_CreateFilter user_policy keys dst = do {
     mkey \<leftarrow> extract_keys keys;
     dst' \<leftarrow> CreateFilter user_policy mkey dst;
     Some (mkey, dst') }"

definition Internal_KeyMayMatch :: "bytes \<Rightarrow> bytes \<Rightarrow> bool option" where
  "Internal_KeyMayMatch key f = do { k \<leftarrow> ExtractUserKey key; KeyMayMatch k f }"

text \<open>
  A lookup key: the bytes from \<open>start_\<close> to \<open>end_\<close> and the distance from \<open>start_\<close> to \<open>kstart_\<close>. The
  constructor has no result when it writes more than the array it chose can hold.
\<close>

record LookupKey =
  lk_start :: bytes
  lk_kstart :: nat

definition newLookupKey :: "bytes \<Rightarrow> u64 \<Rightarrow> LookupKey option" where
  "newLookupKey k s = (let
     usize = length k;
     needed = usize + 13;
     room = (if needed \<le> 200 then 200 else needed);
     start = EncodeVarint32 (of_nat (usize + 8));
     kstart = length start in
     do { tag \<leftarrow> PackSequenceAndType s kValueTypeForSeek;
          let dst = start @ k @ EncodeFixed64 tag;
          if length dst \<le> room then Some \<lparr>lk_start = dst, lk_kstart = kstart\<rparr> else None })"

definition memtable_key :: "LookupKey \<Rightarrow> bytes" where
  "memtable_key lk = lk_start lk"

definition internal_key :: "LookupKey \<Rightarrow> bytes" where
  "internal_key lk = drop (lk_kstart lk) (lk_start lk)"

definition lookup_user_key :: "LookupKey \<Rightarrow> bytes" where
  "lookup_user_key lk = take (length (lk_start lk) - lk_kstart lk - 8) (drop (lk_kstart lk) (lk_start lk))"

section \<open>Byte strings in lexicographic order\<close>

lemma memcmp_spec:
  "memcmp (min (length a) (length b)) a b =
     Some (if take (length b) a < take (length a) b then -1 else if take (length b) a = take (length a) b then 0 else 1)"
proof (induction a arbitrary: b)
  case (Cons x a)
  then show ?case by (cases b) auto
qed simp

lemma take_less_cases:
  fixes a b :: "'a::linorder list"
  shows "length a < length b \<Longrightarrow> a < b \<longleftrightarrow> a \<le> take (length a) b"
    and "length b < length a \<Longrightarrow> a < b \<longleftrightarrow> take (length b) a < b"
    and "length b < length a \<Longrightarrow> a \<noteq> b"
proof -
  show "length a < length b \<Longrightarrow> a < b \<longleftrightarrow> a \<le> take (length a) b"
  proof (induction a arbitrary: b)
    case Nil
    then show ?case by (cases b) auto
  next
    case (Cons x a)
    then show ?case by (cases b) auto
  qed
  show "length b < length a \<Longrightarrow> a < b \<longleftrightarrow> take (length b) a < b"
  proof (induction b arbitrary: a)
    case (Cons x b)
    then show ?case by (cases a) auto
  qed simp
qed auto

lemma Slice_compare_eq: "Slice_compare a b = Some (if a < b then -1 else if a = b then 0 else 1)"
proof -
  have m: "(if length a < length b then length a else length b) = min (length a) (length b)" by simp
  consider "length a < length b" | "length b < length a" | "length a = length b" by linarith
  then show ?thesis
  proof cases
    case 1
    then show ?thesis
      unfolding Slice_compare_def Let_def m memcmp_spec by (auto simp: take_less_cases(1))
  next
    case 2
    then show ?thesis
      unfolding Slice_compare_def Let_def m memcmp_spec by (auto simp: take_less_cases(2) )
  next
    case 3
    then show ?thesis
      unfolding Slice_compare_def Let_def m memcmp_spec by auto
  qed
qed

lemma append_less: "(p @ s < p @ t) = (s < (t :: 'a::linorder list))" "(p @ s \<le> p @ t) = (s \<le> t)"
  by (induction p) auto

lemma diff_index_split:
  "diff_index s t < min (length s) (length t) \<Longrightarrow>
    \<exists>p a b s' t'. s = p @ a # s' \<and> t = p @ b # t' \<and> a \<noteq> b \<and> diff_index s t = length p"
proof (induction s t rule: diff_index.induct)
  case (1 a s b t)
  show ?case
  proof (cases "a = b")
    case True
    with 1 obtain p x y s' t' where "s = p @ x # s'" "t = p @ y # t'" "x \<noteq> y" "diff_index s t = length p"
      by auto
    with True show ?thesis
      by (intro exI [of _ "a # p"] exI [of _ x] exI [of _ y] exI [of _ s'] exI [of _ t']) simp
  next
    case False
    then show ?thesis by (intro exI [of _ "[]"]) auto
  qed
qed auto

lemma byte_Suc: "uint (a :: u8) + 1 < 256 \<Longrightarrow> uint (a + 1) = uint a + 1"
  by (simp add: uint_plus_if_size word_size)

lemma Bytewise_separator:
  assumes "start < limit"
  shows "\<exists>s. Bytewise_FindShortestSeparator start limit = Some s \<and> start \<le> s \<and> s < limit"
proof (cases "diff_index start limit < min (length start) (length limit)")
  case True
  then obtain p a b s' t' where eq: "start = p @ a # s'" "limit = p @ b # t'" "diff_index start limit = length p"
    using diff_index_split by blast
  show ?thesis
  proof (cases "a < 0xff \<and> uint a + 1 < uint b")
    case sep: True
    have "uint b < 256" using uint_lt2p [of b] by simp
    with sep have u: "uint (a + 1) = uint a + 1" by (intro byte_Suc) linarith
    have "a < a + 1" "a + 1 < b" using sep u by (simp_all only: word_less_def)
    moreover have "take (length p + 1) (start[length p := a + 1]) = p @ [a + 1]" using eq(1) by (simp add: list_update_append)
    ultimately show ?thesis
      using True sep eq by (simp add: Bytewise_FindShortestSeparator_def Let_def Slice_compare_eq append_less)
  next
    case False
    then show ?thesis
      using True assms eq by (auto simp: Bytewise_FindShortestSeparator_def Let_def)
  qed
next
  case False
  then have "min (length start) (length limit) \<le> diff_index start limit" by (simp only: not_less)
  then show ?thesis using assms by (simp only: Bytewise_FindShortestSeparator_def Let_def if_True) simp
qed

lemma short_successor_ge: "pre @ key \<le> short_successor pre key"
proof (induction key arbitrary: pre)
  case (Cons b key)
  show ?case
  proof (cases "b = 0xff")
    case False
    have "uint b \<noteq> 255" using False by (simp add: word_uint_eq_iff)
    with uint_lt2p [of b] have "uint b + 1 < 256" by simp
    then have "b < b + 1" using byte_Suc [of b] by (simp add: word_less_def)
    with False show ?thesis by (simp add: append_less)
  next
    case True
    with Cons.IH [of "pre @ [b]"] show ?thesis by simp
  qed
qed simp

section \<open>The contract of a comparator\<close>

text \<open>
  What \<open>include/leveldb/comparator.h\<close> asks of a comparator: a total order on the strings it is used
  for, separators between a string and a larger one, and successors.
\<close>

locale comparator =
  fixes u :: Comparator and valid :: "bytes \<Rightarrow> bool"
  assumes defined: "valid a \<Longrightarrow> valid b \<Longrightarrow> \<exists>r. Compare u a b = Some r"
    and refl: "valid a \<Longrightarrow> Compare u a a = Some 0"
    and antisym: "valid a \<Longrightarrow> valid b \<Longrightarrow> Compare u a b = Some r \<Longrightarrow> Compare u b a = Some s \<Longrightarrow> sgn s = - sgn r"
    and trans: "valid a \<Longrightarrow> valid b \<Longrightarrow> valid c \<Longrightarrow> Compare u a b = Some r \<Longrightarrow> Compare u b c = Some s \<Longrightarrow> r \<le> 0 \<Longrightarrow> s \<le> 0 \<Longrightarrow>
      \<exists>t. Compare u a c = Some t \<and> t \<le> 0 \<and> (t = 0 \<longrightarrow> r = 0 \<and> s = 0)"
    and separator: "valid a \<Longrightarrow> valid b \<Longrightarrow> Compare u a b = Some r \<Longrightarrow> r < 0 \<Longrightarrow>
      \<exists>s p q. FindShortestSeparator u a b = Some s \<and> valid s \<and> Compare u a s = Some p \<and> p \<le> 0 \<and> Compare u s b = Some q \<and> q < 0"
    and separator_eq: "valid a \<Longrightarrow> valid b \<Longrightarrow> Compare u a b = Some 0 \<Longrightarrow> \<exists>s. FindShortestSeparator u a b = Some s \<and> valid s \<and> Compare u a s = Some 0"
    and successor: "valid a \<Longrightarrow> \<exists>s p. FindShortSuccessor u a = Some s \<and> valid s \<and> Compare u a s = Some p \<and> p \<le> 0"

interpretation bytewise: comparator BytewiseComparator "\<lambda>_. True"
proof
  have eq: "a = b" if "Compare BytewiseComparator a b = Some 0" for a b
    using that by (simp add: BytewiseComparator_def Slice_compare_eq split: if_splits)
  show "\<exists>s. FindShortestSeparator BytewiseComparator a b = Some s \<and> True \<and> Compare BytewiseComparator a s = Some 0"
    if "Compare BytewiseComparator a b = Some 0" for a b
  proof -
    have "diff_index b b \<ge> length b" for b by (induction b) auto
    with eq [OF that] show ?thesis
      by (simp add: BytewiseComparator_def Bytewise_FindShortestSeparator_def Slice_compare_eq)
  qed
  show "\<exists>s p q. FindShortestSeparator BytewiseComparator a b = Some s \<and> True \<and>
      Compare BytewiseComparator a s = Some p \<and> p \<le> 0 \<and> Compare BytewiseComparator s b = Some q \<and> q < 0"
    if "Compare BytewiseComparator a b = Some r" "r < 0" for a b r
  proof -
    have "a < b" using that by (auto simp: BytewiseComparator_def Slice_compare_eq split: if_splits)
    from Bytewise_separator [OF this] obtain s where "Bytewise_FindShortestSeparator a b = Some s" "a \<le> s" "s < b" by blast
    then show ?thesis by (auto simp: BytewiseComparator_def Slice_compare_eq)
  qed
  show "\<exists>s p. FindShortSuccessor BytewiseComparator a = Some s \<and> True \<and> Compare BytewiseComparator a s = Some p \<and> p \<le> 0" for a
    using short_successor_ge [of "[]" a] by (auto simp: BytewiseComparator_def Slice_compare_eq)
qed (auto simp: BytewiseComparator_def Slice_compare_eq split: if_splits)

section \<open>Internal keys under the contract\<close>

lemma take_tag: "length ik \<ge> 8 \<Longrightarrow> \<exists>n. DecodeFixed64 (drop (length ik - 8) ik) = Some n"
  using mem_word_defined [of 8 "drop (length ik - 8) ik"] by (simp add: DecodeFixed64_def kLittleEndian_def)

definition uk :: "bytes \<Rightarrow> bytes" where
  "uk ik = take (length ik - 8) ik"

definition ik_tag :: "bytes \<Rightarrow> u64" where
  "ik_tag ik = the (DecodeFixed64 (drop (length ik - 8) ik))"

lemma Internal_Compare_eq:
  assumes "length a \<ge> 8" "length b \<ge> 8" "Compare u (uk a) (uk b) = Some r"
  shows "Internal_Compare u a b = Some (if r = 0 then (if ik_tag a > ik_tag b then -1 else if ik_tag a < ik_tag b then 1 else 0) else r)"
proof -
  obtain n m where "DecodeFixed64 (drop (length a - 8) a) = Some n" "DecodeFixed64 (drop (length b - 8) b) = Some m"
    using assms take_tag by meson
  with assms show ?thesis by (simp add: Internal_Compare_def ExtractUserKey_def uk_def ik_tag_def)
qed

lemma drop_PutFixed64: "drop (length (PutFixed64 s t) - 8) (PutFixed64 s t) = EncodeFixed64 t"
  by (simp add: PutFixed64_def)

lemma PutFixed64_parts [simp]:
  "length (PutFixed64 s t) = length s + 8" "uk (PutFixed64 s t) = s" "ik_tag (PutFixed64 s t) = t"
proof -
  show "ik_tag (PutFixed64 s t) = t"
    using fixed64_get [of t "[]"] by (simp only: ik_tag_def drop_PutFixed64 append_Nil2 option.sel)
qed (simp_all add: PutFixed64_def uk_def)

definition ivalid :: "(bytes \<Rightarrow> bool) \<Rightarrow> bytes \<Rightarrow> bool" where
  "ivalid valid ik \<longleftrightarrow> length ik \<ge> 8 \<and> valid (uk ik)"

definition tag_order :: "bytes \<Rightarrow> bytes \<Rightarrow> int" where
  "tag_order a b = (if ik_tag a > ik_tag b then -1 else if ik_tag a < ik_tag b then 1 else 0)"

lemma tag_order_trans:
  "tag_order a b \<le> 0 \<Longrightarrow> tag_order b c \<le> 0 \<Longrightarrow>
    tag_order a c \<le> 0 \<and> (tag_order a c = 0 \<longrightarrow> tag_order a b = 0 \<and> tag_order b c = 0)"
  by (auto simp: tag_order_def split: if_splits)

lemma tag_order_sym: "sgn (tag_order b a) = - sgn (tag_order a b)"
  by (auto simp: tag_order_def)

lemma Pack_seek: "PackSequenceAndType kMaxSequenceNumber kValueTypeForSeek = Some 0xFFFFFFFFFFFFFF01"
  by (simp add: PackSequenceAndType_def kMaxSequenceNumber_def kValueTypeForSeek_def push_bit_eq_mult)

context comparator
begin

lemma icompare:
  assumes "ivalid valid a" "ivalid valid b"
  obtains r where "Compare u (uk a) (uk b) = Some r" "Internal_Compare u a b = Some (if r = 0 then tag_order a b else r)"
  using assms defined [of "uk a" "uk b"] Internal_Compare_eq [of a b u] by (auto simp: ivalid_def tag_order_def)

lemma eq_trans:
  assumes "valid a" "valid b" "valid c" "Compare u a b = Some 0" "Compare u b c = Some 0"
  shows "Compare u a c = Some 0"
proof -
  have ba: "Compare u b a = Some 0" and cb: "Compare u c b = Some 0"
    using assms defined [of b a] defined [of c b] antisym [of a b 0] antisym [of b c 0] by (auto simp: sgn_0_0)
  obtain t where t: "Compare u a c = Some t" "t \<le> 0" using trans [OF assms(1-3) assms(4,5)] by auto
  obtain t' where t': "Compare u c a = Some t'" "t' \<le> 0" using trans [OF assms(3,2,1) cb ba] by auto
  have "sgn t' = - sgn t" by (rule antisym [OF assms(1,3) t(1) t'(1)])
  with t t' have "t = 0" by (auto simp: sgn_if split: if_splits)
  with t show ?thesis by simp
qed

lemma sym0: "valid a \<Longrightarrow> valid b \<Longrightarrow> Compare u a b = Some 0 \<Longrightarrow> Compare u b a = Some 0"
  using defined [of b a] antisym [of a b 0] by (auto simp: sgn_0_0)

lemma iantisym:
  assumes "ivalid valid a" "ivalid valid b" "Internal_Compare u a b = Some r" "Internal_Compare u b a = Some s"
  shows "sgn s = - sgn r"
proof -
  obtain p where p: "Compare u (uk a) (uk b) = Some p" "Internal_Compare u a b = Some (if p = 0 then tag_order a b else p)"
    using icompare [OF assms(1,2)] .
  obtain q where q: "Compare u (uk b) (uk a) = Some q" "Internal_Compare u b a = Some (if q = 0 then tag_order b a else q)"
    using icompare [OF assms(2,1)] .
  have "sgn q = - sgn p" by (rule antisym [OF _ _ p(1) q(1)]) (use assms in \<open>auto simp: ivalid_def\<close>)
  then show ?thesis using assms p q tag_order_sym [of b a] by (cases "p = 0") (auto simp: sgn_0_0)
qed

lemma itrans:
  assumes v: "ivalid valid a" "ivalid valid b" "ivalid valid c"
    and r: "Internal_Compare u a b = Some r" "Internal_Compare u b c = Some s" "r \<le> 0" "s \<le> 0"
  shows "\<exists>t. Internal_Compare u a c = Some t \<and> t \<le> 0 \<and> (t = 0 \<longrightarrow> r = 0 \<and> s = 0)"
proof -
  obtain p where p: "Compare u (uk a) (uk b) = Some p" "Internal_Compare u a b = Some (if p = 0 then tag_order a b else p)"
    using icompare [OF v(1,2)] .
  obtain q where q: "Compare u (uk b) (uk c) = Some q" "Internal_Compare u b c = Some (if q = 0 then tag_order b c else q)"
    using icompare [OF v(2,3)] .
  have le: "p \<le> 0" "q \<le> 0" using p q r by (auto split: if_splits)
  have vu: "valid (uk a)" "valid (uk b)" "valid (uk c)" using v by (auto simp: ivalid_def)
  obtain t where t: "Compare u (uk a) (uk c) = Some t" "t \<le> 0" "t = 0 \<longrightarrow> p = 0 \<and> q = 0"
    using trans [OF vu p(1) q(1) le] by blast
  have ac: "Internal_Compare u a c = Some (if t = 0 then tag_order a c else t)"
    using icompare [OF v(1,3)] t(1) by force
  have "t = 0" if "p = 0" "q = 0" using eq_trans [OF vu] p(1) q(1) t(1) that by simp
  then show ?thesis
    using t ac p q r tag_order_trans [of a b c] by (cases "t = 0") (auto split: if_splits)
qed

lemma iless: "ivalid valid a \<Longrightarrow> ivalid valid b \<Longrightarrow> Compare u (uk a) (uk b) = Some p \<Longrightarrow> p < 0 \<Longrightarrow> Internal_Compare u a b = Some p"
  using Internal_Compare_eq [of a b u p] by (simp add: ivalid_def)

lemma tag_append: "valid s \<Longrightarrow> ivalid valid (PutFixed64 s t)"
  by (simp add: ivalid_def)

lemma ieq: "ivalid valid a \<Longrightarrow> Internal_Compare u a a = Some 0"
  using Internal_Compare_eq [of a a u 0] refl [of "uk a"] by (simp add: ivalid_def)

lemma iextract: "ivalid valid a \<Longrightarrow> ExtractUserKey a = Some (uk a)"
  by (simp add: ivalid_def ExtractUserKey_def uk_def)

lemma iseparator:
  assumes v: "ivalid valid a" "ivalid valid b" and r: "Internal_Compare u a b = Some r" "r \<le> 0"
  shows "\<exists>s p q. Internal_FindShortestSeparator u a b = Some s \<and> ivalid valid s \<and> Internal_Compare u a s = Some p \<and> p \<le> 0 \<and>
    Internal_Compare u s b = Some q \<and> (r < 0 \<longrightarrow> q < 0) \<and> (r = 0 \<longrightarrow> p = 0)"
proof -
  have vu: "valid (uk a)" "valid (uk b)" using v by (auto simp: ivalid_def)
  obtain p where p: "Compare u (uk a) (uk b) = Some p" "Internal_Compare u a b = Some (if p = 0 then tag_order a b else p)"
    using icompare [OF v] .
  have "p \<le> 0" using p r by (auto split: if_splits)
  show ?thesis
  proof (cases "p = 0")
    case True
    with separator_eq [OF vu] p(1) obtain s where "FindShortestSeparator u (uk a) (uk b) = Some s" "Compare u (uk a) s = Some 0" by auto
    then have "Internal_FindShortestSeparator u a b = Some a" by (simp add: Internal_FindShortestSeparator_def iextract v)
    with v r ieq show ?thesis by auto
  next
    case False
    with \<open>p \<le> 0\<close> have "p < 0" by simp
    from separator [OF vu p(1) this] obtain s x y where s: "FindShortestSeparator u (uk a) (uk b) = Some s" "valid s"
      "Compare u (uk a) s = Some x" "x \<le> 0" "Compare u s (uk b) = Some y" "y < 0" by blast
    show ?thesis
    proof (cases "length s < length (uk a) \<and> x < 0")
      case True
      let ?t = "PutFixed64 s 0xFFFFFFFFFFFFFF01"
      have "Internal_Compare u a ?t = Some x" "Internal_Compare u ?t b = Some y"
        using s v True by (auto intro!: iless simp: tag_append)
      with s True r False p tag_append [OF s(2)] show ?thesis
        by (auto simp: Internal_FindShortestSeparator_def iextract v Pack_seek)
    next
      case False
      then have "Internal_FindShortestSeparator u a b = Some a"
        using s by (auto simp: Internal_FindShortestSeparator_def iextract v)
      with v r ieq show ?thesis by auto
    qed
  qed
qed

lemma isuccessor:
  assumes v: "ivalid valid a"
  shows "\<exists>s p. Internal_FindShortSuccessor u a = Some s \<and> ivalid valid s \<and> Internal_Compare u a s = Some p \<and> p \<le> 0"
proof -
  have vu: "valid (uk a)" using v by (simp add: ivalid_def)
  from successor [OF this] obtain s x where s: "FindShortSuccessor u (uk a) = Some s" "valid s" "Compare u (uk a) s = Some x" "x \<le> 0" by blast
  show ?thesis
  proof (cases "length s < length (uk a) \<and> x < 0")
    case True
    have "Internal_Compare u a (PutFixed64 s 0xFFFFFFFFFFFFFF01) = Some x"
      using s v True by (auto intro!: iless simp: tag_append)
    with s True tag_append [OF s(2)] show ?thesis
      by (auto simp: Internal_FindShortSuccessor_def iextract v Pack_seek)
  next
    case False
    then have "Internal_FindShortSuccessor u a = Some a"
      using s by (auto simp: Internal_FindShortSuccessor_def iextract v)
    with v ieq show ?thesis by auto
  qed
qed

text \<open>The comparator of internal keys keeps the contract, whatever the user's comparator.\<close>

lemma internal: "comparator (InternalKeyComparator u) (ivalid valid)"
proof
  show "\<exists>r. Compare (InternalKeyComparator u) a b = Some r" if "ivalid valid a" "ivalid valid b" for a b
    using icompare [OF that] by (auto simp: InternalKeyComparator_def)
  show "\<exists>s p q. FindShortestSeparator (InternalKeyComparator u) a b = Some s \<and> ivalid valid s \<and> Compare (InternalKeyComparator u) a s = Some p \<and> p \<le> 0 \<and>
      Compare (InternalKeyComparator u) s b = Some q \<and> q < 0"
    if "ivalid valid a" "ivalid valid b" "Compare (InternalKeyComparator u) a b = Some r" "r < 0" for a b r
    using iseparator [OF that(1,2)] that(3,4) by (fastforce simp: InternalKeyComparator_def)
  show "\<exists>s. FindShortestSeparator (InternalKeyComparator u) a b = Some s \<and> ivalid valid s \<and> Compare (InternalKeyComparator u) a s = Some 0"
    if "ivalid valid a" "ivalid valid b" "Compare (InternalKeyComparator u) a b = Some 0" for a b
    using iseparator [OF that(1,2)] that(3) by (fastforce simp: InternalKeyComparator_def)
  show "\<exists>s p. FindShortSuccessor (InternalKeyComparator u) a = Some s \<and> ivalid valid s \<and> Compare (InternalKeyComparator u) a s = Some p \<and> p \<le> 0"
    if "ivalid valid a" for a
    using isuccessor [OF that] by (simp add: InternalKeyComparator_def)
qed (auto simp: InternalKeyComparator_def ieq intro: itrans dest: iantisym)

end

interpretation internal: comparator "InternalKeyComparator BytewiseComparator" "ivalid (\<lambda>_. True)"
  by (rule bytewise.internal)

section \<open>Sequence numbers and types in one word\<close>

lemma kMax_le: "seq \<le> kMaxSequenceNumber \<longleftrightarrow> unat seq < 2 ^ 56"
  by (simp add: kMaxSequenceNumber_def word_le_nat_alt push_bit_eq_mult unat_word_ariths) arith

lemma Pack_eq:
  assumes "seq \<le> kMaxSequenceNumber"
  obtains t where "PackSequenceAndType seq ty = Some t" "unat t = 256 * unat seq + unat (type_code ty)"
    "drop_bit 8 t = seq" "t AND 0xff = type_code ty"
proof -
  let ?t = "push_bit 8 seq OR type_code ty"
  have c: "unat (type_code ty) \<le> 1" by (cases ty) simp_all
  have "push_bit 8 seq AND type_code ty = 0"
    by (rule bit_word_eqI) (cases ty; auto simp: bit_and_iff bit_push_bit_iff bit_1_iff)
  then have "?t = push_bit 8 seq + type_code ty" by (simp add: disjunctive_add_eq_or)
  then have u: "unat ?t = 256 * unat seq + unat (type_code ty)"
    using assms c unat_bound [of seq] by (simp add: kMax_le push_bit_eq_mult unat_word_ariths)
  have d: "drop_bit 8 ?t = seq"
    unfolding word_unat_eq_iff unat_drop_bit_div u using c by simp
  have m: "?t AND 0xff = type_code ty"
  proof -
    have "x AND 0xff = take_bit 8 x" for x :: u64 by (simp add: take_bit_eq_mask mask_eq_exp_minus_1)
    then have "unat (x AND 0xff) = unat x mod 256" for x :: u64 by (simp add: unsigned_take_bit_eq take_bit_nat_def)
    from this [of ?t] have "unat (?t AND 0xff) = unat (type_code ty)" using u c by simp
    then show ?thesis by (simp only: word_unat_eq_iff)
  qed
  with d m u assms show thesis
    by (intro that [of ?t]) (cases ty; simp add: PackSequenceAndType_def kValueTypeForSeek_def)+
qed

lemma AppendInternalKey_eq:
  assumes "sequence p \<le> kMaxSequenceNumber"
  obtains k where "AppendInternalKey [] p = Some k" "length k = length (user_key p) + 8" "uk k = user_key p"
    "unat (ik_tag k) = 256 * unat (sequence p) + unat (type_code (vtype p))"
    "drop_bit 8 (ik_tag k) = sequence p" "ik_tag k AND 0xff = type_code (vtype p)"
proof -
  obtain t where t: "PackSequenceAndType (sequence p) (vtype p) = Some t" "unat t = 256 * unat (sequence p) + unat (type_code (vtype p))"
    "drop_bit 8 t = sequence p" "t AND 0xff = type_code (vtype p)"
    using Pack_eq [OF assms] by metis
  show thesis by (rule that [of "PutFixed64 (user_key p) t"]) (simp_all add: t AppendInternalKey_def)
qed

lemma Parse_eq:
  assumes "length k \<ge> 8" and "ik_tag k AND 0xff = type_code ty"
  shows "ParseInternalKey k = Some (Some \<lparr>user_key = uk k, sequence = drop_bit 8 (ik_tag k), vtype = ty\<rparr>)"
proof -
  obtain n where n: "DecodeFixed64 (drop (length k - 8) k) = Some n" using take_tag [OF assms(1)] by blast
  then have "ik_tag k = n" by (simp add: ik_tag_def)
  with assms n show ?thesis by (cases ty) (simp_all add: ParseInternalKey_def uk_def)
qed

lemma newLookupKey_eq:
  assumes "s \<le> kMaxSequenceNumber"
  obtains t where "PackSequenceAndType s kValueTypeForSeek = Some t"
    "newLookupKey k s = Some \<lparr>lk_start = EncodeVarint32 (of_nat (length k + 8)) @ k @ EncodeFixed64 t,
       lk_kstart = length (EncodeVarint32 (of_nat (length k + 8)))\<rparr>"
proof -
  obtain t where t: "PackSequenceAndType s kValueTypeForSeek = Some t" using Pack_eq [OF assms] by metis
  have "length (EncodeVarint32 (of_nat (length k + 8))) \<le> 5" by (rule varint_length_bounds)
  with t show thesis by (intro that [OF t]) (simp add: newLookupKey_def Let_def)
qed

section \<open>Filters of internal keys\<close>

lemma extract_keys_eq: "\<forall>k\<in>set keys. length k \<ge> 8 \<Longrightarrow> extract_keys keys = Some (map uk keys)"
  by (induction keys) (auto simp: ExtractUserKey_def uk_def)

interpretation ifilter: filter_policy
  "\<lambda>keys dst. map_option snd (Internal_CreateFilter (newBloomFilterPolicy bits_per_key k0) keys dst)" Internal_KeyMayMatch
  "\<lambda>keys. bloom_room (newBloomFilterPolicy bits_per_key k0) (map uk keys) \<and> (\<forall>k\<in>set keys. length k \<ge> 8)"
  for bits_per_key k0
proof
  fix keys dst
  let ?P = "newBloomFilterPolicy bits_per_key k0"
  assume room: "bloom_room ?P (map uk keys) \<and> (\<forall>k\<in>set keys. length k \<ge> 8)"
  then obtain f where f: "CreateFilter ?P (map uk keys) dst = Some (dst @ f)" "\<forall>key\<in>set (map uk keys). KeyMayMatch key f = Some True"
    using bloom.accepts by blast
  then show "\<exists>f. map_option snd (Internal_CreateFilter ?P keys dst) = Some (dst @ f) \<and> (\<forall>key\<in>set keys. Internal_KeyMayMatch key f = Some True)"
    using room by (auto simp: Internal_CreateFilter_def extract_keys_eq Internal_KeyMayMatch_def ExtractUserKey_def uk_def)
qed

section \<open>Theorems\<close>

text \<open>
  C30: An internal key with a sequence number of at most 56 bits is read back as it was written, at
  the announced length. A lookup key never writes past its array, and holds the internal key of the
  largest type with its length before it.
\<close>

theorem internal_key_roundtrip:
  assumes "sequence p \<le> kMaxSequenceNumber" and "length (user_key p) + 8 < 2 ^ 32"
  shows "\<exists>k. AppendInternalKey [] p = Some k \<and> length k = InternalKeyEncodingLength p
      \<and> ParseInternalKey k = Some (Some p) \<and> ExtractUserKey k = Some (user_key p)
      \<and> (\<exists>lk ik. newLookupKey (user_key p) (sequence p) = Some lk
          \<and> AppendInternalKey [] (p\<lparr>vtype := kValueTypeForSeek\<rparr>) = Some ik
          \<and> internal_key lk = ik \<and> lookup_user_key lk = user_key p
          \<and> GetLengthPrefixedSlice (memtable_key lk @ rest) = Some (ik, rest))"
proof -
  obtain k where k: "AppendInternalKey [] p = Some k" "length k = length (user_key p) + 8" "uk k = user_key p"
    "drop_bit 8 (ik_tag k) = sequence p" "ik_tag k AND 0xff = type_code (vtype p)"
    using AppendInternalKey_eq [OF assms(1)] by metis
  obtain t where t: "PackSequenceAndType (sequence p) kValueTypeForSeek = Some t"
    "newLookupKey (user_key p) (sequence p) = Some \<lparr>lk_start = EncodeVarint32 (of_nat (length (user_key p) + 8)) @ user_key p @ EncodeFixed64 t,
       lk_kstart = length (EncodeVarint32 (of_nat (length (user_key p) + 8)))\<rparr>"
    using newLookupKey_eq [OF assms(1)] by metis
  have "GetLengthPrefixedSlice (PutLengthPrefixedSlice [] (user_key p @ EncodeFixed64 t) @ rest) = Some (user_key p @ EncodeFixed64 t, rest)"
    by (rule lps_get) (use assms in simp)
  then have "GetLengthPrefixedSlice ((EncodeVarint32 (of_nat (length (user_key p) + 8)) @ user_key p @ EncodeFixed64 t) @ rest)
      = Some (user_key p @ EncodeFixed64 t, rest)"
    by (simp add: PutLengthPrefixedSlice_def PutVarint32_def)
  moreover have "ParseInternalKey k = Some (Some p)" using Parse_eq [of k "vtype p"] k by simp
  moreover have "ExtractUserKey k = Some (user_key p)" using k(2,3) by (simp add: ExtractUserKey_def uk_def)
  ultimately show ?thesis
    using k t by (auto simp: InternalKeyEncodingLength_def AppendInternalKey_def PutFixed64_def internal_key_def lookup_user_key_def memtable_key_def)
qed

theorem internal_key_roundtrip_witness:
  "\<exists>k. AppendInternalKey [] \<lparr>user_key = [1, 2], sequence = 7, vtype = kTypeDeletion\<rparr> = Some k
    \<and> ParseInternalKey k = Some (Some \<lparr>user_key = [1, 2], sequence = 7, vtype = kTypeDeletion\<rparr>)"
proof -
  have "(7 :: u64) \<le> kMaxSequenceNumber" by (simp add: kMaxSequenceNumber_def push_bit_eq_mult)
  then show ?thesis
    using internal_key_roundtrip [of "\<lparr>user_key = [1, 2], sequence = 7, vtype = kTypeDeletion\<rparr>" "[]"] by auto
qed

text \<open>
  C31: With the default comparator, internal keys are ordered by user key, bytewise and shorter
  strings first, then by falling sequence number, then by falling type; only the encodings of the
  same key compare as equal.
\<close>

theorem internal_key_order:
  assumes "sequence p \<le> kMaxSequenceNumber" "sequence q \<le> kMaxSequenceNumber"
    and "AppendInternalKey [] p = Some a" "AppendInternalKey [] q = Some b"
  shows "Compare (InternalKeyComparator BytewiseComparator) a b = Some
    (if user_key p < user_key q \<or> user_key p = user_key q \<and>
          (sequence p > sequence q \<or> sequence p = sequence q \<and> vtype p = kTypeValue \<and> vtype q = kTypeDeletion) then -1
     else if user_key p = user_key q \<and> sequence p = sequence q \<and> vtype p = vtype q then 0 else 1)"
proof -
  have a: "length a \<ge> 8" "uk a = user_key p" "unat (ik_tag a) = 256 * unat (sequence p) + unat (type_code (vtype p))"
    and b: "length b \<ge> 8" "uk b = user_key q" "unat (ik_tag b) = 256 * unat (sequence q) + unat (type_code (vtype q))"
    using AppendInternalKey_eq [OF assms(1)] AppendInternalKey_eq [OF assms(2)] assms(3,4)
    by (metis le_add2 option.inject)+
  define r :: int where "r = (if user_key p < user_key q then -1 else if user_key p = user_key q then 0 else 1)"
  have "Compare BytewiseComparator (uk a) (uk b) = Some r"
    by (simp add: BytewiseComparator_def Slice_compare_eq a b r_def)
  from Internal_Compare_eq [OF a(1) b(1) this]
  have cmp: "Compare (InternalKeyComparator BytewiseComparator) a b = Some (if r = 0 then tag_order a b else r)"
    by (simp add: InternalKeyComparator_def tag_order_def)
  have "tag_order a b = (if sequence p > sequence q \<or> sequence p = sequence q \<and> vtype p = kTypeValue \<and> vtype q = kTypeDeletion then -1
      else if sequence p = sequence q \<and> vtype p = vtype q then 0 else 1)"
    unfolding tag_order_def word_less_nat_alt a(3) b(3) word_unat_eq_iff
    by (cases "vtype p"; cases "vtype q") (simp; linarith)+
  with cmp show ?thesis by (auto simp: r_def)
qed

theorem internal_key_order_witness:
  "\<exists>a b. AppendInternalKey [] \<lparr>user_key = [1], sequence = 9, vtype = kTypeValue\<rparr> = Some a
     \<and> AppendInternalKey [] \<lparr>user_key = [1], sequence = 8, vtype = kTypeValue\<rparr> = Some b
     \<and> Compare (InternalKeyComparator BytewiseComparator) a b = Some (-1)"
proof -
  have s: "(9 :: u64) \<le> kMaxSequenceNumber" "(8 :: u64) \<le> kMaxSequenceNumber"
    by (simp_all add: kMaxSequenceNumber_def push_bit_eq_mult)
  then obtain a b where "AppendInternalKey [] \<lparr>user_key = [1], sequence = 9, vtype = kTypeValue\<rparr> = Some a"
    "AppendInternalKey [] \<lparr>user_key = [1], sequence = 8, vtype = kTypeValue\<rparr> = Some b"
    by (auto elim: AppendInternalKey_eq [rotated] simp: AppendInternalKey_def PackSequenceAndType_def kValueTypeForSeek_def)
  with internal_key_order [OF _ _ this] s show ?thesis by auto
qed

text \<open>
  C32: Both comparators shorten keys within their order: a separator of two internal keys is an
  internal key not before the first and before the second, a successor is one not before its key, and
  no assertion fails; so does the bytewise comparator on all strings.
\<close>

theorem comparators_shorten:
  assumes "length a \<ge> 8" "length b \<ge> 8" and "Compare (InternalKeyComparator BytewiseComparator) a b = Some r" "r < 0"
  shows "(\<exists>s p q. FindShortestSeparator (InternalKeyComparator BytewiseComparator) a b = Some s \<and> length s \<ge> 8
      \<and> Compare (InternalKeyComparator BytewiseComparator) a s = Some p \<and> p \<le> 0
      \<and> Compare (InternalKeyComparator BytewiseComparator) s b = Some q \<and> q < 0)
    \<and> (\<exists>s p. FindShortSuccessor (InternalKeyComparator BytewiseComparator) a = Some s \<and> length s \<ge> 8
      \<and> Compare (InternalKeyComparator BytewiseComparator) a s = Some p \<and> p \<le> 0)
    \<and> (x < y \<longrightarrow> (\<exists>s. FindShortestSeparator BytewiseComparator x y = Some s \<and> x \<le> s \<and> s < y))
    \<and> (\<exists>s. FindShortSuccessor BytewiseComparator x = Some s \<and> x \<le> s)"
proof -
  have v: "ivalid (\<lambda>_. True) a" "ivalid (\<lambda>_. True) b" using assms(1,2) by (simp_all add: ivalid_def)
  have "\<exists>s. FindShortestSeparator BytewiseComparator x y = Some s \<and> x \<le> s \<and> s < y" if "x < y"
    using Bytewise_separator [OF that] by (simp add: BytewiseComparator_def)
  moreover have "\<exists>s. FindShortSuccessor BytewiseComparator x = Some s \<and> x \<le> s"
    using short_successor_ge [of "[]" x] by (simp add: BytewiseComparator_def)
  ultimately show ?thesis
    using internal.separator [OF v assms(3,4)] internal.successor [OF v(1)] by (fastforce simp: ivalid_def)
qed

theorem comparators_shorten_witness:
  "\<exists>s. FindShortestSeparator BytewiseComparator [1, 2, 3] [1, 9] = Some s \<and> [1, 2, 3] \<le> s \<and> s < [1, 9]"
proof -
  define a :: bytes where "a = PutFixed64 [1] 0"
  define b :: bytes where "b = PutFixed64 [2] 0"
  have "Compare (InternalKeyComparator BytewiseComparator) a b = Some (-1)"
    using Internal_Compare_eq [of a b BytewiseComparator "-1"]
    by (simp add: InternalKeyComparator_def a_def b_def BytewiseComparator_def Slice_compare_eq)
  from comparators_shorten [OF _ _ this, of "[1, 2, 3]" "[1, 9]"] show ?thesis
    by (simp add: a_def b_def)
qed

text \<open>
  C29: The Bloom filter has no false negatives: for every policy, \<open>CreateFilter\<close> appends a filter that
  \<open>KeyMayMatch\<close> accepts for each of the keys, as long as the number of bits does not overflow
  \<open>size_t\<close>; no byte outside the filter is read or written. The policy of internal keys, which filters
  by user key, has none either.
\<close>

theorem Bloom_no_false_negatives:
  assumes "P = newBloomFilterPolicy bits_per_key k0" and "length keys * unat (policy_bits P) + 7 < 2 ^ 64"
  shows "(\<exists>filter. CreateFilter P keys dst = Some (dst @ filter) \<and> (\<forall>key\<in>set keys. KeyMayMatch key filter = Some True))
    \<and> ((\<forall>key\<in>set keys. length key \<ge> 8) \<longrightarrow>
        (\<exists>ukeys filter. Internal_CreateFilter P keys dst = Some (ukeys, dst @ filter) \<and> (\<forall>key\<in>set keys. Internal_KeyMayMatch key filter = Some True)))"
  using assms bloom.accepts [of bits_per_key k0 keys dst] ifilter.accepts [of bits_per_key k0 keys dst]
  by (auto simp: bloom_room_def)

theorem Bloom_no_false_negatives_witness:
  "\<exists>filter. CreateFilter (newBloomFilterPolicy 10 6) [[1, 2], [3]] [] = Some filter \<and> KeyMayMatch [3] filter = Some True"
proof -
  have "length [[1, 2], [3 :: u8]] * unat (policy_bits (newBloomFilterPolicy 10 6)) + 7 < 2 ^ 64"
    by (simp add: newBloomFilterPolicy_def Let_def)
  from Bloom_no_false_negatives [OF refl this, of "[]"] show ?thesis by auto
qed

end
