(* ===== verification/LDB_Batch.thy ===== *)
theory LDB_Batch
  imports LDB_Format
begin

text \<open>
  \<open>db/write_batch.cc\<close>: a batch is a string of a 12-byte header (sequence number and number of
  updates) and the encoded updates. \<open>include/leveldb/status.h\<close>: the results of fallible operations.
\<close>

section \<open>Status\<close>

text \<open>
  A status is its code and the two messages it was made from; that \<open>state_\<close> keeps them in one array
  is not modelled.
\<close>

datatype Status = OK | NotFound string string | Corruption string string | NotSupported string string
  | InvalidArgument string string | IOError string string

definition ok :: "Status \<Rightarrow> bool" where
  "ok s \<longleftrightarrow> s = OK"

section \<open>Batches\<close>

type_synonym WriteBatch = bytes

definition kHeader :: nat where
  "kHeader = 12"

text \<open>\<open>resize\<close> fills with zero bytes.\<close>

definition WriteBatch_Clear :: WriteBatch where
  "WriteBatch_Clear = replicate kHeader 0"

definition ApproximateSize :: "WriteBatch \<Rightarrow> nat" where
  "ApproximateSize b = length b"

text \<open>The count is a 32-bit signed \<open>int\<close> for the callers; incrementing the largest has no result.\<close>

definition Count :: "WriteBatch \<Rightarrow> int option" where
  "Count b = map_option sint (DecodeFixed32 (drop 8 b))"

definition int_add :: "int \<Rightarrow> int \<Rightarrow> int option" where
  "int_add a b = (if - (2 ^ 31) \<le> a + b \<and> a + b < 2 ^ 31 then Some (a + b) else None)"

text \<open>Writing \<open>bs\<close> over the string \<open>s\<close> from index \<open>i\<close> on.\<close>

definition overwrite :: "bytes \<Rightarrow> nat \<Rightarrow> bytes \<Rightarrow> bytes option" where
  "overwrite s i bs = (if i + length bs \<le> length s then Some (take i s @ bs @ drop (i + length bs) s) else None)"

definition SetCount :: "WriteBatch \<Rightarrow> int \<Rightarrow> WriteBatch option" where
  "SetCount b n = overwrite b 8 (EncodeFixed32 (word_of_int n))"

definition Sequence :: "WriteBatch \<Rightarrow> u64 option" where
  "Sequence b = DecodeFixed64 b"

definition SetSequence :: "WriteBatch \<Rightarrow> u64 \<Rightarrow> WriteBatch option" where
  "SetSequence b seq = overwrite b 0 (EncodeFixed64 seq)"

definition WriteBatch_Put :: "WriteBatch \<Rightarrow> bytes \<Rightarrow> bytes \<Rightarrow> WriteBatch option" where
  "WriteBatch_Put b key value = do {
     n \<leftarrow> Count b; n \<leftarrow> int_add n 1; rep \<leftarrow> SetCount b n;
     let rep = rep @ [ucast (type_code kTypeValue)];
     let rep = PutLengthPrefixedSlice rep key;
     Some (PutLengthPrefixedSlice rep value) }"

definition WriteBatch_Delete :: "WriteBatch \<Rightarrow> bytes \<Rightarrow> WriteBatch option" where
  "WriteBatch_Delete b key = do {
     n \<leftarrow> Count b; n \<leftarrow> int_add n 1; rep \<leftarrow> SetCount b n;
     let rep = rep @ [ucast (type_code kTypeDeletion)];
     Some (PutLengthPrefixedSlice rep key) }"

definition SetContents :: "bytes \<Rightarrow> WriteBatch option" where
  "SetContents contents = (if length contents \<ge> kHeader then Some contents else None)"

definition WriteBatchInternal_Append :: "WriteBatch \<Rightarrow> WriteBatch \<Rightarrow> WriteBatch option" where
  "WriteBatchInternal_Append dst src = do {
     n \<leftarrow> Count dst; m \<leftarrow> Count src; n \<leftarrow> int_add n m; dst \<leftarrow> SetCount dst n;
     if length src \<ge> kHeader then Some (dst @ drop kHeader src) else None }"

section \<open>Iterating over a batch\<close>

text \<open>A handler: its two virtual functions, on a state of type \<open>'h\<close>.\<close>

record 'h Handler =
  hPut :: "bytes \<Rightarrow> bytes \<Rightarrow> 'h \<Rightarrow> 'h"
  hDelete :: "bytes \<Rightarrow> 'h \<Rightarrow> 'h"

lemma GetVarint_loop_shorter: "GetVarint_loop maxs shift r p = Some (v, q) \<Longrightarrow> length q < length p"
  by (induction maxs shift r p rule: GetVarint_loop.induct) (fastforce simp: Let_def split: if_splits)+

lemma GetLengthPrefixedSlice_shorter:
  "GetLengthPrefixedSlice p = Some (s, q) \<Longrightarrow> length q < length p"
  by (auto simp: GetLengthPrefixedSlice_def GetVarint32_def GetVarint32Ptr_eq GetVarint32PtrFallback_def
      dest!: GetVarint_loop_shorter split: option.splits prod.splits if_splits)

text \<open>
  The loop of \<open>Iterate\<close>: \<open>Inl\<close> an early return, \<open>Inr\<close> the number of updates found, with the state of
  the handler; no result when \<open>found\<close> overflows.
\<close>

function Iterate_loop :: "'h Handler \<Rightarrow> bytes \<Rightarrow> int \<Rightarrow> 'h \<Rightarrow> ((Status + int) \<times> 'h) option" where
  "Iterate_loop H [] found h = Some (Inr found, h)"
| "Iterate_loop H (tag # input) found h = (case int_add found 1 of None \<Rightarrow> None | Some found \<Rightarrow>
     if ucast tag = type_code kTypeValue then
       (case GetLengthPrefixedSlice input of None \<Rightarrow> Some (Inl (Corruption ''bad WriteBatch Put'' ''''), h)
        | Some (key, input) \<Rightarrow>
          (case GetLengthPrefixedSlice input of None \<Rightarrow> Some (Inl (Corruption ''bad WriteBatch Put'' ''''), h)
           | Some (value, input) \<Rightarrow> Iterate_loop H input found (hPut H key value h)))
     else if ucast tag = type_code kTypeDeletion then
       (case GetLengthPrefixedSlice input of None \<Rightarrow> Some (Inl (Corruption ''bad WriteBatch Delete'' ''''), h)
        | Some (key, input) \<Rightarrow> Iterate_loop H input found (hDelete H key h))
     else Some (Inl (Corruption ''unknown WriteBatch tag'' ''''), h))"
  by pat_completeness auto
termination
  by (relation "measure (\<lambda>(H, input, found, h). length input)") (auto dest!: GetLengthPrefixedSlice_shorter)

definition Iterate :: "'h Handler \<Rightarrow> WriteBatch \<Rightarrow> 'h \<Rightarrow> (Status \<times> 'h) option" where
  "Iterate H b h =
     (if length b < kHeader then Some (Corruption ''malformed WriteBatch (too small)'' '''', h)
      else do {
        input \<leftarrow> Slice_remove_prefix b kHeader;
        (r, h) \<leftarrow> Iterate_loop H input 0 h;
        (case r of Inl s \<Rightarrow> Some (s, h)
         | Inr found \<Rightarrow> do { n \<leftarrow> Count b;
             Some (if found \<noteq> n then Corruption ''WriteBatch has wrong count'' '''' else OK, h) }) })"

text \<open>
  The handler that inserts into a memtable: its state is the next sequence number and the memtable,
  whose \<open>Add\<close> is an argument.
\<close>

definition MemTableInserter :: "(u64 \<Rightarrow> ValueType \<Rightarrow> bytes \<Rightarrow> bytes \<Rightarrow> 'm \<Rightarrow> 'm) \<Rightarrow> (u64 \<times> 'm) Handler" where
  "MemTableInserter Add = \<lparr>hPut = (\<lambda>key value (seq, mem). (seq + 1, Add seq kTypeValue key value mem)),
     hDelete = (\<lambda>key (seq, mem). (seq + 1, Add seq kTypeDeletion key [] mem))\<rparr>"

definition InsertInto :: "(u64 \<Rightarrow> ValueType \<Rightarrow> bytes \<Rightarrow> bytes \<Rightarrow> 'm \<Rightarrow> 'm) \<Rightarrow> WriteBatch \<Rightarrow> 'm \<Rightarrow> (Status \<times> 'm) option" where
  "InsertInto Add b mem = do {
     seq \<leftarrow> Sequence b;
     (s, (_, mem)) \<leftarrow> Iterate (MemTableInserter Add) b (seq, mem);
     Some (s, mem) }"

section \<open>What a batch holds\<close>

datatype update = Put bytes bytes | Delete bytes

primrec apply_update :: "update \<Rightarrow> WriteBatch \<Rightarrow> WriteBatch option" where
  "apply_update (Put key value) b = WriteBatch_Put b key value"
| "apply_update (Delete key) b = WriteBatch_Delete b key"

primrec apply_updates :: "update list \<Rightarrow> WriteBatch \<Rightarrow> WriteBatch option" where
  "apply_updates [] b = Some b"
| "apply_updates (u # us) b = do { b \<leftarrow> apply_update u b; apply_updates us b }"

primrec handle :: "'h Handler \<Rightarrow> update \<Rightarrow> 'h \<Rightarrow> 'h" where
  "handle H (Put key value) h = hPut H key value h"
| "handle H (Delete key) h = hDelete H key h"

primrec update_ok :: "update \<Rightarrow> bool" where
  "update_ok (Put key value) \<longleftrightarrow> length key < 2 ^ 32 \<and> length value < 2 ^ 32"
| "update_ok (Delete key) \<longleftrightarrow> length key < 2 ^ 32"

primrec encode_update :: "update \<Rightarrow> bytes" where
  "encode_update (Put key value) = 1 # PutLengthPrefixedSlice [] key @ PutLengthPrefixedSlice [] value"
| "encode_update (Delete key) = 0 # PutLengthPrefixedSlice [] key"

definition holds :: "WriteBatch \<Rightarrow> u64 \<Rightarrow> update list \<Rightarrow> bool" where
  "holds b seq us \<longleftrightarrow> (\<exists>n. b = EncodeFixed64 seq @ EncodeFixed32 n @ concat (map encode_update us)
     \<and> sint n = int (length us)) \<and> (\<forall>u\<in>set us. update_ok u)"

lemma holds_Clear: "holds WriteBatch_Clear 0 []"
  by (auto simp: holds_def WriteBatch_Clear_def kHeader_def EncodeFixed64_def EncodeFixed32_def kLittleEndian_def mem_bytes_def
      numeral_eq_Suc intro!: exI [of _ 0])

lemma holds_Count: "holds b seq us \<Longrightarrow> Count b = Some (int (length us))"
  by (auto simp: holds_def Count_def)

lemma holds_Sequence: "holds b seq us \<Longrightarrow> Sequence b = Some seq"
  by (auto simp: holds_def Sequence_def)

lemma holds_SetSequence: "holds b seq us \<Longrightarrow> \<exists>b'. SetSequence b seq' = Some b' \<and> holds b' seq' us"
  by (auto simp: holds_def SetSequence_def overwrite_def)

lemma sint_word_of_int: "0 \<le> n \<Longrightarrow> n < 2 ^ 31 \<Longrightarrow> sint (word_of_int n :: u32) = n"
  by (simp add: sint_sbintrunc' signed_take_bit_int_eq_self)

text \<open>Setting the count and appending encoded updates.\<close>

lemma holds_extend:
  assumes "holds b seq us" and "\<forall>u\<in>set vs. update_ok u" and "length us + length vs < 2 ^ 31"
  shows "\<exists>b'. SetCount b (int (length us + length vs)) = Some b' \<and> holds (b' @ concat (map encode_update vs)) seq (us @ vs)"
proof -
  obtain n where b: "b = EncodeFixed64 seq @ EncodeFixed32 n @ concat (map encode_update us)" using assms by (auto simp: holds_def)
  let ?n = "word_of_int (int (length us + length vs)) :: u32"
  have "SetCount b (int (length us + length vs)) = Some (EncodeFixed64 seq @ EncodeFixed32 ?n @ concat (map encode_update us))"
    by (simp add: SetCount_def overwrite_def b)
  moreover have "sint ?n = int (length us + length vs)" using assms(3) by (intro sint_word_of_int) auto
  ultimately show ?thesis using assms by (auto simp: holds_def)
qed

lemma holds_update:
  assumes "holds b seq us" and "update_ok u" and "length us + 1 < 2 ^ 31"
  shows "\<exists>b'. apply_update u b = Some b' \<and> holds b' seq (us @ [u])"
proof -
  obtain b' where b': "SetCount b (int (length us + length [u])) = Some b'" "holds (b' @ concat (map encode_update [u])) seq (us @ [u])"
    using holds_extend [OF assms(1), of "[u]"] assms(2,3) by auto
  have "int_add (int (length us)) 1 = Some (int (length us + length [u]))" using assms(3) by (simp add: int_add_def)
  with b' holds_Count [OF assms(1)] show ?thesis
    by (cases u) (auto simp: WriteBatch_Put_def WriteBatch_Delete_def PutLengthPrefixedSlice_def PutVarint32_def)
qed

lemma holds_updates:
  "holds b seq us \<Longrightarrow> \<forall>v\<in>set vs. update_ok v \<Longrightarrow> length us + length vs < 2 ^ 31 \<Longrightarrow>
    \<exists>b'. apply_updates vs b = Some b' \<and> holds b' seq (us @ vs)"
proof (induction vs arbitrary: b us)
  case (Cons v vs)
  then obtain b1 where "apply_update v b = Some b1" "holds b1 seq (us @ [v])" using holds_update [of b seq us v] by auto
  with Cons.IH [of b1 "us @ [v]"] Cons.prems show ?case by auto
qed simp

lemma holds_Append:
  assumes "holds b seq us" "holds c seq' vs" "length us + length vs < 2 ^ 31"
  shows "\<exists>d. WriteBatchInternal_Append b c = Some d \<and> holds d seq (us @ vs)"
proof -
  obtain n where c: "c = EncodeFixed64 seq' @ EncodeFixed32 n @ concat (map encode_update vs)" and vs: "\<forall>u\<in>set vs. update_ok u"
    using assms(2) by (auto simp: holds_def)
  obtain b' where "SetCount b (int (length us + length vs)) = Some b'" "holds (b' @ concat (map encode_update vs)) seq (us @ vs)"
    using holds_extend [OF assms(1) vs assms(3)] by blast
  moreover have "int_add (int (length us)) (int (length vs)) = Some (int (length us + length vs))" using assms(3) by (simp add: int_add_def)
  ultimately show ?thesis
    using holds_Count [OF assms(1)] holds_Count [OF assms(2)] c by (simp add: WriteBatchInternal_Append_def kHeader_def)
qed

lemma Iterate_loop_updates:
  assumes "\<forall>u\<in>set us. update_ok u" "0 \<le> found" "found + int (length us) < 2 ^ 31"
  shows "Iterate_loop H (concat (map encode_update us)) found h = Some (Inr (found + int (length us)), fold (handle H) us h)"
  using assms
proof (induction us arbitrary: found h)
  case (Cons u us)
  then have "int_add found 1 = Some (found + 1)" by (simp add: int_add_def)
  with Cons show ?case by (cases u) (simp_all add: lps_get)
qed simp

lemma holds_Iterate:
  assumes "holds b seq us" "length us < 2 ^ 31"
  shows "Iterate H b h = Some (OK, fold (handle H) us h)"
proof -
  have "Slice_remove_prefix b kHeader = Some (concat (map encode_update us))" "\<not> length b < kHeader" "\<forall>u\<in>set us. update_ok u"
    using assms(1) by (auto simp: holds_def Slice_remove_prefix_def kHeader_def)
  with assms(2) holds_Count [OF assms(1)] Iterate_loop_updates [of us 0 H h] show ?thesis
    by (simp add: Iterate_def)
qed

text \<open>The insertions of a list of updates, under consecutive sequence numbers.\<close>

primrec add_updates :: "(u64 \<Rightarrow> ValueType \<Rightarrow> bytes \<Rightarrow> bytes \<Rightarrow> 'm \<Rightarrow> 'm) \<Rightarrow> u64 \<Rightarrow> update list \<Rightarrow> 'm \<Rightarrow> 'm" where
  "add_updates Add seq [] mem = mem"
| "add_updates Add seq (u # us) mem = add_updates Add (seq + 1) us
     (case u of Put key value \<Rightarrow> Add seq kTypeValue key value mem | Delete key \<Rightarrow> Add seq kTypeDeletion key [] mem)"

lemma inserter_fold: "snd (fold (handle (MemTableInserter Add)) us (seq, mem)) = add_updates Add seq us mem"
proof (induction us arbitrary: seq mem)
  case (Cons u us)
  then show ?case by (cases u) (simp_all add: MemTableInserter_def)
qed simp

section \<open>Theorems\<close>

text \<open>
  C33: Any sequence of fewer than \<open>2^31\<close> puts and deletes, with keys and values of less than
  \<open>2^32\<close> bytes, builds a batch that counts them, that \<open>Iterate\<close> hands to every handler in the same
  order and that \<open>InsertInto\<close> adds to the memtable under consecutive sequence numbers, starting at the
  one that was set; appending a batch appends its updates.
\<close>

theorem WriteBatch_roundtrip:
  assumes "\<forall>u\<in>set us. update_ok u" "\<forall>v\<in>set vs. update_ok v" and "length us + length vs < 2 ^ 31"
  shows "\<exists>b c d e. apply_updates us WriteBatch_Clear = Some b \<and> Count b = Some (int (length us))
      \<and> Iterate H b h = Some (OK, fold (handle H) us h)
      \<and> apply_updates vs WriteBatch_Clear = Some c
      \<and> WriteBatchInternal_Append b c = Some d \<and> Iterate H d h = Some (OK, fold (handle H) (us @ vs) h)
      \<and> SetSequence d seq = Some e \<and> Sequence e = Some seq \<and> InsertInto Add e mem = Some (OK, add_updates Add seq (us @ vs) mem)"
proof -
  obtain b where b: "apply_updates us WriteBatch_Clear = Some b" "holds b 0 us"
    using holds_updates [OF holds_Clear, of us] assms by auto
  obtain c where c: "apply_updates vs WriteBatch_Clear = Some c" "holds c 0 vs"
    using holds_updates [OF holds_Clear, of vs] assms by auto
  obtain d where d: "WriteBatchInternal_Append b c = Some d" "holds d 0 (us @ vs)"
    using holds_Append [OF b(2) c(2) assms(3)] by blast
  obtain e where e: "SetSequence d seq = Some e" "holds e seq (us @ vs)" using holds_SetSequence [OF d(2)] by blast
  have n: "length us < 2 ^ 31" "length (us @ vs) < 2 ^ 31" using assms(3) by simp_all
  have "InsertInto Add e mem = Some (OK, add_updates Add seq (us @ vs) mem)"
    using inserter_fold [of Add "us @ vs" seq mem]
    by (auto simp: InsertInto_def holds_Iterate [OF e(2) n(2)] holds_Sequence [OF e(2)] split: prod.split)
  with b c d e n show ?thesis by (auto simp: holds_Count holds_Iterate holds_Sequence)
qed

theorem WriteBatch_roundtrip_witness:
  "\<exists>b. apply_updates [Put [1] [2, 3], Delete [1]] WriteBatch_Clear = Some b
    \<and> Iterate \<lparr>hPut = (\<lambda>k v h. h @ [(k, Some v)]), hDelete = (\<lambda>k h. h @ [(k, None)])\<rparr> b [] = Some (OK, [([1], Some [2, 3]), ([1], None)])"
  using WriteBatch_roundtrip [of "[Put [1] [2, 3], Delete [1]]" "[]" "\<lparr>hPut = (\<lambda>k v h. h @ [(k, Some v)]), hDelete = (\<lambda>k h. h @ [(k, None)])\<rparr>" "[]"
      0 "\<lambda>_ _ _ _ m. m" "()"]
  by auto

end
