(* ===== verification/LDB_VersionEdit.thy ===== *)
theory LDB_VersionEdit
  imports LDB_Batch "HOL-Library.Product_Lexorder"
begin

text \<open>
  \<open>db/version_edit.h\<close>, \<open>db/version_edit.cc\<close>: the changes of the set of table files that are written
  to the manifest.
\<close>

section \<open>The data\<close>

record FileMetaData =
  refs :: int
  allowed_seeks :: int
  number :: u64
  file_size :: u64
  smallest :: InternalKey
  largest :: InternalKey

text \<open>The constructor leaves \<open>number\<close> indeterminate; every user sets it at once.\<close>

definition newFileMetaData :: "u64 \<Rightarrow> u64 \<Rightarrow> InternalKey \<Rightarrow> InternalKey \<Rightarrow> FileMetaData" where
  "newFileMetaData num fsize small large = \<lparr>refs = 0, allowed_seeks = 2 ^ 30, number = num, file_size = fsize, smallest = small, largest = large\<rparr>"

record VersionEdit =
  comparator_name :: bytes
  log_number :: u64
  prev_log_number :: u64
  next_file_number :: u64
  last_sequence :: u64
  has_comparator :: bool
  has_log_number :: bool
  has_prev_log_number :: bool
  has_next_file_number :: bool
  has_last_sequence :: bool
  compact_pointers :: "(int \<times> InternalKey) list"
  deleted_files :: "(int \<times> u64) set"
  new_files :: "(int \<times> FileMetaData) list"

text \<open>\<open>Clear\<close> does not touch \<open>compact_pointers_\<close>.\<close>

definition VersionEdit_Clear :: "VersionEdit \<Rightarrow> VersionEdit" where
  "VersionEdit_Clear e = e\<lparr>comparator_name := [], log_number := 0, prev_log_number := 0, last_sequence := 0, next_file_number := 0,
     has_comparator := False, has_log_number := False, has_prev_log_number := False, has_next_file_number := False,
     has_last_sequence := False, deleted_files := {}, new_files := []\<rparr>"

definition newVersionEdit :: VersionEdit where
  "newVersionEdit = VersionEdit_Clear \<lparr>comparator_name = [], log_number = 0, prev_log_number = 0, next_file_number = 0, last_sequence = 0,
     has_comparator = False, has_log_number = False, has_prev_log_number = False, has_next_file_number = False, has_last_sequence = False,
     compact_pointers = [], deleted_files = {}, new_files = []\<rparr>"

definition SetComparatorName :: "bytes \<Rightarrow> VersionEdit \<Rightarrow> VersionEdit" where
  "SetComparatorName name e = e\<lparr>has_comparator := True, comparator_name := name\<rparr>"

definition SetLogNumber :: "u64 \<Rightarrow> VersionEdit \<Rightarrow> VersionEdit" where
  "SetLogNumber num e = e\<lparr>has_log_number := True, log_number := num\<rparr>"

definition SetPrevLogNumber :: "u64 \<Rightarrow> VersionEdit \<Rightarrow> VersionEdit" where
  "SetPrevLogNumber num e = e\<lparr>has_prev_log_number := True, prev_log_number := num\<rparr>"

definition SetNextFile :: "u64 \<Rightarrow> VersionEdit \<Rightarrow> VersionEdit" where
  "SetNextFile num e = e\<lparr>has_next_file_number := True, next_file_number := num\<rparr>"

definition SetLastSequence :: "u64 \<Rightarrow> VersionEdit \<Rightarrow> VersionEdit" where
  "SetLastSequence seq e = e\<lparr>has_last_sequence := True, last_sequence := seq\<rparr>"

definition SetCompactPointer :: "int \<Rightarrow> InternalKey \<Rightarrow> VersionEdit \<Rightarrow> VersionEdit" where
  "SetCompactPointer level key e = e\<lparr>compact_pointers := compact_pointers e @ [(level, key)]\<rparr>"

definition AddFile :: "int \<Rightarrow> u64 \<Rightarrow> u64 \<Rightarrow> InternalKey \<Rightarrow> InternalKey \<Rightarrow> VersionEdit \<Rightarrow> VersionEdit" where
  "AddFile level file fsize small large e = e\<lparr>new_files := new_files e @ [(level, newFileMetaData file fsize small large)]\<rparr>"

definition DeleteFile :: "int \<Rightarrow> u64 \<Rightarrow> VersionEdit \<Rightarrow> VersionEdit" where
  "DeleteFile level file e = e\<lparr>deleted_files := insert (level, file) (deleted_files e)\<rparr>"

section \<open>Encoding\<close>

definition kComparator :: u32 where "kComparator = 1"
definition kLogNumber :: u32 where "kLogNumber = 2"
definition kNextFileNumber :: u32 where "kNextFileNumber = 3"
definition kLastSequence :: u32 where "kLastSequence = 4"
definition kCompactPointer :: u32 where "kCompactPointer = 5"
definition kDeletedFile :: u32 where "kDeletedFile = 6"
definition kNewFile :: u32 where "kNewFile = 7"
definition kPrevLogNumber :: u32 where "kPrevLogNumber = 9"

lemmas tag_defs = kComparator_def kLogNumber_def kNextFileNumber_def kLastSequence_def kCompactPointer_def
  kDeletedFile_def kNewFile_def kPrevLogNumber_def

primrec encode_pointers :: "(int \<times> InternalKey) list \<Rightarrow> bytes \<Rightarrow> bytes option" where
  "encode_pointers [] dst = Some dst"
| "encode_pointers (p # ps) dst = (case p of (level, key) \<Rightarrow> do {
     let dst = PutVarint32 dst kCompactPointer;
     let dst = PutVarint32 dst (word_of_int level);
     k \<leftarrow> InternalKey_Encode key;
     encode_pointers ps (PutLengthPrefixedSlice dst k) })"

primrec encode_deleted :: "(int \<times> u64) list \<Rightarrow> bytes \<Rightarrow> bytes" where
  "encode_deleted [] dst = dst"
| "encode_deleted (p # ps) dst = (case p of (level, file) \<Rightarrow>
     encode_deleted ps (PutVarint64 (PutVarint32 (PutVarint32 dst kDeletedFile) (word_of_int level)) file))"

primrec encode_new :: "(int \<times> FileMetaData) list \<Rightarrow> bytes \<Rightarrow> bytes option" where
  "encode_new [] dst = Some dst"
| "encode_new (p # ps) dst = (case p of (level, f) \<Rightarrow> do {
     let dst = PutVarint32 dst kNewFile;
     let dst = PutVarint32 dst (word_of_int level);
     let dst = PutVarint64 dst (number f);
     let dst = PutVarint64 dst (file_size f);
     k \<leftarrow> InternalKey_Encode (smallest f);
     let dst = PutLengthPrefixedSlice dst k;
     k \<leftarrow> InternalKey_Encode (largest f);
     encode_new ps (PutLengthPrefixedSlice dst k) })"

text \<open>The iterator of a \<open>std::set\<close> visits its elements in ascending order.\<close>

definition EncodeTo :: "VersionEdit \<Rightarrow> bytes \<Rightarrow> bytes option" where
  "EncodeTo e dst = do {
     let dst = (if has_comparator e then PutLengthPrefixedSlice (PutVarint32 dst kComparator) (comparator_name e) else dst);
     let dst = (if has_log_number e then PutVarint64 (PutVarint32 dst kLogNumber) (log_number e) else dst);
     let dst = (if has_prev_log_number e then PutVarint64 (PutVarint32 dst kPrevLogNumber) (prev_log_number e) else dst);
     let dst = (if has_next_file_number e then PutVarint64 (PutVarint32 dst kNextFileNumber) (next_file_number e) else dst);
     let dst = (if has_last_sequence e then PutVarint64 (PutVarint32 dst kLastSequence) (last_sequence e) else dst);
     dst \<leftarrow> encode_pointers (compact_pointers e) dst;
     let dst = encode_deleted (sorted_list_of_set (deleted_files e)) dst;
     encode_new (new_files e) dst }"

section \<open>Decoding\<close>

definition kNumLevels :: int where "kNumLevels = 7"

definition GetInternalKey :: "bytes \<Rightarrow> (InternalKey \<times> bytes) option" where
  "GetInternalKey input = (case GetLengthPrefixedSlice input of Some (str, input) \<Rightarrow> Some (InternalKey_DecodeFrom str, input) | None \<Rightarrow> None)"

definition GetLevel :: "bytes \<Rightarrow> (int \<times> bytes) option" where
  "GetLevel input = (case GetVarint32 input of
       Some (v, input) \<Rightarrow> if v < word_of_int kNumLevels then Some (uint v, input) else None
     | None \<Rightarrow> None)"

text \<open>
  The \<open>switch\<close> of \<open>DecodeFrom\<close>: the message, or the new edit and the rest of the input. The members
  of the edit change only when all parts of an entry are there.
\<close>

definition orelse :: "'a option \<Rightarrow> string \<Rightarrow> string + 'a" where
  "orelse x msg = (case x of None \<Rightarrow> Inl msg | Some v \<Rightarrow> Inr v)"

definition decode_entry :: "u32 \<Rightarrow> bytes \<Rightarrow> VersionEdit \<Rightarrow> string + (VersionEdit \<times> bytes)" where
  "decode_entry tag input e =
     (if tag = kComparator then orelse (do { (str, input) \<leftarrow> GetLengthPrefixedSlice input;
        Some (e\<lparr>comparator_name := str, has_comparator := True\<rparr>, input) }) ''comparator name''
      else if tag = kLogNumber then orelse (do { (n, input) \<leftarrow> GetVarint64 input;
        Some (e\<lparr>log_number := n, has_log_number := True\<rparr>, input) }) ''log number''
      else if tag = kPrevLogNumber then orelse (do { (n, input) \<leftarrow> GetVarint64 input;
        Some (e\<lparr>prev_log_number := n, has_prev_log_number := True\<rparr>, input) }) ''previous log number''
      else if tag = kNextFileNumber then orelse (do { (n, input) \<leftarrow> GetVarint64 input;
        Some (e\<lparr>next_file_number := n, has_next_file_number := True\<rparr>, input) }) ''next file number''
      else if tag = kLastSequence then orelse (do { (n, input) \<leftarrow> GetVarint64 input;
        Some (e\<lparr>last_sequence := n, has_last_sequence := True\<rparr>, input) }) ''last sequence number''
      else if tag = kCompactPointer then orelse (do { (level, input) \<leftarrow> GetLevel input; (key, input) \<leftarrow> GetInternalKey input;
        Some (e\<lparr>compact_pointers := compact_pointers e @ [(level, key)]\<rparr>, input) }) ''compaction pointer''
      else if tag = kDeletedFile then orelse (do { (level, input) \<leftarrow> GetLevel input; (num, input) \<leftarrow> GetVarint64 input;
        Some (e\<lparr>deleted_files := insert (level, num) (deleted_files e)\<rparr>, input) }) ''deleted file''
      else if tag = kNewFile then orelse (do { (level, input) \<leftarrow> GetLevel input; (num, input) \<leftarrow> GetVarint64 input;
        (fsize, input) \<leftarrow> GetVarint64 input; (small, input) \<leftarrow> GetInternalKey input; (large, input) \<leftarrow> GetInternalKey input;
        Some (e\<lparr>new_files := new_files e @ [(level, newFileMetaData num fsize small large)]\<rparr>, input) }) ''new-file entry''
      else Inl ''unknown tag'')"

lemma Get_shorter:
  "GetVarint32 p = Some (v, q) \<Longrightarrow> length q < length p"
  "GetVarint64 p = Some (w, q) \<Longrightarrow> length q < length p"
  "GetInternalKey p = Some (k, q) \<Longrightarrow> length q < length p"
  "GetLevel p = Some (l, q) \<Longrightarrow> length q < length p"
proof -
  show v: "GetVarint32 p = Some (v, q) \<Longrightarrow> length q < length p" for v
    by (auto simp: GetVarint32_def GetVarint32Ptr_eq GetVarint32PtrFallback_def dest: GetVarint_loop_shorter split: option.splits)
  show "GetVarint64 p = Some (w, q) \<Longrightarrow> length q < length p"
    by (auto simp: GetVarint64_def GetVarint64Ptr_def dest: GetVarint_loop_shorter split: option.splits)
  show "GetInternalKey p = Some (k, q) \<Longrightarrow> length q < length p"
    by (auto simp: GetInternalKey_def dest: GetLengthPrefixedSlice_shorter split: option.splits)
  show "GetLevel p = Some (l, q) \<Longrightarrow> length q < length p"
    using v by (auto simp: GetLevel_def split: option.splits if_splits)
qed

lemma decode_entry_shorter: "decode_entry tag input e = Inr (e', rest) \<Longrightarrow> length rest < length input"
  by (auto simp: decode_entry_def orelse_def bind_eq_Some_conv dest!: Get_shorter GetLengthPrefixedSlice_shorter
      split: if_splits option.splits)

function DecodeFrom_loop :: "bytes \<Rightarrow> VersionEdit \<Rightarrow> string option \<times> bytes \<times> VersionEdit" where
  "DecodeFrom_loop input e = (case GetVarint32 input of
       None \<Rightarrow> (None, input, e)
     | Some (tag, input) \<Rightarrow> (case decode_entry tag input e of
           Inl msg \<Rightarrow> (Some msg, input, e)
         | Inr (e, input) \<Rightarrow> DecodeFrom_loop input e))"
  by pat_completeness auto
termination
  by (relation "measure (\<lambda>(input, e). length input)") (auto dest!: Get_shorter(1) decode_entry_shorter)

declare DecodeFrom_loop.simps [simp del]

definition VersionEdit_DecodeFrom :: "bytes \<Rightarrow> VersionEdit \<Rightarrow> Status \<times> VersionEdit" where
  "VersionEdit_DecodeFrom src e = (let
     (msg, input, e) = DecodeFrom_loop src (VersionEdit_Clear e);
     msg = (if msg = None \<and> input \<noteq> [] then Some ''invalid tag'' else msg) in
     (case msg of Some msg \<Rightarrow> Corruption ''VersionEdit'' msg | None \<Rightarrow> OK, e))"

section \<open>Entries are read back\<close>

lemma level_get: "0 \<le> level \<Longrightarrow> level < kNumLevels \<Longrightarrow> GetLevel (EncodeVarint32 (word_of_int level) @ rest) = Some (level, rest)"
  by (simp add: GetLevel_def kNumLevels_def word_less_alt uint_word_of_int)

definition key_ok :: "InternalKey \<Rightarrow> bool" where
  "key_ok key \<longleftrightarrow> key \<noteq> [] \<and> length key < 2 ^ 32"

lemma key_get: "key_ok key \<Longrightarrow> GetInternalKey (PutLengthPrefixedSlice [] key @ rest) = Some (key, rest)"
  by (simp add: key_ok_def GetInternalKey_def lps_get InternalKey_DecodeFrom_def)

lemma loop_entry: "decode_entry tag (bs @ rest) e = Inr (e', rest) \<Longrightarrow> DecodeFrom_loop (EncodeVarint32 tag @ bs @ rest) e = DecodeFrom_loop rest e'"
  by (simp add: DecodeFrom_loop.simps [of "EncodeVarint32 tag @ bs @ rest"])

lemmas put_appends = PutVarint32_def PutVarint64_def PutLengthPrefixedSlice_def

lemmas entry_simps = decode_entry_def orelse_def tag_defs lps_get level_get key_get

lemma loop_comparator: "length s < 2 ^ 32 \<Longrightarrow> DecodeFrom_loop (EncodeVarint32 kComparator @ PutLengthPrefixedSlice [] s @ rest) e
    = DecodeFrom_loop rest (SetComparatorName s e)"
  by (rule loop_entry) (simp add: entry_simps SetComparatorName_def)

lemma loop_numbers:
  "DecodeFrom_loop (EncodeVarint32 kLogNumber @ EncodeVarint64 n @ rest) e = DecodeFrom_loop rest (SetLogNumber n e)"
  "DecodeFrom_loop (EncodeVarint32 kPrevLogNumber @ EncodeVarint64 n @ rest) e = DecodeFrom_loop rest (SetPrevLogNumber n e)"
  "DecodeFrom_loop (EncodeVarint32 kNextFileNumber @ EncodeVarint64 n @ rest) e = DecodeFrom_loop rest (SetNextFile n e)"
  "DecodeFrom_loop (EncodeVarint32 kLastSequence @ EncodeVarint64 n @ rest) e = DecodeFrom_loop rest (SetLastSequence n e)"
  by (rule loop_entry; simp add: entry_simps SetLogNumber_def SetPrevLogNumber_def SetNextFile_def SetLastSequence_def)+

lemma loop_pointers:
  assumes "\<forall>(level, key)\<in>set ps. 0 \<le> level \<and> level < kNumLevels \<and> key_ok key"
  shows "\<exists>bs. encode_pointers ps dst = Some (dst @ bs)
    \<and> (\<forall>rest e. DecodeFrom_loop (bs @ rest) e = DecodeFrom_loop rest (e\<lparr>compact_pointers := compact_pointers e @ ps\<rparr>))"
  using assms
proof (induction ps arbitrary: dst)
  case (Cons p ps)
  obtain level key where p: "p = (level, key)" by fastforce
  let ?b = "EncodeVarint32 kCompactPointer @ EncodeVarint32 (word_of_int level) @ PutLengthPrefixedSlice [] key"
  from Cons.IH [of "dst @ ?b"] Cons.prems obtain bs where bs: "encode_pointers ps (dst @ ?b) = Some ((dst @ ?b) @ bs)"
    "\<And>rest e. DecodeFrom_loop (bs @ rest) e = DecodeFrom_loop rest (e\<lparr>compact_pointers := compact_pointers e @ ps\<rparr>)" by auto
  have "DecodeFrom_loop (?b @ rest) e = DecodeFrom_loop rest (e\<lparr>compact_pointers := compact_pointers e @ [(level, key)]\<rparr>)" for rest e
    using loop_entry [of kCompactPointer "EncodeVarint32 (word_of_int level) @ PutLengthPrefixedSlice [] key" rest] Cons.prems p
    by (simp add: entry_simps)
  with bs Cons.prems p show ?case
    by (intro exI [of _ "?b @ bs"]) (simp add: put_appends InternalKey_Encode_def key_ok_def)
qed simp

lemma loop_deleted:
  assumes "\<forall>(level, num)\<in>set ps. 0 \<le> level \<and> level < kNumLevels"
  shows "\<exists>bs. encode_deleted ps dst = dst @ bs
    \<and> (\<forall>rest e. DecodeFrom_loop (bs @ rest) e = DecodeFrom_loop rest (e\<lparr>deleted_files := set ps \<union> deleted_files e\<rparr>))"
  using assms
proof (induction ps arbitrary: dst)
  case (Cons p ps)
  obtain level num where p: "p = (level, num)" by fastforce
  let ?b = "EncodeVarint32 kDeletedFile @ EncodeVarint32 (word_of_int level) @ EncodeVarint64 num"
  from Cons.IH [of "dst @ ?b"] Cons.prems obtain bs where bs: "encode_deleted ps (dst @ ?b) = (dst @ ?b) @ bs"
    "\<And>rest e. DecodeFrom_loop (bs @ rest) e = DecodeFrom_loop rest (e\<lparr>deleted_files := set ps \<union> deleted_files e\<rparr>)" by auto
  have "DecodeFrom_loop (?b @ rest) e = DecodeFrom_loop rest (e\<lparr>deleted_files := insert (level, num) (deleted_files e)\<rparr>)" for rest e
    using loop_entry [of kDeletedFile "EncodeVarint32 (word_of_int level) @ EncodeVarint64 num" rest] Cons.prems p
    by (simp add: entry_simps)
  with bs p show ?case
    by (intro exI [of _ "?b @ bs"]) (simp add: put_appends)
qed simp

definition file_ok :: "FileMetaData \<Rightarrow> bool" where
  "file_ok f \<longleftrightarrow> refs f = 0 \<and> allowed_seeks f = 2 ^ 30 \<and> key_ok (smallest f) \<and> key_ok (largest f)"

lemma loop_new:
  assumes "\<forall>(level, f)\<in>set ps. 0 \<le> level \<and> level < kNumLevels \<and> file_ok f"
  shows "\<exists>bs. encode_new ps dst = Some (dst @ bs)
    \<and> (\<forall>rest e. DecodeFrom_loop (bs @ rest) e = DecodeFrom_loop rest (e\<lparr>new_files := new_files e @ ps\<rparr>))"
  using assms
proof (induction ps arbitrary: dst)
  case (Cons p ps)
  obtain level f where p: "p = (level, f)" by fastforce
  let ?c = "EncodeVarint32 (word_of_int level) @ EncodeVarint64 (number f) @ EncodeVarint64 (file_size f)
    @ PutLengthPrefixedSlice [] (smallest f) @ PutLengthPrefixedSlice [] (largest f)"
  let ?b = "EncodeVarint32 kNewFile @ ?c"
  from Cons.IH [of "dst @ ?b"] Cons.prems obtain bs where bs: "encode_new ps (dst @ ?b) = Some ((dst @ ?b) @ bs)"
    "\<And>rest e. DecodeFrom_loop (bs @ rest) e = DecodeFrom_loop rest (e\<lparr>new_files := new_files e @ ps\<rparr>)" by auto
  have "newFileMetaData (number f) (file_size f) (smallest f) (largest f) = f"
    using Cons.prems p by (simp add: newFileMetaData_def file_ok_def)
  then have "DecodeFrom_loop (?b @ rest) e = DecodeFrom_loop rest (e\<lparr>new_files := new_files e @ [(level, f)]\<rparr>)" for rest e
    using loop_entry [of kNewFile ?c rest] Cons.prems p by (simp add: entry_simps file_ok_def)
  with bs Cons.prems p show ?case
    by (intro exI [of _ "?b @ bs"]) (simp add: put_appends InternalKey_Encode_def key_ok_def file_ok_def)
qed simp

section \<open>Theorem\<close>

text \<open>
  The edits that are written: levels below \<open>kNumLevels\<close>, keys that are set, and members that are
  zero unless they are set, as the constructor and the setters leave them.
\<close>

definition edit_ok :: "VersionEdit \<Rightarrow> bool" where
  "edit_ok e \<longleftrightarrow> length (comparator_name e) < 2 ^ 32
     \<and> (has_comparator e \<or> comparator_name e = []) \<and> (has_log_number e \<or> log_number e = 0)
     \<and> (has_prev_log_number e \<or> prev_log_number e = 0) \<and> (has_next_file_number e \<or> next_file_number e = 0)
     \<and> (has_last_sequence e \<or> last_sequence e = 0)
     \<and> (\<forall>(level, key)\<in>set (compact_pointers e). 0 \<le> level \<and> level < kNumLevels \<and> key_ok key)
     \<and> finite (deleted_files e) \<and> (\<forall>(level, num)\<in>deleted_files e. 0 \<le> level \<and> level < kNumLevels)
     \<and> (\<forall>(level, f)\<in>set (new_files e). 0 \<le> level \<and> level < kNumLevels \<and> file_ok f)"

lemma edit_ok_new: "edit_ok newVersionEdit"
  by (simp add: edit_ok_def newVersionEdit_def VersionEdit_Clear_def)

lemma edit_ok_setters:
  assumes "edit_ok e"
  shows "length name < 2 ^ 32 \<Longrightarrow> edit_ok (SetComparatorName name e)"
    and "edit_ok (SetLogNumber num e)" "edit_ok (SetPrevLogNumber num e)" "edit_ok (SetNextFile num e)" "edit_ok (SetLastSequence num e)"
    and "0 \<le> level \<Longrightarrow> level < kNumLevels \<Longrightarrow> key_ok key \<Longrightarrow> edit_ok (SetCompactPointer level key e)"
    and "0 \<le> level \<Longrightarrow> level < kNumLevels \<Longrightarrow> edit_ok (DeleteFile level num e)"
    and "0 \<le> level \<Longrightarrow> level < kNumLevels \<Longrightarrow> key_ok small \<Longrightarrow> key_ok large \<Longrightarrow> edit_ok (AddFile level num fsize small large e)"
  using assms
  by (auto simp: edit_ok_def SetComparatorName_def SetLogNumber_def SetPrevLogNumber_def SetNextFile_def SetLastSequence_def
      SetCompactPointer_def DeleteFile_def AddFile_def file_ok_def newFileMetaData_def)

definition scalar_entries :: "VersionEdit \<Rightarrow> bytes" where
  "scalar_entries e =
     (if has_comparator e then EncodeVarint32 kComparator @ PutLengthPrefixedSlice [] (comparator_name e) else [])
     @ (if has_log_number e then EncodeVarint32 kLogNumber @ EncodeVarint64 (log_number e) else [])
     @ (if has_prev_log_number e then EncodeVarint32 kPrevLogNumber @ EncodeVarint64 (prev_log_number e) else [])
     @ (if has_next_file_number e then EncodeVarint32 kNextFileNumber @ EncodeVarint64 (next_file_number e) else [])
     @ (if has_last_sequence e then EncodeVarint32 kLastSequence @ EncodeVarint64 (last_sequence e) else [])"

lemma EncodeTo_parts:
  "EncodeTo e dst = do { dst \<leftarrow> encode_pointers (compact_pointers e) (dst @ scalar_entries e);
     encode_new (new_files e) (encode_deleted (sorted_list_of_set (deleted_files e)) dst) }"
  by (simp add: EncodeTo_def Let_def scalar_entries_def put_appends)

lemma loop_if:
  assumes "\<And>rest e. DecodeFrom_loop (bs @ rest) e = DecodeFrom_loop rest (f e)"
  shows "DecodeFrom_loop ((if c then bs else []) @ rest) e = DecodeFrom_loop rest (if c then f e else e)"
  using assms by simp

lemma loop_scalars:
  assumes "edit_ok e"
  shows "DecodeFrom_loop (scalar_entries e @ rest) (VersionEdit_Clear old)
    = DecodeFrom_loop rest (e\<lparr>compact_pointers := compact_pointers old, deleted_files := {}, new_files := []\<rparr>)"
proof -
  have "DecodeFrom_loop (scalar_entries e @ rest) (VersionEdit_Clear old) = DecodeFrom_loop rest
      ((\<lambda>x. if has_last_sequence e then SetLastSequence (last_sequence e) x else x)
       ((\<lambda>x. if has_next_file_number e then SetNextFile (next_file_number e) x else x)
        ((\<lambda>x. if has_prev_log_number e then SetPrevLogNumber (prev_log_number e) x else x)
         ((\<lambda>x. if has_log_number e then SetLogNumber (log_number e) x else x)
          ((\<lambda>x. if has_comparator e then SetComparatorName (comparator_name e) x else x) (VersionEdit_Clear old))))))"
    using assms by (simp add: scalar_entries_def edit_ok_def loop_comparator loop_numbers)
  also have "\<dots> = DecodeFrom_loop rest (e\<lparr>compact_pointers := compact_pointers old, deleted_files := {}, new_files := []\<rparr>)"
    using assms by (intro arg_cong [where f = "DecodeFrom_loop rest"] VersionEdit.equality)
      (auto simp: edit_ok_def VersionEdit_Clear_def SetComparatorName_def SetLogNumber_def SetPrevLogNumber_def SetNextFile_def SetLastSequence_def)
  finally show ?thesis .
qed

text \<open>
  C34: An edit is written without a failed assertion and is read back with all its members, into
  any other edit; only the compaction pointers of that edit stay in front of those read, since
  \<open>Clear\<close> does not remove them.
\<close>

theorem VersionEdit_roundtrip:
  assumes "edit_ok e"
  shows "\<exists>bs. EncodeTo e dst = Some (dst @ bs)
    \<and> VersionEdit_DecodeFrom bs old = (OK, e\<lparr>compact_pointers := compact_pointers old @ compact_pointers e\<rparr>)"
proof -
  obtain bs where bs: "encode_pointers (compact_pointers e) (dst @ scalar_entries e) = Some ((dst @ scalar_entries e) @ bs)"
    "\<And>rest x. DecodeFrom_loop (bs @ rest) x = DecodeFrom_loop rest (x\<lparr>compact_pointers := compact_pointers x @ compact_pointers e\<rparr>)"
    using loop_pointers [of "compact_pointers e" "dst @ scalar_entries e"] assms by (auto simp: edit_ok_def)
  obtain cs where cs: "encode_deleted (sorted_list_of_set (deleted_files e)) ((dst @ scalar_entries e) @ bs) = ((dst @ scalar_entries e) @ bs) @ cs"
    "\<And>rest x. DecodeFrom_loop (cs @ rest) x = DecodeFrom_loop rest (x\<lparr>deleted_files := deleted_files e \<union> deleted_files x\<rparr>)"
    using loop_deleted [of "sorted_list_of_set (deleted_files e)" "(dst @ scalar_entries e) @ bs"] assms by (auto simp: edit_ok_def)
  obtain ds where ds: "encode_new (new_files e) (((dst @ scalar_entries e) @ bs) @ cs) = Some ((((dst @ scalar_entries e) @ bs) @ cs) @ ds)"
    "\<And>rest x. DecodeFrom_loop (ds @ rest) x = DecodeFrom_loop rest (x\<lparr>new_files := new_files x @ new_files e\<rparr>)"
    using loop_new [of "new_files e" "((dst @ scalar_entries e) @ bs) @ cs"] assms by (auto simp: edit_ok_def)
  have enc: "EncodeTo e dst = Some (dst @ scalar_entries e @ bs @ cs @ ds)"
    using bs(1) cs(1) ds(1) by (simp add: EncodeTo_parts)
  have stop: "DecodeFrom_loop [] x = (None, [], x)" for x by (simp add: DecodeFrom_loop.simps GetVarint32_def GetVarint32Ptr_eq GetVarint32PtrFallback_def)
  have "DecodeFrom_loop (scalar_entries e @ bs @ cs @ ds) (VersionEdit_Clear old) = (None, [], e\<lparr>compact_pointers := compact_pointers old @ compact_pointers e\<rparr>)"
    using loop_scalars [OF assms] bs(2) cs(2) ds(2) [of "[]"] by (simp add: stop)
  with enc show ?thesis by (auto simp: VersionEdit_DecodeFrom_def)
qed

theorem VersionEdit_roundtrip_witness:
  "\<exists>bs. EncodeTo (AddFile 2 7 100 [1, 2] [3] (DeleteFile 1 5 (SetLogNumber 300 newVersionEdit))) [] = Some bs
    \<and> VersionEdit_DecodeFrom bs newVersionEdit = (OK, AddFile 2 7 100 [1, 2] [3] (DeleteFile 1 5 (SetLogNumber 300 newVersionEdit)))"
  (is "\<exists>bs. EncodeTo ?e [] = _ \<and> _")
proof -
  have "edit_ok ?e"
    by (intro edit_ok_setters edit_ok_new) (simp_all add: kNumLevels_def key_ok_def)
  from VersionEdit_roundtrip [OF this, of "[]" newVersionEdit] show ?thesis
    by (simp add: newVersionEdit_def VersionEdit_Clear_def AddFile_def DeleteFile_def SetLogNumber_def)
qed

end
