(* ===== verification/LDB_MemEnv.thy ===== *)
theory LDB_MemEnv
  imports LDB_Batch
begin

text \<open>
  The file interfaces of \<open>include/leveldb/env.h\<close> that the log uses, as records of their virtual
  functions and as contracts, and the files in memory of \<open>helpers/memenv/memenv.cc\<close>. The mutexes
  are not modelled: the functions run one at a time. The reference counts are in \<open>LDB_Env\<close>.
\<close>

section \<open>Interfaces\<close>

record 'w WritableFile =
  wAppend :: "bytes \<Rightarrow> 'w \<Rightarrow> (Status \<times> 'w) option"
  wFlush :: "'w \<Rightarrow> (Status \<times> 'w) option"

record 'r SequentialFile =
  sRead :: "nat \<Rightarrow> 'r \<Rightarrow> (Status \<times> bytes \<times> 'r) option"
  sSkip :: "nat \<Rightarrow> 'r \<Rightarrow> (Status \<times> 'r) option"

text \<open>A file that \<open>contains w c\<close> has the bytes \<open>c\<close>.\<close>

locale writable_file =
  fixes W :: "'w WritableFile" and contains :: "'w \<Rightarrow> bytes \<Rightarrow> bool"
  assumes append: "contains w c \<Longrightarrow> \<exists>w'. wAppend W d w = Some (OK, w') \<and> contains w' (c @ d)"
    and flush: "contains w c \<Longrightarrow> \<exists>w'. wFlush W w = Some (OK, w') \<and> contains w' c"

text \<open>A file that \<open>remains r c\<close> has the bytes \<open>c\<close> still to be read.\<close>

locale sequential_file =
  fixes F :: "'r SequentialFile" and remains :: "'r \<Rightarrow> bytes \<Rightarrow> bool"
  assumes read: "remains r c \<Longrightarrow> \<exists>r'. sRead F n r = Some (OK, take n c, r') \<and> remains r' (drop n c)"
    and skip: "remains r c \<Longrightarrow> \<exists>r'. sSkip F n r = Some (OK, r') \<and> remains r' (drop n c)"

section \<open>The state of a file in memory\<close>

text \<open>The elements of a new block are indeterminate.\<close>

record FileState =
  blocks :: "u8 option list list"
  fsize :: nat

definition newFileState :: FileState where
  "newFileState = \<lparr>blocks = [], fsize = 0\<rparr>"

definition kMemBlockSize :: nat where
  "kMemBlockSize = 8 * 1024"

definition Size :: "FileState \<Rightarrow> nat" where
  "Size fs = fsize fs"

definition Truncate :: "FileState \<Rightarrow> FileState" where
  "Truncate fs = \<lparr>blocks = [], fsize = 0\<rparr>"

text \<open>\<open>memcpy\<close> out of a block and into a block.\<close>

definition block_read :: "u8 option list \<Rightarrow> nat \<Rightarrow> nat \<Rightarrow> bytes option" where
  "block_read b i n = (if i + n \<le> length b then those (take n (drop i b)) else None)"

definition block_write :: "u8 option list \<Rightarrow> nat \<Rightarrow> bytes \<Rightarrow> u8 option list option" where
  "block_write b i d = (if i + length d \<le> length b then Some (take i b @ map Some d @ drop (i + length d) b) else None)"

function Read_loop :: "u8 option list list \<Rightarrow> nat \<Rightarrow> nat \<Rightarrow> nat \<Rightarrow> bytes option" where
  "Read_loop bs block block_offset bytes_to_copy =
     (if bytes_to_copy > 0 then
        (let avail = kMemBlockSize - block_offset;
             avail = (if avail > bytes_to_copy then bytes_to_copy else avail) in
         case (if block < length bs then block_read (bs ! block) block_offset avail else None) of
           None \<Rightarrow> None
         | Some chunk \<Rightarrow> map_option (\<lambda>rest. chunk @ rest) (Read_loop bs (block + 1) 0 (bytes_to_copy - avail)))
      else Some [])"
  by pat_completeness auto
termination
  by (relation "measures [\<lambda>(bs, block, off, n). n, \<lambda>(bs, block, off, n). off]") (auto simp: kMemBlockSize_def)

declare Read_loop.simps [simp del]

text \<open>\<open>Read\<close>: the status and, when it is OK, what \<open>*result\<close> is set to.\<close>

definition FileState_Read :: "FileState \<Rightarrow> nat \<Rightarrow> nat \<Rightarrow> (Status \<times> bytes option) option" where
  "FileState_Read fs offset n =
     (if offset > fsize fs then Some (IOError ''Offset greater than file size.'' '''', None)
      else (let available = fsize fs - offset;
                n = (if n > available then available else n) in
        if n = 0 then Some (OK, Some [])
        else do {
          result \<leftarrow> Read_loop (blocks fs) (offset div kMemBlockSize) (offset mod kMemBlockSize) n;
          Some (OK, Some result) }))"

function Append_loop :: "FileState \<Rightarrow> bytes \<Rightarrow> FileState option" where
  "Append_loop fs src =
     (if src \<noteq> [] then
        (let offset = fsize fs mod kMemBlockSize;
             bs = (if offset \<noteq> 0 then blocks fs else blocks fs @ [replicate kMemBlockSize None]);
             avail = (if offset \<noteq> 0 then kMemBlockSize - offset else kMemBlockSize);
             avail = (if avail > length src then length src else avail) in
         case (if bs = [] then None else block_write (List.last bs) offset (take avail src)) of
           None \<Rightarrow> None
         | Some b \<Rightarrow> Append_loop \<lparr>blocks = butlast bs @ [b], fsize = fsize fs + avail\<rparr> (drop avail src))
      else Some fs)"
  by pat_completeness auto
termination
proof (relation "measure (\<lambda>(fs, src). length src)")
  have "0 < kMemBlockSize - n mod kMemBlockSize" for n by (simp add: kMemBlockSize_def)
  then show "((\<lparr>blocks = butlast bs @ [b], fsize = fsize fs + avail'\<rparr>, drop avail' src), fs, src) \<in> measure (\<lambda>(fs, src). length src)"
    if "src \<noteq> []" "offset = fsize fs mod kMemBlockSize" "avail = (if offset \<noteq> 0 then kMemBlockSize - offset else kMemBlockSize)"
      "avail' = (if avail > length src then length src else avail)"
    for src offset fs avail avail' bs b
    using that by (auto simp: kMemBlockSize_def)
qed auto

declare Append_loop.simps [simp del]

definition FileState_Append :: "FileState \<Rightarrow> bytes \<Rightarrow> (Status \<times> FileState) option" where
  "FileState_Append fs data = do { fs \<leftarrow> Append_loop fs data; Some (OK, fs) }"

section \<open>The files\<close>

record SequentialFileImpl =
  sf_file :: FileState
  sf_pos :: nat

definition newSequentialFileImpl :: "FileState \<Rightarrow> SequentialFileImpl" where
  "newSequentialFileImpl file = \<lparr>sf_file = file, sf_pos = 0\<rparr>"

text \<open>An unset result is the empty slice the caller passed.\<close>

definition SequentialFileImpl_Read :: "nat \<Rightarrow> SequentialFileImpl \<Rightarrow> (Status \<times> bytes \<times> SequentialFileImpl) option" where
  "SequentialFileImpl_Read n f = do {
     (s, result) \<leftarrow> FileState_Read (sf_file f) (sf_pos f) n;
     let result = (case result of None \<Rightarrow> [] | Some r \<Rightarrow> r);
     Some (s, result, if ok s then f\<lparr>sf_pos := sf_pos f + length result\<rparr> else f) }"

definition SequentialFileImpl_Skip :: "nat \<Rightarrow> SequentialFileImpl \<Rightarrow> (Status \<times> SequentialFileImpl) option" where
  "SequentialFileImpl_Skip n f =
     (if sf_pos f > Size (sf_file f) then Some (IOError ''pos_ > file_->Size()'' '''', f)
      else (let available = Size (sf_file f) - sf_pos f;
                n = (if n > available then available else n) in
        Some (OK, f\<lparr>sf_pos := sf_pos f + n\<rparr>)))"

definition mem_sequential :: "SequentialFileImpl SequentialFile" where
  "mem_sequential = \<lparr>sRead = SequentialFileImpl_Read, sSkip = SequentialFileImpl_Skip\<rparr>"

definition RandomAccessFileImpl_Read :: "FileState \<Rightarrow> nat \<Rightarrow> nat \<Rightarrow> (Status \<times> bytes option) option" where
  "RandomAccessFileImpl_Read file offset n = FileState_Read file offset n"

definition WritableFileImpl_Append :: "bytes \<Rightarrow> FileState \<Rightarrow> (Status \<times> FileState) option" where
  "WritableFileImpl_Append data file = FileState_Append file data"

definition WritableFileImpl_Flush :: "FileState \<Rightarrow> (Status \<times> FileState) option" where
  "WritableFileImpl_Flush file = Some (OK, file)"

definition mem_writable :: "FileState WritableFile" where
  "mem_writable = \<lparr>wAppend = WritableFileImpl_Append, wFlush = WritableFileImpl_Flush\<rparr>"

section \<open>What a file in memory contains\<close>

definition file_has :: "FileState \<Rightarrow> bytes \<Rightarrow> bool" where
  "file_has fs c \<longleftrightarrow> fsize fs = length c \<and> (\<forall>b\<in>set (blocks fs). length b = kMemBlockSize)
     \<and> (\<exists>junk. concat (blocks fs) = map Some c @ junk \<and> length junk < kMemBlockSize)"

lemma those_map_Some [simp]: "those (map Some xs) = Some xs"
  by (induction xs) simp_all

lemma length_concat_equal: "\<forall>b\<in>set bs. length b = k \<Longrightarrow> length (concat bs) = length bs * k"
  by (induction bs) auto

lemma nth_concat_equal:
  "\<forall>b\<in>set bs. length b = k \<Longrightarrow> i < length bs \<Longrightarrow> bs ! i = take k (drop (i * k) (concat bs))"
proof (induction bs arbitrary: i)
  case (Cons b bs)
  then show ?case by (cases i) (auto simp: add.commute)
qed simp

lemma room_left:
  assumes "(n + j) mod k = 0" "j < (k :: nat)"
  shows "j = (if n mod k = 0 then 0 else k - n mod k)"
proof -
  have r: "n mod k < k" using assms(2) by (intro mod_less_divisor) simp
  obtain q where q: "n mod k + j = k * q" using assms(1) by (metis mod_add_left_eq mod_0_imp_dvd dvdE)
  have "n mod k + j < 2 * k" using r assms(2) by linarith
  then have "k * q < k * 2" using q by linarith
  then have "q = 0 \<or> q = 1" by (simp add: less_2_cases_iff)
  with q assms(2) show ?thesis by auto
qed

lemma file_has_new: "file_has newFileState []" "file_has (Truncate fs) []"
  by (simp_all add: file_has_def newFileState_def Truncate_def kMemBlockSize_def)

lemma block_write_last:
  assumes "length l = offset + length junk" and "n = min (length junk) (length src)"
    and "take offset l = pre" and "drop offset l = junk"
  shows "block_write l offset (take n src) = Some (pre @ map Some (take n src) @ drop n junk)"
proof -
  have "drop (offset + n) l = drop n junk" using assms(4) by (metis drop_drop add.commute)
  with assms show ?thesis by (simp add: block_write_def)
qed

text \<open>One round of the loop: the blocks it works on end in the room it then fills.\<close>

lemma append_round:
  assumes "\<forall>b\<in>set bs. length b = kMemBlockSize" "concat bs = map Some c @ junk" "0 < length junk" "length junk \<le> kMemBlockSize"
    and "n = min (length junk) (length src)"
  obtains b where "bs \<noteq> []" "block_write (List.last bs) (kMemBlockSize - length junk) (take n src) = Some b"
    "\<forall>b\<in>set (butlast bs @ [b]). length b = kMemBlockSize" "concat (butlast bs @ [b]) = map Some (c @ take n src) @ drop n junk"
proof -
  have ne: "bs \<noteq> []" using assms(2,3) by auto
  let ?l = "List.last bs" and ?off = "kMemBlockSize - length junk"
  have l: "length ?l = kMemBlockSize" using ne assms(1) by simp
  have "concat (butlast bs) @ ?l = map Some c @ junk" using ne assms(2) by (metis append_butlast_last_id concat_append concat.simps append_Nil2)
  then have split: "concat (butlast bs) @ take ?off ?l = map Some c" "drop ?off ?l = junk"
    using l assms(4) by (metis (no_types, lifting) append_assoc append_eq_append_conv append_take_drop_id diff_diff_cancel length_drop)+
  have w: "block_write ?l ?off (take n src) = Some (take ?off ?l @ map Some (take n src) @ drop n junk)"
    by (rule block_write_last [OF _ assms(5) refl split(2)]) (use l assms(4) in simp)
  show thesis
  proof (rule that [OF ne w])
    show "\<forall>b\<in>set (butlast bs @ [take ?off ?l @ map Some (take n src) @ drop n junk]). length b = kMemBlockSize"
      using assms(1,4,5) l by (auto dest: in_set_butlastD)
    show "concat (butlast bs @ [take ?off ?l @ map Some (take n src) @ drop n junk]) = map Some (c @ take n src) @ drop n junk"
      using split(1) by (simp flip: append_assoc)
  qed
qed

lemma Append_loop_spec: "file_has fs c \<Longrightarrow> \<exists>fs'. Append_loop fs src = Some fs' \<and> file_has fs' (c @ src)"
proof (induction "length src" arbitrary: fs src c rule: less_induct)
  case less
  show ?case
  proof (cases "src = []")
    case True
    then show ?thesis using less by (simp add: Append_loop.simps)
  next
    case False
    obtain junk where has: "fsize fs = length c" "\<forall>b\<in>set (blocks fs). length b = kMemBlockSize" "concat (blocks fs) = map Some c @ junk" "length junk < kMemBlockSize"
      using less(2) by (auto simp: file_has_def)
    let ?offset = "length c mod kMemBlockSize"
    let ?bs = "if ?offset \<noteq> 0 then blocks fs else blocks fs @ [replicate kMemBlockSize None]"
    let ?room = "if ?offset \<noteq> 0 then junk else replicate kMemBlockSize None"
    have "(length c + length junk) mod kMemBlockSize = 0"
      using has(3) length_concat_equal [OF has(2)] by (metis length_append length_map mod_mult_self2_is_0)
    then have junk: "length junk = (if ?offset = 0 then 0 else kMemBlockSize - ?offset)" by (rule room_left [OF _ has(4)])
    have k: "0 < kMemBlockSize" "?offset < kMemBlockSize" by (simp_all add: kMemBlockSize_def)
    define n where "n = min (length ?room) (length src)"
    obtain b where b: "?bs \<noteq> []" "block_write (List.last ?bs) (kMemBlockSize - length ?room) (take n src) = Some b"
      "\<forall>b\<in>set (butlast ?bs @ [b]). length b = kMemBlockSize" "concat (butlast ?bs @ [b]) = map Some (c @ take n src) @ drop n ?room"
    proof (rule append_round [of ?bs c ?room n src])
      show "\<forall>b\<in>set ?bs. length b = kMemBlockSize" "concat ?bs = map Some c @ ?room" using has junk by auto
      show "0 < length ?room" "length ?room \<le> kMemBlockSize" using junk k by auto
    qed (simp_all add: n_def)
    have off: "kMemBlockSize - length ?room = ?offset" using junk k by auto
    have n: "n = (if (if ?offset \<noteq> 0 then kMemBlockSize - ?offset else kMemBlockSize) > length src then length src
        else (if ?offset \<noteq> 0 then kMemBlockSize - ?offset else kMemBlockSize))" using junk by (simp add: n_def)
    let ?fs = "\<lparr>blocks = butlast ?bs @ [b], fsize = fsize fs + n\<rparr>"
    have step: "Append_loop fs src = Append_loop ?fs (drop n src)"
      using b(1,2) False unfolding off
      by (subst Append_loop.simps) (simp only: Let_def has(1) n [symmetric] option.case if_True if_False not_False_eq_True simp_thms)
    have "0 < n" using False junk k by (auto simp: n_def)
    have "file_has ?fs (c @ take n src)"
      unfolding file_has_def using b(3,4) has(1) junk k \<open>0 < n\<close> by (auto simp: n_def)
    moreover have "length (drop n src) < length src" using \<open>0 < n\<close> False by simp
    ultimately obtain fs' where "Append_loop ?fs (drop n src) = Some fs'" "file_has fs' ((c @ take n src) @ drop n src)"
      using less(1) by blast
    then show ?thesis using step by simp
  qed
qed

lemma file_has_Append: "file_has fs c \<Longrightarrow> \<exists>fs'. FileState_Append fs d = Some (OK, fs') \<and> file_has fs' (c @ d)"
  using Append_loop_spec [of fs c d] by (auto simp: FileState_Append_def)

lemma block_read_has:
  assumes "\<forall>b\<in>set bs. length b = kMemBlockSize" "concat bs = map Some c @ junk"
    and "off + n \<le> kMemBlockSize" "0 < n" "i * kMemBlockSize + off + n \<le> length c"
  shows "i < length bs \<and> block_read (bs ! i) off n = Some (take n (drop (i * kMemBlockSize + off) c))"
proof -
  have "length bs * kMemBlockSize = length c + length junk"
    using length_concat_equal [OF assms(1)] assms(2) by (metis length_append length_map)
  with assms(4,5) have "i * kMemBlockSize < length bs * kMemBlockSize" by linarith
  then have i: "i < length bs" by simp
  from nth_concat_equal [OF assms(1) i] have "bs ! i = take kMemBlockSize (drop (i * kMemBlockSize) (map Some c @ junk))"
    by (simp only: assms(2))
  then have "take n (drop off (bs ! i)) = take n (drop (i * kMemBlockSize + off) (map Some c @ junk))"
    using assms(3) by (simp only: drop_take take_take drop_drop) (simp only: min_absorb1 le_diff_conv2 add.commute add_leD1 add_le_imp_le_diff)
  also have "\<dots> = map Some (take n (drop (i * kMemBlockSize + off) c))"
    using assms(5) by (simp add: take_map drop_map)
  finally have "take n (drop off (bs ! i)) = map Some (take n (drop (i * kMemBlockSize + off) c))" .
  moreover have "length (bs ! i) = kMemBlockSize" using assms(1) i by simp
  ultimately show ?thesis using i assms(3) by (simp add: block_read_def)
qed

lemma Read_loop_spec:
  assumes "\<forall>b\<in>set bs. length b = kMemBlockSize" "concat bs = map Some c @ junk"
  shows "off < kMemBlockSize \<Longrightarrow> i * kMemBlockSize + off + n \<le> length c \<Longrightarrow> Read_loop bs i off n = Some (take n (drop (i * kMemBlockSize + off) c))"
proof (induction n arbitrary: i off rule: less_induct)
  case (less n)
  show ?case
  proof (cases "n = 0")
    case True
    then show ?thesis by (simp add: Read_loop.simps)
  next
    case False
    define m where "m = (if kMemBlockSize - off > n then n else kMemBlockSize - off)"
    have m: "0 < m" "m \<le> n" "off + m \<le> kMemBlockSize" using False less.prems by (auto simp: m_def)
    have rd: "i < length bs" "block_read (bs ! i) off m = Some (take m (drop (i * kMemBlockSize + off) c))"
      using block_read_has [OF assms m(3,1)] m(2) less.prems(2) by simp_all
    have "Read_loop bs (i + 1) 0 (n - m) = Some (take (n - m) (drop (i * kMemBlockSize + off + m) c))"
    proof (cases "n = m")
      case True
      then show ?thesis by (simp add: Read_loop.simps)
    next
      case False
      then have "(i + 1) * kMemBlockSize + 0 = i * kMemBlockSize + off + m" using m by (auto simp: m_def split: if_splits)
      moreover have "Read_loop bs (i + 1) 0 (n - m) = Some (take (n - m) (drop ((i + 1) * kMemBlockSize + 0) c))"
        by (rule less.IH) (use calculation less.prems m in \<open>auto simp: kMemBlockSize_def\<close>)
      ultimately show ?thesis by (simp only:)
    qed
    then have "Read_loop bs i off n = Some (take m (drop (i * kMemBlockSize + off) c) @ take (n - m) (drop (i * kMemBlockSize + off + m) c))"
      using False rd by (subst Read_loop.simps) (simp add: Let_def flip: m_def)
    moreover have "take m (drop k c) @ take (n - m) (drop (k + m) c) = take n (drop k c)" for k
      using m(2) by (metis le_add_diff_inverse take_add drop_drop add.commute)
    ultimately show ?thesis by (simp only:)
  qed
qed

lemma file_has_Read:
  assumes "file_has fs c" "pos \<le> length c"
  shows "FileState_Read fs pos n = Some (OK, Some (take n (drop pos c)))"
proof -
  obtain junk where has: "fsize fs = length c" "\<forall>b\<in>set (blocks fs). length b = kMemBlockSize" "concat (blocks fs) = map Some c @ junk"
    using assms(1) by (auto simp: file_has_def)
  define m where "m = (if n > length c - pos then length c - pos else n)"
  have "pos div kMemBlockSize * kMemBlockSize + pos mod kMemBlockSize = pos" by simp
  moreover have "pos mod kMemBlockSize < kMemBlockSize" by (simp add: kMemBlockSize_def)
  ultimately have "Read_loop (blocks fs) (pos div kMemBlockSize) (pos mod kMemBlockSize) m = Some (take m (drop pos c))"
    using Read_loop_spec [OF has(2,3), of "pos mod kMemBlockSize" "pos div kMemBlockSize" m] assms(2)
    by (metis m_def le_add_diff_inverse nat_add_left_cancel_le not_less order_refl)
  moreover have "take m (drop pos c) = take n (drop pos c)" by (simp add: m_def)
  ultimately show ?thesis using assms(2) has(1) by (auto simp: FileState_Read_def Let_def m_def)
qed

definition file_remains :: "SequentialFileImpl \<Rightarrow> bytes \<Rightarrow> bool" where
  "file_remains f c \<longleftrightarrow> (\<exists>pre. file_has (sf_file f) (pre @ c) \<and> sf_pos f = length pre)"

lemma file_remains_new: "file_has fs c \<Longrightarrow> file_remains (newSequentialFileImpl fs) c"
  by (auto simp: file_remains_def newSequentialFileImpl_def intro: exI [of _ "[]"])

interpretation mem_w: writable_file mem_writable file_has
  by unfold_locales (auto simp: mem_writable_def WritableFileImpl_Append_def WritableFileImpl_Flush_def file_has_Append)

interpretation mem_r: sequential_file mem_sequential file_remains
proof
  fix f c n
  assume "file_remains f c"
  then obtain pre where f: "file_has (sf_file f) (pre @ c)" "sf_pos f = length pre" by (auto simp: file_remains_def)
  have moved: "file_remains (f\<lparr>sf_pos := length pre + min n (length c)\<rparr>) (drop n c)"
    unfolding file_remains_def by (intro exI [of _ "pre @ take n c"]) (use f in \<open>auto simp: min.commute\<close>)
  from file_has_Read [OF f(1), of "length pre" n]
  show "\<exists>f'. sRead mem_sequential n f = Some (OK, take n c, f') \<and> file_remains f' (drop n c)"
    using f(2) moved by (simp add: mem_sequential_def SequentialFileImpl_Read_def ok_def min.commute)
  have "fsize (sf_file f) = length pre + length c" using f(1) by (simp add: file_has_def)
  then show "\<exists>f'. sSkip mem_sequential n f = Some (OK, f') \<and> file_remains f' (drop n c)"
    using f(2) moved by (auto simp: mem_sequential_def SequentialFileImpl_Skip_def Size_def Let_def min_def)
qed

section \<open>Theorem\<close>

primrec append_all :: "bytes list \<Rightarrow> FileState \<Rightarrow> FileState option" where
  "append_all [] fs = Some fs"
| "append_all (d # ds) fs = do { (s, fs) \<leftarrow> FileState_Append fs d; append_all ds fs }"

lemma append_all_has: "file_has fs c \<Longrightarrow> \<exists>fs'. append_all ds fs = Some fs' \<and> file_has fs' (c @ concat ds)"
proof (induction ds arbitrary: fs c)
  case (Cons d ds)
  then obtain fs1 where "FileState_Append fs d = Some (OK, fs1)" "file_has fs1 (c @ d)" using file_has_Append by blast
  with Cons.IH show ?case by fastforce
qed auto

text \<open>
  C35: A file in memory behaves as its contents: appending adds the bytes at the end, whatever the
  boundaries of the blocks, and reading at any offset returns the bytes there, cut at the end of the
  file, without leaving a block or reading a byte that was not written; an offset past the end is an
  error.
\<close>

theorem FileState_contents:
  "\<exists>fs. append_all ds newFileState = Some fs \<and> Size fs = length (concat ds)
    \<and> FileState_Read fs offset n = Some (if offset \<le> length (concat ds) then (OK, Some (take n (drop offset (concat ds))))
        else (IOError ''Offset greater than file size.'' '''', None))"
proof -
  obtain fs where fs: "append_all ds newFileState = Some fs" "file_has fs (concat ds)"
    using append_all_has [OF file_has_new(1), of ds] by auto
  then have "fsize fs = length (concat ds)" by (simp add: file_has_def)
  moreover have "FileState_Read fs offset n = Some (OK, Some (take n (drop offset (concat ds))))" if "offset \<le> length (concat ds)"
    using fs(2) that by (rule file_has_Read)
  ultimately show ?thesis using fs(1) by (auto simp: Size_def FileState_Read_def)
qed

end
