(* ===== verification/LDB_Env.thy ===== *)
theory LDB_Env
  imports LDB_MemEnv "HOL-Library.Char_ord" "HOL-Library.List_Lexorder" "HOL-Library.Multiset"
begin

text \<open>
  The file system in memory of \<open>helpers/memenv/memenv.cc\<close>: the map of names, the reference counts of the
  files and the functions of class \<open>InMemoryEnv\<close>. A use of a null pointer or of a deleted file, and a failed
  assertion, is the result \<open>None\<close>. The mutexes are not modelled: the functions run one at a time. The
  reference count has the values of an \<open>int\<close> and is taken to be in its range.
\<close>

section \<open>std::map\<close>

text \<open>A \<open>std::map\<close> as the list of its entries in the order of their keys.\<close>

type_synonym 'v smap = "(string \<times> 'v) list"

fun map_set :: "string \<Rightarrow> 'v \<Rightarrow> 'v smap \<Rightarrow> 'v smap" where
  "map_set k v [] = [(k, v)]"
| "map_set k v (e # m) = (if k < fst e then (k, v) # e # m else if k = fst e then (k, v) # m else e # map_set k v m)"

definition map_erase :: "string \<Rightarrow> 'v smap \<Rightarrow> 'v smap" where
  "map_erase k m = filter (\<lambda>e. fst e \<noteq> k) m"

definition smap_ok :: "'v smap \<Rightarrow> bool" where
  "smap_ok m \<longleftrightarrow> sorted_wrt (<) (map fst m)"

lemma smap_ok_Cons: "smap_ok (e # m) \<longleftrightarrow> (\<forall>x\<in>set m. fst e < fst x) \<and> smap_ok m"
  by (auto simp: smap_ok_def)

lemma map_of_smaller: "smap_ok m \<Longrightarrow> \<forall>x\<in>set m. k < fst x \<Longrightarrow> map_of m k = None"
  by (induction m) (auto simp: smap_ok_Cons)

lemma map_of_map_set: "smap_ok m \<Longrightarrow> map_of (map_set k v m) = (map_of m)(k \<mapsto> v)"
proof (induction m)
  case (Cons e m)
  show ?case
  proof (cases "k < fst e \<or> k = fst e")
    case True
    then show ?thesis by (cases e) (auto simp: fun_eq_iff)
  next
    case False
    then show ?thesis using Cons by (cases e) (auto simp: smap_ok_Cons fun_eq_iff)
  qed
qed (simp add: fun_eq_iff)

lemma set_map_set: "set (map_set k v m) \<subseteq> insert (k, v) (set m)"
  by (induction m) auto

lemma smap_ok_map_set: "smap_ok m \<Longrightarrow> smap_ok (map_set k v m)"
proof (induction m)
  case (Cons e m)
  then show ?case using set_map_set [of k v m] by (fastforce simp: smap_ok_Cons)
qed (simp add: smap_ok_def)

lemma map_of_map_erase: "map_of (map_erase k m) = (map_of m)(k := None)"
  by (induction m) (auto simp: map_erase_def fun_eq_iff)

lemma smap_ok_map_erase: "smap_ok m \<Longrightarrow> smap_ok (map_erase k m)"
  by (simp add: smap_ok_def map_erase_def sorted_wrt_map sorted_wrt_filter)

lemma smap_ok_names:
  assumes "smap_ok m"
  shows "map fst m = sorted_list_of_set (dom (map_of m))"
proof -
  have "sorted (map fst m)" "distinct (map fst m)"
    using assms strict_sorted_iff [of "map fst m"] by (simp_all add: smap_ok_def)
  then show ?thesis by (simp add: dom_map_of_conv_image_fst sorted_list_of_set.idem_if_sorted_distinct flip: set_map)
qed

section \<open>The environment in memory\<close>

text \<open>
  \<open>file_map\<close> maps names to pointers (0 is \<open>nullptr\<close>), \<open>files\<close> has the objects of class \<open>FileState\<close> that
  are alive, with their reference counts.
\<close>

record InMemoryEnv =
  file_map :: "nat smap"
  files :: "nat \<rightharpoonup> int \<times> FileState"
  fresh :: nat

definition newInMemoryEnv :: InMemoryEnv where
  "newInMemoryEnv = \<lparr>file_map = [], files = Map.empty, fresh = 1\<rparr>"

definition FileState_Ref :: "nat \<Rightarrow> InMemoryEnv \<Rightarrow> InMemoryEnv option" where
  "FileState_Ref a E = do { (r, fs) \<leftarrow> files E a; Some (E\<lparr>files := (files E)(a \<mapsto> (r + 1, fs))\<rparr>) }"

definition FileState_Unref :: "nat \<Rightarrow> InMemoryEnv \<Rightarrow> InMemoryEnv option" where
  "FileState_Unref a E = do {
     (r, fs) \<leftarrow> files E a;
     (if \<not> r - 1 \<ge> 0 then None
      else if r - 1 \<le> 0 then Some (E\<lparr>files := (files E)(a := None)\<rparr>)
      else Some (E\<lparr>files := (files E)(a \<mapsto> (r - 1, fs))\<rparr>)) }"

definition with_file :: "nat \<Rightarrow> (FileState \<Rightarrow> ('a \<times> FileState) option) \<Rightarrow> InMemoryEnv \<Rightarrow> ('a \<times> InMemoryEnv) option" where
  "with_file a f E = do { (r, fs) \<leftarrow> files E a; (x, fs1) \<leftarrow> f fs; Some (x, E\<lparr>files := (files E)(a \<mapsto> (r, fs1))\<rparr>) }"

text \<open>\<open>new FileState()\<close>\<close>

definition alloc_file :: "InMemoryEnv \<Rightarrow> nat \<times> InMemoryEnv" where
  "alloc_file E = (fresh E, E\<lparr>files := (files E)(fresh E \<mapsto> (0, newFileState)), fresh := fresh E + 1\<rparr>)"

definition NewSequentialFile :: "string \<Rightarrow> InMemoryEnv \<Rightarrow> (Status \<times> (nat \<times> nat) option \<times> InMemoryEnv) option" where
  "NewSequentialFile fname E = (case map_of (file_map E) fname of
      None \<Rightarrow> Some (IOError fname ''File not found'', None, E)
    | Some a \<Rightarrow> do { E1 \<leftarrow> FileState_Ref a E; Some (OK, Some (a, 0), E1) })"

definition NewRandomAccessFile :: "string \<Rightarrow> InMemoryEnv \<Rightarrow> (Status \<times> nat option \<times> InMemoryEnv) option" where
  "NewRandomAccessFile fname E = (case map_of (file_map E) fname of
      None \<Rightarrow> Some (IOError fname ''File not found'', None, E)
    | Some a \<Rightarrow> do { E1 \<leftarrow> FileState_Ref a E; Some (OK, Some a, E1) })"

definition NewWritableFile :: "string \<Rightarrow> InMemoryEnv \<Rightarrow> (Status \<times> nat \<times> InMemoryEnv) option" where
  "NewWritableFile fname E = do {
     (a, E1) \<leftarrow> (case map_of (file_map E) fname of
         None \<Rightarrow> do {
           let (a, E1) = alloc_file E;
           E2 \<leftarrow> FileState_Ref a E1;
           Some (a, E2\<lparr>file_map := map_set fname a (file_map E2)\<rparr>) }
       | Some a \<Rightarrow> do { (u, E1) \<leftarrow> with_file a (\<lambda>fs. Some ((), Truncate fs)) E; Some (a, E1) });
     E2 \<leftarrow> FileState_Ref a E1;
     Some (OK, a, E2) }"

text \<open>\<open>&file_map_[fname]\<close> puts a null pointer into the map if there was no entry.\<close>

definition NewAppendableFile :: "string \<Rightarrow> InMemoryEnv \<Rightarrow> (Status \<times> nat \<times> InMemoryEnv) option" where
  "NewAppendableFile fname E = do {
     let E1 = (case map_of (file_map E) fname of None \<Rightarrow> E\<lparr>file_map := map_set fname 0 (file_map E)\<rparr> | Some a \<Rightarrow> E);
     file \<leftarrow> map_of (file_map E1) fname;
     (a, E2) \<leftarrow> (if file = 0 then do {
           let (a, E2) = alloc_file E1;
           E3 \<leftarrow> FileState_Ref a E2;
           Some (a, E3) }
         else Some (file, E1));
     E3 \<leftarrow> FileState_Ref a E2;
     Some (OK, a, E3) }"

definition FileExists :: "string \<Rightarrow> InMemoryEnv \<Rightarrow> bool" where
  "FileExists fname E \<longleftrightarrow> map_of (file_map E) fname \<noteq> None"

definition child_name :: "string \<Rightarrow> string \<Rightarrow> string option" where
  "child_name dir filename = (if length filename \<ge> length dir + 1 \<and> filename ! length dir = CHR ''/'' \<and> take (length dir) filename = dir
     then Some (drop (length dir + 1) filename) else None)"

definition GetChildren :: "string \<Rightarrow> InMemoryEnv \<Rightarrow> Status \<times> string list" where
  "GetChildren dir E = (OK, List.map_filter (child_name dir) (map fst (file_map E)))"

definition DeleteFileInternal :: "string \<Rightarrow> InMemoryEnv \<Rightarrow> InMemoryEnv option" where
  "DeleteFileInternal fname E = (case map_of (file_map E) fname of
      None \<Rightarrow> Some E
    | Some a \<Rightarrow> do { E1 \<leftarrow> FileState_Unref a E; Some (E1\<lparr>file_map := map_erase fname (file_map E1)\<rparr>) })"

definition DeleteFile :: "string \<Rightarrow> InMemoryEnv \<Rightarrow> (Status \<times> InMemoryEnv) option" where
  "DeleteFile fname E = (if map_of (file_map E) fname = None then Some (IOError fname ''File not found'', E)
     else do { E1 \<leftarrow> DeleteFileInternal fname E; Some (OK, E1) })"

definition GetFileSize :: "string \<Rightarrow> InMemoryEnv \<Rightarrow> (Status \<times> nat option) option" where
  "GetFileSize fname E = (case map_of (file_map E) fname of
      None \<Rightarrow> Some (IOError fname ''File not found'', None)
    | Some a \<Rightarrow> do { (r, fs) \<leftarrow> files E a; Some (OK, Some (Size fs)) })"

text \<open>\<open>file_map_[src]\<close> is null when the entry has just been deleted.\<close>

definition RenameFile :: "string \<Rightarrow> string \<Rightarrow> InMemoryEnv \<Rightarrow> (Status \<times> InMemoryEnv) option" where
  "RenameFile src target E = (if map_of (file_map E) src = None then Some (IOError src ''File not found'', E)
     else do {
       E1 \<leftarrow> DeleteFileInternal target E;
       let a = (case map_of (file_map E1) src of None \<Rightarrow> 0 | Some a \<Rightarrow> a);
       Some (OK, E1\<lparr>file_map := map_erase src (map_set target a (file_map E1))\<rparr>) })"

text \<open>\<open>~InMemoryEnv\<close>\<close>

fun deleteInMemoryEnv :: "nat smap \<Rightarrow> InMemoryEnv \<Rightarrow> InMemoryEnv option" where
  "deleteInMemoryEnv [] E = Some E"
| "deleteInMemoryEnv (e # m) E = do { E1 \<leftarrow> FileState_Unref (snd e) E; deleteInMemoryEnv m E1 }"

text \<open>The virtual functions of the files, through their pointer \<open>file_\<close>.\<close>

definition seq_Read :: "nat \<Rightarrow> nat \<times> nat \<Rightarrow> InMemoryEnv \<Rightarrow> (Status \<times> bytes \<times> (nat \<times> nat)) option" where
  "seq_Read n h E = do {
     (r, fs) \<leftarrow> files E (fst h);
     (s, d, f) \<leftarrow> SequentialFileImpl_Read n \<lparr>sf_file = fs, sf_pos = snd h\<rparr>;
     Some (s, d, (fst h, sf_pos f)) }"

definition rand_Read :: "nat \<Rightarrow> nat \<Rightarrow> nat \<Rightarrow> InMemoryEnv \<Rightarrow> (Status \<times> bytes option) option" where
  "rand_Read a offset n E = do { (r, fs) \<leftarrow> files E a; RandomAccessFileImpl_Read fs offset n }"

definition wr_Append :: "nat \<Rightarrow> bytes \<Rightarrow> InMemoryEnv \<Rightarrow> (Status \<times> InMemoryEnv) option" where
  "wr_Append a d E = with_file a (WritableFileImpl_Append d) E"

section \<open>The invariant of the environment\<close>

text \<open>
  \<open>hs\<close> has the pointer of every open file object. The reference count of a file is the number of open
  objects, plus one if it has a name; it is alive as long as there is one of them.
\<close>

definition file_at :: "InMemoryEnv \<Rightarrow> nat \<rightharpoonup> FileState" where
  "file_at E a = map_option snd (files E a)"

definition env_ok :: "InMemoryEnv \<Rightarrow> nat multiset \<Rightarrow> bool" where
  "env_ok E hs \<longleftrightarrow> smap_ok (file_map E) \<and> inj_on (map_of (file_map E)) (dom (map_of (file_map E))) \<and> 0 < fresh E
     \<and> (\<forall>a. files E a = None \<longrightarrow> a \<notin># hs \<and> a \<notin> ran (map_of (file_map E)))
     \<and> (\<forall>a r fs. files E a = Some (r, fs) \<longrightarrow> 0 < a \<and> a < fresh E \<and> 0 < r
          \<and> r = int (count hs a) + (if a \<in> ran (map_of (file_map E)) then 1 else 0) \<and> (\<exists>c. file_has fs c))"

definition fs_bytes :: "FileState \<Rightarrow> bytes" where
  "fs_bytes fs = map the (take (fsize fs) (concat (blocks fs)))"

definition dir_of :: "InMemoryEnv \<Rightarrow> string \<rightharpoonup> bytes" where
  "dir_of E f = Option.bind (map_of (file_map E) f) (\<lambda>a. map_option fs_bytes (file_at E a))"

lemma fs_bytes_has: "file_has fs c \<Longrightarrow> fs_bytes fs = c"
  by (auto simp: file_has_def fs_bytes_def)

lemma env_okD:
  assumes "env_ok E hs"
  shows "smap_ok (file_map E)" "inj_on (map_of (file_map E)) (dom (map_of (file_map E)))" "0 < fresh E"
    "files E a = None \<Longrightarrow> a \<notin># hs \<and> a \<notin> ran (map_of (file_map E))"
    "files E a = Some (r, fs) \<Longrightarrow> 0 < a \<and> a < fresh E \<and> 0 < r \<and> r = int (count hs a) + (if a \<in> ran (map_of (file_map E)) then 1 else 0)
            \<and> (\<exists>c. file_has fs c)"
  using assms unfolding env_ok_def by blast+

lemma env_okI:
  assumes "smap_ok (file_map E)" "inj_on (map_of (file_map E)) (dom (map_of (file_map E)))" "0 < fresh E"
    "\<And>a. files E a = None \<Longrightarrow> a \<notin># hs \<and> a \<notin> ran (map_of (file_map E))"
    "\<And>a r fs. files E a = Some (r, fs) \<Longrightarrow> 0 < a \<and> a < fresh E \<and> 0 < r \<and> r = int (count hs a) + (if a \<in> ran (map_of (file_map E)) then 1 else 0)
            \<and> (\<exists>c. file_has fs c)"
  shows "env_ok E hs"
  using assms unfolding env_ok_def by blast

text \<open>A file with a name or an open object is alive.\<close>

lemma alive:
  assumes "env_ok E hs" and "map_of (file_map E) f = Some a \<or> a \<in># hs"
  obtains r fs c where "files E a = Some (r, fs)" "file_has fs c" "file_at E a = Some fs"
proof (cases "files E a")
  case None
  then show thesis using env_okD(4) [OF assms(1) None] assms(2) by (auto intro: ranI)
next
  case (Some x)
  then obtain r fs where x: "files E a = Some (r, fs)" by (cases x) auto
  then show thesis using env_okD(5) [OF assms(1) x] that by (auto simp: file_at_def)
qed

lemma dir_of_name:
  assumes "env_ok E hs" and "map_of (file_map E) f = Some a"
  obtains r fs where "files E a = Some (r, fs)" "file_at E a = Some fs" "file_has fs (fs_bytes fs)" "dir_of E f = Some (fs_bytes fs)"
proof -
  obtain r fs c where "files E a = Some (r, fs)" "file_has fs c" "file_at E a = Some fs"
    by (rule alive [OF assms(1), of f]) (use assms(2) in auto)
  then show thesis using that assms(2) fs_bytes_has [of fs c] by (simp add: dir_of_def)
qed

lemma dir_of_None: "env_ok E hs \<Longrightarrow> dir_of E f = None \<longleftrightarrow> map_of (file_map E) f = None"
  by (cases "map_of (file_map E) f") (auto simp: dir_of_def elim: alive)

lemma dir_of_cong: "file_map E' = file_map E \<Longrightarrow> (\<And>a. a \<in> ran (map_of (file_map E)) \<Longrightarrow> file_at E' a = file_at E a) \<Longrightarrow> dir_of E' = dir_of E"
  by (rule ext) (auto simp: dir_of_def ranI split: Option.bind_splits)

section \<open>The operations\<close>

lemma Ref_spec:
  assumes "env_ok E hs" and "files E a = Some (r, fs)"
  obtains E1 where "FileState_Ref a E = Some E1" "env_ok E1 (add_mset a hs)" "file_map E1 = file_map E"
    "\<And>b. file_at E1 b = file_at E b" "dir_of E1 = dir_of E"
proof -
  let ?E = "E\<lparr>files := (files E)(a \<mapsto> (r + 1, fs))\<rparr>"
  have at: "file_at ?E b = file_at E b" for b using assms(2) by (simp add: file_at_def)
  have "env_ok ?E (add_mset a hs)"
    by (rule env_okI) (use env_okD [OF assms(1)] assms(2) in \<open>fastforce split: if_splits\<close>)+
  then show thesis using that [of ?E] assms(2) at dir_of_cong [of ?E E] by (simp add: FileState_Ref_def)
qed

text \<open>The destructor of an open object.\<close>

lemma Unref_spec:
  assumes "env_ok E (add_mset a hs)"
  obtains E1 where "FileState_Unref a E = Some E1" "env_ok E1 hs" "file_map E1 = file_map E"
    "\<And>b. b \<in># hs \<or> b \<in> ran (map_of (file_map E)) \<Longrightarrow> file_at E1 b = file_at E b" "dir_of E1 = dir_of E"
proof -
  obtain r fs where f: "files E a = Some (r, fs)" by (rule alive [OF assms]) auto
  note d = env_okD [OF assms]
  have r: "r = int (count hs a) + 1 + (if a \<in> ran (map_of (file_map E)) then 1 else 0)" "0 < a" "a < fresh E" "\<exists>c. file_has fs c"
    using d(5) [OF f] by auto
  let ?E = "E\<lparr>files := (files E)(a := if r = 1 then None else Some (r - 1, fs))\<rparr>"
  have run: "FileState_Unref a E = Some ?E" using f r by (auto simp: FileState_Unref_def)
  have at: "file_at ?E b = file_at E b" if "b \<in># hs \<or> b \<in> ran (map_of (file_map E))" for b
  proof -
    have "b = a \<Longrightarrow> r \<noteq> 1" using that r(1) by (auto split: if_splits)
    then show ?thesis using f by (auto simp: file_at_def)
  qed
  have "env_ok ?E hs"
  proof (rule env_okI)
    show "b \<notin># hs \<and> b \<notin> ran (map_of (file_map ?E))" if "files ?E b = None" for b
      using that d(4) [of b] r(1) by (auto simp: not_in_iff split: if_splits)
    show "0 < b \<and> b < fresh ?E \<and> 0 < q \<and> q = int (count hs b) + (if b \<in> ran (map_of (file_map ?E)) then 1 else 0) \<and> (\<exists>c. file_has gs c)"
      if "files ?E b = Some (q, gs)" for b q gs
      using that d(5) [of b q gs] r by (cases "b = a") (auto split: if_splits)
  qed (use d(1-3) in simp_all)
  then show thesis using that [OF run] at dir_of_cong [of ?E E] by simp
qed

text \<open>A change of the contents of a file with a name.\<close>

lemma with_file_spec:
  assumes ok: "env_ok E hs" and f: "map_of (file_map E) f = Some a" and g: "\<And>fs c. file_has fs c \<Longrightarrow> \<exists>fs'. g fs = Some (x, fs') \<and> file_has fs' (u c)"
  obtains E1 where "with_file a g E = Some (x, E1)" "env_ok E1 hs" "file_map E1 = file_map E" "dir_of E1 = (dir_of E)(f \<mapsto> u (the (dir_of E f)))"
proof -
  obtain r fs where fs: "files E a = Some (r, fs)" "file_has fs (fs_bytes fs)" "dir_of E f = Some (fs_bytes fs)"
    by (rule dir_of_name [OF ok f])
  obtain fs' where fs': "g fs = Some (x, fs')" "file_has fs' (u (fs_bytes fs))" using g [OF fs(2)] by blast
  let ?E = "E\<lparr>files := (files E)(a \<mapsto> (r, fs'))\<rparr>"
  have "env_ok ?E hs" by (rule env_okI) (use env_okD [OF ok] fs fs'(2) in \<open>fastforce split: if_splits\<close>)+
  moreover have "dir_of ?E = (dir_of E)(f \<mapsto> u (the (dir_of E f)))"
  proof
    fix n
    have "n = f" if "map_of (file_map E) n = Some a" using inj_onD [OF env_okD(2) [OF ok], of n f] that f by auto
    then show "dir_of ?E n = ((dir_of E)(f \<mapsto> u (the (dir_of E f)))) n"
      using f fs(3) fs_bytes_has [OF fs'(2)] by (cases "map_of (file_map E) n") (auto simp: dir_of_def file_at_def)
  qed
  ultimately show thesis using that [of ?E] fs(1) fs'(1) by (simp add: with_file_def)
qed

lemma alloc_name:
  assumes ok: "env_ok E hs" and f: "map_of (file_map E) f = None" and al: "alloc_file E = (a, E1)"
  obtains E2 where "FileState_Ref a E1 = Some E2" "env_ok (E2\<lparr>file_map := map_set f a (file_map E2)\<rparr>) hs"
    "map_of (map_set f a (file_map E2)) f = Some a" "dir_of (E2\<lparr>file_map := map_set f a (file_map E2)\<rparr>) = (dir_of E)(f \<mapsto> [])"
proof -
  note d = env_okD [OF ok]
  have a: "a = fresh E" "E1 = E\<lparr>files := (files E)(a \<mapsto> (0, newFileState)), fresh := a + 1\<rparr>" using al by (auto simp: alloc_file_def)
  have new: "files E a = None" using d(5) [of a] a(1) by (cases "files E a") auto
  then have na: "a \<notin># hs" "a \<notin> ran (map_of (file_map E))" using d(4) by simp_all
  let ?E = "E\<lparr>files := (files E)(a \<mapsto> (1, newFileState)), fresh := a + 1\<rparr>"
  let ?F = "?E\<lparr>file_map := map_set f a (file_map E)\<rparr>"
  have m: "map_of (file_map ?F) = (map_of (file_map E))(f \<mapsto> a)" using map_of_map_set [OF d(1)] by simp
  have ran: "ran (map_of (file_map ?F)) = insert a (ran (map_of (file_map E)))" unfolding m using f by simp
  have run: "FileState_Ref a E1 = Some ?E" using a by (simp add: FileState_Ref_def)
  have "env_ok ?F hs"
  proof (rule env_okI)
    show "inj_on (map_of (file_map ?F)) (dom (map_of (file_map ?F)))"
      unfolding m using d(2) na(2) f by (auto simp: inj_on_def ran_def dom_def)
    show "b \<notin># hs \<and> b \<notin> ran (map_of (file_map ?F))" if "files ?F b = None" for b
      unfolding ran using that d(4) [of b] by (auto split: if_splits)
    show "0 < b \<and> b < fresh ?F \<and> 0 < q \<and> q = int (count hs b) + (if b \<in> ran (map_of (file_map ?F)) then 1 else 0) \<and> (\<exists>c. file_has gs c)"
      if "files ?F b = Some (q, gs)" for b q gs
      unfolding ran using that d(3) d(5) [of b q gs] a(1) na(1) file_has_new(1) by (cases "b = a") (auto simp: not_in_iff)
  qed (use d(1) smap_ok_map_set in auto)
  moreover have "dir_of ?F = (dir_of E)(f \<mapsto> [])"
  proof
    fix n
    show "dir_of ?F n = ((dir_of E)(f \<mapsto> [])) n"
      using na(2) fs_bytes_has [OF file_has_new(1)] unfolding dir_of_def m
      by (cases "map_of (file_map E) n") (auto simp: file_at_def ran_def)
  qed
  ultimately show thesis using that [OF run] m by simp
qed

lemma NewWritableFile_spec:
  assumes ok: "env_ok E hs"
  obtains a E1 where "NewWritableFile f E = Some (OK, a, E1)" "env_ok E1 (add_mset a hs)" "map_of (file_map E1) f = Some a"
    "dir_of E1 = (dir_of E)(f \<mapsto> [])"
proof (cases "map_of (file_map E) f")
  case None
  obtain a E1 where al: "alloc_file E = (a, E1)" by fastforce
  obtain E2 where E2: "FileState_Ref a E1 = Some E2" "env_ok (E2\<lparr>file_map := map_set f a (file_map E2)\<rparr>) hs"
    "map_of (map_set f a (file_map E2)) f = Some a" "dir_of (E2\<lparr>file_map := map_set f a (file_map E2)\<rparr>) = (dir_of E)(f \<mapsto> [])"
    by (rule alloc_name [OF ok None al])
  let ?E = "E2\<lparr>file_map := map_set f a (file_map E2)\<rparr>"
  obtain r fs where "files ?E a = Some (r, fs)" by (rule alive [OF E2(2), of f a]) (use E2(3) in auto)
  then obtain E3 where E3: "FileState_Ref a ?E = Some E3" "env_ok E3 (add_mset a hs)" "file_map E3 = file_map ?E" "dir_of E3 = dir_of ?E"
    by (rule Ref_spec [OF E2(2)])
  then show thesis using that [of a E3] None al E2 by (simp add: NewWritableFile_def)
next
  case (Some a)
  obtain E1 where E1: "with_file a (\<lambda>fs. Some ((), Truncate fs)) E = Some ((), E1)" "env_ok E1 hs" "file_map E1 = file_map E"
    "dir_of E1 = (dir_of E)(f \<mapsto> (\<lambda>c. []) (the (dir_of E f)))"
    by (rule with_file_spec [OF ok Some, of "\<lambda>fs. Some ((), Truncate fs)" "()" "\<lambda>c. []"]) (use file_has_new(2) in auto)
  obtain r fs where "files E1 a = Some (r, fs)" by (rule alive [OF E1(2), of f a]) (use E1(3) Some in auto)
  then obtain E3 where E3: "FileState_Ref a E1 = Some E3" "env_ok E3 (add_mset a hs)" "file_map E3 = file_map E1" "dir_of E3 = dir_of E1"
    by (rule Ref_spec [OF E1(2)])
  then show thesis using that [of a E3] Some E1 by (simp add: NewWritableFile_def)
qed

lemma wr_Append_spec:
  assumes ok: "env_ok E hs" and f: "map_of (file_map E) f = Some a"
  obtains E1 where "wr_Append a d E = Some (OK, E1)" "env_ok E1 hs" "file_map E1 = file_map E"
    "dir_of E1 = (dir_of E)(f \<mapsto> the (dir_of E f) @ d)"
  unfolding wr_Append_def
  by (rule with_file_spec [OF ok f, of "WritableFileImpl_Append d" OK "\<lambda>c. c @ d"])
    (use that file_has_Append in \<open>auto simp: WritableFileImpl_Append_def\<close>)

lemma seq_Read_spec:
  assumes "file_at E a = Some fs" and "file_has fs c" and "pos \<le> length c"
  shows "seq_Read n (a, pos) E = Some (OK, take n (drop pos c), (a, pos + min n (length c - pos)))"
  using assms(1) file_has_Read [OF assms(2,3), of n]
  by (auto simp: seq_Read_def file_at_def SequentialFileImpl_Read_def ok_def min.commute)

lemma DeleteFileInternal_spec:
  assumes ok: "env_ok E hs"
  obtains E1 where "DeleteFileInternal f E = Some E1" "env_ok E1 hs" "map_of (file_map E1) = (map_of (file_map E))(f := None)"
    "dir_of E1 = (dir_of E)(f := None)" "\<And>b. b \<in># hs \<Longrightarrow> file_at E1 b = file_at E b"
proof (cases "map_of (file_map E) f")
  case None
  then have "(map_of (file_map E))(f := None) = map_of (file_map E)" "(dir_of E)(f := None) = dir_of E"
    by (auto simp: fun_eq_iff dir_of_def)
  then show thesis using that [of E] ok None by (simp add: DeleteFileInternal_def)
next
  case (Some a)
  note d = env_okD [OF ok]
  obtain r fs where fs: "files E a = Some (r, fs)" by (rule alive [OF ok, of f a]) (use Some in auto)
  have r: "r = int (count hs a) + 1" "0 < a" "a < fresh E" "\<exists>c. file_has fs c" using d(5) [OF fs] Some by (auto simp: ran_def)
  let ?E = "E\<lparr>files := (files E)(a := if r = 1 then None else Some (r - 1, fs)), file_map := map_erase f (file_map E)\<rparr>"
  have cnt: "r - 1 \<ge> 0" "r - 1 \<le> 0 \<longleftrightarrow> r = 1" using r(1) by linarith+
  have run: "DeleteFileInternal f E = Some ?E"
    using Some fs cnt by (simp add: DeleteFileInternal_def FileState_Unref_def del: diff_le_0_iff_le)
  have m: "map_of (file_map ?E) = (map_of (file_map E))(f := None)" by (simp add: map_of_map_erase)
  have "a \<noteq> b" if "map_of (file_map E) n = Some b" "n \<noteq> f" for n b using inj_onD [OF d(2), of n f] that Some by auto
  then have ran: "ran (map_of (file_map ?E)) = ran (map_of (file_map E)) - {a}" unfolding m using Some by (auto simp: ran_def) (metis option.inject)
  have "env_ok ?E hs"
  proof (rule env_okI)
    show "smap_ok (file_map ?E)" using smap_ok_map_erase [OF d(1)] by simp
    show "inj_on (map_of (file_map ?E)) (dom (map_of (file_map ?E)))"
      unfolding m using d(2) by (auto simp: inj_on_def dom_def)
    show "b \<notin># hs \<and> b \<notin> ran (map_of (file_map ?E))" if "files ?E b = None" for b
      unfolding ran using that d(4) [of b] r(1) by (auto simp: not_in_iff split: if_splits)
    show "0 < b \<and> b < fresh ?E \<and> 0 < q \<and> q = int (count hs b) + (if b \<in> ran (map_of (file_map ?E)) then 1 else 0) \<and> (\<exists>c. file_has gs c)"
      if "files ?E b = Some (q, gs)" for b q gs
      unfolding ran using that d(5) [of b q gs] r by (cases "b = a") (auto split: if_splits)
  qed (use d(3) in simp)
  moreover have "dir_of ?E = (dir_of E)(f := None)"
  proof
    fix n
    show "dir_of ?E n = ((dir_of E)(f := None)) n"
      using inj_onD [OF d(2), of n f] Some unfolding dir_of_def m
      by (cases "map_of (file_map E) n") (auto simp: file_at_def)
  qed
  moreover have "file_at ?E b = file_at E b" if b: "b \<in># hs" for b
  proof -
    have "b = a \<Longrightarrow> r \<noteq> 1" using b r(1) by (auto simp flip: count_greater_zero_iff)
    then show ?thesis using fs by (auto simp: file_at_def)
  qed
  ultimately show thesis using that [OF run] m by blast
qed

lemma RenameFile_spec:
  assumes ok: "env_ok E hs" and f: "map_of (file_map E) src = Some a" and ne: "src \<noteq> target"
  obtains E1 where "RenameFile src target E = Some (OK, E1)" "env_ok E1 hs" "dir_of E1 = (dir_of E)(target := dir_of E src, src := None)"
    "\<And>b. b \<in># hs \<Longrightarrow> file_at E1 b = file_at E b"
proof -
  obtain E1 where E1: "DeleteFileInternal target E = Some E1" "env_ok E1 hs" "map_of (file_map E1) = (map_of (file_map E))(target := None)"
    "dir_of E1 = (dir_of E)(target := None)" "\<And>b. b \<in># hs \<Longrightarrow> file_at E1 b = file_at E b"
    by (rule DeleteFileInternal_spec [OF ok]) blast
  note d = env_okD [OF E1(2)]
  have a: "map_of (file_map E1) src = Some a" "map_of (file_map E1) target = None" using E1(3) f ne by simp_all
  let ?E = "E1\<lparr>file_map := map_erase src (map_set target a (file_map E1))\<rparr>"
  have m: "map_of (file_map ?E) = (map_of (file_map E1))(target \<mapsto> a, src := None)"
    using map_of_map_set [OF d(1)] by (simp add: map_of_map_erase)
  have ran: "ran (map_of (file_map ?E)) = ran (map_of (file_map E1))"
  proof (intro set_eqI iffI)
    fix b assume "b \<in> ran (map_of (file_map ?E))"
    then show "b \<in> ran (map_of (file_map E1))" unfolding m using a(1) by (auto simp: ran_def split: if_splits)
  next
    fix b assume "b \<in> ran (map_of (file_map E1))"
    then obtain n where n: "map_of (file_map E1) n = Some b" by (auto simp: ran_def)
    have "((map_of (file_map E1))(target \<mapsto> a, src := None)) (if b = a then target else n) = Some b" using n a ne by auto
    then show "b \<in> ran (map_of (file_map ?E))" unfolding m by (rule ranI)
  qed
  have "env_ok ?E hs"
  proof (rule env_okI)
    show "smap_ok (file_map ?E)" using smap_ok_map_erase [OF smap_ok_map_set [OF d(1)]] by simp
    show "inj_on (map_of (file_map ?E)) (dom (map_of (file_map ?E)))"
      unfolding m using d(2) a by (auto simp: inj_on_def dom_def)
  qed (use d(3-5) in \<open>simp_all only: ran\<close>, simp_all)
  moreover have "dir_of ?E = (dir_of E)(target := dir_of E src, src := None)"
  proof
    fix n
    have "dir_of E src = dir_of E1 src" using E1(4) ne by simp
    also have "\<dots> = map_option fs_bytes (file_at E1 a)" using a(1) by (simp add: dir_of_def)
    finally have "dir_of E src = map_option fs_bytes (file_at E1 a)" .
    then show "dir_of ?E n = ((dir_of E)(target := dir_of E src, src := None)) n"
      using fun_cong [OF E1(4), of n] ne unfolding dir_of_def m by (auto simp: file_at_def)
  qed
  ultimately show thesis using that [of ?E] E1(1,5) f a(1) by (simp add: RenameFile_def file_at_def)
qed

text \<open>Opening a file by name.\<close>

lemma file_opened:
  assumes ok: "env_ok E hs" and c: "dir_of E f = Some c"
  obtains a E1 fs where "NewSequentialFile f E = Some (OK, Some (a, 0), E1)" "env_ok E1 (add_mset a hs)" "dir_of E1 = dir_of E"
    "file_at E1 a = Some fs" "file_has fs c"
proof -
  obtain a where a: "map_of (file_map E) f = Some a" using dir_of_None [OF ok, of f] c by auto
  obtain r fs where fs: "files E a = Some (r, fs)" "file_at E a = Some fs" "file_has fs (fs_bytes fs)" "dir_of E f = Some (fs_bytes fs)"
    by (rule dir_of_name [OF ok a])
  obtain E1 where "FileState_Ref a E = Some E1" "env_ok E1 (add_mset a hs)" "\<And>b. file_at E1 b = file_at E b" "dir_of E1 = dir_of E"
    by (rule Ref_spec [OF ok fs(1)]) blast
  then show thesis using that [of a E1 fs] a fs c by (simp add: NewSequentialFile_def)
qed

text \<open>Deleting the name of a file that is open.\<close>

lemma deleted_while_open:
  assumes ok: "env_ok E hs" and f: "dir_of E f \<noteq> None"
  obtains E1 where "DeleteFile f E = Some (OK, E1)" "env_ok E1 hs" "dir_of E1 = (dir_of E)(f := None)"
    "\<And>b. b \<in># hs \<Longrightarrow> file_at E1 b = file_at E b"
proof -
  obtain E1 where "DeleteFileInternal f E = Some E1" "env_ok E1 hs" "dir_of E1 = (dir_of E)(f := None)"
    "\<And>b. b \<in># hs \<Longrightarrow> file_at E1 b = file_at E b" by (rule DeleteFileInternal_spec [OF ok]) blast
  then show thesis using that [of E1] f dir_of_None [OF ok, of f] by (simp add: DeleteFile_def)
qed

section \<open>Scripts of file operations\<close>

text \<open>
  Operations of a client, which closes each file before the next operation: writing a new file by a
  sequence of appends, reading a file from the start, and the functions of the environment.
\<close>

datatype dir_op = WriteFile string "bytes list" | ReadFile string nat | SizeOf string | ListDir string | Exists string
  | Delete string | Rename string string

datatype dir_out = Done Status | Data Status bytes | SizeIs Status "nat option" | Names "string list" | Answer bool

primrec append_each :: "nat \<Rightarrow> bytes list \<Rightarrow> InMemoryEnv \<Rightarrow> InMemoryEnv option" where
  "append_each a [] E = Some E"
| "append_each a (d # ds) E = do { (s, E1) \<leftarrow> wr_Append a d E; append_each a ds E1 }"

fun env_op :: "dir_op \<Rightarrow> InMemoryEnv \<Rightarrow> (dir_out \<times> InMemoryEnv) option" where
  "env_op (WriteFile f ds) E = do { (s, a, E1) \<leftarrow> NewWritableFile f E; E2 \<leftarrow> append_each a ds E1; E3 \<leftarrow> FileState_Unref a E2; Some (Done s, E3) }"
| "env_op (ReadFile f n) E = do {
     (s, h, E1) \<leftarrow> NewSequentialFile f E;
     (case h of None \<Rightarrow> Some (Data s [], E1)
      | Some h \<Rightarrow> do { (s, d, h) \<leftarrow> seq_Read n h E1; E2 \<leftarrow> FileState_Unref (fst h) E1; Some (Data s d, E2) }) }"
| "env_op (SizeOf f) E = do { (s, n) \<leftarrow> GetFileSize f E; Some (SizeIs s n, E) }"
| "env_op (ListDir d) E = Some (Names (snd (GetChildren d E)), E)"
| "env_op (Exists f) E = Some (Answer (FileExists f E), E)"
| "env_op (Delete f) E = do { (s, E1) \<leftarrow> DeleteFile f E; Some (Done s, E1) }"
| "env_op (Rename f g) E = do { (s, E1) \<leftarrow> RenameFile f g E; Some (Done s, E1) }"

text \<open>The same on a map from names to contents.\<close>

abbreviation not_found :: "string \<Rightarrow> Status" where
  "not_found f \<equiv> IOError f ''File not found''"

fun dir_step :: "dir_op \<Rightarrow> (string \<rightharpoonup> bytes) \<Rightarrow> dir_out \<times> (string \<rightharpoonup> bytes)" where
  "dir_step (WriteFile f ds) D = (Done OK, D(f \<mapsto> concat ds))"
| "dir_step (ReadFile f n) D = ((case D f of None \<Rightarrow> Data (not_found f) [] | Some c \<Rightarrow> Data OK (take n c)), D)"
| "dir_step (SizeOf f) D = ((case D f of None \<Rightarrow> SizeIs (not_found f) None | Some c \<Rightarrow> SizeIs OK (Some (length c))), D)"
| "dir_step (ListDir d) D = (Names (List.map_filter (child_name d) (sorted_list_of_set (dom D))), D)"
| "dir_step (Exists f) D = (Answer (D f \<noteq> None), D)"
| "dir_step (Delete f) D = (if D f = None then (Done (not_found f), D) else (Done OK, D(f := None)))"
| "dir_step (Rename f g) D = (if D f = None then (Done (not_found f), D) else (Done OK, D(g := D f, f := None)))"

fun self_rename :: "dir_op \<Rightarrow> bool" where
  "self_rename (Rename f g) = (f = g)"
| "self_rename _ = False"

primrec env_run :: "dir_op list \<Rightarrow> InMemoryEnv \<Rightarrow> (dir_out list \<times> InMemoryEnv) option" where
  "env_run [] E = Some ([], E)"
| "env_run (p # ps) E = do { (r, E1) \<leftarrow> env_op p E; (rs, E2) \<leftarrow> env_run ps E1; Some (r # rs, E2) }"

primrec dir_run :: "dir_op list \<Rightarrow> (string \<rightharpoonup> bytes) \<Rightarrow> dir_out list \<times> (string \<rightharpoonup> bytes)" where
  "dir_run [] D = ([], D)"
| "dir_run (p # ps) D = apfst ((#) (fst (dir_step p D))) (dir_run ps (snd (dir_step p D)))"

lemma append_each_spec:
  "env_ok E hs \<Longrightarrow> map_of (file_map E) f = Some a \<Longrightarrow>
    \<exists>E1. append_each a ds E = Some E1 \<and> env_ok E1 hs \<and> dir_of E1 = (dir_of E)(f \<mapsto> the (dir_of E f) @ concat ds)"
proof (induction ds arbitrary: E)
  case Nil
  then show ?case by (auto elim!: dir_of_name)
next
  case (Cons d ds)
  obtain E1 where E1: "wr_Append a d E = Some (OK, E1)" "env_ok E1 hs" "file_map E1 = file_map E"
    "dir_of E1 = (dir_of E)(f \<mapsto> the (dir_of E f) @ d)" by (rule wr_Append_spec [OF Cons.prems])
  from Cons.IH [OF E1(2)] E1 Cons.prems(2) show ?case by (auto simp: fun_upd_same simp del: fun_upd_apply)
qed

lemma write_step:
  assumes ok: "env_ok E hs"
  shows "\<exists>E'. env_op (WriteFile f ds) E = Some (Done OK, E') \<and> env_ok E' hs \<and> dir_of E' = (dir_of E)(f \<mapsto> concat ds)"
proof -
  obtain a E1 where E1: "NewWritableFile f E = Some (OK, a, E1)" "env_ok E1 (add_mset a hs)" "map_of (file_map E1) f = Some a"
    "dir_of E1 = (dir_of E)(f \<mapsto> [])" by (rule NewWritableFile_spec [OF ok])
  obtain E2 where E2: "append_each a ds E1 = Some E2" "env_ok E2 (add_mset a hs)" "dir_of E2 = (dir_of E1)(f \<mapsto> the (dir_of E1 f) @ concat ds)"
    using append_each_spec [OF E1(2,3)] by blast
  obtain E3 where "FileState_Unref a E2 = Some E3" "env_ok E3 hs" "dir_of E3 = dir_of E2" by (rule Unref_spec [OF E2(2)])
  then show ?thesis using E1 E2 by simp
qed

lemma read_step:
  assumes ok: "env_ok E hs"
  shows "\<exists>E'. env_op (ReadFile f n) E = Some (fst (dir_step (ReadFile f n) (dir_of E)), E') \<and> env_ok E' hs \<and> dir_of E' = dir_of E"
proof (cases "map_of (file_map E) f")
  case None
  then show ?thesis using ok dir_of_None [OF ok, of f] by (simp add: NewSequentialFile_def)
next
  case (Some a)
  obtain r fs where fs: "files E a = Some (r, fs)" "file_at E a = Some fs" "file_has fs (fs_bytes fs)" "dir_of E f = Some (fs_bytes fs)"
    by (rule dir_of_name [OF ok Some])
  obtain E1 where E1: "FileState_Ref a E = Some E1" "env_ok E1 (add_mset a hs)" "\<And>b. file_at E1 b = file_at E b" "dir_of E1 = dir_of E"
    by (rule Ref_spec [OF ok fs(1)]) blast
  obtain E2 where E2: "FileState_Unref a E1 = Some E2" "env_ok E2 hs" "dir_of E2 = dir_of E1" by (rule Unref_spec [OF E1(2)])
  have "seq_Read n (a, 0) E1 = Some (OK, take n (fs_bytes fs), (a, min n (length (fs_bytes fs))))"
    using seq_Read_spec [of E1 a fs "fs_bytes fs" 0 n] E1(3) fs(2,3) by simp
  then show ?thesis using Some E1 E2 fs(4) by (simp add: NewSequentialFile_def)
qed

lemma env_step:
  assumes ok: "env_ok E hs" and "\<not> self_rename p"
  shows "\<exists>E'. env_op p E = Some (fst (dir_step p (dir_of E)), E') \<and> env_ok E' hs \<and> dir_of E' = snd (dir_step p (dir_of E))"
proof (cases p)
  case (WriteFile f ds)
  then show ?thesis using write_step [OF ok, of f ds] by simp
next
  case (ReadFile f n)
  then show ?thesis using read_step [OF ok, of f n] by simp
next
  case (SizeOf f)
  show ?thesis
  proof (cases "map_of (file_map E) f")
    case None
    then show ?thesis using SizeOf ok dir_of_None [OF ok, of f] by (simp add: GetFileSize_def)
  next
    case (Some a)
    obtain r fs where "files E a = Some (r, fs)" "file_has fs (fs_bytes fs)" "dir_of E f = Some (fs_bytes fs)"
      by (rule dir_of_name [OF ok Some])
    then show ?thesis using SizeOf ok Some by (simp add: GetFileSize_def Size_def file_has_def)
  qed
next
  case (ListDir d)
  have "dom (dir_of E) = dom (map_of (file_map E))" using dir_of_None [OF ok] by (auto simp: dom_def)
  then show ?thesis using ListDir ok smap_ok_names [OF env_okD(1) [OF ok]] by (simp add: GetChildren_def)
next
  case (Exists f)
  then show ?thesis using ok dir_of_None [OF ok, of f] by (simp add: FileExists_def)
next
  case (Delete f)
  obtain E1 where "DeleteFileInternal f E = Some E1" "env_ok E1 hs" "dir_of E1 = (dir_of E)(f := None)"
    by (rule DeleteFileInternal_spec [OF ok]) blast
  then show ?thesis using Delete ok dir_of_None [OF ok, of f] by (auto simp: DeleteFile_def)
next
  case (Rename f g)
  show ?thesis
  proof (cases "map_of (file_map E) f")
    case None
    then show ?thesis using Rename ok dir_of_None [OF ok, of f] by (simp add: RenameFile_def)
  next
    case (Some a)
    obtain E1 where "RenameFile f g E = Some (OK, E1)" "env_ok E1 hs" "dir_of E1 = (dir_of E)(g := dir_of E f, f := None)"
      by (rule RenameFile_spec [OF ok Some]) (use Rename assms(2) in auto)
    then show ?thesis using Rename dir_of_None [OF ok, of f] Some by simp
  qed
qed

lemma env_run_refines:
  "env_ok E hs \<Longrightarrow> \<forall>p\<in>set ps. \<not> self_rename p \<Longrightarrow>
    \<exists>E'. env_run ps E = Some (fst (dir_run ps (dir_of E)), E') \<and> env_ok E' hs \<and> dir_of E' = snd (dir_run ps (dir_of E))"
proof (induction ps arbitrary: E)
  case (Cons p ps)
  then obtain E1 where E1: "env_op p E = Some (fst (dir_step p (dir_of E)), E1)" "env_ok E1 hs" "dir_of E1 = snd (dir_step p (dir_of E))"
    using env_step [of E hs p] by auto
  from Cons.IH [OF E1(2)] Cons.prems(2) E1 show ?case by auto
qed simp

lemma env_ok_new: "env_ok newInMemoryEnv {#}" "dir_of newInMemoryEnv = Map.empty"
  by (auto simp: env_ok_def newInMemoryEnv_def smap_ok_def dir_of_def fun_eq_iff)

text \<open>The destructor gives up the names; without open files every file dies with its name.\<close>

lemma deleteInMemoryEnv_spec:
  assumes "distinct (map snd m)" and "\<And>a. a \<in> snd ` set m \<Longrightarrow> \<exists>fs. files E a = Some (1, fs)"
  shows "\<exists>E'. deleteInMemoryEnv m E = Some E' \<and> (\<forall>a. files E' a = (if a \<in> snd ` set m then None else files E a))"
  using assms
proof (induction m arbitrary: E)
  case (Cons e m)
  obtain fs where fs: "files E (snd e) = Some (1, fs)" using Cons.prems(2) [of "snd e"] by auto
  let ?E = "E\<lparr>files := (files E)(snd e := None)\<rparr>"
  have run: "FileState_Unref (snd e) E = Some ?E" using fs by (simp add: FileState_Unref_def)
  have "\<exists>fs. files ?E a = Some (1, fs)" if a: "a \<in> snd ` set m" for a
  proof -
    have "snd e \<notin> snd ` set m" using Cons.prems(1) by simp
    with a have "a \<noteq> snd e" by blast
    then show ?thesis using a Cons.prems(2) [of a] by simp
  qed
  then obtain E' where "deleteInMemoryEnv m ?E = Some E'" "\<forall>a. files E' a = (if a \<in> snd ` set m then None else files ?E a)"
    using Cons.IH [of ?E] Cons.prems(1) by auto
  then show ?case using run by auto
qed simp

lemma env_ok_delete:
  assumes ok: "env_ok E {#}"
  obtains E' where "deleteInMemoryEnv (file_map E) E = Some E'" "files E' = Map.empty"
proof -
  note d = env_okD [OF ok]
  have dis: "distinct (map fst (file_map E))" using d(1) strict_sorted_iff [of "map fst (file_map E)"] by (simp add: smap_ok_def)
  have mem: "map_of (file_map E) f = Some a \<longleftrightarrow> (f, a) \<in> set (file_map E)" for f a using map_of_eq_Some_iff [OF dis] .
  have inj: "inj_on snd (set (file_map E))"
  proof (rule inj_onI)
    fix e e' assume e: "e \<in> set (file_map E)" "e' \<in> set (file_map E)" "snd e = snd e'"
    from e(1,2) have "map_of (file_map E) (fst e) = Some (snd e)" "map_of (file_map E) (fst e') = Some (snd e')"
      by (simp_all only: mem prod.collapse)
    then have "fst e = fst e'" using inj_onD [OF d(2), of "fst e" "fst e'"] e(3) by (auto simp: dom_def)
    then show "e = e'" using e(3) by (simp add: prod_eq_iff)
  qed
  have dv: "distinct (map snd (file_map E))" using inj dis by (simp add: distinct_map)
  have ran: "a \<in> ran (map_of (file_map E)) \<longleftrightarrow> a \<in> snd ` set (file_map E)" for a using mem by (force simp: ran_def)
  have one: "\<exists>fs. files E a = Some (1, fs)" if "a \<in> snd ` set (file_map E)" for a
    using d(4,5) [of a] that ran [of a] by (cases "files E a") auto
  obtain E' where E': "deleteInMemoryEnv (file_map E) E = Some E'" "\<forall>a. files E' a = (if a \<in> snd ` set (file_map E) then None else files E a)"
    using deleteInMemoryEnv_spec [OF dv one] by blast
  have "files E a = None" if "a \<notin> snd ` set (file_map E)" for a
    using d(5) [of a] that ran [of a] by (cases "files E a") auto
  then have "files E' = Map.empty" using E'(2) by (auto simp: fun_eq_iff)
  with that E'(1) show thesis by blast
qed

section \<open>Properties\<close>

text \<open>
  C38: The file system in memory refines a map from names to contents: every script of writing, reading,
  listing, deleting and renaming files, without the renaming of a file to its own name, returns with the
  answers of the map, error statuses included; no file object is used after it was deleted, and the
  destructor leaves none behind.
\<close>

theorem InMemoryEnv_refines_directory:
  assumes "\<forall>p\<in>set ps. \<not> self_rename p"
  shows "\<exists>E E'. env_run ps newInMemoryEnv = Some (fst (dir_run ps Map.empty), E) \<and> dir_of E = snd (dir_run ps Map.empty)
    \<and> deleteInMemoryEnv (file_map E) E = Some E' \<and> files E' = Map.empty"
proof -
  obtain E where E: "env_run ps newInMemoryEnv = Some (fst (dir_run ps Map.empty), E)" "env_ok E {#}" "dir_of E = snd (dir_run ps Map.empty)"
    using env_run_refines [OF env_ok_new(1) assms] env_ok_new(2) by auto
  show ?thesis by (rule env_ok_delete [OF E(2)]) (use E in blast)
qed

theorem InMemoryEnv_refines_directory_witness:
  "\<exists>E. env_run [WriteFile ''/d/a'' [[1, 2], [3]], Rename ''/d/a'' ''/d/b'', ReadFile ''/d/b'' 2, ReadFile ''/d/a'' 2, ListDir ''/d'', SizeOf ''/d/b''] newInMemoryEnv
    = Some ([Done OK, Done OK, Data OK [1, 2], Data (not_found ''/d/a'') [], Names [''b''], SizeIs OK (Some 3)], E)"
proof -
  let ?ps = "[WriteFile ''/d/a'' [[1, 2], [3]], Rename ''/d/a'' ''/d/b'', ReadFile ''/d/b'' 2, ReadFile ''/d/a'' 2, ListDir ''/d'', SizeOf ''/d/b'']"
  have "\<forall>p\<in>set ?ps. \<not> self_rename p" by simp
  from InMemoryEnv_refines_directory [OF this] show ?thesis
    by (auto simp: List.map_filter_def child_name_def)
qed

text \<open>
  C40: \<open>NewAppendableFile\<close> on a name without a file reports success, but leaves a null pointer in the map
  of files: what is appended is not stored under the name. Opening the name for sequential or random
  reading or for writing, asking for its size and deleting it follow the null pointer and have no
  defined result, although the name is found to exist; a second \<open>NewAppendableFile\<close> does not follow it, but
  makes one more file that is not stored.
\<close>

theorem NewAppendableFile_loses_file:
  assumes "env_ok E hs" and "map_of (file_map E) f = None"
  shows "\<exists>a E1. NewAppendableFile f E = Some (OK, a, E1) \<and> FileExists f E1 \<and> map_of (file_map E1) f = Some 0
    \<and> NewSequentialFile f E1 = None \<and> NewRandomAccessFile f E1 = None \<and> NewWritableFile f E1 = None
    \<and> GetFileSize f E1 = None \<and> DeleteFile f E1 = None
    \<and> (\<exists>b E2. NewAppendableFile f E1 = Some (OK, b, E2) \<and> b \<noteq> a \<and> map_of (file_map E2) f = Some 0)"
proof -
  note d = env_okD [OF assms(1)]
  have n0: "files E 0 = None" using d(5) [of 0] by (cases "files E 0") auto
  let ?E = "E\<lparr>file_map := map_set f 0 (file_map E), files := (files E)(fresh E \<mapsto> (2, newFileState)), fresh := fresh E + 1\<rparr>"
  have m: "map_of (map_set f 0 (file_map E)) = (map_of (file_map E))(f \<mapsto> 0)" by (rule map_of_map_set [OF d(1)])
  have "NewAppendableFile f E = Some (OK, fresh E, ?E)"
    using assms(2) m by (simp add: NewAppendableFile_def alloc_file_def FileState_Ref_def)
  moreover have "files ?E 0 = None" using n0 d(3) by simp
  moreover have "\<exists>b E2. NewAppendableFile f ?E = Some (OK, b, E2) \<and> b \<noteq> fresh E \<and> map_of (file_map E2) f = Some 0"
    using m by (simp add: NewAppendableFile_def alloc_file_def FileState_Ref_def)
  ultimately show ?thesis using m
    by (intro exI [of _ "fresh E"] exI [of _ ?E])
      (simp add: FileExists_def NewSequentialFile_def NewRandomAccessFile_def NewWritableFile_def GetFileSize_def DeleteFile_def
        DeleteFileInternal_def FileState_Ref_def FileState_Unref_def with_file_def)
qed

theorem NewAppendableFile_loses_file_witness:
  "\<exists>a E1. NewAppendableFile ''log'' newInMemoryEnv = Some (OK, a, E1) \<and> FileExists ''log'' E1 \<and> NewSequentialFile ''log'' E1 = None"
proof -
  have "map_of (file_map newInMemoryEnv) ''log'' = None" by (simp add: newInMemoryEnv_def)
  from NewAppendableFile_loses_file [OF env_ok_new(1) this] show ?thesis by blast
qed

text \<open>Renaming a file to its own name deletes it.\<close>

lemma RenameFile_onto_itself:
  assumes ok: "env_ok E hs" and f: "map_of (file_map E) f = Some a"
  shows "\<exists>E1. RenameFile f f E = Some (OK, E1) \<and> \<not> FileExists f E1"
proof -
  obtain E1 where E1: "DeleteFileInternal f E = Some E1" by (rule DeleteFileInternal_spec [OF ok])
  then show ?thesis using f by (simp add: RenameFile_def FileExists_def map_of_map_erase)
qed

end
