(* ===== verification/LDB_Log.thy ===== *)
theory LDB_Log
  imports LDB_MemEnv LDB_Crc32c
begin

text \<open>
  The log files of leveldb: \<open>db/log_format.h\<close>, \<open>db/log_writer.cc\<close> and \<open>db/log_reader.cc\<close>. A record is
  cut into fragments, none of which crosses the boundary of a block of 32768 bytes; each fragment has a
  header with a checksum, a length and a type.
\<close>

section \<open>The format\<close>

datatype RecordType = kZeroType | kFullType | kFirstType | kMiddleType | kLastType

primrec record_code :: "RecordType \<Rightarrow> nat" where
  "record_code kZeroType = 0"
| "record_code kFullType = 1"
| "record_code kFirstType = 2"
| "record_code kMiddleType = 3"
| "record_code kLastType = 4"

definition kMaxRecordType :: nat where
  "kMaxRecordType = record_code kLastType"

definition kBlockSize :: int where
  "kBlockSize = 32768"

definition kHeaderSize :: int where
  "kHeaderSize = 4 + 2 + 1"

section \<open>The writer\<close>

text \<open>
  The state of a writer; its destination has a type of its own. The checksum functions take the address
  of their argument, on which the result does not depend.
\<close>

record 'w Writer =
  dest :: 'w
  block_offset :: int
  type_crc :: "u32 list"

definition InitTypeCrc :: "u64 \<Rightarrow> u32 list option" where
  "InitTypeCrc addr = those (map (\<lambda>i. Value addr [of_nat i]) [0..<kMaxRecordType + 1])"

definition newWriter :: "u64 \<Rightarrow> 'w \<Rightarrow> 'w Writer option" where
  "newWriter addr d = do { crcs \<leftarrow> InitTypeCrc addr; Some \<lparr>dest = d, block_offset = 0, type_crc = crcs\<rparr> }"

definition newWriter_at :: "u64 \<Rightarrow> 'w \<Rightarrow> nat \<Rightarrow> 'w Writer option" where
  "newWriter_at addr d dest_length = do { crcs \<leftarrow> InitTypeCrc addr; Some \<lparr>dest = d, block_offset = int dest_length mod kBlockSize, type_crc = crcs\<rparr> }"

definition EmitPhysicalRecord :: "'w WritableFile \<Rightarrow> u64 \<Rightarrow> RecordType \<Rightarrow> bytes \<Rightarrow> 'w Writer \<Rightarrow> (Status \<times> 'w Writer) option" where
  "EmitPhysicalRecord W addr t ptr w = (let n = length ptr in
     if n \<le> 0xffff \<and> block_offset w + kHeaderSize + int n \<le> kBlockSize \<and> record_code t < length (type_crc w) then do {
       crc \<leftarrow> Extend addr (type_crc w ! record_code t) ptr;
       let crc = Mask crc;
       let buf = EncodeFixed32 crc @ [ucast (of_nat n AND 0xff :: u64), ucast (drop_bit 8 (of_nat n) :: u64), of_nat (record_code t)];
       (s, d) \<leftarrow> wAppend W buf (dest w);
       (s, d) \<leftarrow> (if ok s then do {
           (s, d) \<leftarrow> wAppend W ptr d;
           if ok s then wFlush W d else Some (s, d) }
         else Some (s, d));
       Some (s, w\<lparr>dest := d, block_offset := block_offset w + kHeaderSize + int n\<rparr>)
     } else None)"

text \<open>One round of the loop of \<open>AddRecord\<close>, with the length of the fragment it has written.\<close>

definition AddRecord_step :: "'w WritableFile \<Rightarrow> u64 \<Rightarrow> bool \<Rightarrow> bytes \<Rightarrow> 'w Writer \<Rightarrow> (Status \<times> nat \<times> 'w Writer) option" where
  "AddRecord_step W addr first ptr w = do {
     let left = length ptr;
     let leftover = kBlockSize - block_offset w;
     if leftover \<ge> 0 then do {
       w \<leftarrow> (if leftover < kHeaderSize then do {
              d \<leftarrow> (if leftover > 0 then map_option snd (wAppend W (replicate (nat leftover) 0) (dest w)) else Some (dest w));
              Some (w\<lparr>dest := d, block_offset := 0\<rparr>) }
            else Some w);
       if kBlockSize - block_offset w - kHeaderSize \<ge> 0 then do {
         let avail = nat (kBlockSize - block_offset w - kHeaderSize);
         let fragment_length = (if left < avail then left else avail);
         let fin = (left = fragment_length);
         let t = (if first \<and> fin then kFullType else if first then kFirstType else if fin then kLastType else kMiddleType);
         (s, w) \<leftarrow> EmitPhysicalRecord W addr t (take fragment_length ptr) w;
         Some (s, fragment_length, w)
       } else None
     } else None }"

lemma AddRecord_step_progress:
  assumes "AddRecord_step W addr first ptr w = Some (s, n, w')" "n < length ptr"
  shows "0 < n \<or> block_offset w < block_offset w' \<and> block_offset w < kBlockSize"
  using assms
  by (auto simp: AddRecord_step_def EmitPhysicalRecord_def Let_def bind_eq_Some_conv kHeaderSize_def kBlockSize_def split: if_splits)

function AddRecord_loop :: "'w WritableFile \<Rightarrow> u64 \<Rightarrow> bool \<Rightarrow> bytes \<Rightarrow> 'w Writer \<Rightarrow> (Status \<times> 'w Writer) option" where
  "AddRecord_loop W addr first ptr w = (case AddRecord_step W addr first ptr w of
       None \<Rightarrow> None
     | Some (s, n, w) \<Rightarrow> if ok s \<and> n < length ptr then AddRecord_loop W (addr + of_nat n) False (drop n ptr) w else Some (s, w))"
  by pat_completeness auto
termination
  by (relation "measures [\<lambda>(W, addr, first, ptr, w). length ptr, \<lambda>(W, addr, first, ptr, w). nat (kBlockSize - block_offset w)]")
    (auto dest!: AddRecord_step_progress)

declare AddRecord_loop.simps [simp del]

definition AddRecord :: "'w WritableFile \<Rightarrow> u64 \<Rightarrow> bytes \<Rightarrow> 'w Writer \<Rightarrow> (Status \<times> 'w Writer) option" where
  "AddRecord W addr payload w = AddRecord_loop W addr True payload w"

section \<open>The reader\<close>

text \<open>The calls of the reporter are recorded in order; a reader may have none (\<open>reporter\<close> false).\<close>

record 'r Reader =
  rfile :: 'r
  reporter :: bool
  reports :: "(u64 \<times> Status) list"
  checksum :: bool
  buffer :: bytes
  eof :: bool
  last_record_offset :: u64
  end_of_buffer_offset :: u64
  initial_offset :: u64
  resyncing :: bool

definition newReader :: "'r \<Rightarrow> bool \<Rightarrow> bool \<Rightarrow> u64 \<Rightarrow> 'r Reader" where
  "newReader f has_reporter check init = \<lparr>rfile = f, reporter = has_reporter, reports = [], checksum = check, buffer = [], eof = False,
     last_record_offset = 0, end_of_buffer_offset = 0, initial_offset = init, resyncing = init > 0\<rparr>"

definition kEof :: u32 where
  "kEof = of_nat (kMaxRecordType + 1)"

definition kBadRecord :: u32 where
  "kBadRecord = of_nat (kMaxRecordType + 2)"

definition ReportDrop :: "u64 \<Rightarrow> Status \<Rightarrow> 'r Reader \<Rightarrow> 'r Reader" where
  "ReportDrop n reason r =
     (if reporter r \<and> end_of_buffer_offset r - of_nat (length (buffer r)) - n \<ge> initial_offset r
      then r\<lparr>reports := reports r @ [(n, reason)]\<rparr> else r)"

definition ReportCorruption :: "u64 \<Rightarrow> string \<Rightarrow> 'r Reader \<Rightarrow> 'r Reader" where
  "ReportCorruption n reason r = ReportDrop n (Corruption reason '''') r"

definition SkipToInitialBlock :: "'r SequentialFile \<Rightarrow> 'r Reader \<Rightarrow> (bool \<times> 'r Reader) option" where
  "SkipToInitialBlock F r = (let
     offset_in_block = initial_offset r mod word_of_int kBlockSize;
     block_start_location = initial_offset r - offset_in_block;
     block_start_location = (if offset_in_block > word_of_int kBlockSize - 6 then block_start_location + word_of_int kBlockSize else block_start_location);
     r = r\<lparr>end_of_buffer_offset := block_start_location\<rparr> in
     if block_start_location > 0 then do {
       (skip_status, f) \<leftarrow> sSkip F (unat block_start_location) (rfile r);
       let r = r\<lparr>rfile := f\<rparr>;
       Some (if \<not> ok skip_status then (False, ReportDrop block_start_location skip_status r) else (True, r))
     } else Some (True, r))"

text \<open>
  \<open>ReadPhysicalRecord\<close> without its first part, which fills the buffer: the record at the start of a
  buffer with a whole header. \<open>header[6]\<close> is a \<open>char\<close>, which is signed.
\<close>

definition parse_record :: "u64 \<Rightarrow> bytes \<Rightarrow> 'r Reader \<Rightarrow> (u32 \<times> bytes \<times> 'r Reader) option" where
  "parse_record addr fragment r = do {
     let header = buffer r;
     let a = (ucast (header ! 4) :: u32) AND 0xff;
     let b = (ucast (header ! 5) :: u32) AND 0xff;
     let type = (scast (header ! 6) :: u32);
     let len = a OR push_bit 8 b;
     if nat kHeaderSize + unat len > length (buffer r) then do {
       let drop_size = length (buffer r);
       let r = r\<lparr>buffer := []\<rparr>;
       Some (if \<not> eof r then (kBadRecord, fragment, ReportCorruption (of_nat drop_size) ''bad record length'' r) else (kEof, fragment, r))
     } else if type = of_nat (record_code kZeroType) \<and> len = 0 then Some (kBadRecord, fragment, r\<lparr>buffer := []\<rparr>)
     else do {
       crc_ok \<leftarrow> (if checksum r then do {
           crc \<leftarrow> DecodeFixed32 header;
           let expected_crc = Unmask crc;
           actual_crc \<leftarrow> Value (addr + 6) (take (1 + unat len) (drop 6 header));
           Some (actual_crc = expected_crc) }
         else Some True);
       if \<not> crc_ok then do {
         let drop_size = length (buffer r);
         let r = r\<lparr>buffer := []\<rparr>;
         Some (kBadRecord, fragment, ReportCorruption (of_nat drop_size) ''checksum mismatch'' r)
       } else do {
         rest \<leftarrow> Slice_remove_prefix (buffer r) (nat kHeaderSize + unat len);
         let r = r\<lparr>buffer := rest\<rparr>;
         Some (if end_of_buffer_offset r - of_nat (length (buffer r)) - word_of_int kHeaderSize - ucast len < initial_offset r
           then (kBadRecord, [], r)
           else (type, take (unat len) (drop (nat kHeaderSize) header), r)) } } }"

text \<open>The state after the read of the next block, with whether the status was OK.\<close>

definition fill_buffer :: "'r SequentialFile \<Rightarrow> 'r Reader \<Rightarrow> (bool \<times> 'r Reader) option" where
  "fill_buffer F r = do {
     (status, buf, f) \<leftarrow> sRead F (nat kBlockSize) (rfile r);
     let r = r\<lparr>rfile := f, buffer := buf, end_of_buffer_offset := end_of_buffer_offset r + of_nat (length buf)\<rparr>;
     Some (if \<not> ok status then (False, (ReportDrop (word_of_int kBlockSize) status (r\<lparr>buffer := []\<rparr>))\<lparr>eof := True\<rparr>)
       else if length buf < nat kBlockSize then (True, r\<lparr>eof := True\<rparr>) else (True, r)) }"

lemma ReportDrop_simps [simp]: "buffer (ReportDrop n s r) = buffer r" "eof (ReportDrop n s r) = eof r" "rfile (ReportDrop n s r) = rfile r"
  by (simp_all add: ReportDrop_def)

lemma fill_buffer_progress: "fill_buffer F r = Some (b, r') \<Longrightarrow> eof r' \<or> \<not> length (buffer r') < nat kHeaderSize"
  by (auto simp: fill_buffer_def Let_def bind_eq_Some_conv kHeaderSize_def kBlockSize_def split: if_splits)

function ReadPhysicalRecord :: "'r SequentialFile \<Rightarrow> u64 \<Rightarrow> bytes \<Rightarrow> 'r Reader \<Rightarrow> (u32 \<times> bytes \<times> 'r Reader) option" where
  "ReadPhysicalRecord F addr fragment r =
     (if length (buffer r) < nat kHeaderSize then
        (if \<not> eof r then
           (case fill_buffer F r of None \<Rightarrow> None
            | Some (status_ok, r') \<Rightarrow> if \<not> status_ok then Some (kEof, fragment, r') else ReadPhysicalRecord F addr fragment r')
         else Some (kEof, fragment, r\<lparr>buffer := []\<rparr>))
      else parse_record addr fragment r)"
  by pat_completeness auto
termination
  by (relation "measure (\<lambda>(F, addr, fragment, r). if length (buffer r) < nat kHeaderSize \<and> \<not> eof r then 1 else 0)")
    (auto dest: fill_buffer_progress)

declare ReadPhysicalRecord.simps [simp del]

text \<open>The decimal digits of \<open>%u\<close>.\<close>

fun decimal :: "nat \<Rightarrow> string" where
  "decimal n = (if n < 10 then [char_of (48 + n)] else decimal (n div 10) @ [char_of (48 + n mod 10)])"

declare decimal.simps [simp del]

text \<open>
  The body of the loop of \<open>ReadRecord\<close> after the call of \<open>ReadPhysicalRecord\<close>: \<open>Inl\<close> a return, with the
  record or \<open>None\<close> for the result false, or \<open>Inr\<close> the variables for the next round.
\<close>

definition handle_record :: "u32 \<Rightarrow> bytes \<Rightarrow> bytes \<Rightarrow> bool \<Rightarrow> u64 \<Rightarrow> 'r Reader
    \<Rightarrow> (bytes option \<times> 'r Reader) + (bytes \<times> bool \<times> u64 \<times> 'r Reader)" where
  "handle_record record_type fragment scratch in_fragmented_record prospective_record_offset r =
     (let physical_record_offset = end_of_buffer_offset r - of_nat (length (buffer r)) - word_of_int kHeaderSize - of_nat (length fragment) in
      if resyncing r \<and> record_type = of_nat (record_code kMiddleType) then
        Inr (scratch, in_fragmented_record, prospective_record_offset, r)
      else if resyncing r \<and> record_type = of_nat (record_code kLastType) then
        Inr (scratch, in_fragmented_record, prospective_record_offset, r\<lparr>resyncing := False\<rparr>)
      else let r = r\<lparr>resyncing := False\<rparr> in
      if record_type = of_nat (record_code kFullType) then
        (let r = (if in_fragmented_record \<and> scratch \<noteq> [] then ReportCorruption (of_nat (length scratch)) ''partial record without end(1)'' r else r) in
         Inl (Some fragment, r\<lparr>last_record_offset := physical_record_offset\<rparr>))
      else if record_type = of_nat (record_code kFirstType) then
        (let r = (if in_fragmented_record \<and> scratch \<noteq> [] then ReportCorruption (of_nat (length scratch)) ''partial record without end(2)'' r else r) in
         Inr (fragment, True, physical_record_offset, r))
      else if record_type = of_nat (record_code kMiddleType) then
        (if \<not> in_fragmented_record then
           Inr (scratch, in_fragmented_record, prospective_record_offset,
             ReportCorruption (of_nat (length fragment)) ''missing start of fragmented record(1)'' r)
         else Inr (scratch @ fragment, in_fragmented_record, prospective_record_offset, r))
      else if record_type = of_nat (record_code kLastType) then
        (if \<not> in_fragmented_record then
           Inr (scratch, in_fragmented_record, prospective_record_offset,
             ReportCorruption (of_nat (length fragment)) ''missing start of fragmented record(2)'' r)
         else Inl (Some (scratch @ fragment), r\<lparr>last_record_offset := prospective_record_offset\<rparr>))
      else if record_type = kEof then Inl (None, r)
      else if record_type = kBadRecord then
        (if in_fragmented_record then
           Inr ([], False, prospective_record_offset, ReportCorruption (of_nat (length scratch)) ''error in middle of record'' r)
         else Inr (scratch, in_fragmented_record, prospective_record_offset, r))
      else Inr ([], False, prospective_record_offset,
             ReportCorruption (of_nat (length fragment + (if in_fragmented_record then length scratch else 0)))
               (''unknown record type '' @ decimal (unat record_type)) r))"

text \<open>The loop may run forever on a file that has no end.\<close>

partial_function (option) ReadRecord_loop ::
    "'r SequentialFile \<Rightarrow> u64 \<Rightarrow> bytes \<Rightarrow> bytes \<Rightarrow> bool \<Rightarrow> u64 \<Rightarrow> 'r Reader \<Rightarrow> (bytes option \<times> 'r Reader) option" where
  "ReadRecord_loop F addr fragment scratch in_fragmented_record prospective_record_offset r =
     (case ReadPhysicalRecord F addr fragment r of None \<Rightarrow> None
      | Some (record_type, fragment, r) \<Rightarrow>
          (case handle_record record_type fragment scratch in_fragmented_record prospective_record_offset r of
             Inl result \<Rightarrow> Some result
           | Inr (scratch, in_fragmented_record, prospective_record_offset, r) \<Rightarrow>
               ReadRecord_loop F addr fragment scratch in_fragmented_record prospective_record_offset r))"

definition ReadRecord :: "'r SequentialFile \<Rightarrow> u64 \<Rightarrow> 'r Reader \<Rightarrow> (bytes option \<times> 'r Reader) option" where
  "ReadRecord F addr r = do {
     (go, r) \<leftarrow> (if last_record_offset r < initial_offset r then SkipToInitialBlock F r else Some (True, r));
     if \<not> go then Some (None, r) else ReadRecord_loop F addr [] [] False 0 r }"

definition LastRecordOffset :: "'r Reader \<Rightarrow> u64" where
  "LastRecordOffset r = last_record_offset r"

section \<open>The layout of a log\<close>

text \<open>
  Fragments with their types, their bytes from an offset in a block on, and the offset after them. Too
  little room for a header is filled with zeros.
\<close>

type_synonym fragment = "RecordType \<times> bytes"

definition pad :: "nat \<Rightarrow> bytes" where
  "pad off = (if 32768 - off < 7 then replicate (32768 - off) 0 else [])"

definition start :: "nat \<Rightarrow> nat" where
  "start off = (if 32768 - off < 7 then 0 else off)"

definition code_byte :: "RecordType \<Rightarrow> u8" where
  "code_byte t = of_nat (record_code t)"

definition phys :: "RecordType \<Rightarrow> bytes \<Rightarrow> bytes" where
  "phys t p = EncodeFixed32 (Mask (crc32c 0 (code_byte t # p)))
     @ [ucast (of_nat (length p) AND 0xff :: u64), ucast (drop_bit 8 (of_nat (length p)) :: u64), code_byte t] @ p"

fun bytes_of :: "nat \<Rightarrow> fragment list \<Rightarrow> bytes" where
  "bytes_of off [] = []"
| "bytes_of off ((t, p) # fs) = pad off @ phys t p @ bytes_of (start off + 7 + length p) fs"

fun end_of :: "nat \<Rightarrow> fragment list \<Rightarrow> nat" where
  "end_of off [] = off"
| "end_of off ((t, p) # fs) = end_of (start off + 7 + length p) fs"

fun fits :: "nat \<Rightarrow> fragment list \<Rightarrow> bool" where
  "fits off [] \<longleftrightarrow> True"
| "fits off ((t, p) # fs) \<longleftrightarrow> start off + 7 + length p \<le> 32768 \<and> fits (start off + 7 + length p) fs"

text \<open>The fragments of one record; \<open>first\<close> is false when some of them have been taken.\<close>

fun frags :: "bool \<Rightarrow> bytes \<Rightarrow> fragment list \<Rightarrow> bool" where
  "frags first d [] \<longleftrightarrow> False"
| "frags first d [(t, p)] \<longleftrightarrow> p = d \<and> t = (if first then kFullType else kLastType)"
| "frags first d ((t, p) # f # fs) \<longleftrightarrow> t = (if first then kFirstType else kMiddleType) \<and> (\<exists>d'. d = p @ d' \<and> frags False d' (f # fs))"

lemma length_phys [simp]: "length (phys t p) = 7 + length p"
  by (simp add: phys_def)

lemma phys_not_Nil [simp]: "phys t p \<noteq> []"
  by (simp add: phys_def)

lemma bytes_of_append: "bytes_of off (fs @ gs) = bytes_of off fs @ bytes_of (end_of off fs) gs"
  by (induction off fs rule: bytes_of.induct) simp_all

lemma fits_append: "fits off (fs @ gs) \<longleftrightarrow> fits off fs \<and> fits (end_of off fs) gs"
  by (induction off fs rule: bytes_of.induct) simp_all

lemma start_room: "start off + 7 \<le> 32768"
  by (auto simp: start_def)

lemma end_of_le: "off \<le> 32768 \<Longrightarrow> fits off fs \<Longrightarrow> end_of off fs \<le> 32768"
  by (induction off fs rule: bytes_of.induct) simp_all

lemma crc32c_Cons: "crc32c (crc32c 0 [b]) p = crc32c 0 (b # p)"
  by (simp add: crc32c_def xor.assoc)

lemma Value_eq: "Value addr data = Some (crc32c 0 data)"
  by (simp add: Value_def Extend_eq)

section \<open>Sequences of records\<close>

text \<open>Adding records until one fails, and reading records until there is none or \<open>m\<close> have been read.\<close>

primrec add_all :: "'w WritableFile \<Rightarrow> u64 \<Rightarrow> bytes list \<Rightarrow> 'w Writer \<Rightarrow> (Status \<times> 'w Writer) option" where
  "add_all W addr [] w = Some (OK, w)"
| "add_all W addr (d # ds) w = do { (s, w) \<leftarrow> AddRecord W addr d w; if ok s then add_all W addr ds w else Some (s, w) }"

primrec read_many :: "'r SequentialFile \<Rightarrow> u64 \<Rightarrow> nat \<Rightarrow> 'r Reader \<Rightarrow> (bytes list \<times> bool \<times> 'r Reader) option" where
  "read_many F addr 0 r = Some ([], False, r)"
| "read_many F addr (Suc m) r = do {
     (rec, r) \<leftarrow> ReadRecord F addr r;
     (case rec of None \<Rightarrow> Some ([], True, r)
      | Some d \<Rightarrow> do { (ds, ended, r) \<leftarrow> read_many F addr m r; Some (d # ds, ended, r) }) }"

section \<open>What the writer writes\<close>

definition type_crcs :: "u32 list" where
  "type_crcs = map (\<lambda>i. crc32c 0 [of_nat i]) [0..<5]"

lemma InitTypeCrc_eq: "InitTypeCrc addr = Some type_crcs"
proof -
  have "map (\<lambda>i. Value addr [of_nat i]) ns = map Some (map (\<lambda>i. crc32c 0 [of_nat i]) ns)" for ns :: "nat list"
    by (simp add: Value_eq)
  then show ?thesis by (simp only: InitTypeCrc_def type_crcs_def those_map_Some kMaxRecordType_def record_code.simps) simp
qed

lemma type_crcs_nth: "record_code t < length type_crcs \<and> type_crcs ! record_code t = crc32c 0 [code_byte t]"
  by (cases t) (simp_all add: type_crcs_def code_byte_def)

context writable_file
begin

definition wr_at :: "'w Writer \<Rightarrow> nat \<Rightarrow> bytes \<Rightarrow> bool" where
  "wr_at w off c \<longleftrightarrow> block_offset w = int off \<and> off \<le> 32768 \<and> type_crc w = type_crcs \<and> contains (dest w) c"

lemma Emit_spec:
  assumes "wr_at w off c" "off + 7 + length p \<le> 32768"
  shows "\<exists>w'. EmitPhysicalRecord W addr t p w = Some (OK, w') \<and> wr_at w' (off + 7 + length p) (c @ phys t p)"
proof -
  let ?h = "EncodeFixed32 (Mask (crc32c 0 (code_byte t # p))) @ [ucast (of_nat (length p) AND 0xff :: u64), ucast (drop_bit 8 (of_nat (length p)) :: u64), code_byte t]"
  have c: "contains (dest w) c" using assms(1) by (simp add: wr_at_def)
  obtain d1 where d1: "wAppend W ?h (dest w) = Some (OK, d1)" "contains d1 (c @ ?h)" using append [OF c] by blast
  obtain d2 where d2: "wAppend W p d1 = Some (OK, d2)" "contains d2 ((c @ ?h) @ p)" using append [OF d1(2)] by blast
  obtain d3 where d3: "wFlush W d2 = Some (OK, d3)" "contains d3 ((c @ ?h) @ p)" using flush [OF d2(2)] by blast
  have crc: "Extend addr (type_crc w ! record_code t) p = Some (crc32c 0 (code_byte t # p))"
    using assms(1) type_crcs_nth [of t] by (simp add: wr_at_def Extend_eq crc32c_Cons)
  have guard: "length p \<le> 0xffff \<and> block_offset w + kHeaderSize + int (length p) \<le> kBlockSize \<and> record_code t < length (type_crc w)"
    using assms type_crcs_nth [of t] by (simp add: wr_at_def kHeaderSize_def kBlockSize_def)
  have "EmitPhysicalRecord W addr t p w = Some (OK, w\<lparr>dest := d3, block_offset := block_offset w + kHeaderSize + int (length p)\<rparr>)"
    unfolding EmitPhysicalRecord_def Let_def if_P [OF guard] crc
    using d1(1) d2(1) d3(1) by (simp add: ok_def code_byte_def)
  moreover have "wr_at (w\<lparr>dest := d3, block_offset := block_offset w + kHeaderSize + int (length p)\<rparr>) (off + 7 + length p) (c @ phys t p)"
    using assms d3(2) by (simp add: wr_at_def kHeaderSize_def phys_def)
  ultimately show ?thesis by blast
qed

lemma AddRecord_step_spec:
  assumes "wr_at w off c"
    and n_def: "n = min (length ptr) (32768 - start off - 7)"
    and t_def: "t = (if first \<and> length ptr = n then kFullType else if first then kFirstType else if length ptr = n then kLastType else kMiddleType)"
  shows "\<exists>w'. AddRecord_step W addr first ptr w = Some (OK, n, w') \<and> wr_at w' (start off + 7 + n) (c @ pad off @ phys t (take n ptr))"
proof -
  obtain w1 where w1: "(if kBlockSize - block_offset w < kHeaderSize then do {
        d \<leftarrow> (if kBlockSize - block_offset w > 0 then map_option snd (wAppend W (replicate (nat (kBlockSize - block_offset w)) 0) (dest w)) else Some (dest w));
        Some (w\<lparr>dest := d, block_offset := 0\<rparr>) }
      else Some w) = Some w1" "wr_at w1 (start off) (c @ pad off)"
  proof (cases "32768 - off < 7")
    case True
    obtain d where d: "wAppend W (replicate (32768 - off) 0) (dest w) = Some (OK, d)" "contains d (c @ replicate (32768 - off) 0)"
      using append [of "dest w" c "replicate (32768 - off) 0"] assms(1) unfolding wr_at_def by blast
    have e: "nat (32768 - int off) = 32768 - off" by (simp add: nat_diff_distrib')
    show ?thesis
    proof (cases "off = 32768")
      case True
      then show ?thesis using that [of "w\<lparr>block_offset := 0\<rparr>"] assms(1) by (simp add: wr_at_def kBlockSize_def kHeaderSize_def start_def pad_def)
    next
      case False
      then show ?thesis using that [of "w\<lparr>dest := d, block_offset := 0\<rparr>"] assms(1) d True e
        by (simp add: wr_at_def kBlockSize_def kHeaderSize_def start_def pad_def)
    qed
  next
    case False
    then have "\<not> 32761 < off" by simp
    with False show ?thesis using that [of w] assms(1) by (simp add: wr_at_def kBlockSize_def kHeaderSize_def start_def pad_def)
  qed
  have off: "block_offset w1 = int (start off)" using w1(2) by (simp add: wr_at_def)
  have avail: "nat (kBlockSize - block_offset w1 - kHeaderSize) = 32768 - start off - 7" "kBlockSize - block_offset w1 - kHeaderSize \<ge> 0"
    using start_room [of off] by (simp_all add: off kBlockSize_def kHeaderSize_def nat_diff_distrib')
  have n: "(if length ptr < 32768 - start off - 7 then length ptr else 32768 - start off - 7) = n" by (simp add: n_def)
  have "n + start off + 7 \<le> 32768" using start_room [of off] by (simp add: n_def)
  with Emit_spec [OF w1(2), of "take n ptr" addr t] obtain w' where
    emit: "EmitPhysicalRecord W addr t (take n ptr) w1 = Some (OK, w')" "wr_at w' (start off + 7 + n) ((c @ pad off) @ phys t (take n ptr))"
    by (auto simp: n_def)
  have nonneg: "0 \<le> kBlockSize - block_offset w" using assms(1) by (simp add: wr_at_def kBlockSize_def)
  have "AddRecord_step W addr first ptr w = Some (OK, n, w')"
    by (simp only: AddRecord_step_def Let_def if_P [OF nonneg] w1(1) Option.bind.bind_lunit avail n t_def [symmetric] if_True emit(1) prod.case)
  with emit(2) show ?thesis by auto
qed

lemma AddRecord_loop_spec:
  "wr_at w off c \<Longrightarrow> \<exists>w' fs. AddRecord_loop W addr first ptr w = Some (OK, w') \<and> frags first ptr fs \<and> fits off fs
    \<and> wr_at w' (end_of off fs) (c @ bytes_of off fs)"
proof (induction W\<equiv>W addr first ptr w arbitrary: off c rule: AddRecord_loop.induct)
  case (1 addr first ptr w)
  define n where "n = min (length ptr) (32768 - start off - 7)"
  define t where "t = (if first \<and> length ptr = n then kFullType else if first then kFirstType else if length ptr = n then kLastType else kMiddleType)"
  obtain w1 where step: "AddRecord_step W addr first ptr w = Some (OK, n, w1)"
    and w1: "wr_at w1 (start off + 7 + n) (c @ pad off @ phys t (take n ptr))"
    using AddRecord_step_spec [OF 1(2) n_def t_def] by blast
  have room: "start off + 7 + length (take n ptr) \<le> 32768" using start_room [of off] by (simp add: n_def)
  have lt: "length (take n ptr) = n" by (simp add: n_def)
  show ?case
  proof (cases "n < length ptr")
    case True
    obtain w' fs where rec: "AddRecord_loop W (addr + of_nat n) False (drop n ptr) w1 = Some (OK, w')" "frags False (drop n ptr) fs"
      "fits (start off + 7 + n) fs" "wr_at w' (end_of (start off + 7 + n) fs) ((c @ pad off @ phys t (take n ptr)) @ bytes_of (start off + 7 + n) fs)"
      using 1(1) [OF step refl refl _ w1] True by (auto simp: ok_def)
    have "frags first ptr ((t, take n ptr) # fs)"
      using rec(2) True by (cases fs) (auto simp: t_def intro!: exI [of _ "drop n ptr"])
    then show ?thesis
      using rec step True room lt by (intro exI [of _ w'] exI [of _ "(t, take n ptr) # fs"]) (simp add: AddRecord_loop.simps [of W addr] ok_def)
  next
    case False
    then have "n = length ptr" by (simp add: n_def)
    then show ?thesis
      using step w1 room by (intro exI [of _ w1] exI [of _ "[(t, ptr)]"]) (simp add: AddRecord_loop.simps [of W addr] ok_def t_def)
  qed
qed

lemma add_all_spec:
  "wr_at w off c \<Longrightarrow> \<exists>w' fss. add_all W addr ds w = Some (OK, w') \<and> list_all2 (frags True) ds fss \<and> fits off (concat fss)
    \<and> wr_at w' (end_of off (concat fss)) (c @ bytes_of off (concat fss))
    \<and> (\<forall>j. \<exists>wj. add_all W addr (take j ds) w = Some (OK, wj) \<and> wr_at wj (end_of off (concat (take j fss))) (c @ bytes_of off (concat (take j fss))))"
proof (induction ds arbitrary: w off c)
  case Nil
  then show ?case by auto
next
  case (Cons d ds)
  obtain w1 fs where w1: "AddRecord W addr d w = Some (OK, w1)" "frags True d fs" "fits off fs" "wr_at w1 (end_of off fs) (c @ bytes_of off fs)"
    using AddRecord_loop_spec [OF Cons.prems, of addr True d] by (auto simp: AddRecord_def)
  obtain w' fss where w': "add_all W addr ds w1 = Some (OK, w')" "list_all2 (frags True) ds fss" "fits (end_of off fs) (concat fss)"
    "wr_at w' (end_of (end_of off fs) (concat fss)) ((c @ bytes_of off fs) @ bytes_of (end_of off fs) (concat fss))"
    and j: "\<And>j. \<exists>wj. add_all W addr (take j ds) w1 = Some (OK, wj) \<and>
      wr_at wj (end_of (end_of off fs) (concat (take j fss))) ((c @ bytes_of off fs) @ bytes_of (end_of off fs) (concat (take j fss)))"
    using Cons.IH [OF w1(4)] by blast
  have e: "end_of off (fs @ gs) = end_of (end_of off fs) gs" for gs by (induction off fs rule: bytes_of.induct) simp_all
  have "\<exists>wj. add_all W addr (take i (d # ds)) w = Some (OK, wj) \<and>
      wr_at wj (end_of off (concat (take i (fs # fss)))) (c @ bytes_of off (concat (take i (fs # fss))))" for i
    using j [of "i - 1"] w1 Cons.prems by (cases i) (simp_all add: ok_def e bytes_of_append)
  then show ?case
    using w1 w' by (intro exI [of _ w'] exI [of _ "fs # fss"]) (auto simp: ok_def e bytes_of_append fits_append)
qed

end

section \<open>What the reader reads\<close>

lemma len_field:
  assumes "n < 65536"
  shows "unat (((ucast (ucast (of_nat n AND 0xff :: u64) :: u8) :: u32) AND 0xff) OR push_bit 8 ((ucast (ucast (drop_bit 8 (of_nat n) :: u64) :: u8) :: u32) AND 0xff)) = n"
proof -
  let ?a = "(ucast (ucast (of_nat n AND 0xff :: u64) :: u8) :: u32) AND 0xff" and ?b = "(ucast (ucast (drop_bit 8 (of_nat n) :: u64) :: u8) :: u32) AND 0xff"
  have m: "x AND 0xff = take_bit 8 x" for x :: "'a::len word" by (simp add: take_bit_eq_mask mask_eq_exp_minus_1)
  have "unat (of_nat n :: u64) = n" using assms by (simp add: unat_of_nat take_bit_nat_eq_self)
  then have a: "unat ?a = n mod 256" and b: "unat ?b = n div 256"
    using assms unfolding m
    by (simp_all add: unsigned_take_bit_eq unsigned_ucast_eq take_bit_nat_def unat_drop_bit_div)
  have "?a AND push_bit 8 ?b = 0"
    by (rule bit_word_eqI) (auto simp: m bit_and_iff bit_push_bit_iff bit_take_bit_iff)
  then have "?a OR push_bit 8 ?b = ?a + push_bit 8 ?b" by (simp only: disjunctive_add_eq_or)
  also have "unat \<dots> = n mod 256 + n div 256 * 256"
    using a b assms by (simp add: unat_word_ariths push_bit_eq_mult)
  finally show ?thesis by simp
qed

lemma scast_code: "(scast (code_byte t) :: u32) = of_nat (record_code t)"
  by (cases t) (simp_all add: code_byte_def)

lemma phys_nth:
  "phys t p @ xs = EncodeFixed32 (Mask (crc32c 0 (code_byte t # p))) @ ucast (of_nat (length p) AND 0xff :: u64) # ucast (drop_bit 8 (of_nat (length p)) :: u64) # code_byte t # p @ xs"
  by (simp add: phys_def)

definition header_len :: "bytes \<Rightarrow> u32" where
  "header_len h = ((ucast (h ! 4) :: u32) AND 0xff) OR push_bit 8 ((ucast (h ! 5) :: u32) AND 0xff)"

lemma header_fields:
  assumes "length p < 65536"
  shows "unat (header_len (phys t p @ xs)) = length p" "scast ((phys t p @ xs) ! 6) = (of_nat (record_code t) :: u32)"
    "DecodeFixed32 (phys t p @ xs) = Some (Mask (crc32c 0 (code_byte t # p)))"
    "drop 6 (phys t p @ xs) = code_byte t # p @ xs" "drop 7 (phys t p @ xs) = p @ xs"
proof -
  have n: "(phys t p @ xs) ! 4 = ucast (of_nat (length p) AND 0xff :: u64)" "(phys t p @ xs) ! 5 = ucast (drop_bit 8 (of_nat (length p)) :: u64)"
    "(phys t p @ xs) ! 6 = code_byte t"
    unfolding phys_nth by (simp_all add: nth_append)
  show "unat (header_len (phys t p @ xs)) = length p" using len_field [OF assms] by (simp only: header_len_def n)
  show "scast ((phys t p @ xs) ! 6) = (of_nat (record_code t) :: u32)" by (simp only: n scast_code)
  show "DecodeFixed32 (phys t p @ xs) = Some (Mask (crc32c 0 (code_byte t # p)))" unfolding phys_nth by (simp only: fixed32_get)
  show "drop 6 (phys t p @ xs) = code_byte t # p @ xs" "drop 7 (phys t p @ xs) = p @ xs" unfolding phys_nth by simp_all
qed

text \<open>A whole fragment at the start of the buffer.\<close>

lemma parse_record_whole:
  assumes "buffer r = phys t p @ xs" "length p < 65536" "t \<noteq> kZeroType" "initial_offset r = 0"
  shows "parse_record addr fragment r = Some (of_nat (record_code t), p, r\<lparr>buffer := xs\<rparr>)"
proof -
  have f: "unat (header_len (buffer r)) = length p" "scast (buffer r ! 6) = (of_nat (record_code t) :: u32)"
    "DecodeFixed32 (buffer r) = Some (Mask (crc32c 0 (code_byte t # p)))"
    "drop 6 (buffer r) = code_byte t # p @ xs" "drop 7 (buffer r) = p @ xs" "length (buffer r) = 7 + length p + length xs"
    using header_fields [OF assms(2)] by (simp_all add: assms(1))
  have nz: "of_nat (record_code t) \<noteq> (0 :: u32)" using assms(3) by (cases t) simp_all
  have "Slice_remove_prefix (buffer r) (7 + length p) = Some xs" using assms(1) by (simp add: Slice_remove_prefix_def)
  then show ?thesis
    unfolding parse_record_def Let_def header_len_def [symmetric]
    using f nz assms(4) by (simp add: kHeaderSize_def Value_eq Unmask_of_Mask)
qed

text \<open>A fragment that the end of the file has cut.\<close>

lemma parse_record_cut:
  assumes "buffer r = take n (phys t p)" "7 \<le> n" "n < 7 + length p" "length p < 65536" "eof r"
  shows "parse_record addr fragment r = Some (kEof, fragment, r\<lparr>buffer := []\<rparr>)"
proof -
  have nth: "buffer r ! i = (phys t p @ []) ! i" if "i < 7" for i using that assms(1,2) by simp
  have "header_len (buffer r) = header_len (phys t p @ [])" by (simp add: header_len_def nth)
  then have "unat (header_len (buffer r)) = length p" using header_fields(1) [OF assms(4), of t "[]"] by simp
  moreover have "length (buffer r) = n" using assms(1,3) by simp
  ultimately show ?thesis
    unfolding parse_record_def Let_def header_len_def [symmetric] using assms(3,5) by (simp add: kHeaderSize_def)
qed

text \<open>Whatever the bytes of the buffer, one of its records can be read and the buffer gets shorter.\<close>

lemma parse_shrinks:
  assumes "\<not> length (buffer r) < 7"
  shows "\<exists>ty fr r'. parse_record addr fragment r = Some (ty, fr, r') \<and> rfile r' = rfile r \<and> length (buffer r') < length (buffer r)"
proof -
  let ?h = "buffer r"
  have ne: "?h \<noteq> []" using assms by auto
  obtain w where w: "DecodeFixed32 ?h = Some w"
    using assms mem_word_defined [of 4 ?h] by (auto simp: DecodeFixed32_def kLittleEndian_def)
  consider (cut) "7 + unat (header_len ?h) > length ?h"
    | (zero) "\<not> 7 + unat (header_len ?h) > length ?h" "scast (?h ! 6) = (0 :: u32) \<and> header_len ?h = 0"
    | (rec) "\<not> 7 + unat (header_len ?h) > length ?h" "\<not> (scast (?h ! 6) = (0 :: u32) \<and> header_len ?h = 0)"
    by blast
  then show ?thesis
  proof cases
    case cut
    with assms ne show ?thesis
      unfolding parse_record_def Let_def header_len_def [symmetric] by (simp add: kHeaderSize_def ReportCorruption_def)
  next
    case zero
    with assms ne show ?thesis
      unfolding parse_record_def Let_def header_len_def [symmetric] by (simp add: kHeaderSize_def)
  next
    case rec
    with assms ne w show ?thesis
      unfolding parse_record_def Let_def header_len_def [symmetric]
      by (simp add: kHeaderSize_def Slice_remove_prefix_def ReportCorruption_def Value_eq)
  qed
qed

context sequential_file
begin

text \<open>
  The reader is at offset \<open>off\<close> of a block and the bytes \<open>S\<close> of the file are before it. The offset of a
  reader that has not read anything is that of the start of the next block.
\<close>

definition rd_at :: "'r Reader \<Rightarrow> nat \<Rightarrow> bytes \<Rightarrow> bool" where
  "rd_at r off S \<longleftrightarrow> (\<exists>c. remains (rfile r) c \<and> S = buffer r @ c \<and> off \<le> 32768 \<and> initial_offset r = 0 \<and> \<not> resyncing r
     \<and> (if eof r then c = [] \<and> length (buffer r) \<le> 32768 - off
        else length (buffer r) = 32768 - off \<or> buffer r = [] \<and> off = 0))"

lemma rd_at_fill:
  assumes "rd_at r off S" "length (buffer r) < 7" "\<not> eof r"
  obtains r' S' where "fill_buffer F r = Some (True, r')" "rd_at r' 0 S'" "reports r' = reports r" "buffer r' = take 32768 S'"
    "S = buffer r @ S'" "length (buffer r) = 32768 - off \<or> buffer r = [] \<and> off = 0" "eof r' \<longleftrightarrow> length S' < 32768"
proof -
  obtain c where c: "remains (rfile r) c" "S = buffer r @ c" "length (buffer r) = 32768 - off \<or> buffer r = [] \<and> off = 0"
    "initial_offset r = 0" "\<not> resyncing r"
    using assms(1,3) by (auto simp: rd_at_def)
  obtain f where f: "sRead F 32768 (rfile r) = Some (OK, take 32768 c, f)" "remains f (drop 32768 c)" using read [OF c(1)] by blast
  let ?r = "r\<lparr>rfile := f, buffer := take 32768 c, end_of_buffer_offset := end_of_buffer_offset r + of_nat (length (take 32768 c)), eof := length c < 32768\<rparr>"
  have "fill_buffer F r = Some (True, ?r)"
    using f(1) assms(3) by (auto simp: fill_buffer_def kBlockSize_def ok_def Let_def)
  moreover have "rd_at ?r 0 c" unfolding rd_at_def using f(2) c by (intro exI [of _ "drop 32768 c"]) auto
  ultimately show thesis using c by (intro that [of ?r c]) auto
qed

lemma Read_whole:
  assumes "rd_at r off (pad off @ phys t p @ S')" "start off + 7 + length p \<le> 32768" "t \<noteq> kZeroType"
  shows "\<exists>r'. ReadPhysicalRecord F addr fragment r = Some (of_nat (record_code t), p, r') \<and> rd_at r' (start off + 7 + length p) S' \<and> reports r' = reports r"
proof -
  have in_buffer: "\<exists>r'. ReadPhysicalRecord F addr fragment r1 = Some (of_nat (record_code t), p, r') \<and> rd_at r' (o1 + 7 + length p) S' \<and> reports r' = reports r1"
    if at: "rd_at r1 o1 (phys t p @ S')" and that: "o1 + 7 + length p \<le> 32768" "\<not> length (buffer r1) < 7" for r1 o1
  proof -
    obtain c where c: "remains (rfile r1) c" "phys t p @ S' = buffer r1 @ c" "initial_offset r1 = 0" "\<not> resyncing r1"
      "if eof r1 then c = [] \<and> length (buffer r1) \<le> 32768 - o1 else length (buffer r1) = 32768 - o1 \<or> buffer r1 = [] \<and> o1 = 0"
      using at unfolding rd_at_def by blast
    have "length (phys t p) \<le> length (buffer r1)" using c(5) that arg_cong [OF c(2), of length] by (cases "eof r1") auto
    then obtain xs where xs: "buffer r1 = phys t p @ xs" "S' = xs @ c"
      using c(2) by (metis append_eq_append_conv_if append_eq_conv_conj append_take_drop_id)
    have "parse_record addr fragment r1 = Some (of_nat (record_code t), p, r1\<lparr>buffer := xs\<rparr>)"
      by (rule parse_record_whole [OF xs(1) _ assms(3) c(3)]) (use that(1) in simp)
    moreover have "rd_at (r1\<lparr>buffer := xs\<rparr>) (o1 + 7 + length p) S'"
      unfolding rd_at_def using c xs that by (intro exI [of _ c]) (auto split: if_splits)
    ultimately show ?thesis using that(2) by (simp add: ReadPhysicalRecord.simps [of F addr fragment r1] kHeaderSize_def)
  qed
  show ?thesis
  proof (cases "length (buffer r) < 7")
    case True
    have "\<not> eof r" using assms(1) True by (auto simp: rd_at_def dest: arg_cong [of _ _ length])
    from rd_at_fill [OF assms(1) True this] obtain r' S1 where r': "fill_buffer F r = Some (True, r')" "rd_at r' 0 S1" "reports r' = reports r"
      "buffer r' = take 32768 S1" "pad off @ phys t p @ S' = buffer r @ S1" "length (buffer r) = 32768 - off \<or> buffer r = [] \<and> off = 0"
      by blast
    have S1: "S1 = phys t p @ S'" and st: "start off = 0"
      using r'(5,6) True by (auto simp: pad_def start_def split: if_splits)
    have "\<not> length (buffer r') < 7" by (simp add: r'(4) S1)
    from in_buffer [OF r'(2) [unfolded S1] _ this] show ?thesis
      using True \<open>\<not> eof r\<close> r'(1,3) assms(2) by (simp add: st ReadPhysicalRecord.simps [of F addr fragment r] kHeaderSize_def)
  next
    case False
    then have "\<not> 32768 - off < 7" using assms(1) by (auto simp: rd_at_def split: if_splits)
    then have "pad off = []" "start off = off" by (simp_all add: pad_def start_def)
    then show ?thesis using in_buffer [of r off] assms(1,2) False by simp
  qed
qed

lemma Read_cut:
  assumes "rd_at r off (take n (pad off @ phys t p))" "n < length (pad off @ phys t p)" "start off + 7 + length p \<le> 32768"
  shows "\<exists>r'. ReadPhysicalRecord F addr fragment r = Some (kEof, fragment, r') \<and> reports r' = reports r \<and> \<not> resyncing r'"
proof -
  have resync: "\<not> resyncing r1" if "rd_at r1 o1 S" for r1 o1 S using that by (auto simp: rd_at_def)
  have at_end: "\<exists>r'. ReadPhysicalRecord F addr fragment r1 = Some (kEof, fragment, r') \<and> reports r' = reports r1 \<and> \<not> resyncing r'"
    if "rd_at r1 o1 S" "eof r1" "buffer r1 = take m (phys t p)" "m < 7 + length p" for r1 o1 S m
  proof (cases "m < 7")
    case True
    then show ?thesis using that resync [OF that(1)] by (simp add: ReadPhysicalRecord.simps [of F addr fragment r1] kHeaderSize_def)
  next
    case False
    then have "parse_record addr fragment r1 = Some (kEof, fragment, r1\<lparr>buffer := []\<rparr>)"
      using that assms(3) by (intro parse_record_cut [of r1 m t p]) auto
    then show ?thesis using that False resync [OF that(1)] by (simp add: ReadPhysicalRecord.simps [of F addr fragment r1] kHeaderSize_def)
  qed
  show ?thesis
  proof (cases "length (buffer r) < 7 \<and> \<not> eof r")
    case True
    then obtain r' S1 where r': "fill_buffer F r = Some (True, r')" "rd_at r' 0 S1" "reports r' = reports r" "buffer r' = take 32768 S1"
      "take n (pad off @ phys t p) = buffer r @ S1" "length (buffer r) = 32768 - off \<or> buffer r = [] \<and> off = 0" "eof r' \<longleftrightarrow> length S1 < 32768"
      using rd_at_fill [OF assms(1)] by blast
    have len: "length (buffer r) = length (pad off)" using r'(6) True by (auto simp: pad_def)
    have "buffer r @ S1 = take n (pad off) @ take (n - length (pad off)) (phys t p)" using r'(5) by simp
    then have S1: "S1 = take (n - length (pad off)) (phys t p)"
    proof (cases "n \<le> length (pad off)")
      case True
      with \<open>buffer r @ S1 = _\<close> have "length (buffer r @ S1) = n" by simp
      with True len have "length S1 = 0" by (simp only: length_append)
      with True show ?thesis by simp
    next
      case False
      with \<open>buffer r @ S1 = _\<close> len show ?thesis by simp
    qed
    have "length S1 < 32768" using assms(2,3) by (simp add: S1)
    then show ?thesis using at_end [OF r'(2), of "n - length (pad off)"] r' True S1 assms(2)
      by (simp add: ReadPhysicalRecord.simps [of F addr fragment r] kHeaderSize_def)
  next
    case False
    show ?thesis
    proof (cases "length (buffer r) < 7")
      case True
      then show ?thesis using False resync [OF assms(1)] by (simp add: ReadPhysicalRecord.simps [of F addr fragment r] kHeaderSize_def)
    next
      case long: False
      then have "\<not> 32768 - off < 7" using assms(1) by (auto simp: rd_at_def split: if_splits)
      then have p: "pad off = []" "start off = off" by (simp_all add: pad_def start_def)
      obtain c where c: "take n (phys t p) = buffer r @ c" "if eof r then c = [] \<and> length (buffer r) \<le> 32768 - off
          else length (buffer r) = 32768 - off \<or> buffer r = [] \<and> off = 0"
        using assms(1) p unfolding rd_at_def by auto
      have "eof r"
        using c(2) long assms(2,3) p arg_cong [OF c(1), of length] by (auto split: if_splits)
      with c have "buffer r = take n (phys t p)" by simp
      with at_end [OF assms(1) \<open>eof r\<close> this] assms(2) p show ?thesis by simp
    qed
  qed
qed

lemma rd_at_upd [simp]: "rd_at (r\<lparr>last_record_offset := x\<rparr>) off S = rd_at r off S"
  by (simp add: rd_at_def)

lemma rd_at_resync: "rd_at r off S \<Longrightarrow> \<not> resyncing r"
  by (auto simp: rd_at_def)

lemma resync_id: "\<not> resyncing r \<Longrightarrow> r\<lparr>resyncing := False\<rparr> = r"
  by (cases r) simp

lemma loop_whole:
  "frags first d fs \<Longrightarrow> fits off fs \<Longrightarrow> rd_at r off (bytes_of off fs @ S') \<Longrightarrow> (if first then scratch = [] \<and> \<not> infrag else infrag) \<Longrightarrow>
    \<exists>r'. ReadRecord_loop F addr fragment scratch infrag pro r = Some (Some (scratch @ d), r') \<and> rd_at r' (end_of off fs) S' \<and> reports r' = reports r"
proof (induction first d fs arbitrary: off r fragment scratch infrag pro rule: frags.induct)
  case (2 first d t p)
  then have "t \<noteq> kZeroType" by auto
  with 2 obtain r' where r': "ReadPhysicalRecord F addr fragment r = Some (of_nat (record_code t), p, r')" "rd_at r' (start off + 7 + length p) S'" "reports r' = reports r"
    using Read_whole [of r off t p S' addr fragment] by auto
  from rd_at_resync [OF r'(2)] r' 2 show ?case
    by (subst ReadRecord_loop.simps) (auto simp: handle_record_def Let_def resync_id split: if_splits)
next
  case (3 first d t p f fs)
  then obtain d' where d': "d = p @ d'" "frags False d' (f # fs)" "t \<noteq> kZeroType" by auto
  with 3 obtain r' where r': "ReadPhysicalRecord F addr fragment r = Some (of_nat (record_code t), p, r')"
    "rd_at r' (start off + 7 + length p) (bytes_of (start off + 7 + length p) (f # fs) @ S')" "reports r' = reports r"
    using Read_whole [of r off t p "bytes_of (start off + 7 + length p) (f # fs) @ S'" addr fragment] by auto
  have fit: "fits (start off + 7 + length p) (f # fs)" using 3(3) by simp
  obtain pro' where "handle_record (of_nat (record_code t)) p scratch infrag pro r' = Inr (scratch @ p, True, pro', r')"
    using rd_at_resync [OF r'(2)] 3(2,5) by (auto simp: handle_record_def Let_def resync_id split: if_splits)
  moreover obtain r2 where "ReadRecord_loop F addr p (scratch @ p) True pro' r' = Some (Some ((scratch @ p) @ d'), r2)"
    "rd_at r2 (end_of (start off + 7 + length p) (f # fs)) S'" "reports r2 = reports r'"
    using 3(1) [OF d'(2) fit r'(2), of "scratch @ p" True p pro'] by auto
  ultimately show ?case
    using r'(1,3) d'(1) by (subst ReadRecord_loop.simps) simp
qed simp

lemma loop_cut:
  "fits off fs \<Longrightarrow> rd_at r off (take n (bytes_of off fs)) \<Longrightarrow> n < length (bytes_of off fs) \<Longrightarrow> frags first d fs \<Longrightarrow> (if first then scratch = [] \<and> \<not> infrag else infrag) \<Longrightarrow>
    \<exists>r'. ReadRecord_loop F addr fragment scratch infrag pro r = Some (None, r') \<and> reports r' = reports r"
proof (induction off fs arbitrary: n r fragment scratch infrag pro first d rule: bytes_of.induct)
  case (2 off t p fs)
  let ?h = "pad off @ phys t p"
  show ?case
  proof (cases "n < length ?h")
    case True
    then obtain r' where r': "ReadPhysicalRecord F addr fragment r = Some (kEof, fragment, r')" "reports r' = reports r" "\<not> resyncing r'"
      using Read_cut [of r off n t p addr fragment] 2(2,3) by auto
    then show ?thesis
      by (subst ReadRecord_loop.simps) (simp add: handle_record_def Let_def resync_id kEof_def kMaxRecordType_def)
  next
    case False
    let ?o = "start off + 7 + length p"
    have n: "n - length ?h < length (bytes_of ?o fs)" using 2(4) False by simp
    then obtain f fs' where fs: "fs = f # fs'" by (cases fs) auto
    with 2(5) obtain d' where d': "t = (if first then kFirstType else kMiddleType)" "frags False d' fs" by (auto simp: fs)
    have split: "take n (bytes_of off ((t, p) # fs)) = pad off @ phys t p @ take (n - length ?h) (bytes_of ?o fs)" using False by simp
    obtain r' where r': "ReadPhysicalRecord F addr fragment r = Some (of_nat (record_code t), p, r')"
      "rd_at r' ?o (take (n - length ?h) (bytes_of ?o fs))" "reports r' = reports r"
      using Read_whole [OF 2(3) [unfolded split], of addr fragment] 2(2) d'(1) by (auto split: if_splits)
    obtain pro' where "handle_record (of_nat (record_code t)) p scratch infrag pro r' = Inr (scratch @ p, True, pro', r')"
      using rd_at_resync [OF r'(2)] d'(1) 2(6) by (auto simp: handle_record_def Let_def resync_id split: if_splits)
    moreover obtain r2 where "ReadRecord_loop F addr p (scratch @ p) True pro' r' = Some (None, r2)" "reports r2 = reports r'"
      using 2(1) [OF _ r'(2) n d'(2), of "scratch @ p" True p pro'] 2(2) by auto
    ultimately show ?thesis using r'(1,3) by (subst ReadRecord_loop.simps) simp
  qed
qed simp

lemma loop_end:
  assumes "rd_at r off []"
  shows "\<exists>r'. ReadRecord_loop F addr fragment [] False pro r = Some (None, r') \<and> reports r' = reports r"
  using loop_cut [of off "[(kFullType, [])]" r 0 True "[]" "[]" False addr fragment pro] assms start_room [of off] by simp

lemma ReadRecord_loop_eq: "rd_at r off S \<Longrightarrow> ReadRecord F addr r = ReadRecord_loop F addr [] [] False 0 r"
  by (auto simp: ReadRecord_def rd_at_def)

lemma read_many_spec:
  assumes "list_all2 (frags True) ds fss" "fits off (concat fss)" "rd_at r off (take n (bytes_of off (concat fss)))"
  shows "\<exists>k r'. k \<le> length ds \<and> read_many F addr (Suc (length ds)) r = Some (take k ds, True, r') \<and> reports r' = reports r
    \<and> (\<forall>j\<le>length ds. length (bytes_of off (concat (take j fss))) \<le> n \<longleftrightarrow> j \<le> k)"
  using assms
proof (induction ds fss arbitrary: off r n rule: list_all2_induct)
  case Nil
  then show ?case using loop_end [of r off addr "[]" 0] by (auto simp: ReadRecord_loop_eq)
next
  case (Cons d ds fs fss)
  let ?A = "bytes_of off fs" and ?o = "end_of off fs"
  have fits: "fits off fs" "fits ?o (concat fss)" using Cons.prems(1) by (simp_all add: fits_append)
  show ?case
  proof (cases "n < length ?A")
    case True
    then have "rd_at r off (take n ?A)" using Cons.prems(2) by (simp add: bytes_of_append)
    from loop_cut [OF fits(1) this True Cons.hyps(1), of "[]" False addr "[]" 0]
    obtain r' where r': "ReadRecord F addr r = Some (None, r')" "reports r' = reports r"
      using ReadRecord_loop_eq [OF Cons.prems(2)] by auto
    have "length (bytes_of off (concat (take j (fs # fss)))) \<le> n \<longleftrightarrow> j \<le> 0" for j using True by (cases j) (simp_all add: bytes_of_append)
    with r' show ?thesis by (intro exI [of _ 0] exI [of _ r']) simp
  next
    case False
    then have "rd_at r off (?A @ take (n - length ?A) (bytes_of ?o (concat fss)))" using Cons.prems(2) by (simp add: bytes_of_append)
    from loop_whole [OF Cons.hyps(1) fits(1) this, of "[]" False addr "[]" 0]
    obtain r1 where r1: "ReadRecord F addr r = Some (Some d, r1)" "rd_at r1 ?o (take (n - length ?A) (bytes_of ?o (concat fss)))" "reports r1 = reports r"
      using ReadRecord_loop_eq [OF Cons.prems(2)] by auto
    from Cons.IH [OF fits(2) r1(2)] obtain k r' where k: "k \<le> length ds" "read_many F addr (Suc (length ds)) r1 = Some (take k ds, True, r')" "reports r' = reports r1"
      "\<And>j. j \<le> length ds \<Longrightarrow> length (bytes_of ?o (concat (take j fss))) \<le> n - length ?A \<longleftrightarrow> j \<le> k" by blast
    have "length (bytes_of off (concat (take j (fs # fss)))) \<le> n \<longleftrightarrow> j \<le> Suc k" if "j \<le> length (d # ds)" for j
    proof (cases j)
      case (Suc i)
      then have "length (bytes_of off (concat (take j (fs # fss)))) = length ?A + length (bytes_of ?o (concat (take i fss)))" by (simp add: bytes_of_append)
      then show ?thesis using k(4) [of i] that Suc False by auto
    qed simp
    moreover have "read_many F addr (Suc (length (d # ds))) r = Some (d # take k ds, True, r')"
      by (subst read_many.simps) (simp only: list.size r1(1) Option.bind.bind_lunit prod.case option.case add_0_right add_Suc_right k(2))
    ultimately show ?thesis using k r1(3) by (intro exI [of _ "Suc k"] exI [of _ r']) auto
  qed
qed

text \<open>A record of any contents is an end, or leaves less to be read.\<close>

definition left :: "'r Reader \<Rightarrow> nat \<Rightarrow> bool" where
  "left r n \<longleftrightarrow> (\<exists>c. remains (rfile r) c \<and> n = length (buffer r) + length c)"

lemma parse_progress:
  assumes "left r n" "\<not> length (buffer r) < 7"
  shows "\<exists>ty fr r' m. parse_record addr fragment r = Some (ty, fr, r') \<and> left r' m \<and> m < n"
proof -
  obtain c where c: "remains (rfile r) c" "n = length (buffer r) + length c" using assms(1) by (auto simp: left_def)
  obtain ty fr r' where r': "parse_record addr fragment r = Some (ty, fr, r')" "rfile r' = rfile r" "length (buffer r') < length (buffer r)"
    using parse_shrinks [OF assms(2)] by blast
  with c have "left r' (length (buffer r') + length c)" by (auto simp: left_def)
  with r' c(2) show ?thesis by (intro exI conjI) auto
qed

lemma Read_progress:
  assumes "left r n"
  shows "\<exists>ty fr r' m. ReadPhysicalRecord F addr fragment r = Some (ty, fr, r') \<and> left r' m \<and> m \<le> n \<and> (ty = kEof \<or> m < n)"
proof (cases "length (buffer r) < 7 \<and> \<not> eof r")
  case True
  obtain c where c: "remains (rfile r) c" "n = length (buffer r) + length c" using assms by (auto simp: left_def)
  obtain f where f: "sRead F 32768 (rfile r) = Some (OK, take 32768 c, f)" "remains f (drop 32768 c)" using read [OF c(1)] by blast
  let ?r = "r\<lparr>rfile := f, buffer := take 32768 c, end_of_buffer_offset := end_of_buffer_offset r + of_nat (length (take 32768 c)), eof := length c < 32768\<rparr>"
  have fill: "fill_buffer F r = Some (True, ?r)" using f(1) True by (auto simp: fill_buffer_def kBlockSize_def ok_def Let_def)
  have left: "left ?r (length c)" unfolding left_def using f(2) by (intro exI [of _ "drop 32768 c"]) auto
  show ?thesis
  proof (cases "length c < 7")
    case short: True
    then have "ReadPhysicalRecord F addr fragment ?r = Some (kEof, fragment, ?r\<lparr>buffer := []\<rparr>)"
      by (simp add: ReadPhysicalRecord.simps kHeaderSize_def)
    moreover have "left (?r\<lparr>buffer := []\<rparr>) 0" unfolding left_def using f(2) short by (intro exI [of _ "drop 32768 c"]) auto
    ultimately show ?thesis using True fill by (subst ReadPhysicalRecord.simps) (auto simp: kHeaderSize_def)
  next
    case False
    then have "\<not> length (buffer ?r) < 7" by simp
    from parse_progress [OF left this, of addr fragment] show ?thesis
      using True fill False c(2) ReadPhysicalRecord.simps [of F addr fragment ?r]
      by (subst ReadPhysicalRecord.simps) (fastforce simp: kHeaderSize_def)
  qed
next
  case False
  show ?thesis
  proof (cases "length (buffer r) < 7")
    case True
    moreover have "left (r\<lparr>buffer := []\<rparr>) (n - length (buffer r))" using assms by (auto simp: left_def)
    ultimately show ?thesis using False by (subst ReadPhysicalRecord.simps) (auto simp: kHeaderSize_def)
  next
    case full: False
    from parse_progress [OF assms this, of addr fragment] full show ?thesis
      by (subst ReadPhysicalRecord.simps) (fastforce simp: kHeaderSize_def)
  qed
qed

lemma handle_keeps:
  "handle_record ty fr scratch infrag pro r = Inr (s', i', p', r') \<Longrightarrow> rfile r' = rfile r \<and> buffer r' = buffer r \<and> ty \<noteq> kEof"
  "handle_record ty fr scratch infrag pro r = Inl (x, r') \<Longrightarrow> rfile r' = rfile r \<and> buffer r' = buffer r \<and> (ty = kEof \<longrightarrow> x = None)"
  by (auto simp: handle_record_def Let_def ReportCorruption_def kEof_def kMaxRecordType_def split: if_splits)

lemma loop_returns:
  "left r n \<Longrightarrow> \<exists>x r' m. ReadRecord_loop F addr fragment scratch infrag pro r = Some (x, r') \<and> left r' m \<and> m \<le> n \<and> (x \<noteq> None \<longrightarrow> m < n)"
proof (induction n arbitrary: r fragment scratch infrag pro rule: less_induct)
  case (less n)
  obtain ty fr r1 m where r1: "ReadPhysicalRecord F addr fragment r = Some (ty, fr, r1)" "left r1 m" "m \<le> n" "ty = kEof \<or> m < n"
    using Read_progress [OF less.prems] by blast
  show ?case
  proof (cases "handle_record ty fr scratch infrag pro r1")
    case (Inl y)
    obtain x r2 where y: "y = (x, r2)" by fastforce
    from handle_keeps(2) [OF Inl [unfolded y]] r1 have "left r2 m" "x \<noteq> None \<longrightarrow> m < n" by (auto simp: left_def)
    with r1 Inl y show ?thesis by (subst ReadRecord_loop.simps) auto
  next
    case (Inr y)
    obtain s' i' p' r2 where y: "y = (s', i', p', r2)" by (cases y) auto
    from handle_keeps(1) [OF Inr [unfolded y]] r1 have "left r2 m" "m < n" by (auto simp: left_def)
    from less.IH [OF this(2,1), of fr s' i' p'] this(2) r1 Inr y show ?thesis
      by (subst ReadRecord_loop.simps) fastforce
  qed
qed

lemma ReadRecord_returns:
  assumes "left r n"
  shows "\<exists>x r' m. ReadRecord F addr r = Some (x, r') \<and> left r' m \<and> m \<le> n \<and> (x \<noteq> None \<longrightarrow> m < n)"
proof -
  have "\<exists>go r1 m. (if last_record_offset r < initial_offset r then SkipToInitialBlock F r else Some (True, r)) = Some (go, r1) \<and> left r1 m \<and> m \<le> n"
  proof (cases "last_record_offset r < initial_offset r")
    case True
    obtain c where c: "remains (rfile r) c" "n = length (buffer r) + length c" using assms by (auto simp: left_def)
    define off where "off = initial_offset r mod word_of_int kBlockSize"
    define b where "b = (if off > word_of_int kBlockSize - 6 then initial_offset r - off + word_of_int kBlockSize else initial_offset r - off)"
    obtain f where f: "sSkip F (unat b) (rfile r) = Some (OK, f)" "remains f (drop (unat b) c)" using skip [OF c(1)] by blast
    let ?r = "r\<lparr>end_of_buffer_offset := b\<rparr>"
    have "SkipToInitialBlock F r = Some (True, if b > 0 then ?r\<lparr>rfile := f\<rparr> else ?r)"
      unfolding SkipToInitialBlock_def Let_def off_def [symmetric] b_def [symmetric] using f(1) by (simp add: ok_def)
    moreover have "left ?r n" "left (?r\<lparr>rfile := f\<rparr>) (length (buffer r) + length (drop (unat b) c))"
      using assms f(2) by (auto simp: left_def)
    ultimately show ?thesis using True c(2) by (cases "b > 0") (force, force)
  qed (use assms in auto)
  then obtain go r1 m where "(if last_record_offset r < initial_offset r then SkipToInitialBlock F r else Some (True, r)) = Some (go, r1)" "left r1 m" "m \<le> n"
    by blast
  then show ?thesis
    using loop_returns [of r1 m addr "[]" "[]" False 0] by (cases go) (fastforce simp: ReadRecord_def)+
qed

lemma read_many_left:
  "left r n \<Longrightarrow> read_many F addr m r = Some (ds, ended, r') \<Longrightarrow> \<exists>n'. left r' n'"
proof (induction m arbitrary: r n ds)
  case (Suc m)
  obtain x r1 n1 where "ReadRecord F addr r = Some (x, r1)" "left r1 n1" using ReadRecord_returns [OF Suc.prems(1)] by blast
  then show ?case using Suc.IH [of r1 n1] Suc.prems(2) by (cases x) (auto simp: bind_eq_Some_conv)
qed auto

end

section \<open>Theorems\<close>

lemma newWriter_at_start: "\<exists>w. newWriter addr newFileState = Some w \<and> mem_w.wr_at w 0 []"
  by (simp add: newWriter_def InitTypeCrc_eq mem_w.wr_at_def file_has_new)

lemma newReader_at_start: "file_has f c \<Longrightarrow> mem_r.rd_at (newReader (newSequentialFileImpl f) rep check 0) 0 c"
  using file_remains_new [of f c] by (auto simp: mem_r.rd_at_def newReader_def)

text \<open>
  C36: Recovery of a log. Any records added to a new log are written without a failed assertion, and a
  reader of the first \<open>n\<close> bytes of the file, as a crash may leave them, returns exactly the records that
  are completely among these bytes, in their order, then reports the end of the file; it never reports a
  corruption, with and without checksums.
\<close>

theorem log_recovery:
  "\<exists>w w' c f k r. newWriter addr newFileState = Some w \<and> add_all mem_writable addr ds w = Some (OK, w') \<and> file_has (dest w') c
    \<and> append_all [take n c] newFileState = Some f \<and> k \<le> length ds
    \<and> read_many mem_sequential addr (Suc (length ds)) (newReader (newSequentialFileImpl f) rep check 0) = Some (take k ds, True, r) \<and> reports r = []
    \<and> (\<forall>j\<le>length ds. \<exists>wj. add_all mem_writable addr (take j ds) w = Some (OK, wj) \<and> (Size (dest wj) \<le> n \<longleftrightarrow> j \<le> k))"
proof -
  obtain w where w: "newWriter addr newFileState = Some w" "mem_w.wr_at w 0 []" using newWriter_at_start by blast
  obtain w' fss where w': "add_all mem_writable addr ds w = Some (OK, w')" "list_all2 (frags True) ds fss" "fits 0 (concat fss)"
    "mem_w.wr_at w' (end_of 0 (concat fss)) ([] @ bytes_of 0 (concat fss))"
    and j: "\<forall>j. \<exists>wj. add_all mem_writable addr (take j ds) w = Some (OK, wj) \<and> mem_w.wr_at wj (end_of 0 (concat (take j fss))) ([] @ bytes_of 0 (concat (take j fss)))"
    using mem_w.add_all_spec [OF w(2), of addr ds] by blast
  have has: "mem_w.wr_at v off ([] @ c) \<Longrightarrow> file_has (dest v) c" for v off c by (simp add: mem_w.wr_at_def)
  obtain f where f: "append_all [take n (bytes_of 0 (concat fss))] newFileState = Some f" "file_has f (take n (bytes_of 0 (concat fss)))"
    using append_all_has [OF file_has_new(1), of "[take n (bytes_of 0 (concat fss))]"] by (auto simp del: append_all.simps)
  let ?r = "newReader (newSequentialFileImpl f) rep check 0"
  obtain k r where k: "k \<le> length ds" "read_many mem_sequential addr (Suc (length ds)) ?r = Some (take k ds, True, r)" "reports r = reports ?r"
    "\<And>j. j \<le> length ds \<Longrightarrow> length (bytes_of 0 (concat (take j fss))) \<le> n \<longleftrightarrow> j \<le> k"
    using mem_r.read_many_spec [OF w'(2,3) newReader_at_start [OF f(2), of rep check], of addr] by blast
  have "\<exists>wj. add_all mem_writable addr (take j ds) w = Some (OK, wj) \<and> (Size (dest wj) \<le> n \<longleftrightarrow> j \<le> k)" if "j \<le> length ds" for j
    using j [rule_format, of j] k(4) [OF that] by (auto simp: mem_w.wr_at_def file_has_def Size_def)
  moreover have "reports r = []" using k(3) by (simp add: newReader_def)
  ultimately show ?thesis using w(1) w'(1) has [OF w'(4)] f(1) k(1,2) by blast
qed

theorem log_recovery_witness:
  "\<exists>w w' c f k r. newWriter 0 newFileState = Some w \<and> add_all mem_writable 0 [[1, 2], [], [3]] w = Some (OK, w') \<and> file_has (dest w') c
    \<and> append_all [take 20 c] newFileState = Some f
    \<and> read_many mem_sequential 0 4 (newReader (newSequentialFileImpl f) True True 0) = Some (take k [[1, 2], [], [3]], True, r) \<and> reports r = []"
proof -
  have "Suc (length [[1, 2], [], [3 :: u8]]) = 4" by simp
  with log_recovery [of 0 "[[1, 2], [], [3]]" 20 True True] show ?thesis by (simp only:) blast
qed

text \<open>
  C37: On any file, whatever its bytes, every call of \<open>ReadRecord\<close> returns, and each record it returns
  leaves less of the file to be read, so that reading a log always comes to its end.
\<close>

theorem ReadRecord_terminates:
  assumes "file_remains (rfile r) c"
  shows "\<exists>x r' c'. ReadRecord mem_sequential addr r = Some (x, r') \<and> file_remains (rfile r') c'
    \<and> length (buffer r') + length c' \<le> length (buffer r) + length c
    \<and> (x \<noteq> None \<longrightarrow> length (buffer r') + length c' < length (buffer r) + length c)"
  using mem_r.ReadRecord_returns [of r "length (buffer r) + length c" addr] assms by (fastforce simp: mem_r.left_def)

theorem ReadRecord_terminates_witness:
  "\<exists>fs x r'. append_all [[1, 2, 3, 4, 1, 0, 200, 9]] newFileState = Some fs
    \<and> ReadRecord mem_sequential 0 (newReader (newSequentialFileImpl fs) True False 0) = Some (x, r')"
proof -
  obtain fs where fs: "append_all [[1, 2, 3, 4, 1, 0, 200, 9]] newFileState = Some fs" "file_has fs [1, 2, 3, 4, 1, 0, 200, 9]"
    using append_all_has [OF file_has_new(1), of "[[1, 2, 3, 4, 1, 0, 200, 9]]"] by (auto simp del: append_all.simps)
  have "file_remains (rfile (newReader (newSequentialFileImpl fs) True False 0)) [1, 2, 3, 4, 1, 0, 200, 9]"
    using file_remains_new [OF fs(2)] by (simp add: newReader_def)
  from ReadRecord_terminates [OF this, of 0] fs(1) show ?thesis by blast
qed

end
