(* ===== verification/LDB_LogFile.thy ===== *)
theory LDB_LogFile
  imports LDB_Env LDB_Log
begin

text \<open>
  Logs in the file system in memory: the open files of \<open>InMemoryEnv\<close> meet the contracts \<open>writable_file\<close> and
  \<open>sequential_file\<close>, so that the writer and the reader of the log can be used on files by name.
\<close>

section \<open>Open files of the environment as interfaces\<close>

text \<open>An open file is its pointer, or its pointer and position, together with the environment.\<close>

definition seq_Skip :: "nat \<Rightarrow> nat \<times> nat \<Rightarrow> InMemoryEnv \<Rightarrow> (Status \<times> (nat \<times> nat)) option" where
  "seq_Skip n h E = do {
     (r, fs) \<leftarrow> files E (fst h);
     (s, f) \<leftarrow> SequentialFileImpl_Skip n \<lparr>sf_file = fs, sf_pos = snd h\<rparr>;
     Some (s, (fst h, sf_pos f)) }"

definition env_writable :: "nat \<Rightarrow> InMemoryEnv WritableFile" where
  "env_writable a = \<lparr>wAppend = wr_Append a, wFlush = with_file a WritableFileImpl_Flush\<rparr>"

definition env_sequential :: "((nat \<times> nat) \<times> InMemoryEnv) SequentialFile" where
  "env_sequential = \<lparr>sRead = (\<lambda>n (h, E). do { (s, d, h) \<leftarrow> seq_Read n h E; Some (s, d, (h, E)) }),
     sSkip = (\<lambda>n (h, E). do { (s, h) \<leftarrow> seq_Skip n h E; Some (s, (h, E)) })\<rparr>"

text \<open>
  The file at \<open>a\<close> has the name \<open>f\<close> and the contents \<open>c\<close>, the other files are those of \<open>D\<close>; the rest of the
  file at \<open>a\<close> is \<open>c\<close>, and the environment is \<open>E\<^sub>0\<close>.
\<close>

definition env_contains :: "string \<Rightarrow> nat \<Rightarrow> nat multiset \<Rightarrow> (string \<rightharpoonup> bytes) \<Rightarrow> InMemoryEnv \<Rightarrow> bytes \<Rightarrow> bool" where
  "env_contains f a hs D E c \<longleftrightarrow> env_ok E hs \<and> map_of (file_map E) f = Some a \<and> dir_of E = D(f \<mapsto> c)"

definition env_remains :: "nat \<Rightarrow> InMemoryEnv \<Rightarrow> (nat \<times> nat) \<times> InMemoryEnv \<Rightarrow> bytes \<Rightarrow> bool" where
  "env_remains a E0 h c \<longleftrightarrow> fst (fst h) = a \<and> snd h = E0
     \<and> (\<exists>fs. file_at E0 a = Some fs \<and> file_remains \<lparr>sf_file = fs, sf_pos = snd (fst h)\<rparr> c)"

interpretation env_w: writable_file "env_writable a" "env_contains f a hs D" for f a hs D
proof
  fix E c d
  assume "env_contains f a hs D E c"
  then have ok: "env_ok E hs" and f: "map_of (file_map E) f = Some a" and D: "dir_of E = D(f \<mapsto> c)" by (simp_all add: env_contains_def)
  obtain E1 where "wr_Append a d E = Some (OK, E1)" "env_ok E1 hs" "file_map E1 = file_map E" "dir_of E1 = (dir_of E)(f \<mapsto> the (dir_of E f) @ d)"
    by (rule wr_Append_spec [OF ok f])
  then show "\<exists>E'. wAppend (env_writable a) d E = Some (OK, E') \<and> env_contains f a hs D E' (c @ d)"
    using f D by (simp add: env_writable_def env_contains_def)
  obtain E2 where "with_file a WritableFileImpl_Flush E = Some (OK, E2)" "env_ok E2 hs" "file_map E2 = file_map E"
    "dir_of E2 = (dir_of E)(f \<mapsto> (\<lambda>c. c) (the (dir_of E f)))"
    by (rule with_file_spec [OF ok f, of WritableFileImpl_Flush OK "\<lambda>c. c"]) (auto simp: WritableFileImpl_Flush_def)
  then show "\<exists>E'. wFlush (env_writable a) E = Some (OK, E') \<and> env_contains f a hs D E' c"
    using f D by (simp add: env_writable_def env_contains_def)
qed

lemma file_at_files: "file_at E a = Some fs \<Longrightarrow> \<exists>r. files E a = Some (r, fs)"
  by (auto simp: file_at_def)

interpretation env_r: sequential_file env_sequential "env_remains a E0" for a E0
proof
  fix h c n
  assume "env_remains a E0 h c"
  then obtain pos fs where h: "h = ((a, pos), E0)" and fs: "file_at E0 a = Some fs" and rem: "file_remains \<lparr>sf_file = fs, sf_pos = pos\<rparr> c"
    by (cases h) (auto simp: env_remains_def)
  obtain r where r: "files E0 a = Some (r, fs)" using file_at_files [OF fs] by blast
  have keep: "sf_file x = fs \<Longrightarrow> file_remains x c' \<Longrightarrow> env_remains a E0 ((a, sf_pos x), E0) c'" for x c'
    using fs by (cases x) (simp add: env_remains_def)
  obtain x where x: "SequentialFileImpl_Read n \<lparr>sf_file = fs, sf_pos = pos\<rparr> = Some (OK, take n c, x)" "file_remains x (drop n c)"
    using mem_r.read [OF rem, of n] by (auto simp: mem_sequential_def)
  have "sf_file x = fs" using x(1) by (auto simp: SequentialFileImpl_Read_def bind_eq_Some_conv Let_def split: if_splits)
  then show "\<exists>h'. sRead env_sequential n h = Some (OK, take n c, h') \<and> env_remains a E0 h' (drop n c)"
    using x keep r h by (auto simp: env_sequential_def seq_Read_def)
  obtain y where y: "SequentialFileImpl_Skip n \<lparr>sf_file = fs, sf_pos = pos\<rparr> = Some (OK, y)" "file_remains y (drop n c)"
    using mem_r.skip [OF rem, of n] by (auto simp: mem_sequential_def)
  have "sf_file y = fs" using y(1) by (auto simp: SequentialFileImpl_Skip_def Let_def split: if_splits)
  then show "\<exists>h'. sSkip env_sequential n h = Some (OK, h') \<and> env_remains a E0 h' (drop n c)"
    using y keep r h by (auto simp: env_sequential_def seq_Skip_def)
qed

section \<open>A log in the environment\<close>

text \<open>Writing and closing a log under a name.\<close>

lemma log_written:
  assumes ok: "env_ok E hs"
  obtains a E1 w w' E2 fss where "NewWritableFile f E = Some (OK, a, E1)" "newWriter addr E1 = Some w"
    "add_all (env_writable a) addr ds w = Some (OK, w')" "FileState_Unref a (dest w') = Some E2" "env_ok E2 hs"
    "list_all2 (frags True) ds fss" "fits 0 (concat fss)" "dir_of E2 = (dir_of E)(f \<mapsto> bytes_of 0 (concat fss))"
proof -
  obtain a E1 where E1: "NewWritableFile f E = Some (OK, a, E1)" "env_ok E1 (add_mset a hs)" "map_of (file_map E1) f = Some a"
    "dir_of E1 = (dir_of E)(f \<mapsto> [])" by (rule NewWritableFile_spec [OF ok])
  let ?w = "\<lparr>dest = E1, block_offset = 0, type_crc = type_crcs\<rparr>"
  have w: "newWriter addr E1 = Some ?w" by (simp add: newWriter_def InitTypeCrc_eq)
  have "env_w.wr_at f a (add_mset a hs) (dir_of E) ?w 0 []" using E1 by (simp add: env_w.wr_at_def env_contains_def)
  from env_w.add_all_spec [OF this, of addr ds] obtain w' fss where w': "add_all (env_writable a) addr ds ?w = Some (OK, w')"
    "list_all2 (frags True) ds fss" "fits 0 (concat fss)"
    "env_w.wr_at f a (add_mset a hs) (dir_of E) w' (end_of 0 (concat fss)) (bytes_of 0 (concat fss))" by auto
  then have c: "env_ok (dest w') (add_mset a hs)" "dir_of (dest w') = (dir_of E)(f \<mapsto> bytes_of 0 (concat fss))"
    by (simp_all add: env_w.wr_at_def env_contains_def)
  obtain E2 where "FileState_Unref a (dest w') = Some E2" "env_ok E2 hs" "dir_of E2 = dir_of (dest w')" by (rule Unref_spec [OF c(1)])
  then show thesis using that [OF E1(1) w w'(1)] w'(2,3) c(2) by simp
qed

text \<open>Reading a log that is open.\<close>

lemma log_read:
  assumes frags: "list_all2 (frags True) ds fss" "fits 0 (concat fss)" and fs: "file_at E a = Some fs" "file_has fs (bytes_of 0 (concat fss))"
  obtains pos r where "read_many env_sequential addr (Suc (length ds)) (newReader ((a, 0), E) rep check 0) = Some (ds, True, r)"
    "reports r = []" "rfile r = ((a, pos), E)"
proof -
  let ?c = "bytes_of 0 (concat fss)" and ?r = "newReader ((a, 0 :: nat), E) rep check 0"
  have rem: "env_remains a E (rfile ?r) ?c"
    using fs file_remains_new [OF fs(2)] by (simp add: env_remains_def newReader_def newSequentialFileImpl_def)
  then have "env_r.rd_at a E ?r 0 (take (length ?c) ?c)" by (auto simp: env_r.rd_at_def newReader_def)
  from env_r.read_many_spec [OF frags this, of addr] obtain k r where k: "k \<le> length ds"
    "read_many env_sequential addr (Suc (length ds)) ?r = Some (take k ds, True, r)" "reports r = reports ?r"
    "\<forall>j\<le>length ds. length (bytes_of 0 (concat (take j fss))) \<le> length ?c \<longleftrightarrow> j \<le> k" by blast
  have "length fss = length ds" using frags(1) by (simp add: list_all2_lengthD)
  then have "length ds \<le> k" using k(4) [rule_format, of "length ds"] by simp
  then have all: "take k ds = ds" by simp
  have "env_r.left a E ?r (length (buffer ?r) + length ?c)" using rem by (auto simp: env_r.left_def)
  from env_r.read_many_left [OF this k(2)] have "fst (fst (rfile r)) = a \<and> snd (rfile r) = E" by (auto simp: env_r.left_def env_remains_def)
  then show thesis using that [of r "snd (fst (rfile r))"] k(2,3) all by (simp add: newReader_def prod_eq_iff)
qed

text \<open>
  C39: A log in the environment. Records written to a file and closed are read back by name after the
  file was renamed, all of them and in their order, without a report of corruption, even if the name is
  deleted once the file is open for reading; when the reader is closed, the log is gone and every other
  file is as it was before.
\<close>

theorem log_file_roundtrip:
  assumes "env_ok E hs" and "f \<noteq> g"
  shows "\<exists>a E1 w w' E2 E3 b E4 E5 pos r E6. NewWritableFile f E = Some (OK, a, E1) \<and> newWriter addr E1 = Some w
    \<and> add_all (env_writable a) addr ds w = Some (OK, w') \<and> FileState_Unref a (dest w') = Some E2
    \<and> RenameFile f g E2 = Some (OK, E3) \<and> NewSequentialFile g E3 = Some (OK, Some (b, 0), E4) \<and> DeleteFile g E4 = Some (OK, E5)
    \<and> read_many env_sequential addr (Suc (length ds)) (newReader ((b, 0), E5) rep check 0) = Some (ds, True, r)
    \<and> reports r = [] \<and> rfile r = ((b, pos), E5) \<and> FileState_Unref b E5 = Some E6
    \<and> env_ok E6 hs \<and> dir_of E6 = (dir_of E)(f := None, g := None)"
proof -
  obtain a E1 w w' E2 fss where W: "NewWritableFile f E = Some (OK, a, E1)" "newWriter addr E1 = Some w"
    "add_all (env_writable a) addr ds w = Some (OK, w')" "FileState_Unref a (dest w') = Some E2" "env_ok E2 hs"
    "list_all2 (frags True) ds fss" "fits 0 (concat fss)" "dir_of E2 = (dir_of E)(f \<mapsto> bytes_of 0 (concat fss))"
    by (rule log_written [OF assms(1)]) blast
  let ?c = "bytes_of 0 (concat fss)"
  obtain e where e: "map_of (file_map E2) f = Some e" using dir_of_None [OF W(5), of f] W(8) by auto
  obtain E3 where E3: "RenameFile f g E2 = Some (OK, E3)" "env_ok E3 hs" "dir_of E3 = (dir_of E2)(g := dir_of E2 f, f := None)"
    by (rule RenameFile_spec [OF W(5) e assms(2)])
  have g: "dir_of E3 g = Some ?c" using E3(3) W(8) assms(2) by simp
  obtain b E4 fs where E4: "NewSequentialFile g E3 = Some (OK, Some (b, 0), E4)" "env_ok E4 (add_mset b hs)" "dir_of E4 = dir_of E3"
    "file_at E4 b = Some fs" "file_has fs ?c" by (rule file_opened [OF E3(2) g])
  obtain E5 where E5: "DeleteFile g E4 = Some (OK, E5)" "env_ok E5 (add_mset b hs)" "dir_of E5 = (dir_of E4)(g := None)"
    "\<And>x. x \<in># add_mset b hs \<Longrightarrow> file_at E5 x = file_at E4 x"
    by (rule deleted_while_open [OF E4(2)]) (use g E4(3) in auto)
  have fs: "file_at E5 b = Some fs" using E5(4) [of b] E4(4) by simp
  obtain pos r where r: "read_many env_sequential addr (Suc (length ds)) (newReader ((b, 0), E5) rep check 0) = Some (ds, True, r)"
    "reports r = []" "rfile r = ((b, pos), E5)" by (rule log_read [OF W(6,7) fs E4(5)])
  obtain E6 where E6: "FileState_Unref b E5 = Some E6" "env_ok E6 hs" "dir_of E6 = dir_of E5" by (rule Unref_spec [OF E5(2)])
  have "dir_of E6 = (dir_of E)(f := None, g := None)" using E6(3) E5(3) E4(3) E3(3) W(8) by (auto simp: fun_eq_iff)
  then show ?thesis using W(1-4) E3(1) E4(1) E5(1) r E6(1,2) by blast
qed

theorem log_file_roundtrip_witness:
  "\<exists>a E1 w w' E2 E3 b E4 r. NewWritableFile ''tmp'' newInMemoryEnv = Some (OK, a, E1) \<and> newWriter 0 E1 = Some w
    \<and> add_all (env_writable a) 0 [[1, 2], [], [3]] w = Some (OK, w') \<and> FileState_Unref a (dest w') = Some E2
    \<and> RenameFile ''tmp'' ''log'' E2 = Some (OK, E3) \<and> NewSequentialFile ''log'' E3 = Some (OK, Some (b, 0), E4)
    \<and> (\<exists>E5. DeleteFile ''log'' E4 = Some (OK, E5)
      \<and> read_many env_sequential 0 4 (newReader ((b, 0), E5) True True 0) = Some ([[1, 2], [], [3]], True, r))"
proof -
  have ne: "''tmp'' \<noteq> ''log''" by simp
  have "Suc (length [[1, 2], [], [3 :: u8]]) = 4" by simp
  with log_file_roundtrip [OF env_ok_new(1) ne, of 0 "[[1, 2], [], [3]]" True True] show ?thesis by (simp only:) blast
qed

end
