(* ===== verification/Spec2Isabelle.thy ===== *)
theory Spec2Isabelle
  imports Tree_Crash Tree_Remove Tree_Delete Layout LDB_VersionEdit LDB_LogFile
begin

text \<open>
  A verification of the FPTree key-value store (\<open>src/Programming-FPTree\<close>): a B+-tree whose inner
  nodes live in DRAM and whose leaves live in non-volatile memory, and of the file formats of the
  leveldb it carries as the baseline of its benchmark (\<open>leveldb/\<close>).

  \<^bold>\<open>The program and its parts.\<close> A client calls \<open>FPTree\<close> (\<open>src/fptree.cpp\<close>). Its \<open>InnerNode\<close>s route a
  key by binary search to a \<open>LeafNode\<close>, which searches its unsorted slots by one-byte fingerprints
  (\<open>keyHash\<close> of \<open>src/utility.cpp\<close>, over \<open>src/clhash.c\<close>). A leaf is a window on a mapped leaf group
  file. \<open>PAllocator\<close> (\<open>src/p_allocator.cpp\<close>) hands leaves out and takes them back, and keeps its
  catalog and free list in two files of their own. After a restart the tree is rebuilt from the
  chain of leaves (\<open>bulkLoading\<close>).

  \<^bold>\<open>The conventions.\<close> A function of the program is a function of the option monad: \<open>None\<close> where the
  C++ run has no defined result (an access out of bounds, a read of a member that was never
  written, a failed assertion, an exit, a recursion that does not end). The members of arrays that
  may be uninitialised are \<open>'a option\<close>. The integers of clhash and leveldb are words of their width;
  those of the tree are \<open>int\<close>, with the reductions to the width written where the code depends on
  them, and \<open>None\<close> where the sizes of the arrays of a node (\<open>newInnerNode\<close>) or the sum of the binary search
  (\<open>findIndex\<close>) leave the range of a C++ int. The degrees of a well-formed tree are 1 to \<open>2 ^ 29 - 2\<close>, for
  which neither happens. A \<open>for\<close> loop is \<open>for_up\<close>, \<open>for_down\<close> or \<open>find_up\<close> of the prelude. The virtual functions that
  recurse through node pointers are \<open>partial_function (option)\<close>, so that a pointer cycle is \<open>None\<close>;
  there is no fuel, and what is proved of them is that they return. Loops of which the number of
  rounds is bounded by data recurse on that data, with a termination measure where the recursion is
  not structural. libpmem and the file system are the record \<open>env\<close>, an argument of the definitions
  that call them; \<open>libpmem_ok\<close> states what the manual of libpmem promises of mapping and persisting
  a file, and \<open>ideal_env\<close> is an instance.

  \<^bold>\<open>The theories of the tree.\<close>
  \<^item> \<open>FPT_Prelude\<close>: loops with their invariant rules, C arrays with holes, lemmas on options and lists.
  \<^item> \<open>Clhash\<close> (\<open>src/clhash.c\<close>, \<open>include/utility/clhash.h\<close>): the intrinsics on 128-bit words, the two
    reductions, the block and tail loops, the key generator. The table-driven reduction is the
    remainder of polynomials over GF(2), the lazy reduction is a congruence, no read leaves the
    string or the key, the generator returns.
  \<^item> \<open>Utility\<close> (\<open>include/utility/utility.h\<close>, \<open>src/utility.cpp\<close>): the constants, \<open>PPointer\<close>, the
    fingerprint, \<open>countOneBits\<close>.
  \<^item> \<open>PMem\<close>: the mapped files in volatile and in durable memory, leaf groups and their files.
  \<^item> \<open>PAllocator\<close> and \<open>Leaf_Pool\<close> (\<open>include/utility/p_allocator.h\<close>, \<open>src/p_allocator.cpp\<close>): every
    member function, the invariant \<open>palloc_inv\<close>, the functional behaviour of \<open>getLeaf\<close> and \<open>freeLeaf\<close>, the
    round trip through the files. The locale \<open>leaf_pool\<close> is the contract the tree relies on; the
    allocator is its interpretation: every script of allocations and releases the storage has room for
    returns, and refines an abstract set of leaves.
  \<^item> \<open>Nodes\<close> (\<open>include/fptree/fptree.h\<close>): the classes of nodes, and \<open>world\<close>: the heap of nodes, the
    allocator and the memory.
  \<^item> \<open>LeafNode\<close> and \<open>Leaf_World\<close> (\<open>LeafNode::\<close> of \<open>src/fptree.cpp\<close>): all member functions.
    \<open>leaf_view\<close> is the abstraction of a leaf to its entries. Search, update, insertion and split are
    shown to act on the entries and to be durable.
  \<^item> \<open>InnerNode\<close> and \<open>Inner_Remove\<close> (\<open>InnerNode::\<close>): the binary search, insertion of a child, the
    split, and the redistributions, merges and \<open>removeChild\<close> that a removal uses.
  \<^item> \<open>FPTree\<close>: the functions that recurse into the children (\<open>Node_find\<close>, \<open>Node_update\<close>, \<open>Node_insert\<close>,
    \<open>Node_remove\<close>) and the class \<open>FPTree\<close> with \<open>bulkLoading\<close>.
  \<^item> \<open>Leaf_Links\<close>: doubly linked lists, as the \<open>prev\<close> and \<open>next\<close> pointers of the leaves form them.
  \<^item> \<open>Tree_Shape\<close>, \<open>Tree_Insert\<close>, \<open>Tree_Root\<close>: the tree the nodes form (\<open>gtree\<close>, \<open>tree_ok\<close>), its keys
    within their bounds at one depth, and the preservation of all that by insertion.
  \<^item> \<open>Tree_Map\<close>: the locale \<open>kv_store\<close> of a store of keys and values, its interpretation on the tree, and
    the refinement of a map by \<open>find\<close>, \<open>update\<close> and \<open>insert\<close>.
  \<^item> \<open>Leaf_Remove\<close>, \<open>Tree_Rebalance\<close> and \<open>Tree_Remove\<close> (\<open>LeafNode::remove\<close>, \<open>InnerNode::remove\<close>,
    \<open>FPTree::remove\<close>): a removal clears the slot of the entry, unlinks and frees a leaf that got empty, and
    rebalances the nodes above it; by induction on the height the tree stays well-formed and loses exactly
    that entry, and \<open>leaf_removed\<close> says what becomes of its leaf. The locale \<open>kv_store_remove\<close> extends \<open>kv_store\<close> by the removal.
  \<^item> \<open>Bulk_Insert\<close> and \<open>Bulk_Load\<close> (\<open>InnerNode::insertLeaf\<close>, \<open>FPTree::bulkLoading\<close>, the second constructor
    of \<open>LeafNode\<close>): a tree built from a chain of leaves in persistent memory holds their entries.
  \<^item> \<open>Leaf_Chain\<close> and \<open>Chain_Steps\<close>: the invariant \<open>stored\<close>, by which the leaves of the tree, linked in
    persistent memory in the order of their keys, hold all its entries; insertion and update keep it,
    and the tree with it is a second interpretation of \<open>kv_store\<close>.
  \<^item> \<open>Tree_Restart\<close>: scripts of operations with restarts of the program between them (the destructor of
    the allocator, then the constructors of the allocator and the tree) refine scripts on a map.
  \<^item> \<open>Tree_Delete\<close> (\<open>FPTree::recursiveDelete\<close>): the destructor of the tree deletes exactly its nodes, and the
    next start finds all entries.
  \<^item> \<open>Tree_Crash\<close>: a power failure keeps what was flushed and nothing else is known of the leaves
    (\<open>crashed\<close>). An update on a tree whose catalog file is up to date survives it; what was inserted
    since the first start does not, because no insertion writes the catalog.
  \<^item> \<open>Layout\<close> (\<open>getPNext\<close> of \<open>src/utility.cpp\<close>): the bytes of a leaf group file.

  \<^bold>\<open>The theories of leveldb.\<close>
  \<^item> \<open>LDB_Coding\<close> (\<open>util/coding\<close>): fixed and variable-length integers, the locale \<open>codec\<close>.
  \<^item> \<open>LDB_Crc32c\<close> (\<open>util/crc32c\<close>): the four-stride checksum equals the bitwise CRC-32C.
  \<^item> \<open>LDB_Bloom\<close> (\<open>util/hash\<close>, \<open>util/bloom\<close>): the locale \<open>filter_policy\<close>; no false negatives.
  \<^item> \<open>LDB_Format\<close> (\<open>include/leveldb/slice.h\<close>, \<open>util/comparator\<close>, \<open>db/dbformat\<close>): internal keys and their
    order; the locale \<open>comparator\<close>, interpreted on both comparators.
  \<^item> \<open>LDB_Batch\<close> (\<open>db/write_batch\<close>) and \<open>LDB_VersionEdit\<close> (\<open>db/version_edit\<close>): round trips.
  \<^item> \<open>LDB_MemEnv\<close> (\<open>helpers/memenv\<close>): files in memory, as instances of the locales \<open>writable_file\<close> and
    \<open>sequential_file\<close>.
  \<^item> \<open>LDB_Log\<close> (\<open>db/log_writer\<close>, \<open>db/log_reader\<close>): over those locales, what is read from a log cut at any
    byte is the complete records of it; the reader returns on every file.
  \<^item> \<open>LDB_Env\<close> (class \<open>InMemoryEnv\<close> of \<open>helpers/memenv\<close>): the names of the files and their reference counts.
    The environment refines a map from names to contents (\<open>dir_of\<close>); the invariant \<open>env_ok\<close> counts the open
    files. \<open>LDB_LogFile\<close> interprets the locales of the log on the open files of the environment.

  \<^bold>\<open>Not modelled.\<close> \<open>DebugString\<close> and \<open>ToString\<close> only print. Stores to one leaf between two calls
  of \<open>persist\<close> are one step: a failure in between leaves the whole leaf unknown. The catalog and the free list
  file are written through streams that are never synced: \<open>crashed\<close> assumes that a power failure finds them on
  storage as they were written, and a catalog that is cut off has no representation. The
  theorems on removal leave out the removals that reach \<open>redistributeLeft\<close>, which has no defined result
  whenever \<open>remove\<close> calls it (\<open>redistributeLeft_undefined\<close>); \<open>left_safe\<close> and \<open>spare\<close> are two conditions under
  which none does. Restarts are not shown to keep the tree after a removal, because \<open>freeLeaf\<close> damages the
  file of the free list (\<open>freeLeaf_loses_free_list\<close>). The \<open>BITMIX\<close> variant of clhash is
  compiled out. The drivers (\<open>ycsb\<close>, \<open>lycsb\<close>, \<open>main\<close>, \<open>check\<close>) read workloads, time calls and print.
  gtest is vendored. Of leveldb the database (\<open>db_impl\<close>, \<open>version_set\<close>), the memtable and its skip
  list, the tables, the caches and the POSIX environment are not modelled, nor are the mutexes
  of \<open>memenv\<close>, whose functions run one at a time here.
\<close>

end
